(* ===== verification/Prelude.thy ===== *)
theory Prelude
  imports Main "HOL-Library.Word"
begin

unbundle bit_operations_syntax

text \<open>
  Shared vocabulary of the development: run-time faults and fallible results, C strings
  and the character classes of \<^verbatim>\<open><ctype.h>\<close> in the C locale, the string-to-number
  routines of the C library, and the generic lemmas the components use.

  A C string is a \<^typ>\<open>string\<close> that holds the characters before the terminating zero
  byte. A fixed size character array is a list of characters that includes its zero
  bytes; \<open>cstr_of\<close> reads the string it starts with.
\<close>

named_theorems ctype_defs "definitions of the character classes"

section \<open>Faults and fallible results\<close>

text \<open>
  What the C program does where the language gives it no meaning: following a null or a
  dangling pointer, leaving an array, reading an indeterminate value, or releasing a mutex that is
  not held.
\<close>

datatype fault =
    NullPointer
  | BadPointer
  | Overrun
  | Uninitialised
  | NotLocked

type_synonym 'a res = "fault + 'a"

type_synonym byte = "8 word"
type_synonym u16 = "16 word"
type_synonym u32 = "32 word"
type_synonym u64 = "64 word"

definition bind_res :: "'a res \<Rightarrow> ('a \<Rightarrow> 'b res) \<Rightarrow> 'b res" where
  "bind_res r k = (case r of Inl e \<Rightarrow> Inl e | Inr x \<Rightarrow> k x)"

lemma bind_res_simps [simp]:
  "bind_res (Inl e) k = Inl e"
  "bind_res (Inr x) k = k x"
  by (simp_all add: bind_res_def)

lemma bind_res_Inr: "bind_res r k = Inr y \<longleftrightarrow> (\<exists>x. r = Inr x \<and> k x = Inr y)"
  by (cases r) simp_all

section \<open>Characters\<close>

abbreviation code_of :: "char \<Rightarrow> nat" where
  "code_of c \<equiv> of_char c"

abbreviation NUL :: char where
  "NUL \<equiv> CHR 0x00"

definition NL :: char where "NL = CHR 0x0A"
definition TAB :: char where "TAB = CHR 0x09"

definition c_isspace :: "char \<Rightarrow> bool" where
  [ctype_defs]: "c_isspace c \<longleftrightarrow> code_of c = 32 \<or> (9 \<le> code_of c \<and> code_of c \<le> 13)"

definition c_isupper :: "char \<Rightarrow> bool" where
  [ctype_defs]: "c_isupper c \<longleftrightarrow> 65 \<le> code_of c \<and> code_of c \<le> 90"

definition c_islower :: "char \<Rightarrow> bool" where
  [ctype_defs]: "c_islower c \<longleftrightarrow> 97 \<le> code_of c \<and> code_of c \<le> 122"

definition c_isalpha :: "char \<Rightarrow> bool" where
  [ctype_defs]: "c_isalpha c \<longleftrightarrow> c_isupper c \<or> c_islower c"

definition c_isprint :: "char \<Rightarrow> bool" where
  [ctype_defs]: "c_isprint c \<longleftrightarrow> 32 \<le> code_of c \<and> code_of c \<le> 126"

definition c_tolower :: "char \<Rightarrow> char" where
  "c_tolower c = (if c_isupper c then char_of (code_of c + 32) else c)"

lemma code_of_tolower:
  "code_of (c_tolower c) = (if c_isupper c then code_of c + 32 else code_of c)"
  by (simp add: c_tolower_def c_isupper_def of_char_of)

lemma c_tolower_not_upper [simp]: "\<not> c_isupper (c_tolower c)"
  using code_of_tolower [of c] by (auto simp: c_isupper_def split: if_splits)

lemma c_tolower_idem [simp]: "c_tolower (c_tolower c) = c_tolower c"
  by (simp add: c_tolower_def [of "c_tolower c"])

lemma c_tolower_space [simp]: "c_isspace (c_tolower c) = c_isspace c"
  using code_of_tolower [of c] by (auto simp: ctype_defs split: if_splits)

lemma c_tolower_alpha [simp]: "c_isalpha (c_tolower c) = c_isalpha c"
  using code_of_tolower [of c] by (auto simp: ctype_defs split: if_splits)

lemma c_tolower_NUL [simp]: "c_tolower c = NUL \<longleftrightarrow> c = NUL"
proof -
  have "c_tolower c = NUL \<longleftrightarrow> code_of (c_tolower c) = code_of NUL"
    by (simp only: of_char_eq_iff)
  also have "\<dots> \<longleftrightarrow> code_of c = code_of NUL"
    by (auto simp: code_of_tolower c_isupper_def)
  finally show ?thesis by (simp only: of_char_eq_iff)
qed

section \<open>Strings and fixed size arrays\<close>

text \<open>The string a character array starts with.\<close>

definition cstr_of :: "char list \<Rightarrow> string" where
  "cstr_of a = takeWhile (\<lambda>c. c \<noteq> NUL) a"

text \<open>\<^verbatim>\<open>strncpy(dst, src, n)\<close>: exactly \<open>n\<close> bytes are written, padded with zeros.\<close>

definition c_strncpy :: "nat \<Rightarrow> char list \<Rightarrow> string \<Rightarrow> char list" where
  "c_strncpy n dst src =
     take n src @ replicate (n - length src) NUL @ drop n dst"

text \<open>
  \<^verbatim>\<open>strncmp(s, t, n) == 0\<close>, and \<^verbatim>\<open>memcmp(s, t, n) == 0\<close> where \<open>t\<close> is a literal and \<open>n\<close>
  is at most its length plus one: a shorter \<open>s\<close> differs at its terminating zero.
\<close>

definition mem_eq :: "nat \<Rightarrow> string \<Rightarrow> string \<Rightarrow> bool" where
  "mem_eq n s t \<longleftrightarrow> take n (s @ [NUL]) = take n (t @ [NUL])"

definition no_nul :: "string \<Rightarrow> bool" where
  "no_nul s \<longleftrightarrow> NUL \<notin> set s"

lemma no_nul_simps [simp]:
  "no_nul []"
  "no_nul (c # s) \<longleftrightarrow> c \<noteq> NUL \<and> no_nul s"
  "no_nul (s @ t) \<longleftrightarrow> no_nul s \<and> no_nul t"
  by (auto simp: no_nul_def)

lemma no_nul_take [intro]: "no_nul s \<Longrightarrow> no_nul (take n s)"
  using set_take_subset [of n s] by (auto simp: no_nul_def)

lemma no_nul_drop [intro]: "no_nul s \<Longrightarrow> no_nul (drop n s)"
  using set_drop_subset [of n s] by (auto simp: no_nul_def)

lemma cstr_of_append_NUL: "no_nul s \<Longrightarrow> cstr_of (s @ NUL # t) = s"
  by (induction s) (auto simp: cstr_of_def)

lemma cstr_of_strncpy:
  assumes "no_nul s" and "length s < n"
  shows "cstr_of (c_strncpy n dst s) = s"
proof -
  obtain m where "n - length s = Suc m"
    using assms(2) by (metis Suc_diff_Suc)
  with assms show ?thesis
    by (simp add: c_strncpy_def cstr_of_append_NUL)
qed

lemma length_strncpy: "n \<le> length dst \<Longrightarrow> length (c_strncpy n dst s) = length dst"
  by (simp add: c_strncpy_def)

lemma take_append_NUL:
  assumes "take n (s @ [NUL]) = t" and "no_nul t"
  shows "take n s = t"
proof (cases "n \<le> length s")
  case False
  with assms show ?thesis by (auto simp: no_nul_def)
qed (use assms in simp)

lemma mem_eq_prefix:
  assumes "n \<le> length t" and "no_nul t"
  shows "mem_eq n s t \<longleftrightarrow> take n s = take n t"
proof
  assume "mem_eq n s t"
  then have "take n (s @ [NUL]) = take n t" using assms(1) by (simp add: mem_eq_def)
  then show "take n s = take n t" by (rule take_append_NUL) (use assms(2) in blast)
next
  assume e: "take n s = take n t"
  then have "n \<le> length s" using arg_cong [OF e, of length] assms(1)
    unfolding length_take by linarith
  with e assms(1) show "mem_eq n s t" by (simp add: mem_eq_def)
qed

lemma mem_eq_whole:
  assumes "no_nul s" and "no_nul t"
  shows "mem_eq (Suc (length t)) s t \<longleftrightarrow> s = t"
proof
  assume "mem_eq (Suc (length t)) s t"
  then have e: "take (Suc (length t)) (s @ [NUL]) = t @ [NUL]" by (simp add: mem_eq_def)
  have "length s = length t"
  proof (rule linorder_cases [of "length s" "length t"])
    assume "length s < length t"
    then show ?thesis using arg_cong [OF e, of length] by simp
  next
    assume "length t < length s"
    then have "take (Suc (length t)) s = t @ [NUL]" using e by simp
    then have "NUL \<in> set (take (Suc (length t)) s)" by simp
    then have "NUL \<in> set s" by (rule in_set_takeD)
    with assms(1) show ?thesis by (simp add: no_nul_def)
  qed
  with e show "s = t" by simp
qed (simp add: mem_eq_def)

section \<open>Numbers in strings\<close>

text \<open>The value of a digit in bases up to 36, as \<^verbatim>\<open>strtol\<close> reads it.\<close>

definition digit_val :: "char \<Rightarrow> nat option" where
  "digit_val c =
     (if 48 \<le> code_of c \<and> code_of c \<le> 57 then Some (code_of c - 48)
      else if c_isupper c then Some (code_of c - 55)
      else if c_islower c then Some (code_of c - 87)
      else None)"

fun read_digits :: "nat \<Rightarrow> nat \<Rightarrow> string \<Rightarrow> nat" where
  "read_digits b acc [] = acc"
| "read_digits b acc (c # cs) =
     (case digit_val c of
        None \<Rightarrow> acc
      | Some d \<Rightarrow> if d < b then read_digits b (acc * b + d) cs else acc)"

definition saturate :: "nat \<Rightarrow> int \<Rightarrow> int" where
  "saturate w x = max (- (2 ^ (w - 1))) (min (2 ^ (w - 1) - 1) x)"

text \<open>
  \<^verbatim>\<open>strtol(s, NULL, base)\<close> for a \<^verbatim>\<open>long\<close> of \<open>w\<close> bits; base 0 reads the C prefixes
  \<^verbatim>\<open>0x\<close> and \<^verbatim>\<open>0\<close>.
\<close>

fun magnitude :: "nat \<Rightarrow> string \<Rightarrow> nat" where
  "magnitude base s =
     (if base = 0
      then (case s of
              c0 # c1 # c2 # _ \<Rightarrow>
                (if c0 = CHR ''0'' \<and> (c1 = CHR ''x'' \<or> c1 = CHR ''X'')
                    \<and> (case digit_val c2 of None \<Rightarrow> False | Some d \<Rightarrow> d < 16)
                 then read_digits 16 0 (drop 2 s)
                 else if c0 = CHR ''0'' then read_digits 8 0 s
                 else read_digits 10 0 s)
            | c0 # _ \<Rightarrow> if c0 = CHR ''0'' then read_digits 8 0 s else read_digits 10 0 s
            | [] \<Rightarrow> 0)
      else read_digits base 0 s)"

definition signed_value :: "nat \<Rightarrow> string \<Rightarrow> int" where
  "signed_value base s =
     (let t = dropWhile c_isspace s
      in case t of
           [] \<Rightarrow> 0
         | c # cs \<Rightarrow>
             if c = CHR ''-'' then - int (magnitude base cs)
             else if c = CHR ''+'' then int (magnitude base cs)
             else int (magnitude base t))"

definition c_strtol :: "nat \<Rightarrow> nat \<Rightarrow> string \<Rightarrow> int" where
  "c_strtol w base s = saturate w (signed_value base s)"

text \<open>\<^verbatim>\<open>atol\<close> is \<^verbatim>\<open>strtol\<close> in base ten; \<^verbatim>\<open>atoi\<close> keeps its low 32 bits as a signed number.\<close>

definition c_atol :: "string \<Rightarrow> int" where
  "c_atol s = c_strtol 64 10 s"

definition to_int32 :: "int \<Rightarrow> int" where
  "to_int32 x = (x + 2 ^ 31) mod 2 ^ 32 - 2 ^ 31"

definition c_atoi :: "string \<Rightarrow> int" where
  "c_atoi s = to_int32 (c_atol s)"

lemma saturate_bounds:
  "- (2 ^ (w - 1)) \<le> saturate w x" "saturate w x \<le> 2 ^ (w - 1) - 1"
proof -
  have p: "(0::int) < 2 ^ (w - 1)" by simp
  show "- (2 ^ (w - 1)) \<le> saturate w x" by (simp add: saturate_def)
  from p show "saturate w x \<le> 2 ^ (w - 1) - 1" by (simp add: saturate_def)
qed

lemma c_strtol_bounds:
  "- (2 ^ (w - 1)) \<le> c_strtol w b s" "c_strtol w b s \<le> 2 ^ (w - 1) - 1"
  by (simp_all only: c_strtol_def saturate_bounds)

lemma to_int32_bounds: "- (2 ^ 31) \<le> to_int32 x" "to_int32 x < 2 ^ 31"
  by (simp_all add: to_int32_def pos_mod_bound [of "2 ^ 32" "x + 2 ^ 31", simplified])

lemma to_int32_id: "- (2 ^ 31) \<le> x \<Longrightarrow> x < 2 ^ 31 \<Longrightarrow> to_int32 x = x"
  by (simp add: to_int32_def)

section \<open>Lists\<close>

lemma takeWhile_dropWhile_len: "length (takeWhile P xs) + length (dropWhile P xs) = length xs"
  by (metis length_append takeWhile_dropWhile_id)

lemma length_dropWhile_tl: "dropWhile P xs = y # ys \<Longrightarrow> length ys < length xs"
  by (metis Suc_le_lessD length_Cons length_dropWhile_le)

end
