(* ===== verification/EpgTime.thy ===== *)
theory EpgTime
  imports Complex_Main Prelude
begin

text \<open>
  The programme guide's times, from \<^verbatim>\<open>src/DVB/utils.c\<close>: a start time is 40 bits, a
  modified Julian day followed by six BCD digits, and is turned into seconds since 1970;
  a duration is six BCD digits. \<^verbatim>\<open>EITDecodeMjd\<close> computes in \<^verbatim>\<open>double\<close>; on the days
  16 bits can hold its quotients stay clear of the integers by more than the rounding
  error, so the model computes with exact rationals and truncates as the casts do.
\<close>

section \<open>Calendar\<close>

text \<open>C's conversion of a floating point number to an integer: truncation towards zero.\<close>

definition trunc :: "rat \<Rightarrow> int" where
  "trunc x = (if 0 \<le> x then \<lfloor>x\<rfloor> else - \<lfloor>- x\<rfloor>)"

definition LEAP :: "int \<Rightarrow> int" where
  "LEAP y = (if y mod 4 = 0 \<and> (y mod 100 \<noteq> 0 \<or> y mod 400 = 0) then 1 else 0)"

definition pn_day :: "int list" where
  "pn_day = [0, 31, 59, 90, 120, 151, 181, 212, 243, 273, 304, 334, 0]"

text \<open>The loop \<^verbatim>\<open>for (i = 70; i < i_year; i++) i_day += LEAP(1900 + i)\<close>.\<close>

function leap_loop :: "int \<Rightarrow> int \<Rightarrow> int \<Rightarrow> int" where
  "leap_loop i i_year i_day =
     (if i < i_year then leap_loop (i + 1) i_year (i_day + LEAP (1900 + i)) else i_day)"
  by pat_completeness auto
termination
  by (relation "measure (\<lambda>(i, y, d). nat (y - i))") auto

declare leap_loop.simps [simp del]

definition session_timegm :: "int \<Rightarrow> int \<Rightarrow> int \<Rightarrow> int \<Rightarrow> int \<Rightarrow> int \<Rightarrow> int" where
  "session_timegm i_year i_month i_mday i_hour i_minute i_second =
     (if i_year < 70 \<or> i_month < 0 \<or> i_month > 11 \<or> i_mday < 1 \<or> i_mday > 31 \<or>
         i_hour < 0 \<or> i_hour > 23 \<or> i_minute < 0 \<or> i_minute > 59 \<or>
         i_second < 0 \<or> i_second > 59
      then -1
      else
        let i_day = 365 * (i_year - 70) + pn_day ! nat i_month + i_mday - 1;
            i_day = leap_loop 70 i_year i_day;
            i_day = (if i_month > 1 then i_day + LEAP (1900 + i_year) else i_day)
        in ((24 * i_day + i_hour) * 60 + i_minute) * 60 + i_second)"

text \<open>Year, month (1 to 12) and day of a modified Julian day.\<close>

definition EITDecodeMjd :: "int \<Rightarrow> int \<times> int \<times> int" where
  "EITDecodeMjd i_mjd =
     (let yp = trunc ((of_int i_mjd - 15078.2) / 365.25);
          mp = trunc ((of_int i_mjd - 14956.1 - of_int (trunc (of_int yp * 365.25))) / 30.6001);
          c = (if mp = 14 \<or> mp = 15 then 1 else 0)
      in (1900 + yp + c * 1,
          mp - 1 - c * 12,
          i_mjd - 14956 - trunc (of_int yp * 365.25) - trunc (of_int mp * 30.6001)))"

definition CVT_FROM_BCD :: "'a::len word \<Rightarrow> int" where
  "CVT_FROM_BCD v = uint (drop_bit 4 v AND 15) * 10 + uint (v AND 15)"

text \<open>
  \<^verbatim>\<open>const int i_mjd = i_date >> 24\<close> keeps the low 32 bits; the year handed to
  \<^verbatim>\<open>session_timegm\<close> counts from 1900 and the month from 0.
\<close>

definition EITConvertStartTime :: "u64 \<Rightarrow> int" where
  "EITConvertStartTime i_date =
     (let i_mjd = sint (ucast (drop_bit 24 i_date) :: u32);
          i_hour = CVT_FROM_BCD (drop_bit 16 i_date);
          i_minute = CVT_FROM_BCD (drop_bit 8 i_date);
          i_second = CVT_FROM_BCD i_date
      in if i_date = 0xffffffffff then -1
         else
           let (i_year, i_month, i_day) = EITDecodeMjd i_mjd
           in session_timegm (i_year - 1900) (i_month - 1) i_day i_hour i_minute i_second)"

definition EITConvertDuration :: "u32 \<Rightarrow> int" where
  "EITConvertDuration i_duration =
     CVT_FROM_BCD (drop_bit 16 i_duration) * 3600 +
     CVT_FROM_BCD (drop_bit 8 i_duration) * 60 +
     CVT_FROM_BCD i_duration"

section \<open>Leap years and month starts\<close>

text \<open>The leap days before a year from 1970 to 2099 in closed form.\<close>

lemma LEAP_4:
  assumes "70 \<le> y" and "y < 200"
  shows "LEAP (1900 + y) = (if y mod 4 = 0 then 1 else 0)"
proof (cases "y = 100")
  case False
  have "(1900 + y) mod 100 = y mod 100" "(1900 + y) mod 4 = y mod 4"
    using mod_mult_self1 [of y 19 100] mod_mult_self1 [of y 475 4] by (simp_all add: add.commute)
  moreover have "y mod 100 = (if y < 100 then y else y - 100)"
    using assms mod_pos_pos_trivial [of y 100] mod_pos_pos_trivial [of "y - 100" 100]
    by (simp add: minus_mod_self2)
  then have "y mod 100 \<noteq> 0" using assms(1) False by auto
  ultimately show ?thesis by (simp add: LEAP_def)
qed (simp add: LEAP_def)

lemma leap_loop_closed:
  "70 \<le> i \<Longrightarrow> i \<le> y \<Longrightarrow> y \<le> 200 \<Longrightarrow> leap_loop i y d = d + (y - 69) div 4 - (i - 69) div 4"
proof (induction i y d rule: leap_loop.induct)
  case (1 i y d)
  show ?case
  proof (cases "i < y")
    case True
    then have "leap_loop i y d = leap_loop (i + 1) y (d + LEAP (1900 + i))"
      by (simp add: leap_loop.simps [of i])
    also have "\<dots> = d + LEAP (1900 + i) + (y - 69) div 4 - (i + 1 - 69) div 4"
      using 1 True by simp
    also have "\<dots> = d + (y - 69) div 4 - (i - 69) div 4"
      using LEAP_4 [of i] 1 True by simp presburger
    finally show ?thesis by simp
  next
    case False
    with 1 have "i = y" by simp
    then show ?thesis by (simp add: leap_loop.simps [of y y d])
  qed
qed

section \<open>The day arithmetic in integers\<close>

lemma div_bounds:
  fixes a b :: int
  assumes "0 < b"
  shows "b * (a div b) \<le> a" "a < b * (a div b) + b"
  using mult_div_mod_eq [of b a] pos_mod_sign [OF assms, of a] pos_mod_bound [OF assms, of a]
  by linarith+

lemma trunc_div: "0 \<le> a \<Longrightarrow> 0 < b \<Longrightarrow> trunc (of_int a / of_int b) = a div b"
  by (simp add: trunc_def floor_divide_of_int_eq)

lemma trunc_year:
  assumes "15079 \<le> m"
  shows "trunc ((of_int m - 15078.2) / 365.25) = (100 * m - 1507820) div 36525"
proof -
  have "(of_int m - 15078.2) / 365.25 = (of_int (100 * m - 1507820) / of_int 36525 :: rat)"
    by (simp add: field_simps)
  then show ?thesis using assms by (simp only: trunc_div)
qed

lemma trunc_year_days: "0 \<le> yp \<Longrightarrow> trunc (of_int yp * 365.25) = 1461 * yp div 4"
proof -
  assume "0 \<le> yp"
  moreover have "of_int yp * 365.25 = (of_int (1461 * yp) / of_int 4 :: rat)"
    by (simp add: field_simps)
  ultimately show ?thesis by (simp only: trunc_div)
qed

lemma trunc_month:
  assumes "14957 \<le> m - y"
  shows "trunc ((of_int m - 14956.1 - of_int y) / 30.6001) = (10000 * (m - y) - 149561000) div 306001"
proof -
  have "(of_int m - 14956.1 - of_int y) / 30.6001 =
      (of_int (10000 * (m - y) - 149561000) / of_int 306001 :: rat)"
    by (simp add: field_simps)
  moreover have "0 \<le> 10000 * (m - y) - 149561000" using assms by simp
  ultimately show ?thesis by (simp only: trunc_div)
qed

lemma trunc_month_days: "0 \<le> mp \<Longrightarrow> trunc (of_int mp * 30.6001) = 306001 * mp div 10000"
proof -
  assume "0 \<le> mp"
  moreover have "of_int mp * 30.6001 = (of_int (306001 * mp) / of_int 10000 :: rat)"
    by (simp add: field_simps)
  ultimately show ?thesis by (simp only: trunc_div)
qed

text \<open>
  \<open>n\<close> is the day within the year that starts in March; the months from March (4) to the
  following February (15) start at these days.
\<close>

lemma month_of_day:
  assumes "123 \<le> n" and "n \<le> (488::int)" and "mp = (10000 * n - 1000) div 306001"
  shows "mp \<in> {4, 5, 6, 7, 8, 9, 10, 11, 12, 13, 14, 15} \<and>
    1 \<le> n - 306001 * mp div 10000 \<and> n - 306001 * mp div 10000 \<le> 31"
proof -
  have "306001 * mp \<le> 10000 * n - 1000" "10000 * n - 1000 < 306001 * mp + 306001"
    using div_bounds [of 306001 "10000 * n - 1000"] by (simp_all add: assms(3))
  then have "4 \<le> mp" "mp \<le> 15" using assms(1,2) by linarith+
  then have "mp = 4 \<or> mp = 5 \<or> mp = 6 \<or> mp = 7 \<or> mp = 8 \<or> mp = 9 \<or> mp = 10 \<or> mp = 11 \<or>
      mp = 12 \<or> mp = 13 \<or> mp = 14 \<or> mp = 15" by presburger
  moreover have "306001 * mp \<le> 10000 * n - 1000" "10000 * n - 1000 < 306001 * mp + 306001"
    using div_bounds [of 306001 "10000 * n - 1000"] by (simp_all add: assms(3))
  ultimately show ?thesis by auto
qed

lemma decode_integers:
  assumes "15079 \<le> m" and "m \<le> 80000"
    and "yp = (100 * m - 1507820) div 36525" and "n = m - 14956 - 1461 * yp div 4"
    and "mp = (10000 * n - 1000) div 306001" and "c = (if mp = 14 \<or> mp = 15 then 1 else 0)"
  shows "EITDecodeMjd m = (1900 + yp + c, mp - 1 - c * 12, n - 306001 * mp div 10000) \<and>
    0 \<le> yp \<and> yp \<le> 177 \<and> 123 \<le> n \<and> n \<le> 488"
proof -
  have y: "36525 * yp \<le> 100 * m - 1507820" "100 * m - 1507820 < 36525 * yp + 36525"
    using div_bounds [of 36525 "100 * m - 1507820"] by (simp_all add: assms(3))
  then have yp: "0 \<le> yp" "yp \<le> 177" using assms(1,2) by linarith+
  obtain t where t: "1461 * yp div 4 = t" by blast
  have "4 * t \<le> 1461 * yp" "1461 * yp < 4 * t + 4"
    using div_bounds [of 4 "1461 * yp"] by (simp_all add: t)
  with y have n: "123 \<le> n" "n \<le> 488" unfolding assms(4) t by linarith+
  have mp: "0 \<le> mp" using month_of_day [OF n assms(5)] by auto
  have e: "10000 * (m - 1461 * yp div 4) - 149561000 = 10000 * n - 1000"
    using assms(4) by simp
  have m: "14957 \<le> m - 1461 * yp div 4" using n assms(4) by simp
  have "trunc ((of_int m - 15078.2) / 365.25) = yp" using trunc_year [OF assms(1)] assms(3) by simp
  moreover have "trunc (of_int yp * 365.25) = 1461 * yp div 4" using yp(1) by (rule trunc_year_days)
  moreover have "trunc ((of_int m - 14956.1 - of_int (1461 * yp div 4)) / 30.6001) = mp"
    unfolding trunc_month [OF m] e assms(5) ..
  moreover have "trunc (of_int mp * 30.6001) = 306001 * mp div 10000" using mp by (rule trunc_month_days)
  ultimately have "EITDecodeMjd m = (1900 + yp + c * 1, mp - 1 - c * 12,
      m - 14956 - 1461 * yp div 4 - 306001 * mp div 10000)"
    unfolding EITDecodeMjd_def Let_def assms(6) by (simp only:)
  then show ?thesis using assms(4) yp n by simp
qed

text \<open>Seconds of a day that starts at midnight, as \<open>session_timegm\<close> counts them.\<close>

lemma timegm_days:
  assumes "70 \<le> y" and "y < 200" and "0 \<le> k" and "k \<le> 11" and "1 \<le> d" and "d \<le> 31"
    and "0 \<le> h" "h \<le> 23" "0 \<le> mi" "mi \<le> 59" "0 \<le> s" "s \<le> 59"
  shows "session_timegm y k d h mi s =
    86400 * (365 * (y - 70) + pn_day ! nat k + d - 1 + (y - 69) div 4 +
             (if k > 1 \<and> y mod 4 = 0 then 1 else 0)) + 3600 * h + 60 * mi + s"
  using assms leap_loop_closed [of 70 y] LEAP_4 [of y]
  by (simp add: session_timegm_def Let_def)

lemma mjd_seconds:
  assumes "40587 \<le> m" and "m \<le> 65535"
    and "0 \<le> h" "h \<le> 23" "0 \<le> mi" "mi \<le> 59" "0 \<le> s" "s \<le> 59"
  shows "(case EITDecodeMjd m of (y, k, d) \<Rightarrow> session_timegm (y - 1900) (k - 1) d h mi s) =
    86400 * (m - 40587) + 3600 * h + 60 * mi + s"
proof -
  define yp where "yp = (100 * m - 1507820) div 36525"
  define n where "n = m - 14956 - 1461 * yp div 4"
  define mp where "mp = (10000 * n - 1000) div 306001"
  define c where "c = (if mp = 14 \<or> mp = 15 then 1 else 0 :: int)"
  define d where "d = n - 306001 * mp div 10000"
  have dec: "EITDecodeMjd m = (1900 + yp + c, mp - 1 - c * 12, d)"
    and yp: "0 \<le> yp" "yp \<le> 177" and n: "123 \<le> n" "n \<le> 488"
    using decode_integers [OF _ _ yp_def n_def mp_def c_def] assms(1,2) by (auto simp: d_def)
  have mp: "mp \<in> {4, 5, 6, 7, 8, 9, 10, 11, 12, 13, 14, 15}" and d: "1 \<le> d" "d \<le> 31"
    using month_of_day [OF n mp_def] by (auto simp: d_def)
  have y70: "70 \<le> yp + c"
  proof (cases "yp \<le> 69")
    case True
    have "100 * m - 1507820 < 36525 * yp + 36525"
      using div_bounds(2) [of 36525 "100 * m - 1507820"] by (simp add: yp_def)
    with True assms(1) have yp69: "yp = 69" by linarith
    then have "n \<ge> 429" using assms(1) by (simp add: n_def)
    moreover have "10000 * n - 1000 < 306001 * mp + 306001"
      using div_bounds(2) [of 306001 "10000 * n - 1000"] by (simp add: mp_def)
    ultimately have "14 \<le> mp" by linarith
    with mp have "c = 1" by (auto simp: c_def)
    with yp69 show ?thesis by simp
  qed (auto simp: c_def)
  have m: "m = d + 306001 * mp div 10000 + 14956 + 1461 * yp div 4"
    by (simp add: d_def n_def)
  have "365 * (yp + c - 70) + pn_day ! nat (mp - 2 - c * 12) + d - 1 + (yp + c - 69) div 4 +
      (if mp - 2 - c * 12 > 1 \<and> (yp + c) mod 4 = 0 then 1 else 0) = m - 40587"
  proof -
    have "1461 * yp = yp + 4 * (365 * yp)" by simp
    then have t: "1461 * yp div 4 = 365 * yp + yp div 4" by simp
    obtain q where q: "yp div 4 = q" by blast
    have "(yp - 69) div 4 + (if yp mod 4 = 0 then 1 else 0) = q - 17" "(yp - 68) div 4 = q - 17"
      unfolding q [symmetric] by presburger+
    then show ?thesis
      using mp unfolding m t q by (elim insertE emptyE) (simp_all add: c_def pn_day_def)
  qed
  moreover have "session_timegm (yp + c) (mp - 2 - c * 12) d h mi s = 86400 * (365 * (yp + c - 70) + pn_day ! nat (mp - 2 - c * 12) + d - 1 + (yp + c - 69) div 4 +
      (if mp - 2 - c * 12 > 1 \<and> (yp + c) mod 4 = 0 then 1 else 0)) + 3600 * h + 60 * mi + s"
    using y70 yp d mp assms(3-) by (intro timegm_days) (auto simp: c_def)
  moreover have "mp - 1 - c * 12 - 1 = mp - 2 - c * 12" "1900 + yp + c - 1900 = yp + c" by simp_all
  ultimately show ?thesis by (simp only: dec prod.case)
qed

section \<open>BCD\<close>

lemma uint_drop_bit: "uint (drop_bit n (w :: 'a::len word)) = uint w div 2 ^ n"
proof -
  have "take_bit LENGTH('a) (uint w) = uint w"
    by (rule take_bit_int_eq_self) (rule unsigned_greater_eq, rule unsigned_less)
  then show ?thesis unfolding unsigned_drop_bit_eq by (simp only: drop_bit_eq_div)
qed

lemma CVT_FROM_BCD_eq:
  "CVT_FROM_BCD v = (uint v div 16 mod 16) * 10 + uint v mod 16"
proof -
  have "uint (w AND 15) = uint w mod 16" for w :: "'a word"
  proof -
    have "w AND 15 = take_bit 4 w" by (simp add: take_bit_eq_mask mask_eq_exp_minus_1)
    then have "uint (w AND 15) = take_bit 4 (uint w)" by (simp only: unsigned_take_bit_eq)
    then show ?thesis by (simp add: take_bit_eq_mod)
  qed
  then show ?thesis
    unfolding CVT_FROM_BCD_def by (simp add: uint_drop_bit)
qed

text \<open>The two BCD digits of a number below 100.\<close>

definition bcd :: "int \<Rightarrow> int" where
  "bcd x = (x div 10) * 16 + x mod 10"

lemma div_add_small:
  fixes a k r :: int
  assumes "0 \<le> r" and "r < k"
  shows "(a * k + r) div k = a" "(a * k + r) mod k = r"
  using assms by simp_all

lemma bcd_bounds: "0 \<le> x \<Longrightarrow> x \<le> 99 \<Longrightarrow> 0 \<le> bcd x \<and> bcd x < 256"
  unfolding bcd_def by (intro conjI) (simp, presburger)

lemma CVT_FROM_BCD_bcd:
  assumes "uint v = a * 256 + bcd x" and "0 \<le> x" and "x \<le> 99"
  shows "CVT_FROM_BCD v = x"
proof -
  define t u where "t = x div 10" and "u = x mod 10"
  have tu: "x = 10 * t + u" "0 \<le> u" "u < 16" "0 \<le> t" "t < 16"
    using assms(2,3) unfolding t_def u_def by presburger+
  have v: "uint v = (a * 16 + t) * 16 + u"
    using assms(1) by (simp add: bcd_def t_def u_def)
  have "uint v div 16 = a * 16 + t" "uint v mod 16 = u"
    unfolding v by (rule div_add_small; use tu in simp)+
  moreover have "(a * 16 + t) mod 16 = t" using tu by (intro div_add_small) auto
  ultimately show ?thesis using tu by (simp add: CVT_FROM_BCD_eq)
qed

text \<open>The 40 bit start time of a day and a time of day, as the table carries it.\<close>

definition start_time :: "int \<Rightarrow> int \<Rightarrow> int \<Rightarrow> int \<Rightarrow> u64" where
  "start_time mjd h mi s = word_of_int (mjd * 2 ^ 24 + bcd h * 2 ^ 16 + bcd mi * 2 ^ 8 + bcd s)"

lemma start_time_fields:
  assumes "0 \<le> mjd" "mjd \<le> 65535" "0 \<le> h" "h \<le> 99" "0 \<le> mi" "mi \<le> 99" "0 \<le> s" "s \<le> 99"
  shows "uint (start_time mjd h mi s) = mjd * 2 ^ 24 + bcd h * 2 ^ 16 + bcd mi * 2 ^ 8 + bcd s"
    and "sint (ucast (drop_bit 24 (start_time mjd h mi s)) :: u32) = mjd"
    and "CVT_FROM_BCD (drop_bit 16 (start_time mjd h mi s)) = h"
    and "CVT_FROM_BCD (drop_bit 8 (start_time mjd h mi s)) = mi"
    and "CVT_FROM_BCD (start_time mjd h mi s) = s"
proof -
  have b: "0 \<le> bcd h" "bcd h < 256" "0 \<le> bcd mi" "bcd mi < 256" "0 \<le> bcd s" "bcd s < 256"
    using assms bcd_bounds by auto
  let ?x = "mjd * 2 ^ 24 + bcd h * 2 ^ 16 + bcd mi * 2 ^ 8 + bcd s"
  have "0 \<le> ?x" "?x < 2 ^ 64" using assms(1,2) b by simp_all
  then show u: "uint (start_time mjd h mi s) = ?x"
    unfolding start_time_def unsigned_of_int by (subst take_bit_int_eq_self) simp_all
  have d24: "?x div 2 ^ 24 = mjd"
    using div_add_small(1) [of "bcd h * 2 ^ 16 + bcd mi * 2 ^ 8 + bcd s" "2 ^ 24" mjd] b
    by (simp add: add.assoc)
  have d16: "?x div 2 ^ 16 = mjd * 256 + bcd h"
    using div_add_small(1) [of "bcd mi * 2 ^ 8 + bcd s" "2 ^ 16" "mjd * 256 + bcd h"] b
    by (simp add: algebra_simps)
  have d8: "?x div 2 ^ 8 = (mjd * 256 + bcd h) * 256 + bcd mi"
    using div_add_small(1) [of "bcd s" "2 ^ 8" "(mjd * 256 + bcd h) * 256 + bcd mi"] b
    by (simp add: algebra_simps)
  show "CVT_FROM_BCD (drop_bit 16 (start_time mjd h mi s)) = h"
    using assms d16 by (intro CVT_FROM_BCD_bcd) (simp_all add: uint_drop_bit u)
  show "CVT_FROM_BCD (drop_bit 8 (start_time mjd h mi s)) = mi"
    using assms d8
    by (intro CVT_FROM_BCD_bcd [where a = "mjd * 256 + bcd h"]) (simp_all add: uint_drop_bit u)
  show "CVT_FROM_BCD (start_time mjd h mi s) = s"
    using assms
    by (intro CVT_FROM_BCD_bcd [where a = "(mjd * 256 + bcd h) * 256 + bcd mi"])
      (simp_all add: u algebra_simps)
  have "uint (ucast (drop_bit 24 (start_time mjd h mi s)) :: u32) = mjd"
    using assms(1,2) d24
    by (simp add: unsigned_ucast_eq uint_drop_bit u take_bit_int_eq_self)
  then show "sint (ucast (drop_bit 24 (start_time mjd h mi s)) :: u32) = mjd"
    using assms(1,2) by (simp add: sint_uint signed_take_bit_int_eq_self)
qed

section \<open>Properties\<close>

text \<open>
  C37. A start time with a day from 1970-01-01 (modified Julian day 40587) on and a time of
  day in BCD converts to the seconds since 1970: 86400 for each day and the seconds of the
  day. The calendar in between, in year, month and day, is exact over the whole range of
  the 16 bit day number.
\<close>

theorem EITConvertStartTime_correct:
  assumes "40587 \<le> mjd" "mjd \<le> 65535" "0 \<le> h" "h \<le> 23" "0 \<le> mi" "mi \<le> 59" "0 \<le> s" "s \<le> 59"
  shows "EITConvertStartTime (start_time mjd h mi s) =
    86400 * (mjd - 40587) + 3600 * h + 60 * mi + s"
proof -
  have f: "uint (start_time mjd h mi s) = mjd * 2 ^ 24 + bcd h * 2 ^ 16 + bcd mi * 2 ^ 8 + bcd s"
    "sint (ucast (drop_bit 24 (start_time mjd h mi s)) :: u32) = mjd"
    "CVT_FROM_BCD (drop_bit 16 (start_time mjd h mi s)) = h"
    "CVT_FROM_BCD (drop_bit 8 (start_time mjd h mi s)) = mi"
    "CVT_FROM_BCD (start_time mjd h mi s) = s"
    using assms by (intro start_time_fields; simp)+
  have "CVT_FROM_BCD (0xffffffffff :: u64) = 165" by (simp add: CVT_FROM_BCD_eq)
  then have "start_time mjd h mi s \<noteq> 0xffffffffff" using f(5) assms(8) by auto
  then show ?thesis
    using mjd_seconds [OF assms] by (simp add: EITConvertStartTime_def f Let_def split: prod.splits)
qed

lemma EITConvertStartTime_correct_witness:
  "EITConvertStartTime (start_time 57204 20 30 0) = 86400 * 16617 + 73800"
  using EITConvertStartTime_correct [of 57204 20 30 0] by simp

text \<open>
  A duration of BCD hours, minutes and seconds converts to the number of seconds.
\<close>

theorem EITConvertDuration_correct:
  assumes "0 \<le> h" "h \<le> 99" "0 \<le> mi" "mi \<le> 99" "0 \<le> s" "s \<le> 99"
  shows "EITConvertDuration (word_of_int (bcd h * 2 ^ 16 + bcd mi * 2 ^ 8 + bcd s)) =
    3600 * h + 60 * mi + s"
proof -
  have b: "0 \<le> bcd h" "bcd h < 256" "0 \<le> bcd mi" "bcd mi < 256" "0 \<le> bcd s" "bcd s < 256"
    using assms bcd_bounds by auto
  let ?x = "bcd h * 2 ^ 16 + bcd mi * 2 ^ 8 + bcd s"
  have u: "uint (word_of_int ?x :: u32) = ?x"
    unfolding unsigned_of_int using b by (subst take_bit_int_eq_self) simp_all
  have d16: "?x div 2 ^ 16 = bcd h"
    using div_add_small(1) [of "bcd mi * 2 ^ 8 + bcd s" "2 ^ 16" "bcd h"] b by (simp add: add.assoc)
  have d8: "?x div 2 ^ 8 = bcd h * 256 + bcd mi"
    using div_add_small(1) [of "bcd s" "2 ^ 8" "bcd h * 256 + bcd mi"] b by (simp add: algebra_simps)
  have "CVT_FROM_BCD (drop_bit 16 (word_of_int ?x :: u32)) = h"
    using assms d16 by (intro CVT_FROM_BCD_bcd [where a = 0]) (simp_all only: uint_drop_bit u)
  moreover have "CVT_FROM_BCD (drop_bit 8 (word_of_int ?x :: u32)) = mi"
    using assms d8 by (intro CVT_FROM_BCD_bcd [where a = "bcd h"]) (simp_all only: uint_drop_bit u)
  moreover have "CVT_FROM_BCD (word_of_int ?x :: u32) = s"
    using assms by (intro CVT_FROM_BCD_bcd [where a = "bcd h * 256 + bcd mi"]) (simp_all only: u, simp)
  ultimately show ?thesis by (simp only: EITConvertDuration_def)
qed

lemma EITConvertDuration_correct_witness: "EITConvertDuration 0x013000 = 5400"
proof -
  have "(word_of_int (bcd 1 * 2 ^ 16 + bcd 30 * 2 ^ 8 + bcd 0) :: u32) = 0x013000"
    by (simp add: bcd_def)
  then show ?thesis using EITConvertDuration_correct [of 1 30 0] by simp
qed

text \<open>
  Every day number from 1900-03-01 on that fits the 16 bit field decodes to a month from
  1 to 12 and a day from 1 to 31.
\<close>

theorem EITDecodeMjd_calendar:
  assumes "15079 \<le> m" "m \<le> 65535"
  shows "case EITDecodeMjd m of (y, k, d) \<Rightarrow>
    1900 \<le> y \<and> y \<le> 2078 \<and> 1 \<le> k \<and> k \<le> 12 \<and> 1 \<le> d \<and> d \<le> 31"
proof -
  define yp where "yp = (100 * m - 1507820) div 36525"
  define n where "n = m - 14956 - 1461 * yp div 4"
  define mp where "mp = (10000 * n - 1000) div 306001"
  define c where "c = (if mp = 14 \<or> mp = 15 then 1 else 0 :: int)"
  have dec: "EITDecodeMjd m = (1900 + yp + c, mp - 1 - c * 12, n - 306001 * mp div 10000) \<and>
      0 \<le> yp \<and> yp \<le> 177 \<and> 123 \<le> n \<and> n \<le> 488"
    using decode_integers [OF _ _ yp_def n_def mp_def c_def] assms by simp
  then show ?thesis using month_of_day [of n mp, OF _ _ mp_def] by (auto simp: c_def)
qed

lemma EITDecodeMjd_calendar_witness:
  "case EITDecodeMjd 57204 of (y, k, d) \<Rightarrow>
     1900 \<le> y \<and> y \<le> 2078 \<and> 1 \<le> k \<and> k \<le> 12 \<and> 1 \<le> d \<and> d \<le> 31"
  by (rule EITDecodeMjd_calendar) simp_all

lemma leap_loop_mono: "d \<le> leap_loop i y d"
proof (induction i y d rule: leap_loop.induct)
  case (1 i y d)
  have "0 \<le> LEAP (1900 + i)" by (simp add: LEAP_def)
  with 1 show ?case by (auto simp: leap_loop.simps [of i y d])
qed

text \<open>
  \<^verbatim>\<open>session_timegm\<close> answers -1 exactly for the fields it rejects; every accepted date
  gives a number of seconds that is not negative, so -1 is never a valid time.
\<close>

theorem session_timegm_reject:
  "session_timegm y k d h mi s = -1 \<longleftrightarrow>
    \<not> (70 \<le> y \<and> k \<in> {0..11} \<and> d \<in> {1..31} \<and> h \<in> {0..23} \<and> mi \<in> {0..59} \<and> s \<in> {0..59})"
proof -
  have "0 \<le> session_timegm y k d h mi s"
    if ok: "70 \<le> y" "0 \<le> k" "k \<le> 11" "1 \<le> d" "0 \<le> h" "0 \<le> mi" "0 \<le> s" "d \<le> 31" "h \<le> 23" "mi \<le> 59" "s \<le> 59"
  proof -
    have "0 \<le> pn_day ! nat k"
    proof -
      have "nat k < length pn_day" using ok(2,3) by (simp add: pn_day_def)
      moreover have "\<forall>x\<in>set pn_day. 0 \<le> x" by (simp add: pn_day_def)
      ultimately show ?thesis by (meson nth_mem)
    qed
    then have "0 \<le> 365 * (y - 70) + pn_day ! nat k + d - 1" using ok by simp
    with leap_loop_mono have "0 \<le> leap_loop 70 y (365 * (y - 70) + pn_day ! nat k + d - 1)"
      by (rule order_trans [rotated])
    moreover have "0 \<le> LEAP (1900 + y)" by (simp add: LEAP_def)
    ultimately show ?thesis using ok by (simp add: session_timegm_def Let_def)
  qed
  note nonneg = this
  show ?thesis
  proof (cases "70 \<le> y \<and> k \<in> {0..11} \<and> d \<in> {1..31} \<and> h \<in> {0..23} \<and> mi \<in> {0..59} \<and> s \<in> {0..59}")
    case True
    then show ?thesis using nonneg by auto
  next
    case False
    then have "session_timegm y k d h mi s = -1" by (auto simp: session_timegm_def)
    with False show ?thesis by blast
  qed
qed

end
