(* ===== verification/Steps.thy ===== *)
theory Steps
  imports Prelude
begin

text \<open>
  Runs of a machine that takes one event at a time, and the rule its invariants are proved
  by. A step either faults, or gives \<open>None\<close> for the end of the process, or the next state.
\<close>

type_synonym ('e, 's) machine = "'e \<Rightarrow> 's \<Rightarrow> 's option res"

inductive runs :: "('e, 's) machine \<Rightarrow> ('e \<Rightarrow> 's \<Rightarrow> bool) \<Rightarrow> 's \<Rightarrow> 'e list \<Rightarrow> 's \<Rightarrow> bool"
  for run allowed s0 where
  nothing: "runs run allowed s0 [] s0"
| event: "runs run allowed s0 es s \<Longrightarrow> allowed e s \<Longrightarrow> run e s = Inr (Some s')
    \<Longrightarrow> runs run allowed s0 (es @ [e]) s'"

inductive_cases runs_emptyE: "runs run allowed s0 [] s"

lemma runs_empty [simp]: "runs run allowed s0 [] s \<longleftrightarrow> s = s0"
  by (auto intro: runs.nothing elim: runs_emptyE)

lemma runs_one: "allowed e s \<Longrightarrow> run e s = Inr (Some s') \<Longrightarrow> runs run allowed s [e] s'"
  using runs.event [OF runs.nothing, of allowed e s run s'] by simp

lemma runs_trans:
  "runs run allowed s1 es' s2 \<Longrightarrow> runs run allowed s0 es s1 \<Longrightarrow> runs run allowed s0 (es @ es') s2"
proof (induction rule: runs.induct)
  case (event es' s e s')
  then show ?case using runs.event [of run allowed s0 "es @ es'" s e s'] by simp
qed simp

lemma runs_Cons:
  assumes "allowed e s0" "run e s0 = Inr (Some s1)" "runs run allowed s1 es s"
  shows "runs run allowed s0 (e # es) s"
  using runs_trans [OF assms(3) runs_one, OF assms(1,2)] by simp

text \<open>An interface: an allowed event that does not fault keeps the invariant.\<close>

locale invariant_machine =
  fixes run :: "('e, 's) machine"
    and allowed :: "'e \<Rightarrow> 's \<Rightarrow> bool"
    and inv :: "'s \<Rightarrow> bool"
  assumes keeps: "inv s \<Longrightarrow> allowed e s \<Longrightarrow> run e s = Inr (Some s') \<Longrightarrow> inv s'"
begin

lemma reachable_inv: "runs run allowed s0 es s \<Longrightarrow> inv s0 \<Longrightarrow> inv s"
  by (induction rule: runs.induct) (auto intro: keeps)

text \<open>What every step keeps from invariant states, a run keeps.\<close>

lemma reachable_keeps:
  assumes "runs run allowed s0 es s" "inv s0"
    and "\<And>s e s'. inv s \<Longrightarrow> allowed e s \<Longrightarrow> run e s = Inr (Some s') \<Longrightarrow> P s' = P s"
  shows "P s = P s0"
  using assms(1)
proof (induction rule: runs.induct)
  case (event es s e s')
  have "inv s" by (rule reachable_inv [OF event.hyps(1) assms(2)])
  from assms(3) [OF this event.hyps(2,3)] event.IH show ?case by simp
qed simp

end

text \<open>A machine that does not fault either, from a state with the invariant.\<close>

locale guarded_machine = invariant_machine +
  assumes no_fault: "inv s \<Longrightarrow> allowed e s \<Longrightarrow> \<exists>r. run e s = Inr r"
begin

lemma reachable_no_fault:
  "runs run allowed s0 es s \<Longrightarrow> inv s0 \<Longrightarrow> allowed e s \<Longrightarrow> \<exists>r. run e s = Inr r"
  using reachable_inv no_fault by blast

end

end
