(* ===== verification/Locks.thy ===== *)
theory Locks
  imports Steps
begin

text \<open>
  The mutexes of the program and the data its threads share. For each function that takes a mutex or
  touches shared data, its skeleton: in which order it takes and gives back locks and what it reads or
  writes in between, with the calls, branches and loops of its code and with everything
  else left out. The skeletons are an over-approximation: a branch may go either way and a
  loop may run any number of times. Iterating over a list is holding its mutex
  from \<^verbatim>\<open>linkedList_create_iterator\<close> to \<^verbatim>\<open>linkedList_release_iterator\<close>.

  The threads then run interleaved, and a thread that asks for a mutex somebody holds, itself
  included, waits. They never deadlock, and data that every use takes the same mutex for are never touched
  by two threads at once. Other data are raced for, which is proved for the users and the filters of a tuner
  and for the buffers of a session and of a stream, which are freed while they are copied.
\<close>

section \<open>Locks and skeletons\<close>

text \<open>
  The lists and mutexes: sessions, destinations and tuners are named by numbers, and the
  frequencies and their channel lists by their tuner.
\<close>

datatype lock =
    Users_List
  | Commands_List
  | Sessions_List
  | Session_Buffer nat
  | Destination_List nat
  | Destination_Buffer nat
  | Frequency_List nat
  | Channel_List nat nat
  | Tuner_Lock nat

text \<open>
  What is shared: the nodes of a list, with their links and their data pointers, and its head, with the
  count; of a session its buffer, how full that is, what only those look at who go through
  the sessions (PIDs, counters, identity), and its state and its list of destinations; of a destination
  the buffer, named by the session where the session's threads alone use it, the fill of
  one that is streamed, and whether it has expired; of a tuner who uses it, what it is set to, its PID
  filters, and of its channels their network and the names, which service tables set; and the write time.
  \<open>Freed x\<close> is that the memory of \<open>x\<close> is given back.
\<close>

datatype shared =
    Nodes lock
  | Head lock
  | Session_Bytes nat
  | Session_Fill nat
  | Session_Fields nat
  | Session_State nat
  | Stream_Bytes nat
  | Stream_Fill nat
  | Socket_Bytes nat nat
  | Dest_State nat
  | Tuner_Use nat
  | Tuner_Setting nat
  | Pid_Slots nat
  | Channel_Ids nat nat
  | Channel_Names nat nat
  | Write_Time
  | Freed shared

datatype lock_op = Acquire lock | Release lock | Touch shared

datatype skeleton =
    Skip
  | Use shared
  | Hold lock skeleton
  | Seq skeleton skeleton
  | Choice skeleton skeleton
  | Some_of "nat \<Rightarrow> skeleton"
  | Loop "nat \<Rightarrow> skeleton"

abbreviation Optional :: "skeleton \<Rightarrow> skeleton" where
  "Optional b \<equiv> Choice Skip b"

inductive trace :: "skeleton \<Rightarrow> lock_op list \<Rightarrow> bool" where
  skip: "trace Skip []"
| touch: "trace (Use x) [Touch x]"
| hold: "trace b t \<Longrightarrow> trace (Hold l b) (Acquire l # t @ [Release l])"
| seq: "trace a t \<Longrightarrow> trace b u \<Longrightarrow> trace (Seq a b) (t @ u)"
| left: "trace a t \<Longrightarrow> trace (Choice a b) t"
| right: "trace b t \<Longrightarrow> trace (Choice a b) t"
| some_of: "trace (f k) t \<Longrightarrow> trace (Some_of f) t"
| done_all: "trace (Loop f) []"
| again: "trace (f k) t \<Longrightarrow> trace (Loop f) u \<Longrightarrow> trace (Loop f) (t @ u)"

section \<open>The skeletons of the functions\<close>

text \<open>The node an iterator is on may be removed after the body.\<close>

definition lk_iterate :: "lock \<Rightarrow> (nat \<Rightarrow> skeleton) \<Rightarrow> skeleton" where
  "lk_iterate l body =
     Hold l (Seq (Use (Head l))
       (Loop (\<lambda>k. Seq (Use (Nodes l)) (Seq (body k) (Optional (Seq (Use (Nodes l)) (Use (Head l))))))))"

definition lk_linkedList_append :: "lock \<Rightarrow> skeleton" where
  "lk_linkedList_append l = Hold l (Seq (Use (Head l)) (Use (Nodes l)))"

definition lk_linkedList_item_count :: "lock \<Rightarrow> skeleton" where
  "lk_linkedList_item_count l = Hold l (Use (Head l))"

text \<open>Destroying a list takes no lock; an empty one is freed, with its mutex.\<close>

definition lk_linkedList_destroy :: "lock \<Rightarrow> skeleton" where
  "lk_linkedList_destroy l = Seq (Use (Head l)) (Optional (Use (Freed (Head l))))"

text \<open>Tuners: \<open>t\<close> is the tuner, \<open>f\<close> the position of a frequency.\<close>

definition lk_AddPID_to_Demux :: "nat \<Rightarrow> skeleton" where
  "lk_AddPID_to_Demux t = Hold (Tuner_Lock t) (Use (Pid_Slots t))"

definition lk_removePID_from_Demux :: "nat \<Rightarrow> skeleton" where
  "lk_removePID_from_Demux t = Use (Pid_Slots t)"

text \<open>Tuning a terrestrial tuner takes no lock, tuning a satellite tuner does.\<close>

definition lk_dvbt_tune :: "nat \<Rightarrow> skeleton" where
  "lk_dvbt_tune t =
     Seq (Use (Tuner_Setting t)) (Optional (Seq (Use (Pid_Slots t)) (Use (Tuner_Setting t))))"

definition lk_dvbs_tune :: "nat \<Rightarrow> skeleton" where
  "lk_dvbs_tune t =
     Optional (Hold (Tuner_Lock t)
       (Seq (Use (Tuner_Setting t)) (Optional (Seq (Use (Pid_Slots t)) (Use (Tuner_Setting t))))))"

definition lk_getInitialTuning :: "nat \<Rightarrow> skeleton" where
  "lk_getInitialTuning t = lk_iterate (Frequency_List t) (\<lambda>_. Skip)"

definition lk_add_psi_pids :: "nat \<Rightarrow> skeleton" where
  "lk_add_psi_pids t = Loop (\<lambda>_. lk_AddPID_to_Demux t)"

text \<open>The three lookups of a channel go through the frequencies and their channels alike.\<close>

definition lk_find_channel :: "nat \<Rightarrow> skeleton" where
  "lk_find_channel t =
     lk_iterate (Frequency_List t) (\<lambda>f. lk_iterate (Channel_List t f) (\<lambda>_. Use (Channel_Ids t f)))"

definition lk_channel_addPAT :: "nat \<Rightarrow> nat \<Rightarrow> skeleton" where
  "lk_channel_addPAT t f =
     Seq (Use (Tuner_Setting t))
       (Optional (Seq (lk_iterate (Channel_List t f) (\<lambda>_. Use (Channel_Ids t f)))
                      (Optional (lk_linkedList_append (Channel_List t f)))))"

definition lk_channel_addSDT_Info2 :: "nat \<Rightarrow> nat \<Rightarrow> skeleton" where
  "lk_channel_addSDT_Info2 t f =
     Seq (Use (Tuner_Setting t))
       (Optional (lk_iterate (Channel_List t f) (\<lambda>_.
          Seq (Use (Channel_Ids t f)) (Optional (Seq (Use (Channel_Names t f)) (Use (Channel_Ids t f)))))))"

text \<open>Also the lines of a tuning file.\<close>

definition lk_add_frequency :: "nat \<Rightarrow> skeleton" where
  "lk_add_frequency t =
     Optional (Seq (lk_iterate (Frequency_List t) (\<lambda>_. Skip))
                   (Optional (lk_linkedList_append (Frequency_List t))))"

text \<open>The callbacks of the section decoders; those of the other tables take no lock.\<close>

definition lk_process_pat :: "nat \<Rightarrow> nat \<Rightarrow> skeleton" where
  "lk_process_pat t f = Loop (\<lambda>_. lk_channel_addPAT t f)"

definition lk_process_sdt :: "nat \<Rightarrow> nat \<Rightarrow> skeleton" where
  "lk_process_sdt t f = Loop (\<lambda>_. lk_channel_addSDT_Info2 t f)"

definition lk_process_nit :: "nat \<Rightarrow> skeleton" where
  "lk_process_nit t = Loop (\<lambda>_. lk_add_frequency t)"

definition lk_packet_push :: "nat \<Rightarrow> skeleton" where
  "lk_packet_push t =
     Optional (Choice (Some_of (lk_process_pat t))
                 (Choice (Some_of (lk_process_sdt t)) (lk_process_nit t)))"

text \<open>Destinations: \<open>s\<close> is the session, \<open>d\<close> the destination.\<close>

definition lk_destination_addToBuffer :: "nat \<Rightarrow> skeleton \<Rightarrow> skeleton" where
  "lk_destination_addToBuffer d buffer = Hold (Destination_Buffer d) buffer"

definition lk_destination_getDatafromBuffer :: "nat \<Rightarrow> skeleton" where
  "lk_destination_getDatafromBuffer d =
     Seq (Use (Dest_State d))
       (Optional (Hold (Destination_Buffer d) (Seq (Use (Stream_Fill d)) (Use (Stream_Bytes d)))))"

definition lk_destination_processHTTP :: "nat \<Rightarrow> skeleton" where
  "lk_destination_processHTTP d =
     lk_destination_addToBuffer d (Seq (Use (Stream_Fill d)) (Use (Stream_Bytes d)))"

text \<open>The buffer and the destination are freed, without the mutex of the buffer.\<close>

definition lk_destination_destroy :: "nat \<Rightarrow> nat \<Rightarrow> skeleton" where
  "lk_destination_destroy s d =
     Seq (Choice (Use (Freed (Stream_Bytes d))) (Use (Freed (Socket_Bytes s d)))) (Use (Freed (Dest_State d)))"

text \<open>To a socket or a file: what is sent is taken from the buffer without its mutex.\<close>

definition lk_destination_send :: "nat \<Rightarrow> nat \<Rightarrow> skeleton" where
  "lk_destination_send s d =
     Seq (lk_destination_addToBuffer d (Use (Socket_Bytes s d)))
         (Seq (Optional (Use Write_Time)) (Use (Socket_Bytes s d)))"

definition lk_destination_process :: "nat \<Rightarrow> skeleton" where
  "lk_destination_process s =
     lk_iterate (Destination_List s) (\<lambda>d.
       Seq (Use (Dest_State d))
         (Choice (lk_destination_destroy s d)
            (Optional (Choice (lk_destination_processHTTP d) (lk_destination_send s d)))))"

definition lk_destination_close_type :: "nat \<Rightarrow> skeleton" where
  "lk_destination_close_type s =
     lk_iterate (Destination_List s) (\<lambda>d.
       Optional (Seq (Use (Dest_State d)) (lk_destination_destroy s d)))"

definition lk_destination_close_all :: "nat \<Rightarrow> skeleton" where
  "lk_destination_close_all s =
     lk_iterate (Destination_List s) (\<lambda>d. Seq (Use (Dest_State d)) (lk_destination_destroy s d))"

definition lk_destination_print :: "nat \<Rightarrow> skeleton" where
  "lk_destination_print s =
     lk_iterate (Destination_List s) (\<lambda>d. Choice (Use (Stream_Fill d)) (Use (Socket_Bytes s d)))"

definition lk_destination_thread_run :: "nat \<Rightarrow> skeleton" where
  "lk_destination_thread_run s =
     Seq (Loop (\<lambda>_. Seq (Use (Session_State s))
            (Seq (Hold (Session_Buffer s) (Seq (Use (Session_Bytes s)) (Use (Session_Fill s))))
                 (lk_destination_process s))))
         (Use (Session_State s))"

text \<open>Sessions. The program map table is decoded while the list of sessions is held.\<close>

definition lk_session_addPid :: "nat \<Rightarrow> nat \<Rightarrow> skeleton" where
  "lk_session_addPid t s =
     Seq (Use (Session_Fields s)) (Optional (Seq (lk_AddPID_to_Demux t) (Use (Session_Fields s))))"

definition lk_process_pmt :: "nat \<Rightarrow> nat \<Rightarrow> skeleton" where
  "lk_process_pmt t s = Loop (\<lambda>_. lk_session_addPid t s)"

text \<open>How full the buffer is, is read before its mutex is taken.\<close>

definition lk_session_write :: "nat \<Rightarrow> skeleton" where
  "lk_session_write t =
     lk_iterate Sessions_List (\<lambda>s.
       Seq (Use (Session_Fields s))
         (Optional (Seq (Optional (lk_process_pmt t s))
            (Seq (Use (Session_Fill s))
              (Seq (Optional (Use (Session_Fields s)))
                (Hold (Session_Buffer s) (Seq (Use (Session_Fill s)) (Use (Session_Bytes s)))))))))"

definition lk_session_stop_type :: skeleton where
  "lk_session_stop_type = lk_iterate Sessions_List lk_destination_close_type"

text \<open>
  What a stop and the session thread do alike with a session that ends, on its tuner \<open>t\<close>. Both free the
  buffer of the session without its mutex, before and after they release the tuner.
\<close>

definition lk_end_session :: "nat \<Rightarrow> nat \<Rightarrow> skeleton" where
  "lk_end_session t s =
     Seq (Loop (\<lambda>_. Seq (Optional (Use (Session_Fields s))) (lk_removePID_from_Demux t)))
       (Seq (Use (Tuner_Use t)) (Seq (Use (Session_Fill s)) (Use (Session_State s))))"

definition lk_free_session :: "nat \<Rightarrow> skeleton" where
  "lk_free_session s = Seq (Use (Freed (Session_State s))) (Use (Freed (Session_Fields s)))"

definition lk_session_stop :: skeleton where
  "lk_session_stop =
     Seq (lk_iterate Sessions_List (\<lambda>s. Seq (Use (Session_Fields s)) (Optional (Some_of (\<lambda>t.
           Seq (lk_end_session t s)
             (Seq (Use (Freed (Session_Bytes s))) (Seq (Use (Tuner_Use t)) (lk_free_session s))))))))
       (Optional (Some_of (\<lambda>s. Seq (lk_destination_close_all s) (lk_linkedList_destroy (Destination_List s)))))"

definition lk_take_tuner :: "nat \<Rightarrow> skeleton" where
  "lk_take_tuner t =
     Seq (lk_find_channel t)
       (Optional (Seq (lk_find_channel t)
          (Seq (Use (Tuner_Use t))
            (Choice
              (Seq (Use (Tuner_Use t))
                 (Seq (Optional (Choice (lk_dvbt_tune t) (lk_dvbs_tune t))) (lk_add_psi_pids t)))
              (Seq (Use (Tuner_Setting t))
                 (Optional (Seq (Use (Tuner_Use t)) (lk_AddPID_to_Demux t))))))))"

text \<open>A session that was found is joined after the list of sessions was given back.\<close>

definition lk_session_addNew :: skeleton where
  "lk_session_addNew =
     Seq (Loop lk_find_channel)
       (Optional
         (Seq (Optional lk_session_stop_type)
           (Seq (lk_iterate Sessions_List (\<lambda>s. Use (Session_Fields s)))
             (Choice
               (Some_of (\<lambda>s. Optional (Seq (Use (Session_State s)) (lk_linkedList_append (Destination_List s)))))
               (Seq (Loop lk_take_tuner)
                 (Optional (Seq (Some_of (\<lambda>s. Optional (lk_linkedList_append (Destination_List s))))
                    (lk_linkedList_append Sessions_List))))))))"

definition lk_session_thread_run :: skeleton where
  "lk_session_thread_run =
     Loop (\<lambda>_. lk_iterate Sessions_List (\<lambda>s.
       Seq (lk_linkedList_item_count (Destination_List s))
         (Choice (Some_of (\<lambda>t.
                    Seq (lk_end_session t s)
                      (Seq (Use (Tuner_Use t)) (Seq (lk_linkedList_destroy (Destination_List s))
                        (Seq (Use (Freed (Session_Bytes s))) (lk_free_session s))))))
                 (Use (Session_Fields s)))))"

text \<open>The hardware thread of tuner \<open>t\<close>.\<close>

definition lk_dvb_read_data :: "nat \<Rightarrow> skeleton" where
  "lk_dvb_read_data t =
     Seq (Use (Tuner_Setting t)) (Loop (\<lambda>_. Seq (lk_packet_push t) (lk_session_write t)))"

definition lk_dvb_hardware_thread :: "nat \<Rightarrow> skeleton" where
  "lk_dvb_hardware_thread t =
     Seq (Use (Tuner_Use t))
       (Loop (\<lambda>_. Seq (Optional (lk_dvb_read_data t))
         (Optional (Seq (Use (Tuner_Use t))
           (Optional (Seq (lk_getInitialTuning t)
             (Optional (Seq (Choice (lk_dvbt_tune t) (lk_dvbs_tune t))
               (Seq (Use (Tuner_Use t)) (Optional (lk_add_psi_pids t)))))))))))"

text \<open>The console.\<close>

definition lk_telnet_session_print :: skeleton where
  "lk_telnet_session_print =
     lk_iterate Sessions_List (\<lambda>s.
       Seq (lk_linkedList_item_count (Destination_List s))
         (Seq (Use (Session_Fields s)) (Some_of (\<lambda>t. Some_of (\<lambda>f. Use (Channel_Names t f))))))"

definition lk_destination_show :: skeleton where
  "lk_destination_show =
     lk_iterate Sessions_List (\<lambda>s.
       Seq (Some_of (\<lambda>t. Some_of (\<lambda>f. Use (Channel_Names t f)))) (lk_destination_print s))"

definition lk_dvb_telnetShowTunerFrequency :: skeleton where
  "lk_dvb_telnetShowTunerFrequency =
     Loop (\<lambda>t. Optional (lk_iterate (Frequency_List t) (\<lambda>f. lk_linkedList_item_count (Channel_List t f))))"

definition lk_dvb_telnetPrintChannelList :: "nat \<Rightarrow> nat \<Rightarrow> skeleton" where
  "lk_dvb_telnetPrintChannelList t f =
     lk_iterate (Channel_List t f) (\<lambda>_. Seq (Use (Channel_Names t f)) (Use (Channel_Ids t f)))"

definition lk_dvb_telnetShowTunerChannels :: skeleton where
  "lk_dvb_telnetShowTunerChannels =
     Loop (\<lambda>t. Optional (lk_iterate (Frequency_List t) (\<lambda>f.
       Seq (lk_linkedList_item_count (Channel_List t f)) (lk_dvb_telnetPrintChannelList t f))))"

definition lk_session_telnetCheckChannel :: skeleton where
  "lk_session_telnetCheckChannel = Optional (Loop lk_find_channel)"

definition lk_telnet_session_setwrite :: skeleton where
  "lk_telnet_session_setwrite = Optional (Use Write_Time)"

text \<open>The registered handlers; \<^verbatim>\<open>dvb.showdevice\<close> takes no lock.\<close>

definition lk_handler :: "nat \<Rightarrow> skeleton" where
  "lk_handler k =
     (if k = 0 then lk_session_telnetCheckChannel
      else if k = 1 then Optional lk_session_addNew
      else if k = 2 then Optional lk_session_stop
      else if k = 3 then lk_telnet_session_print
      else if k = 4 then lk_destination_show
      else if k = 5 then lk_dvb_telnetShowTunerFrequency
      else if k = 6 then lk_dvb_telnetShowTunerChannels
      else if k = 7 then lk_telnet_session_setwrite
      else Skip)"

definition lk_telnet_dispatchCommand :: skeleton where
  "lk_telnet_dispatchCommand = lk_iterate Commands_List (\<lambda>_. Optional (Some_of lk_handler))"

definition lk_telnet_command_help :: skeleton where
  "lk_telnet_command_help = lk_iterate Commands_List (\<lambda>_. Skip)"

definition lk_telnet_process :: skeleton where
  "lk_telnet_process =
     lk_iterate Users_List (\<lambda>_. Loop (\<lambda>_.
       Seq (Optional lk_telnet_command_help) (Optional lk_telnet_dispatchCommand)))"

definition lk_telnet_onconnect :: skeleton where
  "lk_telnet_onconnect = Seq (lk_iterate Users_List (\<lambda>_. Skip)) (lk_linkedList_append Users_List)"

definition lk_telnet_ondisconnect :: skeleton where
  "lk_telnet_ondisconnect = lk_iterate Users_List (\<lambda>_. Skip)"

definition lk_socketserver_main_thread :: skeleton where
  "lk_socketserver_main_thread =
     Loop (\<lambda>_. Choice lk_telnet_onconnect
                (Seq (Optional lk_telnet_process) (Optional lk_telnet_ondisconnect)))"

text \<open>A web connection, which marks its destination when the client hangs up, and the main thread.\<close>

definition lk_ahc_echo :: skeleton where
  "lk_ahc_echo =
     Seq (Optional lk_session_addNew)
       (Optional (Some_of (\<lambda>d. Seq (Loop (\<lambda>_. lk_destination_getDatafromBuffer d)) (Use (Dest_State d)))))"

definition lk_start_device :: "nat \<Rightarrow> skeleton" where
  "lk_start_device t =
     Seq (Loop (\<lambda>_. lk_add_frequency t))
       (Seq (Optional (Seq (lk_getInitialTuning t) (Choice (lk_dvbt_tune t) (lk_dvbs_tune t))))
         (lk_add_psi_pids t))"

definition lk_main :: skeleton where
  "lk_main =
     Seq (Use Write_Time)
       (Seq (Loop (\<lambda>_. lk_linkedList_append Commands_List))
         (Seq (Loop (\<lambda>t. Seq (Use (Tuner_Use t)) (Seq (Use (Tuner_Setting t)) (Use (Pid_Slots t)))))
           (Seq (Loop (\<lambda>t. Optional (lk_start_device t)))
             (Loop (\<lambda>_. lk_linkedList_append Commands_List)))))"

datatype thread_kind =
    Main_Thread
  | Telnet_Thread
  | Session_Thread
  | Hardware_Thread nat
  | Destination_Thread nat
  | Web_Thread

fun thread_code :: "thread_kind \<Rightarrow> skeleton" where
  "thread_code Main_Thread = lk_main"
| "thread_code Telnet_Thread = lk_socketserver_main_thread"
| "thread_code Session_Thread = lk_session_thread_run"
| "thread_code (Hardware_Thread t) = lk_dvb_hardware_thread t"
| "thread_code (Destination_Thread s) = lk_destination_thread_run s"
| "thread_code Web_Thread = lk_ahc_echo"

section \<open>Threads and mutexes\<close>

text \<open>
  A thread is the locks it holds and what it has still to do. The event \<open>i\<close> lets thread \<open>i\<close> do
  its next operation. Releasing a mutex the thread does not hold faults.
\<close>

type_synonym thread = "lock list \<times> lock_op list"

definition lock_step :: "(nat, thread list) machine" where
  "lock_step i ths =
     (case snd (ths ! i) of
        [] \<Rightarrow> Inr (Some ths)
      | Acquire l # r \<Rightarrow> Inr (Some (ths[i := (l # fst (ths ! i), r)]))
      | Release l # r \<Rightarrow>
          if l \<in> set (fst (ths ! i)) then Inr (Some (ths[i := (remove1 l (fst (ths ! i)), r)]))
          else Inl NotLocked
      | Touch _ # r \<Rightarrow> Inr (Some (ths[i := (fst (ths ! i), r)])))"

text \<open>Thread \<open>i\<close> has something to do and does not wait.\<close>

definition can_step :: "nat \<Rightarrow> thread list \<Rightarrow> bool" where
  "can_step i ths \<longleftrightarrow> i < length ths \<and>
     (case snd (ths ! i) of
        [] \<Rightarrow> False
      | Acquire l # _ \<Rightarrow> \<forall>th \<in> set ths. l \<notin> set (fst th)
      | _ \<Rightarrow> True)"

definition thread_done :: "thread \<Rightarrow> bool" where
  "thread_done th \<longleftrightarrow> th = ([], [])"

section \<open>The order of the locks\<close>

fun level :: "lock \<Rightarrow> nat" where
  "level Users_List = 0"
| "level Commands_List = 1"
| "level Sessions_List = 2"
| "level (Session_Buffer _) = 3"
| "level (Destination_List _) = 4"
| "level (Destination_Buffer _) = 5"
| "level (Frequency_List _) = 6"
| "level (Channel_List _ _) = 7"
| "level (Tuner_Lock _) = 8"

text \<open>A skeleton that only takes locks of level \<open>n\<close> or more, inner ones of higher level.\<close>

primrec ordered :: "nat \<Rightarrow> skeleton \<Rightarrow> bool" where
  "ordered n Skip \<longleftrightarrow> True"
| "ordered n (Use x) \<longleftrightarrow> True"
| "ordered n (Hold l b) \<longleftrightarrow> n \<le> level l \<and> ordered (Suc (level l)) b"
| "ordered n (Seq a b) \<longleftrightarrow> ordered n a \<and> ordered n b"
| "ordered n (Choice a b) \<longleftrightarrow> ordered n a \<and> ordered n b"
| "ordered n (Some_of f) \<longleftrightarrow> (\<forall>k. ordered n (f k))"
| "ordered n (Loop f) \<longleftrightarrow> (\<forall>k. ordered n (f k))"

text \<open>
  The mutex that every use of the data takes, if there is one. The fill of a buffer and the filters of
  a tuner have a mutex that not every use takes. The buffers of sessions and streams are copied under
  theirs and freed without.
\<close>

fun guard :: "shared \<Rightarrow> lock option" where
  "guard (Nodes l) = Some l"
| "guard (Head l) = (case l of Destination_List s \<Rightarrow> None | _ \<Rightarrow> Some l)"
| "guard (Session_Bytes s) = Some (Session_Buffer s)"
| "guard (Session_Fields s) = Some Sessions_List"
| "guard (Stream_Bytes d) = Some (Destination_Buffer d)"
| "guard (Socket_Bytes s d) = Some (Destination_List s)"
| "guard (Channel_Ids t f) = Some (Channel_List t f)"
| "guard (Freed x) =
     (case x of Session_Fields s \<Rightarrow> Some Sessions_List | Socket_Bytes s d \<Rightarrow> Some (Destination_List s) | _ \<Rightarrow> None)"
| "guard x = None"

text \<open>A skeleton that touches what has a guard only while the guard or one of \<open>H\<close> is held.\<close>

primrec guarded :: "lock set \<Rightarrow> skeleton \<Rightarrow> bool" where
  "guarded H Skip \<longleftrightarrow> True"
| "guarded H (Use x) \<longleftrightarrow> (\<forall>l. guard x = Some l \<longrightarrow> l \<in> H)"
| "guarded H (Hold l b) \<longleftrightarrow> guarded (insert l H) b"
| "guarded H (Seq a b) \<longleftrightarrow> guarded H a \<and> guarded H b"
| "guarded H (Choice a b) \<longleftrightarrow> guarded H a \<and> guarded H b"
| "guarded H (Some_of f) \<longleftrightarrow> (\<forall>k. guarded H (f k))"
| "guarded H (Loop f) \<longleftrightarrow> (\<forall>k. guarded H (f k))"

text \<open>
  What a thread that holds \<open>held\<close> may still do: take higher locks, give back the last one, touch what
  has no guard or a guard it holds.
\<close>

fun disciplined :: "lock list \<Rightarrow> lock_op list \<Rightarrow> bool" where
  "disciplined held [] \<longleftrightarrow> held = []"
| "disciplined held (Acquire l # r) \<longleftrightarrow> (\<forall>h \<in> set held. level h < level l) \<and> disciplined (l # held) r"
| "disciplined held (Release l # r) \<longleftrightarrow>
     (case held of [] \<Rightarrow> False | h # hs \<Rightarrow> h = l \<and> disciplined hs r)"
| "disciplined held (Touch x # r) \<longleftrightarrow> (\<forall>l. guard x = Some l \<longrightarrow> l \<in> set held) \<and> disciplined held r"

lemma trace_disciplined:
  "trace sk t \<Longrightarrow> ordered n sk \<Longrightarrow> guarded (set held) sk \<Longrightarrow> \<forall>h \<in> set held. level h < n
   \<Longrightarrow> disciplined held (t @ r) = disciplined held r"
proof (induction arbitrary: n held r rule: trace.induct)
  case (hold b t l)
  have "\<forall>h \<in> set held. level h < level l" using hold.prems by fastforce
  with hold.IH [of "Suc (level l)" "l # held" "Release l # r"] hold.prems show ?case
    by (simp add: less_Suc_eq)
next
  case (again f k t u)
  have "disciplined held (t @ u @ r) = disciplined held (u @ r)"
    by (rule again.IH(1) [where n = n]) (use again.prems in simp_all)
  with again.IH(2) [OF again.prems] show ?case by simp
next
  case (some_of f k t)
  show ?case by (rule some_of.IH [where n = n]) (use some_of.prems in simp_all)
qed auto

lemmas skeleton_defs =
  lk_iterate_def lk_linkedList_append_def lk_linkedList_item_count_def lk_AddPID_to_Demux_def
  lk_dvbs_tune_def lk_getInitialTuning_def lk_add_psi_pids_def lk_find_channel_def
  lk_channel_addPAT_def lk_channel_addSDT_Info2_def lk_add_frequency_def lk_process_pat_def
  lk_process_sdt_def lk_process_nit_def lk_packet_push_def lk_destination_addToBuffer_def
  lk_destination_getDatafromBuffer_def lk_destination_process_def lk_destination_close_type_def
  lk_destination_close_all_def lk_destination_print_def lk_session_addPid_def lk_process_pmt_def
  lk_session_write_def lk_session_stop_type_def lk_session_stop_def lk_take_tuner_def
  lk_dvb_read_data_def lk_linkedList_destroy_def lk_removePID_from_Demux_def lk_dvbt_tune_def
  lk_destination_processHTTP_def lk_destination_send_def lk_end_session_def lk_free_session_def
  lk_destination_destroy_def

lemmas console_defs =
  lk_session_addNew_def lk_handler_def lk_session_telnetCheckChannel_def lk_telnet_session_print_def
  lk_destination_show_def lk_dvb_telnetShowTunerFrequency_def lk_dvb_telnetShowTunerChannels_def
  lk_dvb_telnetPrintChannelList_def lk_telnet_session_setwrite_def

lemmas thread_defs =
  lk_main_def lk_start_device_def lk_session_thread_run_def lk_dvb_hardware_thread_def
  lk_destination_thread_run_def lk_socketserver_main_thread_def lk_telnet_onconnect_def
  lk_telnet_ondisconnect_def lk_telnet_process_def lk_telnet_dispatchCommand_def
  lk_telnet_command_help_def lk_ahc_echo_def

lemma handlers_ordered: "ordered 2 lk_session_addNew" "ordered 2 (lk_handler k)"
  by (simp_all add: console_defs skeleton_defs)

lemma handlers_guarded: "guarded H lk_session_addNew" "guarded H (lk_handler k)"
  by (simp_all add: console_defs skeleton_defs)

lemma ordered_mono: "ordered n sk \<Longrightarrow> m \<le> n \<Longrightarrow> ordered m sk"
  by (induction sk) auto

lemma threads_ordered: "ordered 0 (thread_code k)"
proof (cases k)
  case Telnet_Thread
  then show ?thesis
    using handlers_ordered(2) by (simp add: thread_defs lk_iterate_def lk_linkedList_append_def numeral_2_eq_2)
next
  case Web_Thread
  have "ordered 0 lk_session_addNew" by (rule ordered_mono [OF handlers_ordered(1)]) simp
  with Web_Thread show ?thesis by (simp add: lk_ahc_echo_def lk_destination_getDatafromBuffer_def)
qed (simp_all add: thread_defs skeleton_defs)

lemma threads_guarded: "guarded {} (thread_code k)"
proof (cases k)
  case Telnet_Thread
  then show ?thesis
    using handlers_guarded(2) by (simp add: thread_defs lk_iterate_def lk_linkedList_append_def)
next
  case Web_Thread
  then show ?thesis
    using handlers_guarded(1) by (simp add: lk_ahc_echo_def lk_destination_getDatafromBuffer_def)
qed (simp_all add: thread_defs skeleton_defs)

section \<open>No thread waits for ever\<close>

definition locks_ok :: "thread list \<Rightarrow> bool" where
  "locks_ok ths \<longleftrightarrow> (\<forall>th \<in> set ths. disciplined (fst th) (snd th)) \<and> distinct (concat (map fst ths))"

lemma distinct_concat_update:
  assumes "i < length xs" "distinct (concat xs)" "distinct ys"
    and "\<And>y x. y \<in> set ys \<Longrightarrow> x \<in> set xs \<Longrightarrow> y \<in> set x \<Longrightarrow> y \<in> set (xs ! i)"
  shows "distinct (concat (xs[i := ys]))"
proof -
  have split: "xs = take i xs @ xs ! i # drop (Suc i) xs" by (rule id_take_nth_drop [OF assms(1)])
  have d: "distinct (concat (take i xs @ xs ! i # drop (Suc i) xs))" using assms(2) split by simp
  have sub: "set (take i xs) \<subseteq> set xs" "set (drop (Suc i) xs) \<subseteq> set xs"
    by (rule set_take_subset, rule set_drop_subset)
  have "y \<notin> set (concat (take i xs)) \<and> y \<notin> set (concat (drop (Suc i) xs))" if y: "y \<in> set ys" for y
  proof -
    have "y \<in> set (xs ! i)" if "x \<in> set (take i xs) \<union> set (drop (Suc i) xs)" "y \<in> set x" for x
      using assms(4) [OF y _ that(2)] that(1) sub by blast
    moreover have "y \<in> set (xs ! i) \<Longrightarrow> y \<notin> set (concat (take i xs)) \<and> y \<notin> set (concat (drop (Suc i) xs))"
      using d by auto
    ultimately show ?thesis by (metis UnI1 UnI2 set_concat UN_iff)
  qed
  with d assms(3) show ?thesis unfolding upd_conv_take_nth_drop [OF assms(1)] by auto
qed

lemma distinct_concat_apart:
  "distinct (concat xs) \<Longrightarrow> i < length xs \<Longrightarrow> j < length xs \<Longrightarrow> i \<noteq> j \<Longrightarrow> set (xs ! i) \<inter> set (xs ! j) = {}"
proof (induction xs arbitrary: i j)
  case (Cons x xs)
  have "set x \<inter> set (xs ! k) = {}" if "k < length xs" for k
    using Cons.prems(1) nth_mem [OF that] by auto
  then show ?case using Cons by (cases i; cases j) (auto simp: Int_commute)
qed simp

lemma lock_step_ok:
  assumes "locks_ok ths" "can_step i ths"
  shows "\<exists>ths'. lock_step i ths = Inr (Some ths') \<and> locks_ok ths'
    \<and> sum_list (map (length \<circ> snd) ths') < sum_list (map (length \<circ> snd) ths)"
proof -
  obtain held rest where th: "ths ! i = (held, rest)" by force
  have i: "i < length ths" using assms(2) by (simp add: can_step_def)
  then have mem: "(held, rest) \<in> set ths" using th nth_mem by metis
  have ok: "disciplined held rest" "distinct (concat (map fst ths))"
    using assms(1) mem by (auto simp: locks_ok_def)
  have dheld: "distinct held"
    using ok(2) mem by (metis distinct_concat_iff fst_conv image_eqI list.set_map)
  have less: "sum_list (map (length \<circ> snd) (ths[i := (h, r)])) < sum_list (map (length \<circ> snd) ths)"
    if "length rest = Suc (length r)" for h r
  proof -
    have "length rest \<le> sum_list (map (length \<circ> snd) ths)"
      using elem_le_sum_list [of i "map (length \<circ> snd) ths"] i th by simp
    with i th that show ?thesis by (simp add: map_update sum_list_update)
  qed
  have keep: "locks_ok (ths[i := (h, r)])"
    if "disciplined h r" "distinct h"
      "\<And>y x. y \<in> set h \<Longrightarrow> x \<in> set (map fst ths) \<Longrightarrow> y \<in> set x \<Longrightarrow> y \<in> set held" for h r
  proof -
    have "distinct (concat ((map fst ths)[i := h]))"
      by (rule distinct_concat_update) (use i ok(2) that(2,3) th in auto)
    moreover have "\<forall>th \<in> set (ths[i := (h, r)]). disciplined (fst th) (snd th)"
      using assms(1) that(1) set_update_subset_insert [of ths i "(h, r)"] by (auto simp: locks_ok_def)
    ultimately show ?thesis by (simp add: locks_ok_def map_update)
  qed
  from assms(2) th obtain oper r where rest: "rest = oper # r"
    by (cases rest) (auto simp: can_step_def)
  show ?thesis
  proof (cases oper)
    case (Acquire l)
    have free: "\<forall>th \<in> set ths. l \<notin> set (fst th)" using assms(2) th rest Acquire by (simp add: can_step_def)
    then have "l \<notin> set held" using mem by force
    then have "locks_ok (ths[i := (l # held, r)])"
      using ok(1) rest Acquire dheld free by (intro keep) auto
    with th rest Acquire less [of r] show ?thesis by (simp add: lock_step_def)
  next
    case (Release l)
    then obtain hs where held: "held = l # hs" "disciplined hs r"
      using ok(1) rest by (auto split: list.splits)
    have "locks_ok (ths[i := (hs, r)])" using held dheld by (intro keep) auto
    with th rest Release held less [of r] show ?thesis by (simp add: lock_step_def)
  next
    case (Touch x)
    have "locks_ok (ths[i := (held, r)])"
      using ok(1) rest Touch dheld by (intro keep) auto
    with th rest Touch less [of r] show ?thesis by (simp add: lock_step_def)
  qed
qed

interpretation lock_sys: guarded_machine lock_step can_step locks_ok
proof
  show "\<exists>r. lock_step i ths = Inr r" if "locks_ok ths" "can_step i ths" for ths i
    using lock_step_ok [OF that] by blast
  show "locks_ok ths'" if "locks_ok ths" "can_step i ths" "lock_step i ths = Inr (Some ths')" for ths i ths'
    using lock_step_ok [OF that(1,2)] that(3) by auto
qed

text \<open>Of the locks that are waited for, the holder of a highest one cannot wait.\<close>

lemma someone_steps:
  assumes "locks_ok ths" "th \<in> set ths" "\<not> thread_done th"
  shows "\<exists>i. can_step i ths"
proof (rule ccontr)
  assume stuck: "\<not> (\<exists>i. can_step i ths)"
  let ?W = "{l. \<exists>held r. (held, Acquire l # r) \<in> set ths}"
  have waits: "\<exists>l r. rest = Acquire l # r \<and> (\<exists>th \<in> set ths. l \<in> set (fst th))"
    if mem: "(held, rest) \<in> set ths" "\<not> thread_done (held, rest)" for held rest
  proof -
    obtain i where i: "i < length ths" "ths ! i = (held, rest)" using mem(1) by (auto simp: in_set_conv_nth)
    have "disciplined held rest" using assms(1) mem(1) by (auto simp: locks_ok_def)
    then have "rest \<noteq> []" using mem(2) by (auto simp: thread_done_def)
    moreover have "\<not> can_step i ths" using stuck by blast
    ultimately show ?thesis
      using i by (cases rest) (auto simp: can_step_def split: lock_op.splits)
  qed
  have "?W \<subseteq> \<Union> ((\<lambda>th. case snd th of Acquire l # _ \<Rightarrow> {l} | _ \<Rightarrow> {}) ` set ths)" by force
  then have fin: "finite ?W" by (rule finite_subset) (auto split: list.split lock_op.split)
  have "?W \<noteq> {}" using waits [of "fst th" "snd th"] assms(2,3) by (cases th) fastforce
  then have "Max (level ` ?W) \<in> level ` ?W" using fin by (intro Max_in) auto
  then obtain l where l: "Max (level ` ?W) = level l" "l \<in> ?W" by (rule imageE)
  have top: "level k \<le> level l" if "k \<in> ?W" for k unfolding l(1) [symmetric] using fin that by simp
  obtain held r where "(held, Acquire l # r) \<in> set ths" using l(2) by blast
  moreover from this have "\<exists>th \<in> set ths. l \<in> set (fst th)"
    using waits [of held "Acquire l # r"] by (simp add: thread_done_def)
  ultimately obtain held' rest' where h: "(held', rest') \<in> set ths" "l \<in> set held'" by force
  then have "\<not> thread_done (held', rest')" by (auto simp: thread_done_def)
  from waits [OF h(1) this] obtain k r' where k: "rest' = Acquire k # r'" by blast
  have "disciplined held' rest'" using assms(1) h(1) by (auto simp: locks_ok_def)
  then have "level l < level k" using k h(2) by simp
  moreover have "level k \<le> level l" by (rule top) (use h(1) k in blast)
  ultimately show False by simp
qed

lemma can_finish:
  "locks_ok ths \<Longrightarrow> \<exists>es ths'. runs lock_step can_step ths es ths' \<and> (\<forall>th \<in> set ths'. thread_done th)"
proof (induction "sum_list (map (length \<circ> snd) ths)" arbitrary: ths rule: less_induct)
  case less
  show ?case
  proof (cases "\<forall>th \<in> set ths. thread_done th")
    case True
    then show ?thesis by (intro exI [of _ "[]"] exI [of _ ths]) simp
  next
    case False
    then obtain i where i: "can_step i ths" using someone_steps less.prems by blast
    from lock_step_ok [OF less.prems i] obtain ths1 where
      1: "lock_step i ths = Inr (Some ths1)" "locks_ok ths1"
        "sum_list (map (length \<circ> snd) ths1) < sum_list (map (length \<circ> snd) ths)" by blast
    from less.hyps [OF 1(3,2)] obtain es ths' where
      2: "runs lock_step can_step ths1 es ths'" "\<forall>th \<in> set ths'. thread_done th" by blast
    have "runs lock_step can_step ths ([i] @ es) ths'"
      by (rule runs_trans [OF 2(1)], rule runs_one) (rule i, rule 1(1))
    with 2(2) show ?thesis by blast
  qed
qed

lemma threads_start_ok:
  assumes "list_all2 (\<lambda>k p. trace (thread_code k) p) ks ps"
  shows "locks_ok (map (Pair []) ps)"
proof -
  have "disciplined [] p" if p: "p \<in> set ps" for p
  proof -
    obtain i where "i < length ps" "p = ps ! i" using p by (auto simp: in_set_conv_nth)
    then have "trace (thread_code (ks ! i)) p" using assms by (simp add: list_all2_conv_all_nth)
    from trace_disciplined [OF this threads_ordered, of "[]" "[]"] threads_guarded show ?thesis by simp
  qed
  moreover have "distinct (concat (map (\<lambda>_. []) ps) :: lock list)" by (induction ps) simp_all
  ultimately show ?thesis by (simp add: locks_ok_def comp_def)
qed

section \<open>Threads at work\<close>

lemma trace_hold: "trace b t \<Longrightarrow> u = Acquire l # t @ [Release l] \<Longrightarrow> trace (Hold l b) u"
  using trace.hold by simp

lemma trace_seq: "trace a t \<Longrightarrow> trace b u \<Longrightarrow> v = t @ u \<Longrightarrow> trace (Seq a b) v"
  using trace.seq by simp

lemma trace_once: "trace (f k) t \<Longrightarrow> trace (Loop f) t"
  using trace.again [OF _ trace.done_all, of f k t] by simp

lemma trace_iterate:
  "trace (lk_iterate l body) [Acquire l, Touch (Head l), Release l]"
  unfolding lk_iterate_def by (rule trace_hold, rule trace_seq, rule trace.touch, rule trace.done_all) simp_all

lemma trace_visit:
  assumes "trace (body k) t" "u = Acquire l # Touch (Head l) # Touch (Nodes l) # t @ [Release l]"
  shows "trace (lk_iterate l body) u"
proof -
  have "trace (Seq (body k) (Optional (Seq (Use (Nodes l)) (Use (Head l))))) t"
    by (rule trace_seq [OF assms(1) trace.left [OF trace.skip]]) simp
  then have "trace (Seq (Use (Nodes l)) (Seq (body k) (Optional (Seq (Use (Nodes l)) (Use (Head l))))))
    (Touch (Nodes l) # t)" by (rule trace_seq [OF trace.touch]) simp
  then have "trace (Loop (\<lambda>k. Seq (Use (Nodes l)) (Seq (body k) (Optional (Seq (Use (Nodes l)) (Use (Head l)))))))
    (Touch (Nodes l) # t)" by (rule trace_once)
  then show ?thesis
    unfolding lk_iterate_def assms(2) by (intro trace_hold trace_seq [OF trace.touch]) simp_all
qed

definition session_pass :: "lock_op list" where
  "session_pass =
     [Acquire Sessions_List, Touch (Head Sessions_List), Touch (Nodes Sessions_List),
      Acquire (Destination_List 0), Touch (Head (Destination_List 0)), Release (Destination_List 0),
      Touch (Session_Fields 0), Release Sessions_List]"

definition destination_pass :: "lock_op list" where
  "destination_pass =
     [Touch (Session_State 0), Acquire (Session_Buffer 0), Touch (Session_Bytes 0),
      Touch (Session_Fill 0), Release (Session_Buffer 0),
      Acquire (Destination_List 0), Touch (Head (Destination_List 0)),
      Touch (Nodes (Destination_List 0)), Touch (Dest_State 7), Acquire (Destination_Buffer 7),
      Touch (Stream_Fill 7), Touch (Stream_Bytes 7), Release (Destination_Buffer 7),
      Release (Destination_List 0), Touch (Session_State 0)]"

lemma session_pass: "trace lk_session_thread_run session_pass"
proof -
  have "trace (lk_linkedList_item_count (Destination_List 0))
      [Acquire (Destination_List 0), Touch (Head (Destination_List 0)), Release (Destination_List 0)]"
    unfolding lk_linkedList_item_count_def by (rule trace_hold [OF trace.touch]) simp
  from trace.seq [OF this trace.right [OF trace.touch]] show ?thesis
    unfolding lk_session_thread_run_def session_pass_def
    by (intro trace_once [where k = 0] trace_visit [where k = 0]) simp_all
qed

lemma destination_pass: "trace (lk_destination_thread_run 0) destination_pass"
proof -
  have "trace (lk_destination_processHTTP 7)
      [Acquire (Destination_Buffer 7), Touch (Stream_Fill 7), Touch (Stream_Bytes 7),
       Release (Destination_Buffer 7)]"
    unfolding lk_destination_processHTTP_def lk_destination_addToBuffer_def
    by (rule trace_hold [OF trace.seq [OF trace.touch trace.touch]]) simp
  then have "trace (lk_destination_process 0) (take 9 (drop 5 destination_pass))"
    unfolding lk_destination_process_def
    by (intro trace_visit [where k = 7] trace_seq [OF trace.touch] trace.right [OF trace.right [OF trace.left]])
      (simp_all add: destination_pass_def)
  from trace.seq [OF trace.touch trace.seq [OF trace.hold [OF trace.seq [OF trace.touch trace.touch]] this]]
  show ?thesis
    unfolding lk_destination_thread_run_def
    by (intro trace_seq [OF trace_once [where k = 0] trace.touch]) (simp_all add: destination_pass_def)
qed

lemma two_threads:
  "list_all2 (\<lambda>k p. trace (thread_code k) p) [Session_Thread, Destination_Thread 0]
     [session_pass, destination_pass]"
  by (simp add: session_pass destination_pass)

section \<open>What two threads touch\<close>

text \<open>The next thing the thread does is to touch \<open>x\<close>.\<close>

definition touches :: "shared \<Rightarrow> thread \<Rightarrow> bool" where
  "touches x th \<longleftrightarrow> (case snd th of Touch y # _ \<Rightarrow> y = x | _ \<Rightarrow> False)"

lemma touches_held:
  assumes "locks_ok ths" "i < length ths" "touches x (ths ! i)" "guard x = Some l"
  shows "l \<in> set (fst (ths ! i))"
proof -
  have "disciplined (fst (ths ! i)) (snd (ths ! i))"
    using assms(1) nth_mem [OF assms(2)] by (simp add: locks_ok_def)
  with assms(3,4) show ?thesis
    by (auto simp: touches_def split: list.splits lock_op.splits)
qed

lemma locks_apart:
  assumes "locks_ok ths" "i < length ths" "j < length ths" "i \<noteq> j"
  shows "set (fst (ths ! i)) \<inter> set (fst (ths ! j)) = {}"
proof -
  have "distinct (concat (map fst ths))" using assms(1) by (simp add: locks_ok_def)
  from distinct_concat_apart [OF this, of i j] assms(2-4) show ?thesis by simp
qed

definition lookup_pass :: "lock_op list" where
  "lookup_pass =
     [Acquire (Frequency_List 0), Touch (Head (Frequency_List 0)), Touch (Nodes (Frequency_List 0)),
      Acquire (Channel_List 0 0), Touch (Head (Channel_List 0 0)), Touch (Nodes (Channel_List 0 0)),
      Touch (Channel_Ids 0 0), Release (Channel_List 0 0), Release (Frequency_List 0)]"

lemma lookup_pass: "trace (lk_find_channel 0) lookup_pass"
proof -
  have "trace (lk_iterate (Channel_List 0 0) (\<lambda>_. Use (Channel_Ids 0 0))) (take 5 (drop 3 lookup_pass))"
    by (rule trace_visit [OF trace.touch]) (simp add: lookup_pass_def)
  then show ?thesis
    unfolding lk_find_channel_def by (rule trace_visit) (simp add: lookup_pass_def)
qed

text \<open>
  A client of the web server gets a new session on tuner 0, which others use and which is tuned to the
  channel. It looks whether the tuner is used, at what it is tuned to, counts itself,
  and adds the filter of the channel.
\<close>

definition join_pass :: "lock_op list" where
  "join_pass =
     lookup_pass @ [Acquire Sessions_List, Touch (Head Sessions_List), Release Sessions_List]
     @ lookup_pass @ lookup_pass @ [Touch (Tuner_Use 0), Touch (Tuner_Setting 0)]"

definition count_pass :: "lock_op list" where
  "count_pass = [Touch (Tuner_Use 0), Acquire (Tuner_Lock 0), Touch (Pid_Slots 0), Release (Tuner_Lock 0)]"

definition enter_pass :: "lock_op list" where
  "enter_pass =
     [Acquire (Destination_List 1), Touch (Head (Destination_List 1)), Touch (Nodes (Destination_List 1)),
      Release (Destination_List 1), Acquire Sessions_List, Touch (Head Sessions_List),
      Touch (Nodes Sessions_List), Release Sessions_List]"

lemma append_pass:
  "trace (lk_linkedList_append l) [Acquire l, Touch (Head l), Touch (Nodes l), Release l]"
  unfolding lk_linkedList_append_def by (rule trace_hold, rule trace_seq, rule trace.touch, rule trace.touch) simp_all

lemma take_tuner_pass:
  "trace (lk_take_tuner 0) (lookup_pass @ lookup_pass @ [Touch (Tuner_Use 0), Touch (Tuner_Setting 0)] @ count_pass)"
proof -
  have "trace (lk_AddPID_to_Demux 0) (tl count_pass)"
    unfolding lk_AddPID_to_Demux_def by (rule trace_hold [OF trace.touch]) (simp add: count_pass_def)
  then have "trace (Seq (Use (Tuner_Use 0)) (lk_AddPID_to_Demux 0)) count_pass"
    by (rule trace_seq [OF trace.touch]) (simp add: count_pass_def)
  note counted = trace.right [OF trace.seq [OF trace.touch trace.right [OF this]]]
  show ?thesis
    unfolding lk_take_tuner_def
    by (rule trace_seq [OF lookup_pass], rule trace.right, rule trace_seq [OF lookup_pass],
        rule trace_seq [OF trace.touch], rule counted) simp_all
qed

lemma web_pass: "trace lk_ahc_echo (join_pass @ count_pass @ enter_pass)"
proof -
  have "trace (Some_of (\<lambda>s. Optional (lk_linkedList_append (Destination_List s)))) (take 4 enter_pass)"
    using trace.some_of [where k = 1, OF trace.right [OF append_pass]] by (simp add: enter_pass_def)
  then have "trace (Seq (Some_of (\<lambda>s. Optional (lk_linkedList_append (Destination_List s))))
      (lk_linkedList_append Sessions_List)) enter_pass"
    by (rule trace_seq [OF _ append_pass]) (simp add: enter_pass_def)
  note taken = trace.right [OF trace.seq [OF trace_once [where f = lk_take_tuner, OF take_tuner_pass] trace.right [OF this]]]
  have "trace lk_session_addNew (join_pass @ count_pass @ enter_pass)"
    unfolding lk_session_addNew_def
    by (rule trace_seq [OF trace_once [where f = lk_find_channel, OF lookup_pass]], rule trace.right,
        rule trace_seq [OF trace.left [OF trace.skip]], rule trace_seq [OF trace_iterate], rule taken)
      (simp_all add: join_pass_def)
  then show ?thesis
    unfolding lk_ahc_echo_def
    by (rule trace_seq [OF trace.right trace.left [OF trace.skip]]) simp
qed

text \<open>The session thread ends a session of that tuner that has no destinations left.\<close>

definition look_pass :: "lock_op list" where
  "look_pass = take 6 session_pass @ [Touch (Session_Fields 0)]"

definition end_pass :: "lock_op list" where
  "end_pass =
     [Touch (Pid_Slots 0), Touch (Tuner_Use 0), Touch (Session_Fill 0), Touch (Session_State 0),
      Touch (Tuner_Use 0), Touch (Head (Destination_List 0)), Touch (Freed (Head (Destination_List 0))),
      Touch (Freed (Session_Bytes 0)),
      Touch (Freed (Session_State 0)), Touch (Freed (Session_Fields 0)), Release Sessions_List]"

lemma reap_pass: "trace lk_session_thread_run (look_pass @ end_pass)"
proof -
  have "trace (Loop (\<lambda>_. Seq (Optional (Use (Session_Fields 0))) (lk_removePID_from_Demux 0)))
      [Touch (Session_Fields 0), Touch (Pid_Slots 0)]"
    unfolding lk_removePID_from_Demux_def
    by (rule trace_once, rule trace_seq [OF trace.right [OF trace.touch] trace.touch]) simp
  from trace.seq [OF this trace.seq [OF trace.touch trace.seq [OF trace.touch trace.touch]]]
  have "trace (lk_end_session 0 0) (Touch (Session_Fields 0) # take 4 end_pass)"
    unfolding lk_end_session_def by (simp add: end_pass_def)
  from trace.seq [OF this trace.seq [OF trace.touch trace.seq [OF trace.seq [OF trace.touch trace.right [OF trace.touch]]
      trace.seq [OF trace.touch trace.seq [OF trace.touch trace.touch]]]]]
  have "trace (Seq (lk_end_session 0 0) (Seq (Use (Tuner_Use 0)) (Seq (lk_linkedList_destroy (Destination_List 0))
      (Seq (Use (Freed (Session_Bytes 0))) (lk_free_session 0))))) (Touch (Session_Fields 0) # take 10 end_pass)"
    unfolding lk_linkedList_destroy_def lk_free_session_def by (simp add: end_pass_def)
  note ended = trace.left [OF trace.some_of [where f = "\<lambda>t. Seq (lk_end_session t 0) (Seq (Use (Tuner_Use t))
      (Seq (lk_linkedList_destroy (Destination_List 0)) (Seq (Use (Freed (Session_Bytes 0))) (lk_free_session 0))))",
    OF this]]
  have "trace (lk_linkedList_item_count (Destination_List 0)) (take 3 (drop 3 look_pass))"
    unfolding lk_linkedList_item_count_def
    by (rule trace_hold [OF trace.touch]) (simp add: look_pass_def session_pass_def)
  from trace.seq [OF this ended] show ?thesis
    unfolding lk_session_thread_run_def
    by (intro trace_once [where k = 0] trace_visit [where k = 0])
      (simp_all add: look_pass_def session_pass_def end_pass_def)
qed

text \<open>A web client fetches from the buffer of its stream and hangs up.\<close>

definition fetch_pass :: "lock_op list" where
  "fetch_pass =
     [Touch (Dest_State 7), Acquire (Destination_Buffer 7), Touch (Stream_Fill 7), Touch (Stream_Bytes 7),
      Release (Destination_Buffer 7), Touch (Dest_State 7)]"

lemma fetch_pass: "trace lk_ahc_echo fetch_pass"
proof -
  have "trace (lk_destination_getDatafromBuffer 7) (take 5 fetch_pass)"
    unfolding lk_destination_getDatafromBuffer_def
    by (rule trace_seq [OF trace.touch trace.right [OF trace.hold [OF trace.seq [OF trace.touch trace.touch]]]])
      (simp add: fetch_pass_def)
  from trace.seq [OF trace_once [where f = "\<lambda>_. lk_destination_getDatafromBuffer 7", OF this] trace.touch]
  have "trace (Seq (Loop (\<lambda>_. lk_destination_getDatafromBuffer 7)) (Use (Dest_State 7))) fetch_pass"
    by (simp add: fetch_pass_def)
  from trace.some_of [where f = "\<lambda>d. Seq (Loop (\<lambda>_. lk_destination_getDatafromBuffer d)) (Use (Dest_State d))", OF this]
  show ?thesis
    unfolding lk_ahc_echo_def by (rule trace_seq [OF trace.left [OF trace.skip] trace.right]) simp
qed

text \<open>Somebody stops the session of this stream from the console.\<close>

definition close_pass :: "lock_op list" where
  "close_pass =
     [Acquire (Destination_List 0), Touch (Head (Destination_List 0)), Touch (Nodes (Destination_List 0)),
      Touch (Dest_State 7), Touch (Freed (Stream_Bytes 7)), Touch (Freed (Dest_State 7)),
      Release (Destination_List 0)]"

definition stop_pass :: "lock_op list" where
  "stop_pass =
     [Acquire Users_List, Touch (Head Users_List), Touch (Nodes Users_List),
      Acquire Commands_List, Touch (Head Commands_List), Touch (Nodes Commands_List),
      Acquire Sessions_List, Touch (Head Sessions_List), Touch (Nodes Sessions_List),
      Touch (Session_Fields 0), Touch (Tuner_Use 0), Touch (Session_Fill 0), Touch (Session_State 0),
      Touch (Freed (Session_Bytes 0)), Touch (Tuner_Use 0), Touch (Freed (Session_State 0)),
      Touch (Freed (Session_Fields 0)), Release Sessions_List]
     @ close_pass @ [Touch (Head (Destination_List 0)), Release Commands_List, Release Users_List]"

lemma close_pass: "trace (lk_destination_close_all 0) close_pass"
proof -
  have "trace (Seq (Use (Dest_State 7)) (lk_destination_destroy 0 7)) (take 3 (drop 3 close_pass))"
    unfolding lk_destination_destroy_def
    by (rule trace_seq [OF trace.touch trace.seq [OF trace.left [OF trace.touch] trace.touch]])
      (simp add: close_pass_def)
  then show ?thesis
    unfolding lk_destination_close_all_def by (rule trace_visit) (simp add: close_pass_def)
qed

lemma stop_pass: "trace lk_socketserver_main_thread stop_pass"
proof -
  let ?ends = "\<lambda>t. Seq (lk_end_session t 0)
      (Seq (Use (Freed (Session_Bytes 0))) (Seq (Use (Tuner_Use t)) (lk_free_session 0)))"
  have "trace (lk_end_session 0 0) (take 3 (drop 10 stop_pass))"
    unfolding lk_end_session_def
    by (rule trace_seq [OF trace.done_all trace.seq [OF trace.touch trace.seq [OF trace.touch trace.touch]]])
      (simp add: stop_pass_def)
  from trace.seq [OF this trace.seq [OF trace.touch trace.seq [OF trace.touch trace.seq [OF trace.touch trace.touch]]]]
  have "trace (?ends 0) (take 7 (drop 10 stop_pass))"
    unfolding lk_free_session_def by (simp add: stop_pass_def)
  from trace.seq [OF trace.touch trace.right [OF trace.some_of [where f = ?ends, OF this]]]
  have "trace (lk_iterate Sessions_List (\<lambda>s. Seq (Use (Session_Fields s)) (Optional (Some_of (\<lambda>t.
           Seq (lk_end_session t s)
             (Seq (Use (Freed (Session_Bytes s))) (Seq (Use (Tuner_Use t)) (lk_free_session s))))))))
      (take 12 (drop 6 stop_pass))"
    by (intro trace_visit [where k = 0]) (simp_all add: stop_pass_def)
  moreover have "trace (Optional (Some_of (\<lambda>s. Seq (lk_destination_close_all s)
      (lk_linkedList_destroy (Destination_List s))))) (close_pass @ [Touch (Head (Destination_List 0))])"
    using trace.seq [OF close_pass trace.seq [OF trace.touch trace.left [OF trace.skip]]]
    by (intro trace.right trace.some_of [where k = 0]) (simp add: lk_linkedList_destroy_def)
  ultimately have "trace lk_session_stop (take 20 (drop 6 stop_pass))"
    unfolding lk_session_stop_def by (rule trace_seq) (simp add: stop_pass_def close_pass_def)
  then have "trace (lk_handler 2) (take 20 (drop 6 stop_pass))"
    by (simp add: lk_handler_def trace.right)
  from trace.right [OF trace.some_of [where f = lk_handler, OF this]]
  have "trace lk_telnet_dispatchCommand (take 24 (drop 3 stop_pass))"
    unfolding lk_telnet_dispatchCommand_def by (rule trace_visit) (simp add: stop_pass_def close_pass_def)
  from trace.seq [OF trace.left [OF trace.skip] trace.right [OF this]]
  have "trace (Loop (\<lambda>_. Seq (Optional lk_telnet_command_help) (Optional lk_telnet_dispatchCommand)))
      (take 24 (drop 3 stop_pass))"
    by (intro trace_once [where k = 0]) simp
  then have "trace lk_telnet_process stop_pass"
    unfolding lk_telnet_process_def by (rule trace_visit) (simp add: stop_pass_def close_pass_def)
  from trace.seq [OF trace.right [OF this] trace.left [OF trace.skip]] show ?thesis
    unfolding lk_socketserver_main_thread_def by (intro trace_once [where k = 0] trace.right) simp
qed

section \<open>One thread runs while the others stand still\<close>

text \<open>The locks a thread that holds \<open>held\<close> holds after the operations.\<close>

fun held_after :: "lock list \<Rightarrow> lock_op list \<Rightarrow> lock list" where
  "held_after held [] = held"
| "held_after held (Acquire l # r) = held_after (l # held) r"
| "held_after held (Release l # r) = held_after (remove1 l held) r"
| "held_after held (Touch x # r) = held_after held r"

text \<open>It takes no lock of \<open>taken\<close> nor one it holds, and gives back only what it holds.\<close>

fun runs_free :: "lock set \<Rightarrow> lock list \<Rightarrow> lock_op list \<Rightarrow> bool" where
  "runs_free taken held [] \<longleftrightarrow> True"
| "runs_free taken held (Acquire l # r) \<longleftrightarrow> l \<notin> taken \<and> l \<notin> set held \<and> runs_free taken (l # held) r"
| "runs_free taken held (Release l # r) \<longleftrightarrow> l \<in> set held \<and> runs_free taken (remove1 l held) r"
| "runs_free taken held (Touch x # r) \<longleftrightarrow> runs_free taken held r"

lemma runs_alone:
  "i < length ths \<Longrightarrow> ths ! i = (held, ops @ r) \<Longrightarrow> runs_free taken held ops
   \<Longrightarrow> \<forall>j. j < length ths \<longrightarrow> j \<noteq> i \<longrightarrow> set (fst (ths ! j)) \<subseteq> taken
   \<Longrightarrow> \<exists>es. runs lock_step can_step ths es (ths[i := (held_after held ops, r)])"
proof (induction taken held ops arbitrary: ths rule: runs_free.induct)
  case (1 taken held)
  then have "ths[i := (held, r)] = ths" by (metis append_Nil list_update_id)
  then show ?case by (intro exI [of _ "[]"]) simp
next
  case (2 taken held l ops)
  let ?ths = "ths[i := (l # held, ops @ r)]"
  have "l \<notin> set (fst (ths ! j))" if "j < length ths" for j
    using 2(3-5) that by (cases "j = i") auto
  then have "\<forall>th \<in> set ths. l \<notin> set (fst th)" by (simp add: all_set_conv_all_nth)
  then have "can_step i ths" "lock_step i ths = Inr (Some ?ths)"
    using 2(2,3) by (simp_all add: can_step_def lock_step_def)
  moreover have "\<exists>es. runs lock_step can_step ?ths es (?ths[i := (held_after (l # held) ops, r)])"
    by (rule "2.IH") (use 2(2-5) in simp_all)
  ultimately show ?case by (auto intro: runs_Cons)
next
  case (3 taken held l ops)
  let ?ths = "ths[i := (remove1 l held, ops @ r)]"
  have "can_step i ths" "lock_step i ths = Inr (Some ?ths)"
    using 3(2-4) by (simp_all add: can_step_def lock_step_def)
  moreover have "\<exists>es. runs lock_step can_step ?ths es (?ths[i := (held_after (remove1 l held) ops, r)])"
    by (rule "3.IH") (use 3(2-5) in simp_all)
  ultimately show ?case by (auto intro: runs_Cons)
next
  case (4 taken held x ops)
  let ?ths = "ths[i := (held, ops @ r)]"
  have "can_step i ths" "lock_step i ths = Inr (Some ?ths)"
    using 4(2-4) by (simp_all add: can_step_def lock_step_def)
  moreover have "\<exists>es. runs lock_step can_step ?ths es (?ths[i := (held_after held ops, r)])"
    by (rule "4.IH") (use 4(2-5) in simp_all)
  ultimately show ?case by (auto intro: runs_Cons)
qed

lemma two_run:
  assumes "runs_free {} [] a" "runs_free (set (held_after [] a)) [] b"
  shows "\<exists>es. runs lock_step can_step (map (Pair []) [a @ p, b @ q]) es
    [(held_after [] a, p), (held_after [] b, q)]"
proof -
  have "\<exists>es. runs lock_step can_step [([], a @ p), ([], b @ q)] es [(held_after [] a, p), ([], b @ q)]"
    using runs_alone [of 0 "[([], a @ p), ([], b @ q)]" "[]" a p "{}"] assms(1)
    by (simp add: less_Suc_eq)
  moreover have "\<exists>es. runs lock_step can_step [(held_after [] a, p), ([], b @ q)] es
      [(held_after [] a, p), (held_after [] b, q)]"
    using runs_alone [of 1 "[(held_after [] a, p), ([], b @ q)]" "[]" b q "set (held_after [] a)"] assms(2)
    by (simp add: less_Suc_eq)
  ultimately show ?thesis using runs_trans by fastforce
qed

section \<open>What has no mutex is raced for\<close>

lemmas pass_defs =
  lookup_pass_def join_pass_def count_pass_def enter_pass_def look_pass_def end_pass_def session_pass_def
  fetch_pass_def close_pass_def stop_pass_def destination_pass_def

text \<open>Two clients that count themselves users of one tuner at once: a count may be lost.\<close>

lemma users_raced:
  "\<exists>ks ps es ths. list_all2 (\<lambda>k p. trace (thread_code k) p) ks ps
    \<and> runs lock_step can_step (map (Pair []) ps) es ths \<and> length ths = 2
    \<and> touches (Tuner_Use 0) (ths ! 0) \<and> touches (Tuner_Use 0) (ths ! 1)"
proof -
  let ?ps = "[join_pass @ count_pass @ enter_pass, join_pass @ count_pass @ enter_pass]"
  let ?ths = "[([], count_pass @ enter_pass), ([], count_pass @ enter_pass)]"
  obtain es where "runs lock_step can_step (map (Pair []) ?ps) es ?ths"
    using two_run [of join_pass join_pass "count_pass @ enter_pass" "count_pass @ enter_pass"]
    by (auto simp: pass_defs)
  moreover have "list_all2 (\<lambda>k p. trace (thread_code k) p) [Web_Thread, Web_Thread] ?ps"
    by (simp add: web_pass)
  moreover have "touches (Tuner_Use 0) (?ths ! 0)" "touches (Tuner_Use 0) (?ths ! 1)"
    by (simp_all add: touches_def count_pass_def)
  ultimately show ?thesis by (metis length_Cons list.size(3) numeral_2_eq_2)
qed

text \<open>
  A client that adds a filter to a tuner, under the tuner's mutex, while the session thread takes one
  away, with no mutex but the list of sessions.
\<close>

lemma filters_raced:
  "\<exists>ks ps es ths. list_all2 (\<lambda>k p. trace (thread_code k) p) ks ps
    \<and> runs lock_step can_step (map (Pair []) ps) es ths \<and> length ths = 2
    \<and> touches (Pid_Slots 0) (ths ! 0) \<and> touches (Pid_Slots 0) (ths ! 1)
    \<and> Tuner_Lock 0 \<in> set (fst (ths ! 0))"
proof -
  let ?ps = "[join_pass @ count_pass @ enter_pass, look_pass @ end_pass]"
  let ?ths = "[([Tuner_Lock 0], drop 2 count_pass @ enter_pass), ([Sessions_List], end_pass)]"
  obtain es where "runs lock_step can_step (map (Pair []) ?ps) es ?ths"
    using two_run [of "join_pass @ take 2 count_pass" look_pass "drop 2 count_pass @ enter_pass" end_pass]
    by (auto simp: pass_defs)
  moreover have "list_all2 (\<lambda>k p. trace (thread_code k) p) [Web_Thread, Session_Thread] ?ps"
    by (simp add: web_pass reap_pass)
  moreover have "touches (Pid_Slots 0) (?ths ! 0)" "touches (Pid_Slots 0) (?ths ! 1)"
      "Tuner_Lock 0 \<in> set (fst (?ths ! 0))"
    by (simp_all add: touches_def count_pass_def end_pass_def)
  ultimately show ?thesis by (metis length_Cons list.size(3) numeral_2_eq_2)
qed

text \<open>
  The session thread frees the buffer of a session while the session's own thread, which holds its
  mutex, copies it.
\<close>

lemma session_buffer_freed:
  "\<exists>ks ps es ths. list_all2 (\<lambda>k p. trace (thread_code k) p) ks ps
    \<and> runs lock_step can_step (map (Pair []) ps) es ths \<and> length ths = 2
    \<and> touches (Freed (Session_Bytes 0)) (ths ! 0) \<and> touches (Session_Bytes 0) (ths ! 1)
    \<and> Session_Buffer 0 \<in> set (fst (ths ! 1))"
proof -
  let ?ps = "[look_pass @ end_pass, destination_pass]"
  let ?ths = "[([Sessions_List], drop 7 end_pass), ([Session_Buffer 0], drop 2 destination_pass)]"
  obtain es where "runs lock_step can_step (map (Pair []) ?ps) es ?ths"
    using two_run [of "look_pass @ take 7 end_pass" "take 2 destination_pass" "drop 7 end_pass" "drop 2 destination_pass"]
    by (auto simp: pass_defs)
  moreover have "list_all2 (\<lambda>k p. trace (thread_code k) p) [Session_Thread, Destination_Thread 0] ?ps"
    by (simp add: reap_pass destination_pass)
  moreover have "touches (Freed (Session_Bytes 0)) (?ths ! 0)" "touches (Session_Bytes 0) (?ths ! 1)"
      "Session_Buffer 0 \<in> set (fst (?ths ! 1))"
    by (simp_all add: touches_def pass_defs)
  ultimately show ?thesis by (metis length_Cons list.size(3) numeral_2_eq_2)
qed

text \<open>A stop from the console frees the buffer of a stream while its client, with the mutex, copies it.\<close>

lemma stream_buffer_freed:
  "\<exists>ks ps es ths. list_all2 (\<lambda>k p. trace (thread_code k) p) ks ps
    \<and> runs lock_step can_step (map (Pair []) ps) es ths \<and> length ths = 2
    \<and> touches (Freed (Stream_Bytes 7)) (ths ! 0) \<and> touches (Stream_Bytes 7) (ths ! 1)
    \<and> Destination_Buffer 7 \<in> set (fst (ths ! 1))"
proof -
  let ?ps = "[stop_pass, fetch_pass]"
  let ?ths = "[([Destination_List 0, Commands_List, Users_List], drop 22 stop_pass),
    ([Destination_Buffer 7], drop 3 fetch_pass)]"
  obtain es where "runs lock_step can_step (map (Pair []) ?ps) es ?ths"
    using two_run [of "take 22 stop_pass" "take 3 fetch_pass" "drop 22 stop_pass" "drop 3 fetch_pass"]
    by (auto simp: pass_defs)
  moreover have "list_all2 (\<lambda>k p. trace (thread_code k) p) [Telnet_Thread, Web_Thread] ?ps"
    by (simp add: stop_pass fetch_pass)
  moreover have "touches (Freed (Stream_Bytes 7)) (?ths ! 0)" "touches (Stream_Bytes 7) (?ths ! 1)"
      "Destination_Buffer 7 \<in> set (fst (?ths ! 1))"
    by (simp_all add: touches_def pass_defs)
  ultimately show ?thesis by (metis length_Cons list.size(3) numeral_2_eq_2)
qed

section \<open>Properties\<close>

text \<open>
  C8. The threads of the program never deadlock: whatever number of them runs, whichever way
  their branches go and however they are scheduled, no two hold the same mutex, none gives back
  a mutex it does not hold, and every state they reach can be run on until all of them
  are done. No thread asks for a mutex it holds itself.
\<close>

theorem threads_never_deadlock:
  assumes "list_all2 (\<lambda>k p. trace (thread_code k) p) ks ps"
    and "runs lock_step can_step (map (Pair []) ps) is ths"
  shows "distinct (concat (map fst ths)) \<and> (\<forall>i. \<not> can_step i ths \<or> \<not> isl (lock_step i ths))
    \<and> (\<exists>es ths'. runs lock_step can_step ths es ths' \<and> (\<forall>th \<in> set ths'. thread_done th))"
proof -
  have ok: "locks_ok ths" by (rule lock_sys.reachable_inv [OF assms(2) threads_start_ok [OF assms(1)]])
  then have "distinct (concat (map fst ths))" by (simp add: locks_ok_def)
  moreover have "\<not> can_step i ths \<or> \<not> isl (lock_step i ths)" for i
    using lock_sys.no_fault [OF ok, of i] by auto
  ultimately show ?thesis using can_finish [OF ok] by blast
qed

text \<open>The session thread and a destination thread, with one session that has one destination.\<close>

lemma threads_never_deadlock_witness:
  "\<exists>es ths'. runs lock_step can_step [([], session_pass), ([], destination_pass)] es ths'
    \<and> (\<forall>th \<in> set ths'. thread_done th)"
  using threads_never_deadlock [OF two_threads, of "[]"] by simp

text \<open>
  C9. Data that every use takes the same mutex for (\<open>guard\<close>) are never raced for: in every state the threads
  of the program reach, a thread about to touch the nodes of a list, PIDs, counters or identity of a
  session, a socket's buffer or a channel's ids, to copy to or from the buffer of a session or a stream, or to
  free a session or a socket's buffer, holds that mutex, and no other thread is about to touch anything with the
  same mutex. This is not so for how full buffers are, for the filters, users and setting of a tuner, for
  the states of sessions and destinations, the names of channels, the heads of the lists of destinations and
  the write time, nor does it keep anybody from freeing the buffer of a session or of a stream, which happens
  without its mutex.
\<close>

theorem guarded_data_never_raced:
  assumes "list_all2 (\<lambda>k p. trace (thread_code k) p) ks ps"
    and "runs lock_step can_step (map (Pair []) ps) is ths"
    and "i < length ths" "touches x (ths ! i)" "guard x = Some l"
  shows "l \<in> set (fst (ths ! i))
    \<and> (\<forall>j y. \<not> (j < length ths \<and> j \<noteq> i \<and> touches y (ths ! j) \<and> guard y = Some l))"
proof -
  have ok: "locks_ok ths" by (rule lock_sys.reachable_inv [OF assms(2) threads_start_ok [OF assms(1)]])
  have held: "l \<in> set (fst (ths ! i))" by (rule touches_held [OF ok assms(3-5)])
  have "\<not> touches y (ths ! j)" if j: "j < length ths" "j \<noteq> i" "guard y = Some l" for j y
    using touches_held [OF ok j(1) _ j(3)] locks_apart [OF ok assms(3) j(1) j(2) [symmetric]] held by blast
  with held show ?thesis by blast
qed

text \<open>
  A destination thread is about to write to the buffer of a stream, and the client of the stream, whose next steps
  are to take the mutex and to read from this buffer, waits.
\<close>

lemma guarded_data_never_raced_witness:
  "\<exists>es ths. list_all2 (\<lambda>k p. trace (thread_code k) p) [Destination_Thread 0, Web_Thread] [destination_pass, fetch_pass]
    \<and> runs lock_step can_step (map (Pair []) [destination_pass, fetch_pass]) es ths \<and> length ths = 2
    \<and> touches (Stream_Bytes 7) (ths ! 0) \<and> guard (Stream_Bytes 7) = Some (Destination_Buffer 7)
    \<and> Destination_Buffer 7 \<in> set (fst (ths ! 0)) \<and> \<not> touches (Stream_Bytes 7) (ths ! 1)
    \<and> take 3 (snd (ths ! 1)) = [Acquire (Destination_Buffer 7), Touch (Stream_Fill 7), Touch (Stream_Bytes 7)]
    \<and> \<not> can_step 1 ths"
proof -
  let ?ps = "[destination_pass, fetch_pass]"
  let ?ths = "[([Destination_Buffer 7, Destination_List 0], drop 11 destination_pass), ([], drop 1 fetch_pass)]"
  have k: "list_all2 (\<lambda>k p. trace (thread_code k) p) [Destination_Thread 0, Web_Thread] ?ps"
    by (simp add: destination_pass fetch_pass)
  obtain es where es: "runs lock_step can_step (map (Pair []) ?ps) es ?ths"
    using two_run [of "take 11 destination_pass" "take 1 fetch_pass" "drop 11 destination_pass" "drop 1 fetch_pass"]
    by (auto simp: pass_defs)
  have t: "touches (Stream_Bytes 7) (?ths ! 0)" by (simp add: touches_def pass_defs)
  from guarded_data_never_raced [OF k es _ t] have
    "Destination_Buffer 7 \<in> set (fst (?ths ! 0))" "\<not> touches (Stream_Bytes 7) (?ths ! 1)"
    by (auto dest!: spec [of _ 1])
  moreover have "take 3 (snd (?ths ! 1)) = [Acquire (Destination_Buffer 7), Touch (Stream_Fill 7), Touch (Stream_Bytes 7)]"
    "\<not> can_step 1 ?ths"
    by (simp_all add: fetch_pass_def can_step_def)
  ultimately show ?thesis using k es t by (intro exI [of _ es] exI [of _ ?ths]) simp
qed

end
