(* ===== verification/Dictionary.thy ===== *)
theory Dictionary
  imports Prelude
begin

text \<open>
  The string dictionary of \<^verbatim>\<open>src/DVB/dictionary.c\<close>: three parallel arrays of \<open>size\<close> slots,
  searched linearly, with a free slot looked for from position \<open>n\<close> on, around the end of
  the arrays. A null array (a failed \<^verbatim>\<open>calloc\<close>) is the empty list. Allocations succeed or
  fail as the argument \<open>mem\<close> says, and \<open>sc\<close> says whether \<^verbatim>\<open>char\<close> is signed, on which the hash
  depends. The numbers of slots stay far below the limits of \<^verbatim>\<open>int\<close> and are natural numbers.

  The lemmas relate every operation to a partial map; the locale \<open>string_map\<close> states that
  contract, proves what a client that sets many keys gets from it, and is interpreted on
  the operations here.
\<close>

named_theorems dict_simps "unfolding rules for the dictionary operations"

section \<open>State\<close>

record dictionary =
  d_n :: nat
  d_size :: nat
  d_val :: "string option list"
  d_key :: "string option list"
  d_hash :: "u32 list"

text \<open>
  A \<^verbatim>\<open>char *\<close> that is handed back: null, the marker \<^verbatim>\<open>(char *)-1\<close> of \<^verbatim>\<open>DICT_INVALID_KEY\<close> and
  \<^verbatim>\<open>INI_INVALID_KEY\<close>, or a string.
\<close>

datatype cptr = Null | Invalid | Str string

definition ptr_of :: "string option \<Rightarrow> cptr" where
  "ptr_of v = (case v of None \<Rightarrow> Null | Some s \<Rightarrow> Str s)"

text \<open>The allocations of \<^verbatim>\<open>dictionary_new\<close> and \<^verbatim>\<open>dictionary_set\<close>.\<close>

datatype dict_alloc = AllocDict | AllocVal | AllocKey | AllocHash | DupKey | DupVal

definition DICTMINSZ :: nat where
  "DICTMINSZ = 128"

text \<open>Reading an array; writing happens only at positions that were read before.\<close>

definition rd :: "'a list \<Rightarrow> nat \<Rightarrow> 'a res" where
  "rd xs i = (if xs = [] then Inl NullPointer
              else if i < length xs then Inr (xs ! i) else Inl Overrun)"

definition wr :: "'a list \<Rightarrow> nat \<Rightarrow> 'a \<Rightarrow> 'a list res" where
  "wr xs i x = (if xs = [] then Inl NullPointer
                else if i < length xs then Inr (xs[i := x]) else Inl Overrun)"

section \<open>Operations\<close>

text \<open>The copy into twice the space is zeroed beyond the old contents.\<close>

definition mem_double :: "bool \<Rightarrow> 'a \<Rightarrow> 'a list \<Rightarrow> 'a list" where
  "mem_double ok zero xs = (if ok then xs @ replicate (length xs) zero else [])"

definition xstrdup :: "bool \<Rightarrow> string option \<Rightarrow> string option" where
  "xstrdup ok s = (case s of None \<Rightarrow> None | Some t \<Rightarrow> if ok then Some t else None)"

text \<open>\<^verbatim>\<open>(unsigned)c\<close>: a signed \<^verbatim>\<open>char\<close> from 128 on is sign extended.\<close>

definition char_u32 :: "bool \<Rightarrow> char \<Rightarrow> u32" where
  "char_u32 sc c =
     (if sc \<and> 128 \<le> code_of c then of_nat (code_of c) - 256 else of_nat (code_of c))"

definition hash_step :: "bool \<Rightarrow> u32 \<Rightarrow> char \<Rightarrow> u32" where
  "hash_step sc hash c =
     (let h1 = hash + char_u32 sc c;
          h2 = h1 + push_bit 10 h1
      in h2 XOR drop_bit 6 h2)"

definition dictionary_hash :: "bool \<Rightarrow> string \<Rightarrow> u32" where
  "dictionary_hash sc key =
     (let hash = foldl (hash_step sc) 0 key;
          h1 = hash + push_bit 3 hash;
          h2 = h1 XOR drop_bit 11 h1
      in h2 + push_bit 15 h2)"

definition dictionary_new :: "(dict_alloc \<Rightarrow> bool) \<Rightarrow> int \<Rightarrow> dictionary option" where
  "dictionary_new mem size0 =
     (let sz = (if size0 < int DICTMINSZ then DICTMINSZ else nat size0) in
      if \<not> mem AllocDict then None
      else Some \<lparr>d_n = 0, d_size = sz,
                 d_val = (if mem AllocVal then replicate sz None else []),
                 d_key = (if mem AllocKey then replicate sz None else []),
                 d_hash = (if mem AllocHash then replicate sz 0 else [])\<rparr>)"

text \<open>
  The search shared by \<^verbatim>\<open>dictionary_get\<close>, \<^verbatim>\<open>dictionary_set\<close> and \<^verbatim>\<open>dictionary_unset\<close>: the first slot
  from \<open>i\<close> on with the hash and the key.
\<close>

function find_slot :: "dictionary \<Rightarrow> string \<Rightarrow> u32 \<Rightarrow> nat \<Rightarrow> nat option res" where
  "find_slot d key hash i =
     (if d_size d \<le> i then Inr None
      else bind_res (rd (d_key d) i) (\<lambda>k.
        case k of
          None \<Rightarrow> find_slot d key hash (Suc i)
        | Some k' \<Rightarrow>
            bind_res (rd (d_hash d) i) (\<lambda>h'.
              if hash = h' \<and> key = k' then Inr (Some i)
              else find_slot d key hash (Suc i))))"
  by pat_completeness auto
termination by (relation "measure (\<lambda>(d, _, _, i). d_size d - i)") auto

declare find_slot.simps [simp del]

definition dictionary_get ::
  "bool \<Rightarrow> dictionary \<Rightarrow> string \<Rightarrow> cptr \<Rightarrow> cptr res" where
  "dictionary_get sc d key def =
     bind_res (find_slot d key (dictionary_hash sc key) 0) (\<lambda>r.
       case r of
         None \<Rightarrow> Inr def
       | Some i \<Rightarrow> bind_res (rd (d_val d) i) (\<lambda>v. Inr (ptr_of v)))"

text \<open>The search for an empty slot may go round forever when there is none.\<close>

partial_function (option) free_slot :: "dictionary \<Rightarrow> nat \<Rightarrow> nat res option" where
  "free_slot d i =
     (case rd (d_key d) i of
        Inl e \<Rightarrow> Some (Inl e)
      | Inr None \<Rightarrow> Some (Inr i)
      | Inr (Some _) \<Rightarrow> free_slot d (if Suc i = d_size d then 0 else Suc i))"

definition grow :: "(dict_alloc \<Rightarrow> bool) \<Rightarrow> dictionary \<Rightarrow> bool \<times> dictionary" where
  "grow mem d =
     (if d_n d = d_size d then
        let d1 = d\<lparr>d_val := mem_double (mem AllocVal) None (d_val d),
                   d_key := mem_double (mem AllocKey) None (d_key d),
                   d_hash := mem_double (mem AllocHash) 0 (d_hash d)\<rparr> in
        if d_val d1 = [] \<or> d_key d1 = [] \<or> d_hash d1 = [] then (False, d1)
        else (True, d1\<lparr>d_size := 2 * d_size d1\<rparr>)
      else (True, d))"

definition insert_at ::
  "bool \<Rightarrow> (dict_alloc \<Rightarrow> bool) \<Rightarrow> dictionary \<Rightarrow> string \<Rightarrow> string option \<Rightarrow> nat
   \<Rightarrow> dictionary res" where
  "insert_at sc mem d key val i =
     bind_res (wr (d_key d) i (xstrdup (mem DupKey) (Some key))) (\<lambda>ks.
     bind_res (wr (d_val d) i (xstrdup (mem DupVal) val)) (\<lambda>vs.
     bind_res (wr (d_hash d) i (dictionary_hash sc key)) (\<lambda>hs.
       Inr (d\<lparr>d_key := ks, d_val := vs, d_hash := hs, d_n := Suc (d_n d)\<rparr>))))"

text \<open>Returns the code's result and the dictionary; \<open>None\<close> is a search that does not end.\<close>

definition dictionary_set ::
  "bool \<Rightarrow> (dict_alloc \<Rightarrow> bool) \<Rightarrow> dictionary option \<Rightarrow> string option \<Rightarrow> string option
   \<Rightarrow> (int \<times> dictionary option) res option" where
  "dictionary_set sc mem dp keyp val =
     (case (dp, keyp) of
        (Some d, Some key) \<Rightarrow>
          (case (if d_n d > 0 then find_slot d key (dictionary_hash sc key) 0 else Inr None) of
             Inl e \<Rightarrow> Some (Inl e)
           | Inr (Some i) \<Rightarrow>
               Some (bind_res (wr (d_val d) i (xstrdup (mem DupVal) val)) (\<lambda>vs.
                       Inr (0, Some (d\<lparr>d_val := vs\<rparr>))))
           | Inr None \<Rightarrow>
               (case grow mem d of
                  (False, d') \<Rightarrow> Some (Inr (-1, Some d'))
                | (True, d') \<Rightarrow>
                    (case free_slot d' (d_n d') of
                       None \<Rightarrow> None
                     | Some (Inl e) \<Rightarrow> Some (Inl e)
                     | Some (Inr i) \<Rightarrow>
                         Some (bind_res (insert_at sc mem d' key val i) (\<lambda>d''.
                                 Inr (0, Some d''))))))
      | _ \<Rightarrow> Some (Inr (-1, dp)))"

definition dictionary_unset :: "bool \<Rightarrow> dictionary \<Rightarrow> string option \<Rightarrow> dictionary res" where
  "dictionary_unset sc d keyp =
     (case keyp of
        None \<Rightarrow> Inr d
      | Some key \<Rightarrow>
          bind_res (find_slot d key (dictionary_hash sc key) 0) (\<lambda>r.
            case r of
              None \<Rightarrow> Inr d
            | Some i \<Rightarrow>
                bind_res (wr (d_key d) i None) (\<lambda>ks.
                bind_res (wr (d_val d) i None) (\<lambda>vs.
                bind_res (wr (d_hash d) i 0) (\<lambda>hs.
                  Inr (d\<lparr>d_key := ks, d_val := vs, d_hash := hs, d_n := d_n d - 1\<rparr>))))))"

text \<open>Deleting reads every slot of the key and value arrays.\<close>

definition dictionary_del :: "dictionary option \<Rightarrow> unit res" where
  "dictionary_del dp =
     (case dp of
        None \<Rightarrow> Inr ()
      | Some d \<Rightarrow>
          if 0 < d_size d \<and> (d_key d = [] \<or> d_val d = []) then Inl NullPointer else Inr ())"

text \<open>What \<^verbatim>\<open>dictionary_dump\<close> prints, \<^verbatim>\<open>%20s\<close> padding the key on the left.\<close>

definition pad20 :: "string \<Rightarrow> string" where
  "pad20 s = replicate (20 - length s) CHR '' '' @ s"




fun dump_loop :: "(string option \<times> string option) list \<Rightarrow> string" where
  "dump_loop [] = []"
| "dump_loop ((None, v) # r) = dump_loop r"
| "dump_loop ((Some k, v) # r) =
     pad20 k @ [TAB, CHR ''[''] @ (case v of None \<Rightarrow> ''UNDEF'' | Some s \<Rightarrow> s) @ '']'' @ [NL]
     @ dump_loop r"

definition dictionary_dump :: "dictionary option \<Rightarrow> bool \<Rightarrow> string" where
  "dictionary_dump dp out =
     (case dp of
        None \<Rightarrow> []
      | Some d \<Rightarrow>
          if \<not> out then []
          else if d_n d < 1 then ''empty dictionary'' @ [NL]
          else dump_loop (zip (take (d_size d) (d_key d)) (take (d_size d) (d_val d))))"

section \<open>Well-formed dictionaries and their maps\<close>

definition used :: "'a option list \<Rightarrow> nat" where
  "used ks = length (filter (\<lambda>k. k \<noteq> None) ks)"

definition dict_ok :: "bool \<Rightarrow> dictionary \<Rightarrow> bool" where
  "dict_ok sc d \<longleftrightarrow>
     DICTMINSZ \<le> d_size d \<and> length (d_val d) = d_size d \<and> length (d_key d) = d_size d
     \<and> length (d_hash d) = d_size d \<and> d_n d = used (d_key d)
     \<and> (\<forall>i < d_size d. \<forall>k. d_key d ! i = Some k \<longrightarrow> d_hash d ! i = dictionary_hash sc k)
     \<and> (\<forall>i < d_size d. \<forall>j < d_size d. d_key d ! i = d_key d ! j \<longrightarrow> d_key d ! i \<noteq> None \<longrightarrow> i = j)"

definition dict_lookup :: "dictionary \<Rightarrow> string \<rightharpoonup> string option" where
  "dict_lookup d k =
     map_option (\<lambda>i. d_val d ! i) (List.find (\<lambda>i. d_key d ! i = Some k) [0..<d_size d])"

lemma rd_simps [simp]: "i < length xs \<Longrightarrow> rd xs i = Inr (xs ! i)"
  by (auto simp: rd_def)

lemma wr_simps [simp]: "i < length xs \<Longrightarrow> wr xs i x = Inr (xs[i := x])"
  by (auto simp: wr_def)

lemma used_simps [simp]:
  "used [] = 0"
  "used (k # ks) = (if k = None then 0 else 1) + used ks"
  by (simp_all add: used_def)

lemma used_update:
  assumes "i < length ks"
  shows "used (ks[i := x]) + (if ks ! i \<noteq> None then 1 else 0)
         = used ks + (if x \<noteq> None then 1 else 0)"
  using assms
proof (induction ks arbitrary: i)
  case (Cons k ks)
  show ?case
  proof (cases i)
    case (Suc j)
    then show ?thesis using Cons.IH [of j] Cons.prems by simp
  qed simp
qed simp

lemma used_le: "used ks \<le> length ks"
  by (simp add: used_def)

lemma free_slot_exists: "used ks < length ks \<Longrightarrow> \<exists>j < length ks. ks ! j = None"
proof (induction ks)
  case (Cons k ks)
  show ?case
  proof (cases k)
    case (Some a)
    with Cons.prems have "used ks < length ks" by (simp add: used_def)
    from Cons.IH [OF this] show ?thesis by auto
  qed auto
qed simp

lemma used_append_empty: "used (ks @ replicate n None) = used ks"
  by (simp add: used_def)

lemma dict_ok_lengths:
  assumes "dict_ok sc d"
  shows "length (d_val d) = d_size d" "length (d_key d) = d_size d"
    "length (d_hash d) = d_size d" "d_n d = used (d_key d)" "128 \<le> d_size d" "d_n d \<le> d_size d"
  using assms used_le [of "d_key d"] by (auto simp: dict_ok_def DICTMINSZ_def)

lemma dict_ok_hash:
  "dict_ok sc d \<Longrightarrow> i < d_size d \<Longrightarrow> d_key d ! i = Some k \<Longrightarrow> d_hash d ! i = dictionary_hash sc k"
  by (auto simp: dict_ok_def)

lemma dict_ok_inj:
  "dict_ok sc d \<Longrightarrow> i < d_size d \<Longrightarrow> j < d_size d \<Longrightarrow> d_key d ! i = Some k
   \<Longrightarrow> d_key d ! j = Some k \<Longrightarrow> i = j"
  by (auto simp: dict_ok_def)

lemma find_slot_ok:
  assumes "dict_ok sc d"
  shows "\<exists>r. find_slot d key (dictionary_hash sc key) i = Inr r
    \<and> (case r of
          None \<Rightarrow> \<forall>j. i \<le> j \<longrightarrow> j < d_size d \<longrightarrow> d_key d ! j \<noteq> Some key
        | Some j \<Rightarrow> j < d_size d \<and> d_key d ! j = Some key)"
proof (induction "d_size d - i" arbitrary: i rule: less_induct)
  case less
  note len = dict_ok_lengths [OF assms]
  show ?case
  proof (cases "d_size d \<le> i")
    case True
    then show ?thesis by (subst find_slot.simps) simp
  next
    case False
    then have i: "i < d_size d" by simp
    then obtain r where r: "find_slot d key (dictionary_hash sc key) (Suc i) = Inr r"
      and rr: "case r of
          None \<Rightarrow> \<forall>j. Suc i \<le> j \<longrightarrow> j < d_size d \<longrightarrow> d_key d ! j \<noteq> Some key
        | Some j \<Rightarrow> j < d_size d \<and> d_key d ! j = Some key"
      using less [of "Suc i"] by fastforce
    show ?thesis
    proof (cases "d_key d ! i = Some key")
      case True
      then have "find_slot d key (dictionary_hash sc key) i = Inr (Some i)"
        using i len dict_ok_hash [OF assms i True] by (subst find_slot.simps) simp
      with i True show ?thesis by simp
    next
      case False
      then have "find_slot d key (dictionary_hash sc key) i = Inr r"
        using i len r by (subst find_slot.simps) (auto split: option.split)
      moreover have "case r of
          None \<Rightarrow> \<forall>j. i \<le> j \<longrightarrow> j < d_size d \<longrightarrow> d_key d ! j \<noteq> Some key
        | Some j \<Rightarrow> j < d_size d \<and> d_key d ! j = Some key"
        using rr False by (cases r) (auto, metis Suc_leI le_neq_implies_less)
      ultimately show ?thesis by blast
    qed
  qed
qed

lemma lookup_iff:
  assumes "dict_ok sc d"
  shows "dict_lookup d k = Some v \<longleftrightarrow> (\<exists>i < d_size d. d_key d ! i = Some k \<and> d_val d ! i = v)"
proof (cases "List.find (\<lambda>i. d_key d ! i = Some k) [0..<d_size d]")
  case None
  then have "\<forall>i < d_size d. d_key d ! i \<noteq> Some k" by (simp add: find_None_iff)
  with None show ?thesis by (auto simp: dict_lookup_def)
next
  case (Some j)
  then obtain i where "i < d_size d" "d_key d ! i = Some k" "j = i"
    unfolding find_Some_iff by auto
  then have j: "j < d_size d" "d_key d ! j = Some k" by simp_all
  have "i = j" if "i < d_size d" "d_key d ! i = Some k" for i
    using dict_ok_inj [OF assms that(1) j(1) that(2) j(2)] .
  moreover have "dict_lookup d k = Some (d_val d ! j)" using Some by (simp add: dict_lookup_def)
  ultimately show ?thesis using j by (metis option.inject)
qed

lemma lookup_None_iff:
  "dict_lookup d k = None \<longleftrightarrow> (\<forall>i < d_size d. d_key d ! i \<noteq> Some k)"
  by (auto simp: dict_lookup_def find_None_iff)

lemma lookup_map_eqI:
  assumes "\<And>k v. dict_lookup d k = Some v \<longleftrightarrow> m k = Some v"
  shows "dict_lookup d = m"
proof
  fix k
  show "dict_lookup d k = m k"
    using assms [of k] by (cases "m k"; cases "dict_lookup d k") auto
qed

text \<open>The search for an empty slot ends when there is one, whatever the start.\<close>

lemma free_slot_step:
  assumes "i < length (d_key d)"
  shows "free_slot d i = (if d_key d ! i = None then Some (Inr i)
           else free_slot d (if Suc i = d_size d then 0 else Suc i))"
  using assms by (subst free_slot.simps) (auto split: option.split)

lemma free_slot_ahead:
  assumes "length (d_key d) = d_size d" "j < d_size d" "d_key d ! j = None"
  shows "i \<le> j \<Longrightarrow> \<exists>r. free_slot d i = Some (Inr r) \<and> r < d_size d \<and> d_key d ! r = None"
proof (induction "j - i" arbitrary: i)
  case 0
  then have "i = j" by simp
  with assms show ?case by (simp add: free_slot_step)
next
  case (Suc n)
  show ?case
  proof (cases "d_key d ! i = None")
    case True
    with Suc.prems assms show ?thesis by (simp add: free_slot_step)
  next
    case False
    with Suc.prems assms(3) have "i < j" by (metis le_neq_implies_less)
    with Suc have "\<exists>r. free_slot d (Suc i) = Some (Inr r) \<and> r < d_size d \<and> d_key d ! r = None"
      by simp
    with False \<open>i < j\<close> assms show ?thesis by (simp add: free_slot_step)
  qed
qed

lemma free_slot_total:
  assumes "length (d_key d) = d_size d" "\<exists>j < d_size d. d_key d ! j = None" "i < d_size d"
  shows "\<exists>r. free_slot d i = Some (Inr r) \<and> r < d_size d \<and> d_key d ! r = None"
proof -
  from assms(2) obtain j where j: "j < d_size d" "d_key d ! j = None" by blast
  note ahead = free_slot_ahead [OF assms(1) j]
  show ?thesis using assms(3)
  proof (induction "d_size d - i" arbitrary: i)
    case (Suc n)
    show ?case
    proof (cases "d_key d ! i = None")
      case True
      with Suc.prems assms show ?thesis by (simp add: free_slot_step)
    next
      case False
      have "\<exists>r. free_slot d (if Suc i = d_size d then 0 else Suc i) = Some (Inr r)
              \<and> r < d_size d \<and> d_key d ! r = None"
        using Suc ahead [of 0] by auto
      with False Suc.prems assms show ?thesis by (simp add: free_slot_step)
    qed
  qed simp
qed

section \<open>The operations act as map operations\<close>

lemma dictionary_new_ok:
  assumes "\<And>a. mem a"
  shows "\<exists>d. dictionary_new mem sz = Some d \<and> dict_ok sc d \<and> dict_lookup d = Map.empty
    \<and> d_n d = 0"
proof -
  let ?n = "if sz < int DICTMINSZ then DICTMINSZ else nat sz"
  let ?d = "\<lparr>d_n = 0, d_size = ?n, d_val = replicate ?n None, d_key = replicate ?n None,
             d_hash = replicate ?n 0\<rparr>"
  have "dictionary_new mem sz = Some ?d" using assms by (simp add: dictionary_new_def Let_def)
  moreover have "used (replicate n None) = 0" for n by (simp add: used_def)
  then have "dict_ok sc ?d" by (auto simp: dict_ok_def DICTMINSZ_def)
  moreover have "dict_lookup ?d = Map.empty"
    by (rule lookup_map_eqI) (auto simp: lookup_iff [OF \<open>dict_ok sc ?d\<close>] split: if_splits)
  ultimately show ?thesis by auto
qed

lemma get_ok:
  assumes "dict_ok sc d"
  shows "dictionary_get sc d key def
         = Inr (case dict_lookup d key of None \<Rightarrow> def | Some v \<Rightarrow> ptr_of v)"
proof -
  obtain r where r: "find_slot d key (dictionary_hash sc key) 0 = Inr r"
    and rr: "case r of
          None \<Rightarrow> \<forall>j. 0 \<le> j \<longrightarrow> j < d_size d \<longrightarrow> d_key d ! j \<noteq> Some key
        | Some j \<Rightarrow> j < d_size d \<and> d_key d ! j = Some key"
    using find_slot_ok [OF assms] by blast
  show ?thesis
  proof (cases r)
    case None
    with rr have "dict_lookup d key = None" by (simp add: lookup_None_iff)
    with r None show ?thesis by (simp add: dictionary_get_def)
  next
    case (Some j)
    with rr have "dict_lookup d key = Some (d_val d ! j)" by (auto simp: lookup_iff [OF assms])
    with r rr Some dict_ok_lengths [OF assms] show ?thesis by (simp add: dictionary_get_def)
  qed
qed

lemma grow_ok:
  assumes "dict_ok sc d" and "\<And>a. mem a"
  shows "\<exists>d'. grow mem d = (True, d') \<and> dict_ok sc d' \<and> dict_lookup d' = dict_lookup d
           \<and> d_n d' = d_n d \<and> d_n d' < d_size d'
           \<and> d_size d' = (if d_n d = d_size d then 2 * d_size d else d_size d)"
proof (cases "d_n d = d_size d")
  case False
  with dict_ok_lengths [OF assms(1)] show ?thesis using assms(1) by (simp add: grow_def)
next
  case True
  note len = dict_ok_lengths [OF assms(1)]
  let ?d = "d\<lparr>d_val := d_val d @ replicate (d_size d) None,
              d_key := d_key d @ replicate (d_size d) None,
              d_hash := d_hash d @ replicate (d_size d) 0, d_size := 2 * d_size d\<rparr>"
  have "d_val d \<noteq> []" "d_key d \<noteq> []" "d_hash d \<noteq> []" using len by auto
  with True assms(2) len have g: "grow mem d = (True, ?d)"
    by (simp add: grow_def mem_double_def)
  have ok: "dict_ok sc ?d"
    using assms(1) len
    by (auto simp: dict_ok_def DICTMINSZ_def used_append_empty nth_append split: if_splits)
  have old: "d_key ?d ! i = Some k \<longleftrightarrow> i < d_size d \<and> d_key d ! i = Some k"
    "i < d_size d \<Longrightarrow> d_val ?d ! i = d_val d ! i" if "i < d_size ?d" for i k
    using that len by (auto simp: nth_append)
  have "dict_lookup ?d = dict_lookup d"
  proof (rule lookup_map_eqI)
    fix k v
    have "(\<exists>i < d_size ?d. d_key ?d ! i = Some k \<and> d_val ?d ! i = v)
        \<longleftrightarrow> (\<exists>i < d_size d. d_key d ! i = Some k \<and> d_val d ! i = v)"
      using old by (metis (no_types, lifting) dictionary.select_convs(2) dictionary.surjective
          dictionary.update_convs(2) mult_2 trans_less_add1)
    then show "dict_lookup ?d k = Some v \<longleftrightarrow> dict_lookup d k = Some v"
      by (simp only: lookup_iff [OF ok] lookup_iff [OF assms(1)])
  qed
  with g ok True len show ?thesis by auto
qed

text \<open>Two dictionaries that agree away from a key have maps that agree away from it.\<close>

lemma lookup_update_eqI:
  assumes ok: "dict_ok sc d" and ok': "dict_ok sc d'" and sz: "d_size d' = d_size d"
    and keys: "\<And>j k. j < d_size d \<Longrightarrow> k \<noteq> key \<Longrightarrow> d_key d' ! j = Some k \<longleftrightarrow> d_key d ! j = Some k"
    and vals: "\<And>j k. j < d_size d \<Longrightarrow> k \<noteq> key \<Longrightarrow> d_key d ! j = Some k
                 \<Longrightarrow> d_val d' ! j = d_val d ! j"
    and at_key: "dict_lookup d' key = r"
  shows "dict_lookup d' = (dict_lookup d)(key := r)"
proof (rule lookup_map_eqI)
  fix k v
  have "dict_lookup d' k = Some v \<longleftrightarrow> dict_lookup d k = Some v" if "k \<noteq> key"
    using keys [OF _ that] vals [OF _ that]
    by (auto simp only: lookup_iff [OF ok] lookup_iff [OF ok'] sz)
  with at_key show "dict_lookup d' k = Some v \<longleftrightarrow> ((dict_lookup d)(key := r)) k = Some v"
    by simp
qed

lemma insert_at_ok:
  assumes ok: "dict_ok sc d" and mem: "\<And>a. mem a" and i: "i < d_size d" "d_key d ! i = None"
    and new: "\<forall>j < d_size d. d_key d ! j \<noteq> Some key"
  shows "\<exists>d'. insert_at sc mem d key val i = Inr d' \<and> dict_ok sc d'
           \<and> dict_lookup d' = (dict_lookup d)(key \<mapsto> val)"
proof -
  note len = dict_ok_lengths [OF ok]
  let ?d = "d\<lparr>d_key := (d_key d)[i := Some key], d_val := (d_val d)[i := val],
              d_hash := (d_hash d)[i := dictionary_hash sc key], d_n := Suc (d_n d)\<rparr>"
  have g: "insert_at sc mem d key val i = Inr ?d"
    using i(1) len mem by (cases val) (simp_all add: insert_at_def xstrdup_def)
  have ok': "dict_ok sc ?d"
    using ok len i new used_update [of i "d_key d" "Some key"]
    by (auto simp: dict_ok_def nth_list_update)
  have "dict_lookup ?d key = Some val"
    unfolding lookup_iff [OF ok'] using i len by (intro exI [of _ i]) simp
  then have "dict_lookup ?d = (dict_lookup d)(key := Some val)"
    by (rule lookup_update_eqI [OF ok ok', rotated 3])
      (use i len in \<open>auto simp: nth_list_update split: if_splits\<close>)
  with g ok' show ?thesis by blast
qed

lemma replace_ok:
  assumes ok: "dict_ok sc d" and i: "i < d_size d" "d_key d ! i = Some key"
  shows "dict_ok sc (d\<lparr>d_val := (d_val d)[i := v]\<rparr>)"
    "dict_lookup (d\<lparr>d_val := (d_val d)[i := v]\<rparr>) = (dict_lookup d)(key \<mapsto> v)"
proof -
  note len = dict_ok_lengths [OF ok]
  let ?d = "d\<lparr>d_val := (d_val d)[i := v]\<rparr>"
  show ok': "dict_ok sc ?d" using ok by (simp add: dict_ok_def)
  have "dict_lookup ?d key = Some v"
    unfolding lookup_iff [OF ok'] using i len by (intro exI [of _ i]) simp
  then show "dict_lookup ?d = (dict_lookup d)(key \<mapsto> v)"
    by (rule lookup_update_eqI [OF ok ok', rotated 3])
      (use i len in \<open>auto simp: nth_list_update split: if_splits\<close>)
qed

lemma set_ok:
  assumes ok: "dict_ok sc d" and mem: "\<And>a. mem a"
  shows "\<exists>d'. dictionary_set sc mem (Some d) (Some key) val = Some (Inr (0, Some d'))
           \<and> dict_ok sc d' \<and> dict_lookup d' = (dict_lookup d)(key \<mapsto> val)"
proof -
  note len = dict_ok_lengths [OF ok]
  have dup: "xstrdup (mem DupVal) val = val" using mem by (cases val) (simp_all add: xstrdup_def)
  let ?find = "if d_n d > 0 then find_slot d key (dictionary_hash sc key) 0 else Inr None"
  have "\<exists>r. ?find = Inr r
    \<and> (case r of
          None \<Rightarrow> \<forall>j < d_size d. d_key d ! j \<noteq> Some key
        | Some j \<Rightarrow> j < d_size d \<and> d_key d ! j = Some key)"
  proof (cases "d_n d > 0")
    case True
    then show ?thesis using find_slot_ok [OF ok, of key 0] by (simp only: if_True le0 simp_thms)
  next
    case False
    then have "filter (\<lambda>k. k \<noteq> None) (d_key d) = []" using len by (simp add: used_def)
    then have "d_key d ! j = None" if "j < d_size d" for j
      using that len by (auto simp: filter_empty_conv)
    with False show ?thesis by auto
  qed
  then obtain r where r: "?find = Inr r"
    and rr: "case r of
          None \<Rightarrow> \<forall>j < d_size d. d_key d ! j \<noteq> Some key
        | Some j \<Rightarrow> j < d_size d \<and> d_key d ! j = Some key" by blast
  show ?thesis
  proof (cases r)
    case (Some i)
    with rr r have "dictionary_set sc mem (Some d) (Some key) val
        = Some (Inr (0, Some (d\<lparr>d_val := (d_val d)[i := val]\<rparr>)))"
      using len dup by (simp add: dictionary_set_def)
    with rr Some show ?thesis using replace_ok [OF ok] by simp
  next
    case None
    obtain d1 where d1: "grow mem d = (True, d1)" "dict_ok sc d1"
      "dict_lookup d1 = dict_lookup d" "d_n d1 < d_size d1"
      using grow_ok [OF ok, of mem] mem by blast
    note len1 = dict_ok_lengths [OF d1(2)]
    have "\<exists>j < d_size d1. d_key d1 ! j = None"
      using free_slot_exists [of "d_key d1"] len1 d1(4) by simp
    then obtain i where i: "free_slot d1 (d_n d1) = Some (Inr i)" "i < d_size d1"
        "d_key d1 ! i = None"
      using free_slot_total len1(2) d1(4) by blast
    have "dict_lookup d1 key = None" using rr None d1(3) by (simp add: lookup_None_iff)
    then have new: "\<forall>j < d_size d1. d_key d1 ! j \<noteq> Some key" by (simp add: lookup_None_iff)
    obtain d' where d': "insert_at sc mem d1 key val i = Inr d'" "dict_ok sc d'"
      "dict_lookup d' = (dict_lookup d1)(key \<mapsto> val)"
      using insert_at_ok [OF d1(2) _ i(2,3) new, of mem val] mem by blast
    have "dictionary_set sc mem (Some d) (Some key) val = Some (Inr (0, Some d'))"
      using r None d1(1) i(1) d'(1) by (simp add: dictionary_set_def)
    with d' d1(3) show ?thesis by auto
  qed
qed

lemma unset_ok:
  assumes ok: "dict_ok sc d"
  shows "\<exists>d'. dictionary_unset sc d (Some key) = Inr d' \<and> dict_ok sc d'
           \<and> dict_lookup d' = (dict_lookup d)(key := None)"
proof -
  note len = dict_ok_lengths [OF ok]
  obtain r where r: "find_slot d key (dictionary_hash sc key) 0 = Inr r"
    and rr: "case r of
          None \<Rightarrow> \<forall>j. 0 \<le> j \<longrightarrow> j < d_size d \<longrightarrow> d_key d ! j \<noteq> Some key
        | Some j \<Rightarrow> j < d_size d \<and> d_key d ! j = Some key"
    using find_slot_ok [OF ok] by blast
  show ?thesis
  proof (cases r)
    case None
    with rr have "dict_lookup d key = None" by (simp add: lookup_None_iff)
    then have "(dict_lookup d)(key := None) = dict_lookup d" by auto
    with r None ok show ?thesis by (simp add: dictionary_unset_def)
  next
    case (Some i)
    with rr have i: "i < d_size d" "d_key d ! i = Some key" by auto
    let ?d = "d\<lparr>d_key := (d_key d)[i := None], d_val := (d_val d)[i := None],
                d_hash := (d_hash d)[i := 0], d_n := d_n d - 1\<rparr>"
    have uniq: "j = i" if "j < d_size d" "d_key d ! j = Some key" for j
      using dict_ok_inj [OF ok that(1) i(1) that(2) i(2)] .
    have ok': "dict_ok sc ?d"
      using ok len i used_update [of i "d_key d" None]
      by (auto simp: dict_ok_def nth_list_update)
    have "d_key ?d ! j \<noteq> Some key" if "j < d_size d" for j
      using uniq [of j] that i len by (cases "j = i") auto
    then have "dict_lookup ?d key = None" by (simp add: lookup_None_iff)
    then have "dict_lookup ?d = (dict_lookup d)(key := None)"
      by (rule lookup_update_eqI [OF ok ok', rotated 3])
        (use i len in \<open>auto simp: nth_list_update split: if_splits\<close>)
    moreover have "dictionary_unset sc d (Some key) = Inr ?d"
      using r Some i len by (simp add: dictionary_unset_def)
    ultimately show ?thesis using ok' by blast
  qed
qed

section \<open>The contract of a string map\<close>

text \<open>
  What the configuration parser relies on: a set, a get and an unset that never fail on
  well-formed maps and act on the partial map \<open>look\<close>.
\<close>

locale string_map =
  fixes inv :: "'m \<Rightarrow> bool"
    and look :: "'m \<Rightarrow> string \<rightharpoonup> string option"
    and put :: "'m \<Rightarrow> string \<Rightarrow> string option \<Rightarrow> 'm res"
    and del :: "'m \<Rightarrow> string \<Rightarrow> 'm res"
    and get :: "'m \<Rightarrow> string \<Rightarrow> cptr \<Rightarrow> cptr res"
  assumes put: "inv m \<Longrightarrow> \<exists>m'. put m k v = Inr m' \<and> inv m' \<and> look m' = (look m)(k \<mapsto> v)"
    and del: "inv m \<Longrightarrow> \<exists>m'. del m k = Inr m' \<and> inv m' \<and> look m' = (look m)(k := None)"
    and get: "inv m \<Longrightarrow> get m k def = Inr (case look m k of None \<Rightarrow> def | Some v \<Rightarrow> ptr_of v)"
begin

fun put_all :: "'m \<Rightarrow> (string \<times> string option) list \<Rightarrow> 'm res" where
  "put_all m [] = Inr m"
| "put_all m ((k, v) # r) = bind_res (put m k v) (\<lambda>m'. put_all m' r)"

lemma put_all_ok:
  "inv m \<Longrightarrow> \<exists>m'. put_all m kvs = Inr m' \<and> inv m'
     \<and> look m' = look m ++ map_of (rev kvs)"
proof (induction kvs arbitrary: m)
  case (Cons kv kvs)
  obtain k v where kv: "kv = (k, v)" by force
  obtain m1 where m1: "put m k v = Inr m1" "inv m1" "look m1 = (look m)(k \<mapsto> v)"
    using put [OF Cons.prems] by blast
  obtain m' where m': "put_all m1 kvs = Inr m'" "inv m'" "look m' = look m1 ++ map_of (rev kvs)"
    using Cons.IH [OF m1(2)] by blast
  have "put_all m (kv # kvs) = Inr m'" using m1(1) m'(1) by (simp add: kv)
  moreover have "look m' = look m ++ map_of (rev (kv # kvs))"
    unfolding m'(3) m1(3) by (rule ext) (simp add: kv map_add_def split: option.split)
  ultimately show ?case using m'(2) by blast
qed simp

lemma get_after_put_all:
  assumes "inv m" and "put_all m kvs = Inr m'"
  shows "get m' k def = Inr (case map_of (rev kvs) k of Some v \<Rightarrow> ptr_of v
           | None \<Rightarrow> (case look m k of None \<Rightarrow> def | Some v \<Rightarrow> ptr_of v))"
  using put_all_ok [OF assms(1), of kvs] assms(2) get [of m' k def]
  by (auto simp: map_add_def split: option.splits)

end

text \<open>The operations with the allocations that all succeed, on a dictionary that is not null.\<close>

definition set_total :: "bool \<Rightarrow> dictionary \<Rightarrow> string \<Rightarrow> string option \<Rightarrow> dictionary res" where
  "set_total sc d key val =
     (case dictionary_set sc (\<lambda>_. True) (Some d) (Some key) val of
        Some (Inr (_, Some d')) \<Rightarrow> Inr d'
      | Some (Inl e) \<Rightarrow> Inl e
      | _ \<Rightarrow> Inl BadPointer)"

interpretation dm: string_map "dict_ok sc" dict_lookup "set_total sc"
    "\<lambda>d k. dictionary_unset sc d (Some k)" "dictionary_get sc" for sc
proof
  fix m k v
  assume ok: "dict_ok sc m"
  show "\<exists>m'. set_total sc m k v = Inr m' \<and> dict_ok sc m' \<and> dict_lookup m' = (dict_lookup m)(k \<mapsto> v)"
    using set_ok [OF ok, of "\<lambda>_. True" k v] by (auto simp: set_total_def)
qed (rule unset_ok get_ok; assumption)+

section \<open>Properties\<close>

text \<open>
  C22. On a well-formed dictionary, when no allocation fails, \<^verbatim>\<open>dictionary_set\<close> returns 0, its
  search for an empty slot ends, and the result is well formed (count, hashes and distinct
  keys included) and maps the key to the value and every other key as before, also when the
  arrays had to grow. The value may be null: the key is then there with a null value, though the comment
  on the function says that this deletes it and that there are no keys without a value.
  \<^verbatim>\<open>dictionary_unset\<close> then removes exactly that key.
\<close>

theorem dictionary_set_correct:
  assumes "dict_ok sc d" and "\<And>a. mem a"
  shows "\<exists>d' d''. dictionary_set sc mem (Some d) (Some key) val = Some (Inr (0, Some d'))
    \<and> dict_ok sc d' \<and> dict_lookup d' = (dict_lookup d)(key \<mapsto> val)
    \<and> dictionary_unset sc d' (Some key) = Inr d''
    \<and> dict_ok sc d'' \<and> dict_lookup d'' = (dict_lookup d)(key := None)"
proof -
  obtain d' where d': "dictionary_set sc mem (Some d) (Some key) val = Some (Inr (0, Some d'))"
    "dict_ok sc d'" "dict_lookup d' = (dict_lookup d)(key \<mapsto> val)"
    using set_ok [OF assms(1), of mem key val] assms(2) by blast
  with unset_ok [OF d'(2), of key] show ?thesis by auto
qed

definition empty_dict :: dictionary where
  "empty_dict = \<lparr>d_n = 0, d_size = 128, d_val = replicate 128 None, d_key = replicate 128 None,
                d_hash = replicate 128 0\<rparr>"

lemma empty_dict_ok [simp]: "dict_ok sc empty_dict"
  by (auto simp: dict_ok_def empty_dict_def DICTMINSZ_def used_def)

lemma empty_dict_lookup [simp]: "dict_lookup empty_dict = Map.empty"
  by (rule ext) (auto simp: lookup_None_iff empty_dict_def)

lemma dictionary_set_correct_witness:
  "\<exists>d' d''. dictionary_set True (\<lambda>_. True) (Some empty_dict) (Some ''k'') (Some ''v'')
        = Some (Inr (0, Some d'))
    \<and> dict_ok True d' \<and> dict_lookup d' = (dict_lookup empty_dict)(''k'' \<mapsto> Some ''v'')
    \<and> dictionary_unset True d' (Some ''k'') = Inr d''
    \<and> dict_ok True d'' \<and> dict_lookup d'' = (dict_lookup empty_dict)(''k'' := None)"
  by (rule dictionary_set_correct) simp_all

text \<open>
  A dictionary made by \<^verbatim>\<open>dictionary_new\<close> and filled by any sequence of sets, however often
  it grows, answers \<^verbatim>\<open>dictionary_get\<close> with the value set last for the key, a null value
  included, and with the default exactly for the keys that were never set.
\<close>

theorem dictionary_get_last_set:
  "\<exists>d d'. dictionary_new (\<lambda>_. True) sz = Some d \<and> dm.put_all sc d kvs = Inr d'
    \<and> dictionary_get sc d' key def
        = Inr (case map_of (rev kvs) key of None \<Rightarrow> def | Some v \<Rightarrow> ptr_of v)"
proof -
  obtain d where d: "dictionary_new (\<lambda>_. True) sz = Some d" "dict_ok sc d"
    "dict_lookup d = Map.empty"
    using dictionary_new_ok [of "\<lambda>_. True" sz sc] by blast
  obtain d' where "dm.put_all sc d kvs = Inr d'" using dm.put_all_ok [OF d(2)] by blast
  with d show ?thesis using dm.get_after_put_all [OF d(2)] by (auto split: option.splits)
qed

text \<open>
  When the arrays are full and the key array cannot be doubled, \<^verbatim>\<open>dictionary_set\<close> reports
  -1 but leaves the dictionary with a null array: the next lookup of any key, those stored
  before included, follows the null pointer.
\<close>

theorem dictionary_grow_failure:
  assumes "dict_ok sc d" and "d_n d = d_size d" and "dict_lookup d key = None"
    and "\<not> mem AllocKey"
  shows "\<exists>d'. dictionary_set sc mem (Some d) (Some key) val = Some (Inr (-1, Some d'))
    \<and> dictionary_get sc d' key' def = Inl NullPointer"
proof -
  note len = dict_ok_lengths [OF assms(1)]
  obtain r where r: "find_slot d key (dictionary_hash sc key) 0 = Inr r"
    and rr: "case r of
          None \<Rightarrow> \<forall>j. 0 \<le> j \<longrightarrow> j < d_size d \<longrightarrow> d_key d ! j \<noteq> Some key
        | Some j \<Rightarrow> j < d_size d \<and> d_key d ! j = Some key"
    using find_slot_ok [OF assms(1)] by blast
  have "r = None" using rr assms(3) by (cases r) (auto simp: lookup_None_iff)
  moreover obtain d' where d': "grow mem d = (False, d')" "d_key d' = []" "d_size d' = d_size d"
    using assms(2,4) by (simp add: grow_def mem_double_def)
  moreover have "find_slot d' key' h 0 = Inl NullPointer" for h
    using d' len by (subst find_slot.simps) (simp add: rd_def)
  ultimately show ?thesis
    using r by (simp add: dictionary_set_def dictionary_get_def)
qed

definition full_dict :: dictionary where
  "full_dict =
     (let ks = map (\<lambda>i. [char_of i]) [0..<128] in
      \<lparr>d_n = 128, d_size = 128, d_val = replicate 128 None, d_key = map Some ks,
       d_hash = map (dictionary_hash True) ks\<rparr>)"

lemma full_dict_ok: "dict_ok True full_dict"
proof -
  have "i = j" if "i < 128" "j < 128" "char_of i = (char_of j :: char)" for i j :: nat
    using arg_cong [OF that(3), of code_of] that(1,2) by simp
  then show ?thesis
    by (auto simp: dict_ok_def full_dict_def Let_def DICTMINSZ_def used_def filter_map o_def)
qed

lemma dictionary_grow_failure_witness:
  "\<exists>d'. dictionary_set True (\<lambda>a. a \<noteq> AllocKey) (Some full_dict) (Some ''key'') None
      = Some (Inr (-1, Some d'))
    \<and> dictionary_get True d' ''key'' Null = Inl NullPointer"
  by (rule dictionary_grow_failure [OF full_dict_ok])
    (auto simp: full_dict_def Let_def lookup_None_iff)

end
