(* ===== verification/Iniparser.thy ===== *)
theory Iniparser
  imports Dictionary
begin

text \<open>
  The configuration file parser of \<^verbatim>\<open>src/DVB/iniparser.c\<close>. A file is the list of its
  characters. The buffers of \<^verbatim>\<open>ASCIILINESZ + 1\<close> bytes are strings whose lengths are checked
  where the code could overrun them. \<open>load_loop\<close> is the loop over \<^verbatim>\<open>fgets\<close>; it is a partial
  function, and its termination on every file is a property.

  The lemmas show that a printed configuration is read back as the map it stands for, and
  what the parser does with lines that are blank, too long, or not understood.
\<close>

section \<open>Strings\<close>

definition ASCIILINESZ :: nat where
  "ASCIILINESZ = 1024"

definition strlwc :: "string \<Rightarrow> string" where
  "strlwc s = map c_tolower (take ASCIILINESZ s)"

definition rstrip :: "string \<Rightarrow> string" where
  "rstrip s = rev (dropWhile c_isspace (rev s))"

definition strstrip :: "string \<Rightarrow> string res" where
  "strstrip s =
     (let t = dropWhile c_isspace s in
      if ASCIILINESZ < length t then Inl Overrun else Inr (rstrip t))"

section \<open>Queries\<close>

text \<open>The slots a loop over \<^verbatim>\<open>d->key\<close> visits, with the values beside them.\<close>

definition slots :: "dictionary \<Rightarrow> (string option \<times> string option) list res" where
  "slots d =
     (if 0 < d_size d \<and> (d_key d = [] \<or> d_val d = []) then Inl NullPointer
      else Inr (take (d_size d) (zip (d_key d) (d_val d))))"

fun used_slots :: "(string option \<times> string option) list \<Rightarrow> (string \<times> string option) list" where
  "used_slots [] = []"
| "used_slots ((None, v) # r) = used_slots r"
| "used_slots ((Some k, v) # r) = (k, v) # used_slots r"

definition is_section :: "string \<Rightarrow> bool" where
  "is_section k \<longleftrightarrow> CHR '':'' \<notin> set k"

definition iniparser_getnsec :: "dictionary option \<Rightarrow> int res" where
  "iniparser_getnsec dp =
     (case dp of
        None \<Rightarrow> Inr (-1)
      | Some d \<Rightarrow> bind_res (slots d) (\<lambda>ss.
          Inr (int (length (filter (is_section \<circ> fst) (used_slots ss))))))"

definition iniparser_getsecname :: "dictionary option \<Rightarrow> int \<Rightarrow> cptr res" where
  "iniparser_getsecname dp n =
     (case dp of
        None \<Rightarrow> Inr Null
      | Some d \<Rightarrow>
          if n < 0 then Inr Null
          else bind_res (slots d) (\<lambda>ss.
            let secs = filter is_section (map fst (used_slots ss)) in
            if int (length secs) \<le> n then Inr Null else Inr (Str (secs ! nat n))))"

definition iniparser_getstring ::
  "bool \<Rightarrow> dictionary option \<Rightarrow> string option \<Rightarrow> cptr \<Rightarrow> cptr res" where
  "iniparser_getstring sc dp keyp def =
     (case (dp, keyp) of
        (Some d, Some key) \<Rightarrow> dictionary_get sc d (strlwc key) def
      | _ \<Rightarrow> Inr def)"

definition iniparser_getint ::
  "bool \<Rightarrow> nat \<Rightarrow> dictionary option \<Rightarrow> string option \<Rightarrow> int \<Rightarrow> int res" where
  "iniparser_getint sc long_bits d key notfound =
     bind_res (iniparser_getstring sc d key Invalid) (\<lambda>str.
       case str of
         Invalid \<Rightarrow> Inr notfound
       | Null \<Rightarrow> Inl NullPointer
       | Str s \<Rightarrow> Inr (to_int32 (c_strtol long_bits 0 s)))"

text \<open>\<open>c_atof\<close> stands for \<^verbatim>\<open>atof\<close> and its floating-point result.\<close>

definition iniparser_getdouble ::
  "(string \<Rightarrow> 'f) \<Rightarrow> bool \<Rightarrow> dictionary option \<Rightarrow> string option \<Rightarrow> 'f \<Rightarrow> 'f res" where
  "iniparser_getdouble c_atof sc d key notfound =
     bind_res (iniparser_getstring sc d key Invalid) (\<lambda>str.
       case str of
         Invalid \<Rightarrow> Inr notfound
       | Null \<Rightarrow> Inl NullPointer
       | Str s \<Rightarrow> Inr (c_atof s))"

definition iniparser_getboolean ::
  "bool \<Rightarrow> dictionary option \<Rightarrow> string option \<Rightarrow> int \<Rightarrow> int res" where
  "iniparser_getboolean sc d key notfound =
     bind_res (iniparser_getstring sc d key Invalid) (\<lambda>str.
       case str of
         Invalid \<Rightarrow> Inr notfound
       | Null \<Rightarrow> Inl NullPointer
       | Str s \<Rightarrow>
           (let c = (case s of [] \<Rightarrow> NUL | c # _ \<Rightarrow> c) in
            Inr (if c \<in> {CHR ''y'', CHR ''Y'', CHR ''1'', CHR ''t'', CHR ''T''} then 1
                 else if c \<in> {CHR ''n'', CHR ''N'', CHR ''0'', CHR ''f'', CHR ''F''} then 0
                 else notfound)))"

definition iniparser_find_entry :: "bool \<Rightarrow> dictionary option \<Rightarrow> string option \<Rightarrow> int res" where
  "iniparser_find_entry sc ini entry =
     bind_res (iniparser_getstring sc ini entry Invalid) (\<lambda>str.
       Inr (if str \<noteq> Invalid then 1 else 0))"

definition iniparser_set ::
  "bool \<Rightarrow> (dict_alloc \<Rightarrow> bool) \<Rightarrow> dictionary option \<Rightarrow> string option \<Rightarrow> string option
   \<Rightarrow> (int \<times> dictionary option) res option" where
  "iniparser_set sc mem ini entry val =
     dictionary_set sc mem ini (map_option strlwc entry) val"

definition iniparser_unset :: "bool \<Rightarrow> dictionary \<Rightarrow> string option \<Rightarrow> dictionary res" where
  "iniparser_unset sc ini entry = dictionary_unset sc ini (map_option strlwc entry)"

definition iniparser_freedict :: "dictionary option \<Rightarrow> unit res" where
  "iniparser_freedict d = dictionary_del d"

text \<open>
  The keys of a section, found by the prefix \<open>s:\<close>, which is built in a buffer of
  \<open>ASCIILINESZ + 1\<close> bytes; \<open>None\<close> when there is no dictionary or no such section.
\<close>

definition section_slots ::
  "bool \<Rightarrow> dictionary option \<Rightarrow> string \<Rightarrow> ((string \<times> string option) list option) res" where
  "section_slots sc dp s =
     (case dp of
        None \<Rightarrow> Inr None
      | Some d \<Rightarrow>
          bind_res (iniparser_find_entry sc dp (Some s)) (\<lambda>found.
          if found = 0 then Inr None
          else if ASCIILINESZ < length s + 1 then Inl Overrun
          else bind_res (slots d) (\<lambda>ss.
            Inr (Some (filter (\<lambda>(k, v). mem_eq (length s + 1) k (s @ '':'')) (used_slots ss))))))"

definition iniparser_getsecnkeys :: "bool \<Rightarrow> dictionary option \<Rightarrow> string \<Rightarrow> int res" where
  "iniparser_getsecnkeys sc dp s =
     bind_res (section_slots sc dp s) (\<lambda>r.
       Inr (case r of None \<Rightarrow> 0 | Some kvs \<Rightarrow> int (length kvs)))"

text \<open>\<open>ok\<close> is the result of the \<^verbatim>\<open>malloc\<close>, which is not checked before the array is written.\<close>

definition iniparser_getseckeys ::
  "bool \<Rightarrow> bool \<Rightarrow> dictionary option \<Rightarrow> string \<Rightarrow> string list option res" where
  "iniparser_getseckeys sc ok dp s =
     bind_res (section_slots sc dp s) (\<lambda>r.
       case r of
         None \<Rightarrow> Inr None
       | Some kvs \<Rightarrow>
           if ok then Inr (Some (map fst kvs))
           else if kvs = [] then Inr None else Inl NullPointer)"

section \<open>Printing\<close>

definition dump_entry :: "string \<times> string option \<Rightarrow> string" where
  "dump_entry kv =
     (case kv of
        (k, Some v) \<Rightarrow> ''['' @ k @ '']=['' @ v @ '']'' @ [NL]
      | (k, None) \<Rightarrow> ''['' @ k @ '']=UNDEF'' @ [NL])"

definition iniparser_dump :: "dictionary option \<Rightarrow> bool \<Rightarrow> string res" where
  "iniparser_dump dp f =
     (case dp of
        None \<Rightarrow> Inr []
      | Some d \<Rightarrow>
          if \<not> f then Inr []
          else bind_res (slots d) (\<lambda>ss. Inr (concat (map dump_entry (used_slots ss)))))"

definition pad30 :: "string \<Rightarrow> string" where
  "pad30 s = s @ replicate (30 - length s) CHR '' ''"

definition iniparser_dumpsection_ini ::
  "bool \<Rightarrow> dictionary option \<Rightarrow> string \<Rightarrow> bool \<Rightarrow> string res" where
  "iniparser_dumpsection_ini sc dp s f =
     (if \<not> f then Inr []
      else bind_res (section_slots sc dp s) (\<lambda>r.
        case r of
          None \<Rightarrow> Inr []
        | Some kvs \<Rightarrow>
            Inr ([NL] @ ''['' @ s @ '']'' @ [NL]
                 @ concat (map (\<lambda>(k, v). pad30 (drop (length s + 1) k) @ '' = ''
                                  @ (case v of None \<Rightarrow> [] | Some t \<Rightarrow> t) @ [NL]) kvs)
                 @ [NL])))"

fun print_plain :: "(string \<times> string option) list \<Rightarrow> string res" where
  "print_plain [] = Inr []"
| "print_plain ((k, None) # r) = Inl NullPointer"
| "print_plain ((k, Some v) # r) =
     bind_res (print_plain r) (\<lambda>t. Inr (k @ '' = '' @ v @ [NL] @ t))"

fun print_sections :: "bool \<Rightarrow> dictionary \<Rightarrow> nat \<Rightarrow> nat \<Rightarrow> string res" where
  "print_sections sc d i 0 = Inr []"
| "print_sections sc d i (Suc left) =
     bind_res (iniparser_getsecname (Some d) (int i)) (\<lambda>nm.
       case nm of
         Str s \<Rightarrow>
           bind_res (iniparser_dumpsection_ini sc (Some d) s True) (\<lambda>t.
           bind_res (print_sections sc d (Suc i) left) (\<lambda>r. Inr (t @ r)))
       | _ \<Rightarrow> print_sections sc d (Suc i) left)"

definition iniparser_dump_ini :: "bool \<Rightarrow> dictionary option \<Rightarrow> bool \<Rightarrow> string res" where
  "iniparser_dump_ini sc dp f =
     (case dp of
        None \<Rightarrow> Inr []
      | Some d \<Rightarrow>
          if \<not> f then Inr []
          else bind_res (iniparser_getnsec dp) (\<lambda>nsec.
            if nsec < 1 then bind_res (slots d) (\<lambda>ss. print_plain (used_slots ss))
            else bind_res (print_sections sc d 0 (nat nsec)) (\<lambda>t. Inr (t @ [NL]))))"

section \<open>One line\<close>

datatype line_status =
    LINE_UNPROCESSED
  | LINE_ERROR
  | LINE_EMPTY
  | LINE_COMMENT
  | LINE_SECTION
  | LINE_VALUE

text \<open>
  \<^verbatim>\<open>sscanf(line, "%[^=]...", key, value)\<close>: the number of conversions and the two buffers
  after it; \<open>rest\<close> reads the remainder of the format after the first conversion.
\<close>

definition scan2 ::
  "(string \<Rightarrow> string option) \<Rightarrow> string \<Rightarrow> string \<Rightarrow> string \<Rightarrow> nat \<times> string \<times> string" where
  "scan2 rest line key value =
     (let k = takeWhile (\<lambda>c. c \<noteq> CHR ''='') line;
          r = dropWhile (\<lambda>c. c \<noteq> CHR ''='') line in
      if k = [] then (0, key, value)
      else case rest r of None \<Rightarrow> (1, k, value) | Some v \<Rightarrow> (2, k, v))"

text \<open>A scanset conversion: the longest prefix of characters in \<open>P\<close>, at least one.\<close>

definition scanset :: "(char \<Rightarrow> bool) \<Rightarrow> string \<Rightarrow> string option" where
  "scanset P s = (let v = takeWhile P s in if v = [] then None else Some v)"

text \<open>\<^verbatim>\<open>" = "\<close> in a format: blanks, an equals sign, blanks.\<close>

definition eat_eq :: "string \<Rightarrow> string option" where
  "eat_eq s =
     (case dropWhile c_isspace s of
        [] \<Rightarrow> None
      | c # r \<Rightarrow> if c = CHR ''='' then Some (dropWhile c_isspace r) else None)"

definition scan_quoted :: "char \<Rightarrow> string \<Rightarrow> string option" where
  "scan_quoted q s =
     (case eat_eq s of
        None \<Rightarrow> None
      | Some [] \<Rightarrow> None
      | Some (c # r) \<Rightarrow> if c = q then scanset (\<lambda>c. c \<noteq> q) r else None)"

definition is_mark :: "char \<Rightarrow> bool" where
  "is_mark c \<longleftrightarrow> c = CHR '';'' \<or> c = CHR ''#''"

definition scan_plain :: "string \<Rightarrow> string option" where
  "scan_plain s = (case eat_eq s of None \<Rightarrow> None | Some r \<Rightarrow> scanset (\<lambda>c. \<not> is_mark c) r)"

definition scan_comment :: "string \<Rightarrow> string option" where
  "scan_comment s = (case eat_eq s of None \<Rightarrow> None | Some r \<Rightarrow> scanset is_mark r)"

definition scan_empty :: "string \<Rightarrow> string option" where
  "scan_empty s = scanset (\<lambda>c. c = CHR ''='') (dropWhile c_isspace s)"

text \<open>The status and the buffers \<open>section\<close>, \<open>key\<close> and \<open>value\<close> afterwards.\<close>

definition iniparser_line ::
  "string \<Rightarrow> string \<Rightarrow> string \<Rightarrow> string \<Rightarrow> (line_status \<times> string \<times> string \<times> string) res" where
  "iniparser_line input_line sec key value =
     bind_res (strstrip input_line) (\<lambda>line.
     if length line < 1 then Inr (LINE_EMPTY, sec, key, value)
     else if hd line = CHR ''#'' \<or> hd line = CHR '';'' then Inr (LINE_COMMENT, sec, key, value)
     else if hd line = CHR ''['' \<and> last line = CHR '']'' then
       (let sec1 = (case scanset (\<lambda>c. c \<noteq> CHR '']'') (tl line) of None \<Rightarrow> sec | Some s \<Rightarrow> s) in
        bind_res (strstrip sec1) (\<lambda>sec2. Inr (LINE_SECTION, strlwc sec2, key, value)))
     else
       let (n1, k1, v1) = scan2 (scan_quoted CHR 0x22) line key value;
           (n2, k2, v2) = (if n1 = 2 then (n1, k1, v1)
                           else scan2 (scan_quoted CHR 0x27) line k1 v1);
           (n3, k3, v3) = (if n2 = 2 then (n2, k2, v2) else scan2 scan_plain line k2 v2) in
       if n3 = 2 then
         bind_res (strstrip k3) (\<lambda>k.
         bind_res (strstrip v3) (\<lambda>v.
           Inr (LINE_VALUE, sec, strlwc k,
                if v = [CHR 0x22, CHR 0x22] \<or> v = [CHR 0x27, CHR 0x27] then [] else v)))
       else
         let (n4, k4, v4) = scan2 scan_comment line k3 v3;
             (n5, k5, v5) = (if n4 = 2 then (n4, k4, v4) else scan2 scan_empty line k4 v4) in
         if n5 = 2 then
           bind_res (strstrip k5) (\<lambda>k. Inr (LINE_VALUE, sec, strlwc k, []))
         else Inr (LINE_ERROR, sec, k5, v5))"

section \<open>The file\<close>

definition fgets :: "nat \<Rightarrow> string \<Rightarrow> string \<times> string" where
  "fgets n s =
     (let a = take (n - 1) s; l = takeWhile (\<lambda>c. c \<noteq> NL) a in
      if length l < length a then (l @ [NL], drop (length l + 1) s) else (a, drop (n - 1) s))"

record ini_state =
  is_dict :: "dictionary option"
  is_sec :: string
  is_key :: string
  is_val :: string
  is_pending :: string    \<comment> \<open>the text before \<^verbatim>\<open>line + last\<close>\<close>
  is_errs :: int
  is_lineno :: nat

text \<open>The \<^verbatim>\<open>switch\<close> over the status of a complete line.\<close>

definition load_set ::
  "bool \<Rightarrow> (nat \<Rightarrow> dict_alloc \<Rightarrow> bool) \<Rightarrow> ini_state \<Rightarrow> string \<Rightarrow> string option
   \<Rightarrow> ini_state res option" where
  "load_set sc mem st key val =
     map_option (map_sum id (\<lambda>(e, d). st\<lparr>is_errs := e, is_dict := d\<rparr>))
       (dictionary_set sc (mem (is_lineno st)) (is_dict st) (Some key) val)"

definition load_line ::
  "bool \<Rightarrow> (nat \<Rightarrow> dict_alloc \<Rightarrow> bool) \<Rightarrow> ini_state \<Rightarrow> string \<Rightarrow> ini_state res option" where
  "load_line sc mem st line =
     (case iniparser_line line (is_sec st) (is_key st) (is_val st) of
        Inl e \<Rightarrow> Some (Inl e)
      | Inr (sta, sec, key, val) \<Rightarrow>
          (let st1 = st\<lparr>is_sec := sec, is_key := key, is_val := val\<rparr> in
           case sta of
             LINE_SECTION \<Rightarrow> load_set sc mem st1 sec None
           | LINE_VALUE \<Rightarrow>
               if ASCIILINESZ < length sec + 1 + length key then Some (Inl Overrun)
               else load_set sc mem st1 (sec @ '':'' @ key) (Some val)
           | LINE_ERROR \<Rightarrow> Some (Inr (st1\<lparr>is_errs := is_errs st1 + 1\<rparr>))
           | _ \<Rightarrow> Some (Inr st1)))"

text \<open>After the loop: the dictionary is dropped when the last \<^verbatim>\<open>errs\<close> is not 0.\<close>

definition load_end :: "ini_state \<Rightarrow> dictionary option res" where
  "load_end st =
     (if is_errs st \<noteq> 0 then bind_res (dictionary_del (is_dict st)) (\<lambda>_. Inr None)
      else Inr (is_dict st))"

partial_function (option) load_loop ::
  "bool \<Rightarrow> (nat \<Rightarrow> dict_alloc \<Rightarrow> bool) \<Rightarrow> ini_state \<Rightarrow> string \<Rightarrow> dictionary option res option" where
  "load_loop sc mem st0 file =
     (if file = [] then Some (load_end st0)
      else
        let st = st0\<lparr>is_lineno := is_lineno st0 + 1\<rparr>;
            (chunk, rest) = fgets (ASCIILINESZ - length (is_pending st)) file;
            line = cstr_of (is_pending st @ chunk);
            body = rstrip line in
        if length line = 1 then load_loop sc mem st rest
        else if line = [] then Some (Inl Overrun)
        else if last line \<noteq> NL then
          Some (bind_res (dictionary_del (is_dict st)) (\<lambda>_. Inr None))
        else if body = [] then Some (Inl Overrun)
        else if last body = CHR 0x5C then
          load_loop sc mem (st\<lparr>is_pending := butlast body\<rparr>) rest
        else
          case load_line sc mem (st\<lparr>is_pending := []\<rparr>) body of
            None \<Rightarrow> None
          | Some (Inl e) \<Rightarrow> Some (Inl e)
          | Some (Inr st') \<Rightarrow>
              if is_errs st' < 0 then Some (load_end st') else load_loop sc mem st' rest)"

text \<open>
  \<open>file\<close> is \<open>None\<close> when it cannot be opened; \<open>mem n\<close> says which allocations succeed at line \<open>n\<close>,
  0 standing for the creation of the dictionary.
\<close>

definition iniparser_load ::
  "bool \<Rightarrow> (nat \<Rightarrow> dict_alloc \<Rightarrow> bool) \<Rightarrow> string option \<Rightarrow> dictionary option res option" where
  "iniparser_load sc mem file =
     (case file of
        None \<Rightarrow> Some (Inr None)
      | Some content \<Rightarrow>
          (case dictionary_new (mem 0) 0 of
             None \<Rightarrow> Some (Inr None)
           | Some d \<Rightarrow>
               load_loop sc mem
                 \<lparr>is_dict = Some d, is_sec = [], is_key = [], is_val = [], is_pending = [],
                  is_errs = 0, is_lineno = 0\<rparr> content))"

section \<open>Every file is read to an end\<close>

text \<open>
  What keeps the search for an empty slot finite even when \<^verbatim>\<open>malloc\<close> fails: the slots in use
  are never more than \<open>n\<close>.
\<close>

definition weak_ok :: "dictionary \<Rightarrow> bool" where
  "weak_ok d \<longleftrightarrow> d_key d = [] \<or>
     (length (d_key d) = d_size d \<and> used (d_key d) \<le> d_n d \<and> d_n d \<le> d_size d \<and> 0 < d_size d)"

lemma free_slot_weak:
  assumes "weak_ok d" "d_n d < d_size d"
  shows "\<exists>r. free_slot d (d_n d) = Some r \<and> (\<forall>i. r = Inr i \<longrightarrow> i < d_size d \<and> d_key d ! i = None)"
proof (cases "d_key d = []")
  case True
  then show ?thesis by (subst free_slot.simps) (simp add: rd_def)
next
  case False
  with assms have *: "length (d_key d) = d_size d" "used (d_key d) < length (d_key d)"
    by (auto simp: weak_ok_def)
  then have "\<exists>j < d_size d. d_key d ! j = None" using free_slot_exists [OF *(2)] by simp
  from free_slot_total [OF *(1) this assms(2)] show ?thesis by auto
qed

lemma grow_weak:
  assumes "weak_ok d" "grow mem d = (True, d')"
  shows "weak_ok d' \<and> (d_key d' = [] \<or> d_n d' < d_size d')"
proof (cases "d_n d = d_size d")
  case True
  with assms show ?thesis
    by (auto simp: grow_def weak_ok_def mem_double_def Let_def used_append_empty split: if_splits)
next
  case False
  with assms show ?thesis by (auto simp: grow_def weak_ok_def)
qed

lemma insert_at_weak:
  assumes "weak_ok d" "i < d_size d" "d_n d < d_size d" "d_key d ! i = None"
    and "insert_at sc mem d key val i = Inr d'"
  shows "weak_ok d'"
proof -
  obtain ks where ks: "wr (d_key d) i (xstrdup (mem DupKey) (Some key)) = Inr ks"
    and d': "d_key d' = ks" "d_n d' = Suc (d_n d)" "d_size d' = d_size d"
    using assms(5) by (auto simp: insert_at_def bind_res_Inr)
  then have "d_key d \<noteq> []" "ks = (d_key d)[i := xstrdup (mem DupKey) (Some key)]"
    "i < length (d_key d)"
    by (auto simp: wr_def split: if_splits)
  with d' assms(1,3,4) used_update [of i "d_key d" "xstrdup (mem DupKey) (Some key)"]
  show ?thesis by (auto simp: weak_ok_def split: if_splits)
qed

lemma set_weak:
  assumes "weak_ok d"
  shows "\<exists>r. dictionary_set sc mem (Some d) (Some key) val = Some r
    \<and> (\<forall>e dp. r = Inr (e, dp) \<longrightarrow> (\<exists>d'. dp = Some d' \<and> (e < 0 \<or> weak_ok d')))"
proof -
  let ?find = "if d_n d > 0 then find_slot d key (dictionary_hash sc key) 0 else Inr None"
  consider (fault) e where "?find = Inl e" | (found) i where "?find = Inr (Some i)"
    | (new) "?find = Inr None"
    by (cases ?find; cases "projr ?find") auto
  then show ?thesis
  proof cases
    case fault
    then show ?thesis by (simp add: dictionary_set_def)
  next
    case found
    then show ?thesis using assms
      by (auto simp: dictionary_set_def bind_res_Inr weak_ok_def)
  next
    case new
    obtain ok d1 where g: "grow mem d = (ok, d1)" by force
    show ?thesis
    proof (cases ok)
      case False
      with new g show ?thesis by (simp add: dictionary_set_def)
    next
      case True
      with g have w: "weak_ok d1" "d_key d1 = [] \<or> d_n d1 < d_size d1"
        using grow_weak [OF assms] by auto
      show ?thesis
      proof (cases "d_key d1 = []")
        case True
        then have "free_slot d1 (d_n d1) = Some (Inl NullPointer)"
          by (subst free_slot.simps) (simp add: rd_def)
        with new g \<open>ok\<close> show ?thesis by (simp add: dictionary_set_def)
      next
        case False
        with w have lt: "d_n d1 < d_size d1" by simp
        obtain r where r: "free_slot d1 (d_n d1) = Some r"
          "\<forall>i. r = Inr i \<longrightarrow> i < d_size d1 \<and> d_key d1 ! i = None"
          using free_slot_weak [OF w(1) lt] by blast
        show ?thesis
        proof (cases r)
          case (Inl e)
          with new g \<open>ok\<close> r show ?thesis by (simp add: dictionary_set_def)
        next
          case (Inr i)
          with new g \<open>ok\<close> r show ?thesis
            using insert_at_weak [OF w(1) _ lt, of i sc mem key val]
            by (auto simp: dictionary_set_def bind_res_Inr)
        qed
      qed
    qed
  qed
qed

lemma load_set_weak:
  assumes "is_dict st = Some d" "weak_ok d"
  shows "\<exists>r. load_set sc mem st key val = Some r
    \<and> (\<forall>st'. r = Inr st' \<longrightarrow> (\<exists>d'. is_dict st' = Some d' \<and> (is_errs st' < 0 \<or> weak_ok d'))
             \<and> is_pending st' = is_pending st)"
proof -
  obtain r where r: "dictionary_set sc (mem (is_lineno st)) (Some d) (Some key) val = Some r"
    "\<forall>e dp. r = Inr (e, dp) \<longrightarrow> (\<exists>d'. dp = Some d' \<and> (e < 0 \<or> weak_ok d'))"
    using set_weak [OF assms(2)] by blast
  with assms(1) show ?thesis by (cases r) (auto simp: load_set_def)
qed

lemma load_line_weak:
  assumes "is_dict st = Some d" "weak_ok d"
  shows "\<exists>r. load_line sc mem st line = Some r
    \<and> (\<forall>st'. r = Inr st' \<longrightarrow> (\<exists>d'. is_dict st' = Some d' \<and> (is_errs st' < 0 \<or> weak_ok d'))
             \<and> is_pending st' = is_pending st)"
proof (cases "iniparser_line line (is_sec st) (is_key st) (is_val st)")
  case (Inr q)
  obtain sta sec key val where q: "q = (sta, sec, key, val)" by (cases q)
  let ?st = "st\<lparr>is_sec := sec, is_key := key, is_val := val\<rparr>"
  have d: "is_dict ?st = Some d" using assms(1) by simp
  show ?thesis
    using Inr q assms load_set_weak [OF d assms(2), of sc mem sec None]
      load_set_weak [OF d assms(2), of sc mem "sec @ '':'' @ key" "Some val"]
    by (cases sta) (auto simp: load_line_def)
qed (simp add: load_line_def)

lemma fgets_shorter:
  assumes "fgets n s = (a, b)" "2 \<le> n" "s \<noteq> []"
  shows "length b < length s" "length a \<le> n - 1"
proof -
  let ?a = "take (n - 1) s"
  have l: "length (takeWhile (\<lambda>c. c \<noteq> NL) ?a) \<le> length ?a" by (rule length_takeWhile_le)
  have na: "0 < length ?a" using assms(2,3) by simp
  show "length b < length s"
    using assms na l by (auto simp: fgets_def Let_def split: if_splits)
  show "length a \<le> n - 1"
    using assms(1) l by (auto simp: fgets_def Let_def split: if_splits)
qed

lemma rstrip_length: "length (rstrip s) \<le> length s"
  unfolding rstrip_def length_rev
  by (metis length_dropWhile_le length_rev)

lemma rstrip_newline: "s \<noteq> [] \<Longrightarrow> last s = NL \<Longrightarrow> length (rstrip s) < length s"
proof (induction s rule: rev_induct)
  case (snoc c s)
  then have "rstrip (s @ [c]) = rstrip s" by (simp add: rstrip_def c_isspace_def NL_def)
  then show ?case using rstrip_length [of s] by simp
qed simp

lemma cstr_of_length: "length (cstr_of s) \<le> length s"
  by (simp add: cstr_of_def length_takeWhile_le)

text \<open>
  The invariant of the loop: the dictionary is sound enough, and the pending text leaves
  room for at least two characters, so every \<^verbatim>\<open>fgets\<close> makes progress.
\<close>

definition loop_inv :: "ini_state \<Rightarrow> bool" where
  "loop_inv st \<longleftrightarrow> (\<exists>d. is_dict st = Some d \<and> weak_ok d) \<and> length (is_pending st) \<le> 1021"

lemma load_loop_total: "loop_inv st \<Longrightarrow> \<exists>r. load_loop sc mem st content = Some r"
proof (induction "length content" arbitrary: st content rule: less_induct)
  case less
  show ?case
  proof (cases "content = []")
    case True
    then show ?thesis by (subst load_loop.simps) simp
  next
    case False
    let ?st = "st\<lparr>is_lineno := is_lineno st + 1\<rparr>"
    obtain chunk rest where f: "fgets (ASCIILINESZ - length (is_pending st)) content = (chunk, rest)"
      by force
    have room: "2 \<le> ASCIILINESZ - length (is_pending st)"
      using less.prems by (auto simp: loop_inv_def ASCIILINESZ_def)
    note sh = fgets_shorter [OF f room False]
    note IH = less.hyps [OF sh(1)]
    define line where "line = cstr_of (is_pending st @ chunk)"
    define body where "body = rstrip line"
    have "length line \<le> 1023"
      using cstr_of_length [of "is_pending st @ chunk"] sh(2) less.prems
      by (auto simp: line_def loop_inv_def ASCIILINESZ_def)
    then have pend: "last line = NL \<Longrightarrow> line \<noteq> [] \<Longrightarrow> length (butlast body) \<le> 1021"
      using rstrip_newline [of line] by (simp add: body_def)
    have inv: "loop_inv ?st" using less.prems by (simp add: loop_inv_def)
    have inv': "last line = NL \<Longrightarrow> line \<noteq> [] \<Longrightarrow> loop_inv (?st\<lparr>is_pending := butlast body\<rparr>)"
      using less.prems pend by (simp add: loop_inv_def)
    obtain d where d: "is_dict (?st\<lparr>is_pending := []\<rparr>) = Some d" "weak_ok d"
      using less.prems by (auto simp: loop_inv_def)
    obtain r where r: "load_line sc mem (?st\<lparr>is_pending := []\<rparr>) body = Some r"
      and rr: "\<And>st'. r = Inr st' \<Longrightarrow> \<not> is_errs st' < 0 \<Longrightarrow> loop_inv st'"
      using load_line_weak [OF d, of sc mem body] by (fastforce simp: loop_inv_def)
    show ?thesis
      using False f IH [OF inv] IH [OF inv'] IH [OF rr] r
      by (subst load_loop.simps)
        (auto simp: Let_def simp flip: line_def body_def split: sum.split)
  qed
qed

section \<open>A printed configuration is read back\<close>

text \<open>What a configuration file holds, and how it is written.\<close>

datatype ini_item = Section string | Entry string string

fun show_item :: "ini_item \<Rightarrow> string" where
  "show_item (Section s) = ''['' @ s @ '']''"
| "show_item (Entry k v) = k @ '' = '' @ v"

definition render :: "ini_item list \<Rightarrow> string" where
  "render items = concat (map (\<lambda>i. show_item i @ [NL]) items)"

text \<open>The assignments a list of items stands for, inside section \<open>sec\<close>.\<close>

fun meaning :: "string \<Rightarrow> ini_item list \<Rightarrow> (string \<times> string option) list" where
  "meaning sec [] = []"
| "meaning sec (Section s # r) = (s, None) # meaning s r"
| "meaning sec (Entry k v # r) = (sec @ '':'' @ k, Some v) # meaning sec r"

text \<open>A text that fits on a line and has no blank at its ends.\<close>

definition tidy :: "string \<Rightarrow> bool" where
  "tidy s \<longleftrightarrow> s \<noteq> [] \<and> \<not> c_isspace (hd s) \<and> \<not> c_isspace (last s) \<and> no_nul s \<and> NL \<notin> set s
     \<and> length s \<le> 500"

definition lower :: "string \<Rightarrow> bool" where
  "lower s \<longleftrightarrow> (\<forall>c \<in> set s. \<not> c_isupper c)"

fun item_ok :: "ini_item \<Rightarrow> bool" where
  "item_ok (Section s) \<longleftrightarrow> tidy s \<and> lower s \<and> CHR '']'' \<notin> set s"
| "item_ok (Entry k v) \<longleftrightarrow>
     tidy k \<and> lower k \<and> CHR ''='' \<notin> set k \<and> hd k \<notin> {CHR ''#'', CHR '';'', CHR ''[''}
     \<and> tidy v \<and> CHR ''#'' \<notin> set v \<and> CHR '';'' \<notin> set v \<and> hd v \<notin> {CHR 0x22, CHR 0x27}
     \<and> last v \<noteq> CHR 0x5C"

lemma lower_strlwc: "lower s \<Longrightarrow> length s \<le> ASCIILINESZ \<Longrightarrow> strlwc s = s"
  by (auto simp: lower_def strlwc_def c_tolower_def intro!: map_idI)

lemma rstrip_last: "s \<noteq> [] \<Longrightarrow> \<not> c_isspace (last s) \<Longrightarrow> rstrip s = s"
  by (cases s rule: rev_cases) (simp_all add: rstrip_def)

lemma rstrip_snoc: "c_isspace c \<Longrightarrow> rstrip (s @ [c]) = rstrip s"
  by (simp add: rstrip_def)

lemma skip_none: "s \<noteq> [] \<Longrightarrow> \<not> c_isspace (hd s) \<Longrightarrow> dropWhile c_isspace s = s"
  by (cases s) simp_all

lemma strstrip_id:
  "s \<noteq> [] \<Longrightarrow> \<not> c_isspace (hd s) \<Longrightarrow> \<not> c_isspace (last s) \<Longrightarrow> length s \<le> 1024
   \<Longrightarrow> strstrip s = Inr s"
  by (simp add: strstrip_def skip_none rstrip_last ASCIILINESZ_def)

lemma strstrip_trail:
  assumes "s \<noteq> []" "\<not> c_isspace (hd s)" "\<not> c_isspace (last s)" "length s \<le> 1023" "c_isspace c"
  shows "strstrip (s @ [c]) = Inr s"
proof -
  have "dropWhile c_isspace (s @ [c]) = s @ [c]" using assms by (cases s) simp_all
  with assms show ?thesis by (simp add: strstrip_def rstrip_snoc rstrip_last ASCIILINESZ_def)
qed

lemma tidy_simps:
  assumes "tidy s"
  shows "s \<noteq> []" "\<not> c_isspace (hd s)" "\<not> c_isspace (last s)" "no_nul s" "NL \<notin> set s"
    "length s \<le> 500" "length s \<le> 1023" "length s \<le> 1024" "length s \<le> ASCIILINESZ"
  using assms by (auto simp: tidy_def ASCIILINESZ_def)

lemma takeWhile_neq_stop: "x \<notin> set s \<Longrightarrow> takeWhile (\<lambda>c. c \<noteq> x) (s @ x # t) = s"
  by (induction s) auto

lemma dropWhile_stop: "x \<notin> set s \<Longrightarrow> dropWhile (\<lambda>c. c \<noteq> x) (s @ x # t) = x # t"
  by (induction s) auto

lemma space_isspace [simp]: "c_isspace CHR '' ''" "\<not> c_isspace CHR ''=''"
    "\<not> c_isspace CHR ''[''" "\<not> c_isspace CHR '']''"
  by (simp_all add: c_isspace_def)

lemma line_section:
  assumes "item_ok (Section s)"
  shows "iniparser_line (show_item (Section s)) sec key val = Inr (LINE_SECTION, s, key, val)"
proof -
  note t = tidy_simps [of s]
  have "strstrip (''['' @ s @ '']'') = Inr (''['' @ s @ '']'')"
    by (rule strstrip_id) (use assms t in auto)
  moreover have "scanset (\<lambda>c. c \<noteq> CHR '']'') (s @ '']'') = Some s"
    using assms t takeWhile_neq_stop [of "CHR '']''" s "[]"] by (simp add: scanset_def Let_def)
  moreover have "strstrip s = Inr s" "strlwc s = s"
    using assms t by (simp_all add: strstrip_id lower_strlwc)
  ultimately show ?thesis by (simp add: iniparser_line_def)
qed

lemma line_entry:
  assumes "item_ok (Entry k v)"
  shows "iniparser_line (show_item (Entry k v)) sec key val = Inr (LINE_VALUE, sec, k, v)"
proof -
  have tk: "tidy k" and tv: "tidy v" using assms by simp_all
  note k = tidy_simps [OF tk] and v = tidy_simps [OF tv]
  have line: "strstrip (k @ '' = '' @ v) = Inr (k @ '' = '' @ v)"
    by (rule strstrip_id) (use k v in auto)
  have split: "takeWhile (\<lambda>c. c \<noteq> CHR ''='') (k @ '' = '' @ v) = k @ '' ''"
    "dropWhile (\<lambda>c. c \<noteq> CHR ''='') (k @ '' = '' @ v) = ''= '' @ v"
    using assms takeWhile_neq_stop [of "CHR ''=''" "k @ '' ''" "'' '' @ v"]
      dropWhile_stop [of "CHR ''=''" "k @ '' ''" "'' '' @ v"] by simp_all
  have eat: "eat_eq (''= '' @ v) = Some v"
    using v by (simp add: eat_eq_def skip_none)
  obtain c w where cw: "v = c # w" using v(1) by (cases v) auto
  have q: "scan_quoted q (''= '' @ v) = None" if "hd v \<noteq> q" for q
    using that eat by (simp add: scan_quoted_def cw)
  have "takeWhile (\<lambda>c. \<not> is_mark c) v = v"
    using assms by (auto simp: takeWhile_eq_all_conv is_mark_def)
  then have "scanset (\<lambda>c. \<not> is_mark c) v = Some v"
    unfolding scanset_def Let_def using v(1) by (simp only: if_False)
  then have p: "scan_plain (''= '' @ v) = Some v"
    using eat by (simp add: scan_plain_def)
  have s1: "scan2 (scan_quoted q) (k @ '' = '' @ v) ky vl = (1, k @ '' '', vl)"
    if "hd v \<noteq> q" for q ky vl
    using q [OF that] split by (simp add: scan2_def)
  have s2: "scan2 scan_plain (k @ '' = '' @ v) ky vl = (2, k @ '' '', v)" for ky vl
    using p split by (simp add: scan2_def)
  have ks: "strstrip (k @ '' '') = Inr k" "strstrip v = Inr v" "strlwc k = k"
    using assms k v by (simp_all add: strstrip_trail strstrip_id lower_strlwc)
  have hd: "hd (k @ '' = '' @ v) = hd k" "hd k \<noteq> CHR ''#''" "hd k \<noteq> CHR '';''"
    "hd k \<noteq> CHR ''[''" "hd v \<noteq> CHR 0x22" "hd v \<noteq> CHR 0x27"
    "v \<noteq> [CHR 0x22, CHR 0x22]" "v \<noteq> [CHR 0x27, CHR 0x27]"
    using assms k(1) by auto
  show ?thesis
    unfolding iniparser_line_def show_item.simps line bind_res_simps hd(1) s1 [OF hd(5)]
      s1 [OF hd(6)]
    using hd k(1) by (simp add: s2 [simplified] ks)
qed

text \<open>One complete line that is not continued, read by the loop.\<close>

definition plain_line :: "string \<Rightarrow> bool" where
  "plain_line l \<longleftrightarrow> l \<noteq> [] \<and> no_nul l \<and> NL \<notin> set l \<and> \<not> c_isspace (last l)
     \<and> last l \<noteq> CHR 0x5C \<and> length l \<le> 1022"

lemma fgets_line:
  assumes "NL \<notin> set l" "length l + 1 < n"
  shows "fgets n (l @ NL # rest) = (l @ [NL], rest)"
proof -
  obtain m where m: "n - 1 - length l = Suc m" using assms(2)
    by (cases "n - 1 - length l") auto
  have "take (n - 1) (l @ NL # rest) = l @ NL # take m rest" using m assms(2) by simp
  moreover have "takeWhile (\<lambda>c. c \<noteq> NL) (l @ NL # take m rest) = l"
    using assms(1) by (rule takeWhile_neq_stop)
  ultimately show ?thesis by (simp add: fgets_def)
qed

lemma load_loop_line:
  assumes "plain_line l" "is_pending st = []"
  shows "load_loop sc mem st (l @ NL # rest)
       = (case load_line sc mem (st\<lparr>is_lineno := is_lineno st + 1\<rparr>) l of
            None \<Rightarrow> None
          | Some (Inl e) \<Rightarrow> Some (Inl e)
          | Some (Inr st') \<Rightarrow>
              if is_errs st' < 0 then Some (load_end st') else load_loop sc mem st' rest)"
proof -
  let ?st = "st\<lparr>is_lineno := is_lineno st + 1\<rparr>"
  have "fgets (ASCIILINESZ - length (is_pending st)) (l @ NL # rest) = (l @ [NL], rest)"
    by (rule fgets_line) (use assms in \<open>auto simp: plain_line_def ASCIILINESZ_def\<close>)
  moreover have "cstr_of (l @ [NL]) = l @ [NL]"
    using assms(1) by (auto simp: cstr_of_def plain_line_def no_nul_def takeWhile_eq_all_conv NL_def)
  moreover have "rstrip (l @ [NL]) = l"
    using assms(1) by (simp add: rstrip_snoc rstrip_last plain_line_def)
      (simp add: c_isspace_def NL_def rstrip_def rstrip_last [unfolded rstrip_def])
  moreover have pend: "st\<lparr>is_lineno := n, is_pending := []\<rparr> = st\<lparr>is_lineno := n\<rparr>" for n
    using assms(2) by (cases st) simp
  ultimately show ?thesis
    using assms by (subst load_loop.simps) (simp add: plain_line_def pend)
qed

lemma item_plain:
  assumes "item_ok i"
  shows "plain_line (show_item i)"
proof (cases i)
  case (Section s)
  with assms show ?thesis using tidy_simps [of s] by (simp add: plain_line_def NL_def)
next
  case (Entry k v)
  then have "tidy k" "tidy v" using assms by simp_all
  with Entry assms show ?thesis
    using tidy_simps [of k] tidy_simps [of v] by (auto simp: plain_line_def NL_def)
qed

text \<open>The state between lines: well formed, nothing pending, section and no fatal error.\<close>

definition line_inv :: "bool \<Rightarrow> ini_state \<Rightarrow> dictionary \<Rightarrow> string \<Rightarrow> bool" where
  "line_inv sc st d sec \<longleftrightarrow> is_dict st = Some d \<and> dict_ok sc d \<and> is_sec st = sec
     \<and> is_pending st = [] \<and> 0 \<le> is_errs st \<and> length sec \<le> 500"

definition no_fail :: "nat \<Rightarrow> dict_alloc \<Rightarrow> bool" where
  "no_fail n a = True"

lemma set_total_ok:
  assumes "dict_ok sc d"
  shows "\<exists>d'. dictionary_set sc (no_fail n) (Some d) (Some k) v = Some (Inr (0, Some d'))
    \<and> set_total sc d k v = Inr d' \<and> dict_ok sc d'"
proof -
  have "no_fail n = (\<lambda>_. True)" by (rule ext) (simp add: no_fail_def)
  with set_ok [OF assms, of "no_fail n" k v] show ?thesis
    by (auto simp: set_total_def)
qed

lemma load_set_ok:
  assumes "line_inv sc st d sec"
  shows "\<exists>st' d'. load_set sc no_fail st k v = Some (Inr st') \<and> set_total sc d k v = Inr d'
    \<and> line_inv sc st' d' sec \<and> is_errs st' = 0"
proof -
  obtain d' where "dictionary_set sc (no_fail (is_lineno st)) (Some d) (Some k) v
      = Some (Inr (0, Some d'))" "set_total sc d k v = Inr d'" "dict_ok sc d'"
    using set_total_ok assms unfolding line_inv_def by blast
  with assms show ?thesis by (simp add: load_set_def line_inv_def)
qed

lemma load_item:
  assumes "item_ok i" "line_inv sc st d sec"
  shows "\<exists>st' d' sec'. load_line sc no_fail st (show_item i) = Some (Inr st')
    \<and> dm.put_all sc d (meaning sec [i]) = Inr d' \<and> line_inv sc st' d' sec' \<and> is_errs st' = 0
    \<and> (\<forall>r. meaning sec (i # r) = meaning sec [i] @ meaning sec' r)"
proof (cases i)
  case (Section s)
  let ?st = "st\<lparr>is_sec := s\<rparr>"
  have inv: "line_inv sc ?st d s"
    using assms Section by (simp add: line_inv_def tidy_def)
  have "st\<lparr>is_sec := s, is_key := is_key st, is_val := is_val st\<rparr> = ?st" by (cases st) simp
  then have "load_line sc no_fail st (show_item i) = load_set sc no_fail ?st s None"
    using line_section [of s "is_sec st" "is_key st" "is_val st"] assms(1) Section
    by (simp add: load_line_def)
  with load_set_ok [OF inv, of s None] Section show ?thesis by auto
next
  case (Entry k v)
  let ?st = "st\<lparr>is_sec := sec, is_key := k, is_val := v\<rparr>"
  have inv: "line_inv sc ?st d sec" using assms Entry by (simp add: line_inv_def)
  have "length sec + 1 + length k \<le> ASCIILINESZ"
    using assms Entry by (simp add: line_inv_def tidy_def ASCIILINESZ_def)
  then have "load_line sc no_fail st (show_item i)
      = load_set sc no_fail ?st (sec @ '':'' @ k) (Some v)"
    using line_entry [of k v "is_sec st" "is_key st" "is_val st"] assms Entry
    by (simp add: load_line_def line_inv_def)
  with load_set_ok [OF inv, of "sec @ '':'' @ k" "Some v"] Entry show ?thesis by auto
qed

lemma put_all_append:
  "dm.put_all sc d (xs @ ys) = bind_res (dm.put_all sc d xs) (\<lambda>d'. dm.put_all sc d' ys)"
proof (induction xs arbitrary: d)
  case (Cons kv xs)
  obtain k v where "kv = (k, v)" by force
  then show ?case using Cons.IH by (cases "set_total sc d k v") simp_all
qed simp

lemma line_inv_lineno:
  "line_inv sc (st\<lparr>is_lineno := n\<rparr>) d sec = line_inv sc st d sec"
  by (simp add: line_inv_def)

lemma load_items:
  assumes "\<forall>i \<in> set items. item_ok i" "line_inv sc st d sec"
  shows "\<exists>st' d' sec'. load_loop sc no_fail st (render items @ rest)
      = load_loop sc no_fail st' rest
    \<and> dm.put_all sc d (meaning sec items) = Inr d' \<and> line_inv sc st' d' sec'
    \<and> is_errs st' = (if items = [] then is_errs st else 0)"
  using assms
proof (induction items arbitrary: st d sec)
  case Nil
  then show ?case by (auto simp: render_def)
next
  case (Cons i items)
  let ?st = "st\<lparr>is_lineno := is_lineno st + 1\<rparr>"
  have inv: "line_inv sc ?st d sec" using Cons.prems(2) by (simp add: line_inv_lineno)
  have ok: "item_ok i" using Cons.prems(1) by simp
  obtain st1 d1 sec1 where 1: "load_line sc no_fail ?st (show_item i) = Some (Inr st1)"
    "dm.put_all sc d (meaning sec [i]) = Inr d1" "line_inv sc st1 d1 sec1" "is_errs st1 = 0"
    "\<forall>r. meaning sec (i # r) = meaning sec [i] @ meaning sec1 r"
    using load_item [OF ok inv] by blast
  have "plain_line (show_item i)" using item_plain [of i] Cons.prems(1) by simp
  moreover have "is_pending st = []" using Cons.prems(2) by (simp add: line_inv_def)
  ultimately have "load_loop sc no_fail st (show_item i @ NL # render items @ rest)
      = load_loop sc no_fail st1 (render items @ rest)"
    using 1(1,4) by (simp only: load_loop_line option.case sum.case) simp
  then have step: "load_loop sc no_fail st (render (i # items) @ rest)
      = load_loop sc no_fail st1 (render items @ rest)"
    by (simp add: render_def)
  have oks: "\<forall>i \<in> set items. item_ok i" using Cons.prems(1) by simp
  obtain st' d' sec' where 2: "load_loop sc no_fail st1 (render items @ rest)
      = load_loop sc no_fail st' rest" "dm.put_all sc d1 (meaning sec1 items) = Inr d'"
      "line_inv sc st' d' sec'" "is_errs st' = (if items = [] then is_errs st1 else 0)"
    using Cons.IH [OF oks 1(3)] by (elim exE conjE) (rule that)
  have "dm.put_all sc d (meaning sec (i # items)) = Inr d'"
    unfolding 1(5) [rule_format, of items] put_all_append 1(2) bind_res_simps by (rule 2(2))
  moreover have "is_errs st' = 0" using 1(4) 2(4) by simp
  ultimately show ?case
    using step 2(1,3) by (intro exI [of _ st'] exI [of _ d'] exI [of _ sec']) simp
qed

section \<open>Properties\<close>

definition start_state :: "dictionary \<Rightarrow> ini_state" where
  "start_state d = \<lparr>is_dict = Some d, is_sec = [], is_key = [], is_val = [], is_pending = [],
     is_errs = 0, is_lineno = 0\<rparr>"

lemma load_render:
  assumes "\<forall>i \<in> set items. item_ok i"
  shows "\<exists>d. iniparser_load sc no_fail (Some (render items)) = Some (Inr (Some d))
    \<and> (\<forall>key def. dictionary_get sc d key def
        = Inr (case map_of (rev (meaning [] items)) key of None \<Rightarrow> def | Some v \<Rightarrow> ptr_of v))"
proof -
  obtain d0 where d0: "dictionary_new (no_fail 0) 0 = Some d0" "dict_ok sc d0"
    "dict_lookup d0 = Map.empty"
    using dictionary_new_ok [of "no_fail 0" 0 sc] by (auto simp: no_fail_def)
  have inv: "line_inv sc (start_state d0) d0 []"
    using d0(2) by (simp add: line_inv_def start_state_def)
  obtain st' d' sec' where 1: "load_loop sc no_fail (start_state d0) (render items @ [])
      = load_loop sc no_fail st' []" "dm.put_all sc d0 (meaning [] items) = Inr d'"
      "line_inv sc st' d' sec'"
      "is_errs st' = (if items = [] then is_errs (start_state d0) else 0)"
    using load_items [OF assms inv, of "[]"] by (elim exE conjE) (rule that)
  have "is_errs st' = 0" using 1(4) by (simp add: start_state_def split: if_splits)
  then have "load_loop sc no_fail st' [] = Some (Inr (Some d'))"
    using 1(3) by (subst load_loop.simps) (simp add: load_end_def line_inv_def)
  with 1(1) have "iniparser_load sc no_fail (Some (render items)) = Some (Inr (Some d'))"
    by (simp add: iniparser_load_def d0(1) start_state_def)
  moreover have "dictionary_get sc d' key def
      = Inr (case map_of (rev (meaning [] items)) key of None \<Rightarrow> def | Some v \<Rightarrow> ptr_of v)" for key def
    using dm.get_after_put_all [OF d0(2) 1(2)] d0(3) by (auto split: option.splits)
  ultimately show ?thesis by blast
qed

text \<open>
  C12. Reading a printed configuration (sections and entries whose texts fit on a line)
  succeeds, and \<^verbatim>\<open>iniparser_getstring\<close> then gives the value written last under the section
  and key, whatever the case of the key asked for, a null pointer for a bare section name,
  and the caller's default for everything else.
\<close>

theorem iniparser_load_roundtrip:
  assumes "\<forall>i \<in> set items. item_ok i"
  shows "\<exists>d. iniparser_load sc no_fail (Some (render items)) = Some (Inr (Some d))
    \<and> iniparser_getstring sc (Some d) (Some key) def
        = Inr (case map_of (rev (meaning [] items)) (strlwc key) of
                 None \<Rightarrow> def | Some v \<Rightarrow> ptr_of v)"
  using load_render [OF assms, of sc] by (auto simp: iniparser_getstring_def)

lemma iniparser_load_roundtrip_witness:
  "\<exists>d. iniparser_load True no_fail (Some (render [Section ''telnet'', Entry ''port'' ''2000'']))
      = Some (Inr (Some d))
    \<and> iniparser_getstring True (Some d) (Some ''telnet:port'') Null
        = Inr (case map_of (rev (meaning [] [Section ''telnet'', Entry ''port'' ''2000'']))
                     (strlwc ''telnet:port'') of
                 None \<Rightarrow> Null | Some v \<Rightarrow> ptr_of v)"
  by (rule iniparser_load_roundtrip) code_simp

text \<open>
  C35. \<^verbatim>\<open>iniparser_load\<close> returns for every file, also when any allocations fail: each
  \<^verbatim>\<open>fgets\<close> consumes a character, continued lines included, and every search of the
  dictionary for an empty slot ends.
\<close>

theorem iniparser_load_terminates: "\<exists>r. iniparser_load sc mem content = Some r"
proof (cases content)
  case (Some cs)
  show ?thesis
  proof (cases "dictionary_new (mem 0) 0")
    case (Some d)
    then have "weak_ok d"
      by (auto simp: dictionary_new_def weak_ok_def used_def DICTMINSZ_def split: if_splits)
    then have "loop_inv (start_state d)" by (simp add: loop_inv_def start_state_def)
    then show ?thesis
      using load_loop_total [of "start_state d" sc mem cs] Some \<open>content = Some cs\<close>
      by (auto simp: iniparser_load_def start_state_def)
  qed (simp add: iniparser_load_def Some)
qed (simp add: iniparser_load_def)

text \<open>A line that is neither a comment nor a section and has no equals sign.\<close>

definition bad_line :: "string \<Rightarrow> bool" where
  "bad_line l \<longleftrightarrow> plain_line l \<and> \<not> c_isspace (hd l) \<and> CHR ''='' \<notin> set l
     \<and> hd l \<notin> {CHR ''#'', CHR '';'', CHR ''[''}"

lemma line_bad:
  assumes "bad_line l"
  shows "\<exists>k v. iniparser_line l sec key val = Inr (LINE_ERROR, sec, k, v)"
proof -
  have s: "strstrip l = Inr l"
    using assms by (auto simp: bad_line_def plain_line_def intro!: strstrip_id)
  have tw: "takeWhile (\<lambda>c. c \<noteq> CHR ''='') l = l" "dropWhile (\<lambda>c. c \<noteq> CHR ''='') l = []"
    using assms by (auto simp: bad_line_def takeWhile_eq_all_conv dropWhile_eq_Nil_conv)
  have "l \<noteq> []" using assms by (simp add: bad_line_def plain_line_def)
  then have sc: "scan2 f l ky vl = (1, l, vl)" if "f [] = None" for f ky vl
    using that by (simp add: scan2_def tw)
  have none: "scan_quoted q [] = None" "scan_plain [] = None" "scan_comment [] = None"
    "scan_empty [] = None" for q
    by (simp_all add: scan_quoted_def scan_plain_def scan_comment_def scan_empty_def
        eat_eq_def scanset_def Let_def)
  show ?thesis
    using assms \<open>l \<noteq> []\<close> by (simp add: iniparser_line_def s sc none bad_line_def)
qed

lemma load_loop_bad:
  assumes "bad_line l" "line_inv sc st d sec"
  shows "\<exists>st'. load_loop sc no_fail st (l @ NL # rest) = load_loop sc no_fail st' rest
    \<and> line_inv sc st' d sec \<and> is_errs st' = is_errs st + 1"
proof -
  let ?st = "st\<lparr>is_lineno := is_lineno st + 1\<rparr>"
  have sec: "is_sec st = sec" "is_pending st = []" "0 \<le> is_errs st"
    using assms(2) by (simp_all add: line_inv_def)
  obtain k v where l: "iniparser_line l sec (is_key st) (is_val st) = Inr (LINE_ERROR, sec, k, v)"
    using line_bad [OF assms(1)] by blast
  let ?st' = "?st\<lparr>is_sec := sec, is_key := k, is_val := v, is_errs := is_errs st + 1\<rparr>"
  have "load_line sc no_fail ?st l = Some (Inr ?st')"
    using l sec by (simp add: load_line_def)
  then have "load_loop sc no_fail st (l @ NL # rest) = load_loop sc no_fail ?st' rest"
    using load_loop_line [of l st sc no_fail rest] assms(1) sec by (simp add: bad_line_def)
  moreover have "line_inv sc ?st' d sec" using assms(2) by (simp add: line_inv_def)
  ultimately show ?thesis by (intro exI [of _ ?st']) simp
qed

text \<open>
  A syntax error only counts while no section or entry follows it: after
  \<^verbatim>\<open>errs = dictionary_set(...)\<close> the count of errors is lost, so a file with a line that is
  not understood loads as if the line were not there, while the same line at the end of the
  file makes the load fail.
\<close>

theorem iniparser_error_forgotten:
  assumes "\<forall>i \<in> set items. item_ok i" and "items \<noteq> []" and "bad_line l"
  shows "\<exists>d. iniparser_load sc no_fail (Some (l @ [NL] @ render items)) = Some (Inr (Some d))
    \<and> iniparser_load sc no_fail (Some (render items @ l @ [NL])) = Some (Inr None)"
proof -
  obtain d0 where d0: "dictionary_new (no_fail 0) 0 = Some d0" "dict_ok sc d0"
    using dictionary_new_ok [of "no_fail 0" 0 sc] by (auto simp: no_fail_def)
  have inv: "line_inv sc (start_state d0) d0 []"
    using d0(2) by (simp add: line_inv_def start_state_def)
  have load: "iniparser_load sc no_fail (Some t) = load_loop sc no_fail (start_state d0) t" for t
    by (simp add: iniparser_load_def d0(1) start_state_def)
  have stop: "load_loop sc no_fail st [] = Some (load_end st)" for st
    by (subst load_loop.simps) simp
  obtain st1 where 1: "load_loop sc no_fail (start_state d0) (l @ NL # render items @ [])
      = load_loop sc no_fail st1 (render items @ [])" "line_inv sc st1 d0 []"
    using load_loop_bad [OF assms(3) inv] by blast
  obtain st2 d2 sec2 where 2: "load_loop sc no_fail st1 (render items @ [])
      = load_loop sc no_fail st2 []" "line_inv sc st2 d2 sec2" "is_errs st2 = 0"
    using load_items [OF assms(1) 1(2), of "[]"] assms(2) by (elim exE conjE) (simp add: that)
  obtain st3 d3 sec3 where 3: "load_loop sc no_fail (start_state d0) (render items @ l @ NL # [])
      = load_loop sc no_fail st3 (l @ NL # [])" "line_inv sc st3 d3 sec3" "is_errs st3 = 0"
    using load_items [OF assms(1) inv, of "l @ NL # []"] assms(2)
    by (elim exE conjE) (simp add: that)
  obtain st4 where 4: "load_loop sc no_fail st3 (l @ NL # []) = load_loop sc no_fail st4 []"
      "line_inv sc st4 d3 sec3" "is_errs st4 = 1"
    using load_loop_bad [OF assms(3) 3(2), of "[]"] 3(3) by auto
  have "load_end st2 = Inr (Some d2)" using 2(2,3) by (simp add: load_end_def line_inv_def)
  moreover have "load_end st4 = Inr None"
    using 4(2,3) dict_ok_lengths [of sc d3]
    by (auto simp: load_end_def line_inv_def dictionary_del_def)
  ultimately show ?thesis using 1(1) 2(1) 3(1) 4(1) by (simp add: load stop)
qed

lemma iniparser_error_forgotten_witness:
  "\<exists>d. iniparser_load True no_fail (Some (''junk'' @ [NL] @ render [Section ''a'']))
        = Some (Inr (Some d))
    \<and> iniparser_load True no_fail (Some (render [Section ''a''] @ ''junk'' @ [NL]))
        = Some (Inr None)"
  by (rule iniparser_error_forgotten) (simp, code_simp, simp, code_simp)

text \<open>
  A line of blanks (in a file with CR LF line ends, every empty line) makes the code
  read the byte before the line buffer. A last line of two or more characters without a
  newline is taken for one that is too long, and the whole file is rejected.
\<close>

theorem iniparser_blank_and_open_lines:
  assumes "\<forall>i \<in> set items. item_ok i"
    and "ws \<noteq> []" and "\<forall>c \<in> set ws. c_isspace c \<and> c \<noteq> NL" and "length ws \<le> 1022"
    and "plain_line l" and "2 \<le> length l"
  shows "iniparser_load sc no_fail (Some (render items @ ws @ NL # rest)) = Some (Inl Overrun)
    \<and> iniparser_load sc no_fail (Some (render items @ l)) = Some (Inr None)"
proof -
  obtain d0 where d0: "dictionary_new (no_fail 0) 0 = Some d0" "dict_ok sc d0"
    using dictionary_new_ok [of "no_fail 0" 0 sc] by (auto simp: no_fail_def)
  have inv: "line_inv sc (start_state d0) d0 []"
    using d0(2) by (simp add: line_inv_def start_state_def)
  have load: "iniparser_load sc no_fail (Some t) = load_loop sc no_fail (start_state d0) t" for t
    by (simp add: iniparser_load_def d0(1) start_state_def)
  have reach: "\<exists>st d sec. load_loop sc no_fail (start_state d0) (render items @ t)
      = load_loop sc no_fail st t \<and> line_inv sc st d sec" for t
    using load_items [OF assms(1) inv, of t] by (elim exE conjE) blast
  obtain st1 d1 sec1 where 1: "load_loop sc no_fail (start_state d0) (render items @ ws @ NL # rest)
      = load_loop sc no_fail st1 (ws @ NL # rest)" "line_inv sc st1 d1 sec1"
    using reach by blast
  obtain st2 d2 sec2 where 2: "load_loop sc no_fail (start_state d0) (render items @ l)
      = load_loop sc no_fail st2 l" "line_inv sc st2 d2 sec2"
    using reach by blast
  have nn: "no_nul ws" using assms(3) by (auto simp: no_nul_def c_isspace_def)
  have "cstr_of (ws @ [NL]) = ws @ [NL]"
    using nn by (auto simp: cstr_of_def no_nul_def takeWhile_eq_all_conv NL_def)
  moreover have "fgets ASCIILINESZ (ws @ NL # rest) = (ws @ [NL], rest)"
    by (rule fgets_line) (use assms in \<open>auto simp: ASCIILINESZ_def\<close>)
  moreover have "rstrip (ws @ [NL]) = []"
    using assms(3) by (auto simp: rstrip_def c_isspace_def NL_def dropWhile_eq_Nil_conv)
  ultimately have "load_loop sc no_fail st1 (ws @ NL # rest) = Some (Inl Overrun)"
    using assms(2) 1(2) by (subst load_loop.simps) (simp add: line_inv_def)
  moreover have "load_loop sc no_fail st2 l = Some (Inr None)"
  proof -
    have l: "l \<noteq> []" "NL \<notin> set l" "length l \<le> 1022"
      using assms(5,6) by (auto simp: plain_line_def)
    have "last l \<noteq> NL" using l(1,2) last_in_set by fastforce
    note l = l this
    have whole: "takeWhile (\<lambda>c. c \<noteq> NL) l = l"
      using l(2) by (auto simp: takeWhile_eq_all_conv)
    from l(3) have "take (ASCIILINESZ - 1) l = l" "drop (ASCIILINESZ - 1) l = []"
      by (simp_all add: ASCIILINESZ_def)
    then have "fgets ASCIILINESZ l = (l, [])"
      unfolding fgets_def by (simp only: Let_def whole less_irrefl if_False)
    moreover have "cstr_of l = l"
      using assms(5) by (auto simp: cstr_of_def plain_line_def no_nul_def takeWhile_eq_all_conv)
    moreover have "dictionary_del (Some d2) = Inr ()"
      using 2(2) dict_ok_lengths [of sc d2] by (auto simp: dictionary_del_def line_inv_def)
    ultimately show ?thesis
      using l assms(6) 2(2) by (subst load_loop.simps) (simp add: line_inv_def)
  qed
  ultimately show ?thesis using 1(1) 2(1) by (simp add: load)
qed

lemma iniparser_blank_and_open_lines_witness:
  "iniparser_load True no_fail (Some (render [Section ''a''] @ [CHR 0x0D] @ NL # ''x''))
      = Some (Inl Overrun)
    \<and> iniparser_load True no_fail (Some (render [Section ''a''] @ ''b=c'')) = Some (Inr None)"
  by (rule iniparser_blank_and_open_lines) (simp, code_simp, code_simp+)

end
