(* ===== verification/Url.thy ===== *)
theory Url
  imports Prelude
begin

text \<open>
  The URL parser of \<^verbatim>\<open>src/DVB/utils.c\<close>, one definition per stage of \<^verbatim>\<open>parse_url\<close>: scheme,
  the two slashes, user and password, host, port, and the path with its query and fragment.
  A stage takes the text at \<^verbatim>\<open>curstr\<close> and returns the text it leaves there. \<open>None\<close> is the
  null pointer every failing stage returns after freeing what it built. \<open>mem\<close> says which
  requests to \<^verbatim>\<open>malloc\<close> succeed.

  The lemmas are a round trip, printing a URL and parsing it again, and what a successful
  parse guarantees to the callers.
\<close>

section \<open>The parser\<close>

record parsed_url =
  scheme :: string
  host :: string
  port :: "string option"
  path :: "string option"
  query :: "string option"
  fragment :: "string option"
  username :: "string option"
  password :: "string option"

definition is_scheme_char :: "char \<Rightarrow> bool" where
  "is_scheme_char c \<longleftrightarrow> c_isalpha c \<or> c = CHR ''+'' \<or> c = CHR ''-'' \<or> c = CHR ''.''"

definition parse_scheme :: "(nat \<Rightarrow> bool) \<Rightarrow> string \<Rightarrow> (string \<times> string) option" where
  "parse_scheme mem curstr =
     (if CHR '':'' \<notin> set curstr then None
      else
        let s = takeWhile (\<lambda>c. c \<noteq> CHR '':'') curstr in
        if \<not> list_all is_scheme_char s then None
        else if \<not> mem (length s + 1) then None
        else Some (map c_tolower s, drop (length s + 1) curstr))"

fun eat_slashes :: "nat \<Rightarrow> string \<Rightarrow> string option" where
  "eat_slashes 0 curstr = Some curstr"
| "eat_slashes (Suc i) [] = None"
| "eat_slashes (Suc i) (c # cs) = (if c \<noteq> CHR ''/'' then None else eat_slashes i cs)"

text \<open>Is there an at sign before the first slash?\<close>

fun userpass_flag :: "string \<Rightarrow> bool" where
  "userpass_flag [] = False"
| "userpass_flag (c # cs) =
     (if c = CHR ''@'' then True else if c = CHR ''/'' then False else userpass_flag cs)"

text \<open>Skips the at sign after the user information.\<close>

definition skip_at :: "string \<Rightarrow> string option" where
  "skip_at curstr =
     (case curstr of [] \<Rightarrow> None | c # cs \<Rightarrow> if c \<noteq> CHR ''@'' then None else Some cs)"

definition parse_userinfo ::
  "(nat \<Rightarrow> bool) \<Rightarrow> string \<Rightarrow> (string option \<times> string option \<times> string) option" where
  "parse_userinfo mem curstr =
     (if userpass_flag curstr then
        let user = takeWhile (\<lambda>c. c \<noteq> CHR '':'' \<and> c \<noteq> CHR ''@'') curstr;
            rest = drop (length user) curstr in
        if \<not> mem (length user + 1) then None
        else if rest \<noteq> [] \<and> hd rest = CHR '':'' then
          let pass = takeWhile (\<lambda>c. c \<noteq> CHR ''@'') (tl rest) in
          if \<not> mem (length pass + 1) then None
          else map_option (\<lambda>r. (Some user, Some pass, r)) (skip_at (drop (length pass) (tl rest)))
        else map_option (\<lambda>r. (Some user, None, r)) (skip_at rest)
      else Some (None, None, curstr))"

text \<open>
  The loop that reads the host: up to and including the closing bracket of an IPv6 address,
  or up to a colon or a slash.
\<close>

fun host_span :: "bool \<Rightarrow> string \<Rightarrow> string" where
  "host_span bracket_flag [] = []"
| "host_span bracket_flag (c # cs) =
     (if bracket_flag \<and> c = CHR '']'' then [c]
      else if \<not> bracket_flag \<and> (c = CHR '':'' \<or> c = CHR ''/'') then []
      else c # host_span bracket_flag cs)"

definition parse_host :: "(nat \<Rightarrow> bool) \<Rightarrow> string \<Rightarrow> (string \<times> string) option" where
  "parse_host mem curstr =
     (let bracket_flag = (curstr \<noteq> [] \<and> hd curstr = CHR ''['');
          h = host_span bracket_flag curstr in
      if \<not> mem (length h + 1) \<or> h = [] then None
      else Some (h, drop (length h) curstr))"

definition parse_port :: "(nat \<Rightarrow> bool) \<Rightarrow> string \<Rightarrow> (string option \<times> string) option" where
  "parse_port mem curstr =
     (if curstr \<noteq> [] \<and> hd curstr = CHR '':'' then
        let p = takeWhile (\<lambda>c. c \<noteq> CHR ''/'') (tl curstr) in
        if \<not> mem (length p + 1) then None
        else Some (Some p, drop (length p) (tl curstr))
      else Some (None, curstr))"

text \<open>The path with the optional query and fragment, after the slash.\<close>

definition parse_query :: "(nat \<Rightarrow> bool) \<Rightarrow> string \<Rightarrow> (string option \<times> string) option" where
  "parse_query mem curstr =
     (if curstr \<noteq> [] \<and> hd curstr = CHR ''?'' then
        let q = takeWhile (\<lambda>c. c \<noteq> CHR ''#'') (tl curstr) in
        if \<not> mem (length q + 1) then None
        else Some (Some q, drop (length q) (tl curstr))
      else Some (None, curstr))"

definition parse_fragment :: "(nat \<Rightarrow> bool) \<Rightarrow> string \<Rightarrow> string option option" where
  "parse_fragment mem curstr =
     (if curstr \<noteq> [] \<and> hd curstr = CHR ''#'' then
        if \<not> mem (length (tl curstr) + 1) then None else Some (Some (tl curstr))
      else Some None)"

definition parse_path ::
  "(nat \<Rightarrow> bool) \<Rightarrow> string \<Rightarrow> (string option \<times> string option \<times> string option) option" where
  "parse_path mem curstr =
     (case curstr of
        [] \<Rightarrow> Some (None, None, None)
      | c # cs \<Rightarrow>
          if c \<noteq> CHR ''/'' then None
          else
            let p = takeWhile (\<lambda>c. c \<noteq> CHR ''#'' \<and> c \<noteq> CHR ''?'') cs in
            if \<not> mem (length p + 1) then None
            else
              Option.bind (parse_query mem (drop (length p) cs)) (\<lambda>(q, rest).
              map_option (\<lambda>f. (Some p, q, f)) (parse_fragment mem rest)))"

definition parse_url :: "(nat \<Rightarrow> bool) \<Rightarrow> string \<Rightarrow> parsed_url option" where
  "parse_url mem url =
     (if \<not> mem 64 then None
      else
        Option.bind (parse_scheme mem url) (\<lambda>(sch, rest).
        Option.bind (eat_slashes 2 rest) (\<lambda>rest.
        Option.bind (parse_userinfo mem rest) (\<lambda>(user, pass, rest).
        Option.bind (parse_host mem rest) (\<lambda>(hst, rest).
        Option.bind (parse_port mem rest) (\<lambda>(prt, rest).
        map_option (\<lambda>(pth, qry, frag).
          \<lparr>scheme = sch, host = hst, port = prt, path = pth, query = qry, fragment = frag,
           username = user, password = pass\<rparr>)
          (parse_path mem rest)))))))"

section \<open>Printing\<close>

definition opt_part :: "string \<Rightarrow> string option \<Rightarrow> string" where
  "opt_part pre x = (case x of None \<Rightarrow> [] | Some s \<Rightarrow> pre @ s)"

definition show_userinfo :: "string option \<Rightarrow> string option \<Rightarrow> string" where
  "show_userinfo user pass =
     (case user of None \<Rightarrow> [] | Some u \<Rightarrow> u @ opt_part '':'' pass @ ''@'')"

definition show_path :: "string option \<Rightarrow> string option \<Rightarrow> string option \<Rightarrow> string" where
  "show_path pth qry frag =
     (case pth of None \<Rightarrow> []
      | Some p \<Rightarrow> ''/'' @ p @ opt_part ''?'' qry @ opt_part ''#'' frag)"

definition show_url :: "parsed_url \<Rightarrow> string" where
  "show_url u =
     scheme u @ ''://'' @ show_userinfo (username u) (password u) @ host u @
     opt_part '':'' (port u) @ show_path (path u) (query u) (fragment u)"

text \<open>
  The URLs with an unambiguous printed form: no part holds a character that ends it, and
  parts that only exist inside others are absent with them.
\<close>

definition free_of :: "string \<Rightarrow> string \<Rightarrow> bool" where
  "free_of bad s \<longleftrightarrow> set s \<inter> set bad = {}"

definition opt_free_of :: "string \<Rightarrow> string option \<Rightarrow> bool" where
  "opt_free_of bad x = (case x of None \<Rightarrow> True | Some s \<Rightarrow> free_of bad s)"

definition wf_url :: "parsed_url \<Rightarrow> bool" where
  "wf_url u \<longleftrightarrow>
     list_all (\<lambda>c. is_scheme_char c \<and> \<not> c_isupper c) (scheme u) \<and>
     host u \<noteq> [] \<and> free_of '':/@'' (host u) \<and> hd (host u) \<noteq> CHR ''['' \<and>
     opt_free_of ''/@'' (port u) \<and>
     opt_free_of '':/@'' (username u) \<and> opt_free_of ''/@'' (password u) \<and>
     (username u = None \<longrightarrow> password u = None) \<and>
     opt_free_of ''?#'' (path u) \<and> opt_free_of ''#'' (query u) \<and>
     (path u = None \<longrightarrow> query u = None \<and> fragment u = None)"

section \<open>The round trip\<close>

lemma takeWhile_stop: "list_all P xs \<Longrightarrow> \<not> P y \<Longrightarrow> takeWhile P (xs @ y # ys) = xs"
  by (induction xs) auto

lemma takeWhile_whole: "list_all P xs \<Longrightarrow> takeWhile P xs = xs"
  by (induction xs) auto

lemma takeWhile_until: "list_all P xs \<Longrightarrow> ys = [] \<or> \<not> P (hd ys) \<Longrightarrow> takeWhile P (xs @ ys) = xs"
  by (cases ys) (auto simp: takeWhile_stop takeWhile_whole)

lemma free_of_all: "free_of bad s \<longleftrightarrow> list_all (\<lambda>c. c \<notin> set bad) s"
  by (auto simp: free_of_def list_all_iff)

lemma is_scheme_char_colon: "\<not> is_scheme_char (CHR '':'')"
  by code_simp

lemma parse_scheme_show:
  assumes "list_all (\<lambda>c. is_scheme_char c \<and> \<not> c_isupper c) s"
  shows "parse_scheme (\<lambda>_. True) (s @ '':'' @ rest) = Some (s, rest)"
proof -
  have "list_all (\<lambda>c. c \<noteq> CHR '':'') s"
    using assms is_scheme_char_colon by (auto simp: list_all_iff)
  then have "takeWhile (\<lambda>c. c \<noteq> CHR '':'') (s @ CHR '':'' # rest) = s"
    by (rule takeWhile_stop) simp
  moreover have "map c_tolower s = s"
    using assms by (auto simp: list_all_iff c_tolower_def intro: map_idI)
  ultimately show ?thesis
    using assms by (simp add: parse_scheme_def Let_def list_all_iff)
qed

lemma userpass_flag_at: "free_of ''/@'' s \<Longrightarrow> userpass_flag (s @ CHR ''@'' # t)"
  by (induction s) (auto simp: free_of_def)

lemma userpass_flag_none:
  "free_of ''/@'' s \<Longrightarrow> t = [] \<or> hd t = CHR ''/'' \<Longrightarrow> \<not> userpass_flag (s @ t)"
proof (induction s)
  case Nil
  then show ?case by (cases t) auto
qed (auto simp: free_of_def)

lemma parse_userinfo_show:
  assumes u: "opt_free_of '':/@'' user" and p: "opt_free_of ''/@'' pass"
    and up: "user = None \<longrightarrow> pass = None" and rest: "user = None \<longrightarrow> \<not> userpass_flag rest"
  shows "parse_userinfo (\<lambda>_. True) (show_userinfo user pass @ rest) = Some (user, pass, rest)"
proof (cases user)
  case None
  with up rest show ?thesis by (simp add: parse_userinfo_def show_userinfo_def)
next
  case (Some v)
  with u have v: "list_all (\<lambda>c. c \<noteq> CHR '':'' \<and> c \<noteq> CHR ''@'') v" "free_of ''/@'' v"
    by (auto simp: opt_free_of_def free_of_def list_all_iff)
  show ?thesis
  proof (cases pass)
    case None
    have "userpass_flag (v @ CHR ''@'' # rest)" by (rule userpass_flag_at [OF v(2)])
    then show ?thesis
      using Some None takeWhile_stop [OF v(1), of "CHR ''@''" rest]
      by (simp add: parse_userinfo_def show_userinfo_def opt_part_def skip_at_def Let_def)
  next
    case w: (Some w)
    with p have q: "list_all (\<lambda>c. c \<noteq> CHR ''@'') w" "free_of ''/@'' w"
      by (auto simp: opt_free_of_def free_of_def list_all_iff)
    have "free_of ''/@'' (v @ CHR '':'' # w)" using v(2) q(2) by (auto simp: free_of_def)
    from userpass_flag_at [OF this, of rest]
    have "userpass_flag (v @ CHR '':'' # w @ CHR ''@'' # rest)" by simp
    then show ?thesis
      using Some w takeWhile_stop [OF v(1), of "CHR '':''" "w @ CHR ''@'' # rest"]
        takeWhile_stop [OF q(1), of "CHR ''@''" rest]
      by (simp add: parse_userinfo_def show_userinfo_def opt_part_def skip_at_def Let_def)
  qed
qed

lemma host_span_plain:
  "free_of '':/@'' h \<Longrightarrow> t = [] \<or> hd t = CHR '':'' \<or> hd t = CHR ''/'' \<Longrightarrow> host_span False (h @ t) = h"
proof (induction h)
  case Nil
  then show ?case by (cases t) auto
qed (auto simp: free_of_def)

lemma parse_host_show:
  assumes "free_of '':/@'' h" "h \<noteq> []" "hd h \<noteq> CHR ''[''"
    and "t = [] \<or> hd t = CHR '':'' \<or> hd t = CHR ''/''"
  shows "parse_host (\<lambda>_. True) (h @ t) = Some (h, t)"
  using assms host_span_plain [of h t] by (simp add: parse_host_def Let_def)

lemma parse_port_show:
  assumes "opt_free_of ''/@'' prt" and "t = [] \<or> hd t = CHR ''/''"
  shows "parse_port (\<lambda>_. True) (opt_part '':'' prt @ t) = Some (prt, t)"
proof (cases prt)
  case None
  with assms show ?thesis by (auto simp: parse_port_def opt_part_def)
next
  case (Some p)
  then have "list_all (\<lambda>c. c \<noteq> CHR ''/'') p"
    using assms(1) by (auto simp: opt_free_of_def free_of_def list_all_iff)
  with Some assms(2) show ?thesis
    by (simp add: parse_port_def opt_part_def Let_def takeWhile_until)
qed

lemma parse_query_show:
  assumes "opt_free_of ''#'' qry"
  shows "parse_query (\<lambda>_. True) (opt_part ''?'' qry @ opt_part ''#'' frag) =
    Some (qry, opt_part ''#'' frag)"
proof (cases qry)
  case None
  then show ?thesis by (cases frag) (auto simp: parse_query_def opt_part_def)
next
  case (Some q)
  then have "list_all (\<lambda>c. c \<noteq> CHR ''#'') q"
    using assms by (auto simp: opt_free_of_def free_of_def list_all_iff)
  with Some show ?thesis
    by (cases frag) (auto simp: parse_query_def opt_part_def Let_def takeWhile_until takeWhile_whole)
qed

lemma parse_fragment_show: "parse_fragment (\<lambda>_. True) (opt_part ''#'' frag) = Some frag"
  by (cases frag) (auto simp: parse_fragment_def opt_part_def)

lemma parse_path_show:
  assumes "opt_free_of ''?#'' pth" "opt_free_of ''#'' qry"
    and "pth = None \<longrightarrow> qry = None \<and> frag = None"
  shows "parse_path (\<lambda>_. True) (show_path pth qry frag) = Some (pth, qry, frag)"
proof (cases pth)
  case None
  with assms show ?thesis by (simp add: parse_path_def show_path_def)
next
  case (Some p)
  then have p: "list_all (\<lambda>c. c \<noteq> CHR ''#'' \<and> c \<noteq> CHR ''?'') p"
    using assms(1) by (auto simp: opt_free_of_def free_of_def list_all_iff)
  let ?t = "opt_part ''?'' qry @ opt_part ''#'' frag"
  have "?t = [] \<or> \<not> (hd ?t \<noteq> CHR ''#'' \<and> hd ?t \<noteq> CHR ''?'')"
    by (cases qry; cases frag) (auto simp: opt_part_def)
  from takeWhile_until [OF p this] Some show ?thesis
    by (simp add: parse_path_def show_path_def parse_query_show [OF assms(2)] parse_fragment_show)
qed

lemma parse_show:
  assumes "wf_url u"
  shows "parse_url (\<lambda>_. True) (show_url u) = Some u"
proof -
  let ?path = "show_path (path u) (query u) (fragment u)"
  let ?port = "opt_part '':'' (port u)"
  have path: "?path = [] \<or> hd ?path = CHR ''/''"
    by (cases "path u") (auto simp: show_path_def)
  have after: "?port @ ?path = [] \<or> hd (?port @ ?path) = CHR '':'' \<or> hd (?port @ ?path) = CHR ''/''"
    using path by (cases "port u") (auto simp: opt_part_def)
  have "free_of ''/@'' (host u @ ?port)"
    using assms by (cases "port u") (auto simp: wf_url_def free_of_def opt_free_of_def opt_part_def)
  from userpass_flag_none [OF this path]
  have "\<not> userpass_flag (host u @ ?port @ ?path)" by simp
  then show ?thesis
    using assms parse_scheme_show [of "scheme u"] path after
    by (simp add: wf_url_def parse_url_def show_url_def numeral_2_eq_2 parse_userinfo_show
        parse_host_show parse_port_show parse_path_show)
qed

section \<open>What a successful parse means\<close>

text \<open>Each stage splits its text into the printed part and what it leaves.\<close>

lemma takeWhile_drop: "s = takeWhile P s @ drop (length (takeWhile P s)) s"
  by (metis dropWhile_eq_drop takeWhile_dropWhile_id)

lemma drop_takeWhile_hd:
  "drop (length (takeWhile P s)) s = [] \<or> \<not> P (hd (drop (length (takeWhile P s)) s))"
  by (metis dropWhile_eq_drop hd_dropWhile)

lemma takeWhile_all: "list_all P (takeWhile P s)"
  by (auto simp: list_all_iff dest: set_takeWhileD)

lemma parse_schemeD:
  assumes "parse_scheme mem s = Some (sch, rest)"
  shows "\<exists>t. map c_tolower t = sch \<and> s = t @ '':'' @ rest \<and> list_all is_scheme_char t"
proof -
  let ?t = "takeWhile (\<lambda>c. c \<noteq> CHR '':'') s"
  have a: "CHR '':'' \<in> set s" "list_all is_scheme_char ?t" "sch = map c_tolower ?t"
    "rest = drop (length ?t + 1) s"
    using assms by (auto simp: parse_scheme_def Let_def split: if_splits)
  obtain xs ys where "s = xs @ CHR '':'' # ys" "CHR '':'' \<notin> set xs"
    using split_list_first [OF a(1)] by blast
  then have "?t = xs" by (auto intro!: takeWhile_stop simp: list_all_iff)
  with a \<open>s = _\<close> show ?thesis by auto
qed

lemma eat_slashes_2D: "eat_slashes 2 s = Some rest \<Longrightarrow> s = ''//'' @ rest"
  by (cases s; cases "tl s") (auto simp: numeral_2_eq_2 split: if_splits)

lemma skip_atD: "skip_at s = Some rest \<Longrightarrow> s = CHR ''@'' # rest"
  by (auto simp: skip_at_def split: list.splits if_splits)

lemma hd_drop_Cons: "s \<noteq> [] \<Longrightarrow> hd s = c \<Longrightarrow> s = c # tl s"
  by (cases s) auto

lemma parse_userinfoD:
  assumes "parse_userinfo mem s = Some (user, pass, rest)"
  shows "s = show_userinfo user pass @ rest \<and> (user = None \<longrightarrow> pass = None)"
proof (cases "userpass_flag s")
  case False
  with assms show ?thesis by (auto simp: parse_userinfo_def show_userinfo_def)
next
  case True
  define v where "v = takeWhile (\<lambda>c. c \<noteq> CHR '':'' \<and> c \<noteq> CHR ''@'') s"
  define r where "r = drop (length v) s"
  have s: "s = v @ r" unfolding v_def r_def by (rule takeWhile_drop)
  show ?thesis
  proof (cases "r \<noteq> [] \<and> hd r = CHR '':''")
    case colon: True
    define w where "w = takeWhile (\<lambda>c. c \<noteq> CHR ''@'') (tl r)"
    have "user = Some v" "pass = Some w" "skip_at (drop (length w) (tl r)) = Some rest"
      using assms True colon
      by (auto simp: parse_userinfo_def Let_def simp flip: v_def r_def w_def split: if_splits)
    moreover have "tl r = w @ drop (length w) (tl r)" unfolding w_def by (rule takeWhile_drop)
    moreover have "r = CHR '':'' # tl r" using colon by (intro hd_drop_Cons) auto
    ultimately show ?thesis
      using s skip_atD by (auto simp: show_userinfo_def opt_part_def)
  next
    case False
    then have "user = Some v" "pass = None" "skip_at r = Some rest"
      using assms True
      by (auto simp: parse_userinfo_def Let_def simp flip: v_def r_def split: if_splits)
    then show ?thesis using s skip_atD by (auto simp: show_userinfo_def opt_part_def)
  qed
qed

lemma host_span_prefix: "host_span b s @ drop (length (host_span b s)) s = s"
  by (induction b s rule: host_span.induct) auto

lemma parse_hostD:
  "parse_host mem s = Some (h, rest) \<Longrightarrow> s = h @ rest \<and> h \<noteq> []"
  using host_span_prefix [of _ s, symmetric]
  by (auto simp: parse_host_def Let_def split: if_splits)

lemma parse_portD: "parse_port mem s = Some (prt, rest) \<Longrightarrow> s = opt_part '':'' prt @ rest"
  using hd_drop_Cons [of s "CHR '':''"] takeWhile_drop [of "tl s" "\<lambda>c. c \<noteq> CHR ''/''"]
  by (auto simp: parse_port_def opt_part_def Let_def split: if_splits)

lemma parse_queryD: "parse_query mem s = Some (qry, rest) \<Longrightarrow> s = opt_part ''?'' qry @ rest"
  using hd_drop_Cons [of s "CHR ''?''"] takeWhile_drop [of "tl s" "\<lambda>c. c \<noteq> CHR ''#''"]
  by (auto simp: parse_query_def opt_part_def Let_def split: if_splits)

lemma parse_query_rest:
  "parse_query mem s = Some (qry, rest) \<Longrightarrow> s = [] \<or> hd s = CHR ''#'' \<or> hd s = CHR ''?'' \<Longrightarrow>
   rest = [] \<or> hd rest = CHR ''#''"
  using drop_takeWhile_hd [of "\<lambda>c. c \<noteq> CHR ''#''" "tl s"]
  by (auto simp: parse_query_def Let_def split: if_splits)

lemma parse_fragmentD:
  "parse_fragment mem s = Some frag \<Longrightarrow> s = [] \<or> hd s = CHR ''#'' \<Longrightarrow> s = opt_part ''#'' frag"
  using hd_drop_Cons [of s "CHR ''#''"]
  by (auto simp: parse_fragment_def opt_part_def split: if_splits)

lemma parse_pathD:
  assumes "parse_path mem s = Some (pth, qry, frag)"
  shows "s = show_path pth qry frag \<and> (pth = None \<longrightarrow> qry = None \<and> frag = None)"
proof (cases s)
  case Nil
  with assms show ?thesis by (simp add: parse_path_def show_path_def)
next
  case (Cons c cs)
  define p where "p = takeWhile (\<lambda>c. c \<noteq> CHR ''#'' \<and> c \<noteq> CHR ''?'') cs"
  define r where "r = drop (length p) cs"
  have cs: "cs = p @ r" unfolding p_def r_def by (rule takeWhile_drop)
  have r: "r = [] \<or> hd r = CHR ''#'' \<or> hd r = CHR ''?''"
    unfolding r_def p_def using drop_takeWhile_hd by fastforce
  obtain rest where a: "c = CHR ''/''" "pth = Some p" "parse_query mem r = Some (qry, rest)"
      "parse_fragment mem rest = Some frag"
    using assms Cons
    by (auto simp: parse_path_def Let_def bind_eq_Some_conv simp flip: p_def r_def split: if_splits)
  then show ?thesis
    using Cons cs parse_queryD [OF a(3)] parse_fragmentD [OF a(4)] parse_query_rest [OF a(3) r]
    by (simp add: show_path_def)
qed

lemma parse_urlD:
  assumes "parse_url mem s = Some u"
  shows "(\<exists>t. map c_tolower t = scheme u \<and> list_all is_scheme_char t \<and>
              s = t @ drop (length t) (show_url u)) \<and>
    host u \<noteq> [] \<and> (username u = None \<longrightarrow> password u = None) \<and>
    (path u = None \<longrightarrow> query u = None \<and> fragment u = None)"
proof -
  obtain r1 r2 r3 r4 r5 where
    a: "parse_scheme mem s = Some (scheme u, r1)" "eat_slashes 2 r1 = Some r2"
      "parse_userinfo mem r2 = Some (username u, password u, r3)"
      "parse_host mem r3 = Some (host u, r4)" "parse_port mem r4 = Some (port u, r5)"
      "parse_path mem r5 = Some (path u, query u, fragment u)"
    using assms by (auto simp: parse_url_def bind_eq_Some_conv split: if_splits)
  obtain t where t: "map c_tolower t = scheme u" "s = t @ '':'' @ r1" "list_all is_scheme_char t"
    using parse_schemeD [OF a(1)] by blast
  have "r1 = ''//'' @ show_userinfo (username u) (password u) @ host u @
      opt_part '':'' (port u) @ show_path (path u) (query u) (fragment u)"
    using eat_slashes_2D [OF a(2)] parse_userinfoD [OF a(3)] parse_hostD [OF a(4)]
      parse_portD [OF a(5)] parse_pathD [OF a(6)] by simp
  moreover have "length t = length (scheme u)" using t(1) by (metis length_map)
  ultimately have "s = t @ drop (length t) (show_url u)" using t(2) by (simp add: show_url_def)
  then show ?thesis
    using t parse_hostD [OF a(4)] parse_userinfoD [OF a(3)] parse_pathD [OF a(6)] by blast
qed

section \<open>Properties\<close>

text \<open>
  C32. Printing a URL whose parts hold no delimiter of theirs and parsing the text gives the
  URL back, with every optional part present or absent as it was.
\<close>

theorem parse_url_roundtrip:
  assumes "wf_url u"
  shows "parse_url (\<lambda>_. True) (show_url u) = Some u"
  using assms by (rule parse_show)

definition example_url :: parsed_url where
  "example_url = \<lparr>scheme = ''udp'', host = ''10.0.0.7'', port = Some ''1234'',
     path = Some ''tv/bbc'', query = Some ''a=1'', fragment = Some ''x?y'',
     username = Some ''me'', password = Some ''p:w''\<rparr>"

lemma parse_url_roundtrip_witness:
  "parse_url (\<lambda>_. True) ''udp://me:p:w@10.0.0.7:1234/tv/bbc?a=1#x?y'' = Some example_url"
proof -
  have "wf_url example_url" by code_simp
  moreover have "show_url example_url = ''udp://me:p:w@10.0.0.7:1234/tv/bbc?a=1#x?y''" by code_simp
  ultimately show ?thesis using parse_url_roundtrip by metis
qed

text \<open>
  Nothing of the text is lost or invented: whatever URL the parser returns, printing it
  gives the text back except for the case of the scheme's letters. The host is never empty,
  a password needs a user, a query or a fragment needs a path.
\<close>

theorem parse_url_faithful:
  assumes "parse_url mem s = Some u"
  shows "(\<exists>t. map c_tolower t = scheme u \<and> s = t @ drop (length t) (show_url u)) \<and>
    host u \<noteq> [] \<and> (username u = None \<longrightarrow> password u = None) \<and>
    (path u = None \<longrightarrow> query u = None \<and> fragment u = None)"
  using parse_urlD [OF assms] by blast

lemma parse_url_faithful_witness:
  "\<exists>u. parse_url (\<lambda>_. True) ''HTTP://host/p'' = Some u \<and> host u \<noteq> [] \<and> scheme u = ''http''"
proof -
  have "map_option scheme (parse_url (\<lambda>_. True) ''HTTP://host/p'') = Some ''http''" by code_simp
  then obtain u where u: "parse_url (\<lambda>_. True) ''HTTP://host/p'' = Some u" "scheme u = ''http''"
    by blast
  with parse_url_faithful [OF u(1)] show ?thesis by blast
qed

text \<open>
  A text without a colon, or with a character before the first colon that a scheme may
  not hold, is rejected; but an empty scheme is accepted, although the grammar in the
  comment asks for at least one character.
\<close>

theorem parse_url_scheme_check:
  "(CHR '':'' \<notin> set s \<longrightarrow> parse_url mem s = None) \<and>
   (\<not> list_all is_scheme_char (takeWhile (\<lambda>c. c \<noteq> CHR '':'') s) \<longrightarrow> parse_url mem s = None) \<and>
   map_option scheme (parse_url (\<lambda>_. True) ''://host'') = Some []"
  by (simp add: parse_url_def parse_scheme_def parse_userinfo_def parse_host_def parse_port_def
      parse_path_def numeral_2_eq_2)

lemma parse_url_scheme_check_witness:
  "parse_url (\<lambda>_. True) ''localhost'' = None \<and> parse_url (\<lambda>_. True) ''ht7p://h'' = None"
  using parse_url_scheme_check [of "''localhost''" "\<lambda>_. True"]
    parse_url_scheme_check [of "''ht7p://h''" "\<lambda>_. True"]
  by (simp add: is_scheme_char_def ctype_defs)

end
