(* ===== verification/TextUtils.thy ===== *)
theory TextUtils
  imports Prelude
begin

text \<open>
  The string helpers of \<^verbatim>\<open>src/DVB/utils.c\<close>: \<open>tokenize\<close>, \<open>terminateCRLF\<close>,
  \<open>convertoUint64\<close>, \<open>getBandwidth\<close> and \<open>getDVB_Serial\<close>, with a reference
  definition of tokenising and the proof that the scanner computes it.
\<close>

section \<open>tokenize\<close>

text \<open>
  The scanner keeps \<open>p\<close>, the start of the current token (here the rest of the string from
  there), and \<open>n\<close>, the next character; \<open>cur\<close> is the text between them. A found token is
  recorded with the text it starts at, so that a caller's pointer arithmetic on it can be
  followed. The loop head returns as soon as \<open>reslen\<close> tokens are stored.
\<close>

fun tok_loop ::
  "nat \<Rightarrow> char \<Rightarrow> string \<Rightarrow> string \<Rightarrow> string \<Rightarrow> (string \<times> string) list \<Rightarrow> (string \<times> string) list" where
  "tok_loop reslen delim p cur [] acc = (if cur \<noteq> [] then acc @ [(p, cur)] else acc)"
| "tok_loop reslen delim p cur (c # n) acc =
     (if length acc = reslen then acc
      else if c = delim
      then tok_loop reslen delim n [] n (if cur \<noteq> [] then acc @ [(p, cur)] else acc)
      else tok_loop reslen delim p (cur @ [c]) n acc)"

definition tokenize_at :: "nat \<Rightarrow> string \<Rightarrow> char \<Rightarrow> (string \<times> string) list" where
  "tokenize_at reslen str delim =
     (let n = dropWhile (\<lambda>c. c = CHR '' '') str in tok_loop reslen delim n [] n [])"

definition tokenize :: "nat \<Rightarrow> string \<Rightarrow> char \<Rightarrow> string list" where
  "tokenize reslen str delim = map snd (tokenize_at reslen str delim)"

text \<open>The reference: split at the delimiter, drop the empty pieces, keep the first ones.\<close>

fun split_on :: "char \<Rightarrow> string \<Rightarrow> string list" where
  "split_on d [] = [[]]"
| "split_on d (c # s) =
     (if c = d then [] # split_on d s
      else (case split_on d s of [] \<Rightarrow> [[c]] | t # ts \<Rightarrow> (c # t) # ts))"

definition token_list :: "char \<Rightarrow> string \<Rightarrow> string list" where
  "token_list d s = filter (\<lambda>t. t \<noteq> []) (split_on d s)"

lemma split_on_nonempty: "split_on d s \<noteq> []"
  by (induction s) (auto split: list.split)

lemma split_on_no_delim: "t \<in> set (split_on d s) \<Longrightarrow> d \<notin> set t"
  by (induction s arbitrary: t) (auto split: list.splits if_splits)

lemma split_on_append_delim:
  "d \<notin> set t \<Longrightarrow> split_on d (t @ d # s) = t # split_on d s"
  by (induction t) auto

lemma split_on_single: "d \<notin> set t \<Longrightarrow> split_on d t = [t]"
  by (induction t) auto

lemma tok_loop_spec:
  assumes "length acc \<le> reslen" and "length acc = reslen \<longrightarrow> cur = []"
  shows "map snd (tok_loop reslen d p cur s acc) =
    take reslen (map snd acc @
      filter (\<lambda>t. t \<noteq> []) ((cur @ hd (split_on d s)) # tl (split_on d s)))"
  using assms
proof (induction s arbitrary: p cur acc)
  case Nil
  then show ?case by auto
next
  case (Cons c s)
  obtain t ts where sp: "split_on d s = t # ts"
    using split_on_nonempty [of d s] by (cases "split_on d s") auto
  consider (full) "length acc = reslen" | (delim) "length acc < reslen" "c = d"
    | (char) "length acc < reslen" "c \<noteq> d"
    using Cons.prems(1) by linarith
  then show ?case
  proof cases
    case full
    then show ?thesis by simp
  next
    case delim
    then obtain m where "reslen = length acc + Suc m"
      by (metis add_Suc_right less_imp_Suc_add)
    with delim show ?thesis
      using Cons.IH [of "if cur \<noteq> [] then acc @ [(p, cur)] else acc" "[]" s] sp by auto
  next
    case char
    then show ?thesis
      using Cons.IH [of acc "cur @ [c]" p] sp by auto
  qed
qed

lemma tokenize_eq:
  "tokenize reslen s d = take reslen (token_list d (dropWhile (\<lambda>c. c = CHR '' '') s))"
proof -
  define n where "n = dropWhile (\<lambda>c. c = CHR '' '') s"
  have "split_on d n = hd (split_on d n) # tl (split_on d n)"
    using split_on_nonempty [of d n] by simp
  then show ?thesis
    using tok_loop_spec [of "[]" reslen "[]" d n n]
    by (simp add: tokenize_def tokenize_at_def token_list_def n_def Let_def)
qed

lemma tokenize_length: "length (tokenize reslen s d) \<le> reslen"
  by (simp add: tokenize_eq)

lemma tokenize_tokens: "t \<in> set (tokenize reslen s d) \<Longrightarrow> t \<noteq> [] \<and> d \<notin> set t"
  by (auto simp: tokenize_eq token_list_def dest!: in_set_takeD dest: split_on_no_delim)

lemma dropWhile_head_neq: "(s = [] \<or> hd s \<noteq> a) \<Longrightarrow> dropWhile (\<lambda>c. c = a) s = s"
  by (cases s) auto

text \<open>Joining words with the delimiter and tokenising gives the words back.\<close>

fun join_with :: "char \<Rightarrow> string list \<Rightarrow> string" where
  "join_with d [] = []"
| "join_with d [t] = t"
| "join_with d (t # ts) = t @ d # join_with d ts"

lemma token_list_join:
  "\<forall>t\<in>set ts. t \<noteq> [] \<and> d \<notin> set t \<Longrightarrow> token_list d (join_with d ts) = ts"
  by (induction d ts rule: join_with.induct)
    (auto simp: token_list_def split_on_single split_on_append_delim)

section \<open>terminateCRLF\<close>

text \<open>
  The loop writes a zero over a carriage return or a line feed; its bound is \<^verbatim>\<open>strlen\<close>,
  evaluated again on every round, so it ends at the first zero. The array is given with
  its terminating zero; running past its end is an overrun.
\<close>

function crlf_loop :: "nat \<Rightarrow> char list \<Rightarrow> char list" where
  "crlf_loop a s =
     (if a < length (cstr_of s)
      then crlf_loop (Suc a)
             (if code_of (s ! a) = 13 \<or> code_of (s ! a) = 10 then s[a := NUL] else s)
      else s)"
  by pat_completeness auto
termination
proof (relation "measure (\<lambda>(a, s). length s - a)")
  fix a and s :: "char list"
  assume "a < length (cstr_of s)"
  then have "a < length s" unfolding cstr_of_def
    by (meson length_takeWhile_le less_le_trans)
  then show "((Suc a, if code_of (s ! a) = 13 \<or> code_of (s ! a) = 10 then s[a := NUL] else s), (a, s))
      \<in> measure (\<lambda>(a, s). length s - a)" by auto
qed simp

declare crlf_loop.simps [simp del]

definition terminateCRLF :: "char list \<Rightarrow> char list" where
  "terminateCRLF inString = crlf_loop 0 inString"

definition is_crlf :: "char \<Rightarrow> bool" where
  "is_crlf c \<longleftrightarrow> code_of c = 13 \<or> code_of c = 10"

lemma code_of_NUL [simp]: "code_of NUL = 0"
  by code_simp

lemma NUL_not_crlf [simp]: "\<not> is_crlf NUL"
  by (simp add: is_crlf_def)

lemma cstr_of_append: "no_nul s \<Longrightarrow> cstr_of (s @ t) = s @ cstr_of t"
  by (induction s) (auto simp: cstr_of_def)

lemma crlf_loop_done: "length (cstr_of s) \<le> a \<Longrightarrow> crlf_loop a s = s"
  by (simp add: crlf_loop.simps)

lemma crlf_loop_cstr:
  assumes "no_nul s" and "list_all (\<lambda>c. \<not> is_crlf c) s"
  shows "cstr_of (crlf_loop (length s) (s @ t)) = s @ takeWhile (\<lambda>c. \<not> is_crlf c) (cstr_of t)"
  using assms
proof (induction t arbitrary: s)
  case Nil
  then have "cstr_of s = s"
    using cstr_of_append [of s "[]"] by (simp add: cstr_of_def [of "[]"])
  then show ?case by (simp add: crlf_loop_done cstr_of_def [of "[]"])
next
  case (Cons c t)
  have l: "length (cstr_of (s @ c # t)) = length s + length (cstr_of (c # t))"
    using Cons.prems by (simp add: cstr_of_append)
  show ?case
  proof (cases "c = NUL")
    case True
    with l have "crlf_loop (length s) (s @ c # t) = s @ c # t"
      by (simp add: crlf_loop_done cstr_of_def)
    with True Cons.prems show ?thesis by (simp add: cstr_of_append cstr_of_def [of "NUL # t"])
  next
    case False
    then have lt: "length s < length (cstr_of (s @ c # t))" using l by (simp add: cstr_of_def)
    show ?thesis
    proof (cases "is_crlf c")
      case True
      have "crlf_loop (length s) (s @ c # t) = crlf_loop (Suc (length s)) (s @ NUL # t)"
        using lt True by (simp add: crlf_loop.simps [of "length s"] is_crlf_def)
      also have "\<dots> = s @ NUL # t"
        using Cons.prems
        by (simp add: crlf_loop_done cstr_of_append cstr_of_def [of "NUL # t"])
      finally show ?thesis
        using True False Cons.prems
        by (simp add: cstr_of_append cstr_of_def [of "NUL # t"] cstr_of_def [of "c # t"])
    next
      case no: False
      have "crlf_loop (length s) (s @ c # t) = crlf_loop (length (s @ [c])) ((s @ [c]) @ t)"
        using lt no by (simp add: crlf_loop.simps [of "length s"] is_crlf_def)
      then show ?thesis
        using Cons.IH [of "s @ [c]"] Cons.prems no False by (simp add: cstr_of_def)
    qed
  qed
qed

lemma terminateCRLF_cstr:
  "cstr_of (terminateCRLF s) = takeWhile (\<lambda>c. \<not> is_crlf c) (cstr_of s)"
  using crlf_loop_cstr [of "[]" s] by (simp add: terminateCRLF_def)

section \<open>convertoUint64 and getBandwidth\<close>

definition convertoUint64 :: "string \<Rightarrow> u64" where
  "convertoUint64 inString = word_of_int (c_strtol 64 0 inString)"

definition getBandwidth :: "char list \<Rightarrow> int" where
  "getBandwidth bw =
     (let c = hd bw in
      if c = CHR ''5'' then 5 else if c = CHR ''6'' then 6 else if c = CHR ''7'' then 7 else 8)"

section \<open>getDVB_Serial\<close>

text \<open>Decimal output of \<^verbatim>\<open>%d\<close>.\<close>

fun show_nat :: "nat \<Rightarrow> string" where
  "show_nat n =
     (if n < 10 then [char_of (48 + n)] else show_nat (n div 10) @ [char_of (48 + n mod 10)])"

declare show_nat.simps [simp del]

definition show_int :: "int \<Rightarrow> string" where
  "show_int i = (if i < 0 then CHR ''-'' # show_nat (nat (- i)) else show_nat (nat i))"

definition is_digit :: "char \<Rightarrow> bool" where
  "is_digit c \<longleftrightarrow> 48 \<le> code_of c \<and> code_of c \<le> 57"

text \<open>
  \<open>sysfs\<close> is the environment: the bytes a read of at most 32 bytes returns for a path, \<open>None\<close>
  when the file cannot be opened. The number in \<^verbatim>\<open>SN\<close> is read past those bytes, into memory
  nothing has written, when no character among them ends it. The frontend number is taken
  from the text eight characters into the \<^emph>\<open>third\<close> token, as in the code.
\<close>

definition serial_path :: "u32 \<Rightarrow> u32 \<Rightarrow> string" where
  "serial_path adapterNumber frontendNumber =
     ''/sys/class/dvb/dvb'' @ show_int (sint adapterNumber) @ ''.frontend'' @
     show_int (sint frontendNumber) @ ''/device/serial''"

definition read_serial :: "u32 \<Rightarrow> u32 \<Rightarrow> string \<Rightarrow> u64 res" where
  "read_serial adapterNumber frontendNumber bytes =
     (let sn = show_int (sint (adapterNumber + 1)) @ show_int (sint (frontendNumber + 1)) in
      if bytes \<noteq> [] \<and> list_all is_digit (tl (sn @ bytes)) then Inl Uninitialised
      else Inr (word_of_int (c_atol (sn @ bytes))))"

definition getDVB_Serial :: "(string \<Rightarrow> string option) \<Rightarrow> string \<Rightarrow> u64 res" where
  "getDVB_Serial sysfs inFrontEnd =
     (if 128 \<le> length inFrontEnd then Inl Overrun
      else
        let tokens = tokenize_at 5 inFrontEnd (CHR ''/'') in
        if length tokens < 4 then Inr 0
        else
          let (at2, t2) = tokens ! 2; t3 = snd (tokens ! 3);
              adapterNumber = (if mem_eq 7 t2 ''adapter'' then word_of_int (c_atoi (drop 7 t2)) else - 1);
              frontendNumber = (if mem_eq 8 t3 ''frontend''
                then word_of_int (c_atoi (takeWhile (\<lambda>c. c \<noteq> CHR ''/'') (drop 8 at2))) else - 1);
              packed = ucast (push_bit 8 (adapterNumber + 1) OR (frontendNumber + 1)) in
          case sysfs (serial_path adapterNumber frontendNumber) of
            None \<Rightarrow> Inr packed
          | Some bytes \<Rightarrow>
              bind_res (read_serial adapterNumber frontendNumber bytes) (\<lambda>serial.
                Inr (if serial = 0 then packed else serial)))"

section \<open>Properties\<close>

text \<open>
  C36. \<^verbatim>\<open>tokenize\<close> returns the first \<open>reslen\<close> non-empty pieces between delimiters, after
  the leading blanks; in particular it never stores more than \<open>reslen\<close> tokens.
\<close>

theorem tokenize_correct:
  "tokenize reslen s d = take reslen (token_list d (dropWhile (\<lambda>c. c = CHR '' '') s)) \<and>
   length (tokenize reslen s d) \<le> reslen"
  using tokenize_length by (simp add: tokenize_eq)

text \<open>
  Words joined by the delimiter are read back unchanged, as long as there is room for
  them in the result array.
\<close>

theorem tokenize_join:
  assumes "\<forall>t\<in>set ts. t \<noteq> [] \<and> d \<notin> set t" and "length ts \<le> reslen"
    and "join_with d ts = [] \<or> hd (join_with d ts) \<noteq> CHR '' ''"
  shows "tokenize reslen (join_with d ts) d = ts"
  using assms by (simp add: tokenize_eq dropWhile_head_neq token_list_join)

lemma tokenize_join_witness:
  "tokenize 5 (join_with (CHR '' '') [''session.start'', ''9018'', ''4173'']) (CHR '' '') =
     [''session.start'', ''9018'', ''4173'']"
  by (rule tokenize_join) simp_all

text \<open>
  \<^verbatim>\<open>terminateCRLF\<close> cuts the string at its first carriage return or line feed and
  changes nothing before it.
\<close>

theorem terminateCRLF_correct:
  "cstr_of (terminateCRLF s) = takeWhile (\<lambda>c. \<not> (code_of c = 13 \<or> code_of c = 10)) (cstr_of s)"
  using terminateCRLF_cstr [of s] by (simp add: is_crlf_def)

lemma tok_loop_plain:
  "d \<notin> set f \<Longrightarrow> length acc < r \<Longrightarrow>
   tok_loop r d p cur f acc = (if cur @ f \<noteq> [] then acc @ [(p, cur @ f)] else acc)"
  by (induction f arbitrary: cur) auto

lemma show_nat_digit: "a < 10 \<Longrightarrow> show_nat a = [char_of (48 + a)]"
  by (simp add: show_nat.simps)

text \<open>
  For a device \<^verbatim>\<open>/dev/dvb/adapterA/frontendF\<close> with a one digit adapter number and no
  serial file, the packed serial holds the adapter but never the frontend number: the code
  reads the frontend number from the adapter's path component.
\<close>

theorem getDVB_Serial_ignores_frontend:
  assumes "a < 10" and "CHR ''/'' \<notin> set f" and "length f < 100"
  shows "getDVB_Serial (\<lambda>_. None) (''/dev/dvb/adapter'' @ show_nat a @ ''/frontend'' @ f) =
    Inr (word_of_nat ((a + 1) * 256 + 1))"
proof -
  have "\<forall>a\<in>{0, 1, 2, 3, 4, 5, 6, 7, 8, 9}. (char_of (48 + a) :: char) \<noteq> CHR ''/'' \<and>
      c_atoi [char_of (48 + a)] = int a \<and>
      (word_of_nat ((a + 1) * 256 + 1) :: u64) =
        ucast (push_bit 8 (word_of_nat a + 1 :: u32) OR 1)"
    by code_simp
  moreover have "a \<in> {0, 1, 2, 3, 4, 5, 6, 7, 8, 9}" using assms(1) by auto
  ultimately have digit: "(char_of (48 + a) :: char) \<noteq> CHR ''/''" "c_atoi [char_of (48 + a)] = int a"
      "(word_of_nat ((a + 1) * 256 + 1) :: u64) =
        ucast (push_bit 8 (word_of_nat a + 1 :: u32) OR 1)"
    by blast+
  moreover have "c_atoi [] = 0" by code_simp
  ultimately show ?thesis
    using assms by (simp add: getDVB_Serial_def tokenize_at_def show_nat_digit tok_loop_plain mem_eq_def
        Let_def)
qed

lemma getDVB_Serial_ignores_frontend_witness:
  "getDVB_Serial (\<lambda>_. None) (''/dev/dvb/adapter'' @ show_nat 2 @ ''/frontend'' @ ''1'') = Inr 769"
  by (subst getDVB_Serial_ignores_frontend) simp_all

end
