(* ===== verification/Destination.thy ===== *)
theory Destination
  imports Url TextUtils
begin

text \<open>
  The output destinations of \<^verbatim>\<open>src/DVB/destination.c\<close>: their creation from a URL, their
  buffers, and the delivery to UDP, multicast, file and HTTP clients.

  A buffer is the array of the code with \<open>bufptr\<close>, the number of bytes in use; copying outside
  the array is the fault \<open>Overrun\<close>. What sockets and files answer is a record of functions.
  A delivery returns the bytes that left the buffer; the destination is \<open>None\<close> when the code
  calls \<^verbatim>\<open>exit\<close>.

  The locale \<open>byte_queue\<close> is the contract of a bounded byte buffer with its overflow policy,
  interpreted here on the destination's buffer and, with another policy, on the session's.
\<close>

section \<open>Hexadecimal and padded numbers\<close>

definition hex_digit :: "bool \<Rightarrow> nat \<Rightarrow> char" where
  "hex_digit upper d = char_of (if d < 10 then 48 + d else (if upper then 55 else 87) + d)"

fun show_hex :: "bool \<Rightarrow> nat \<Rightarrow> string" where
  "show_hex upper n =
     (if n < 16 then [hex_digit upper n]
      else show_hex upper (n div 16) @ [hex_digit upper (n mod 16)])"

declare show_hex.simps [simp del]

text \<open>\<^verbatim>\<open>%N.Nx\<close>: at least \<open>w\<close> digits.\<close>

definition hex_pad :: "bool \<Rightarrow> nat \<Rightarrow> nat \<Rightarrow> string" where
  "hex_pad upper w n = (let s = show_hex upper n in replicate (w - length s) CHR ''0'' @ s)"

definition CRLF :: string where "CRLF = [CHR 0x0D, CHR 0x0A]"
definition LFCR :: string where "LFCR = [CHR 0x0A, CHR 0x0D]"

text \<open>\<^verbatim>\<open>sprintf\<close> into an array of \<open>n\<close> characters.\<close>

definition sprint :: "nat \<Rightarrow> string \<Rightarrow> string res" where
  "sprint n s = (if length s < n then Inr s else Inl Overrun)"

section \<open>Byte arrays\<close>

definition put_bytes :: "byte list \<Rightarrow> nat \<Rightarrow> byte list \<Rightarrow> byte list res" where
  "put_bytes arr off data =
     (if off + length data \<le> length arr
      then Inr (take off arr @ data @ drop (off + length data) arr) else Inl Overrun)"

text \<open>\<^verbatim>\<open>memmove(buffer, buffer + n, used - n)\<close>: a negative length reads without end.\<close>

definition move_down :: "byte list \<Rightarrow> nat \<Rightarrow> nat \<Rightarrow> byte list res" where
  "move_down arr n used =
     (if n \<le> used \<and> used \<le> length arr
      then Inr (take (used - n) (drop n arr) @ drop (used - n) arr) else Inl Overrun)"

section \<open>State\<close>

datatype dest_type =
    dest_none | dest_udp | dest_http | dest_fifo | dest_file | dest_mcast | dest_live | dest_live2

record destination_t =
  dfd :: int
  destid :: u16
  destination_type :: dest_type
  url_text :: string
  dbuffer :: "byte list"
  bufferSize :: nat
  bufptr :: nat
  dstate :: int
  durl :: parsed_url
  expired :: bool

text \<open>What the sockets and files answer.\<close>

record net_env =
  n_socket :: int
  n_send :: "nat \<Rightarrow> int"          \<comment> \<open>\<^verbatim>\<open>sendto\<close> of a number of bytes\<close>
  n_open :: "string \<Rightarrow> int"
  n_write :: "nat \<Rightarrow> int"

section \<open>Buffers\<close>

definition destination_addToBuffer ::
  "destination_t \<Rightarrow> byte list \<Rightarrow> destination_t res" where
  "destination_addToBuffer dest indata =
     (if length indata + bufptr dest < bufferSize dest then
        bind_res (put_bytes (dbuffer dest) (bufptr dest) indata) (\<lambda>b.
          Inr (dest\<lparr>dbuffer := b, bufptr := bufptr dest + length indata\<rparr>))
      else Inr (dest\<lparr>bufptr := 0\<rparr>))"

definition destination_getBufferCount :: "destination_t \<Rightarrow> int" where
  "destination_getBufferCount dest = (if expired dest then -1 else int (bufptr dest))"

definition destination_getDatafromBuffer ::
  "destination_t \<Rightarrow> nat \<Rightarrow> (byte list \<times> destination_t) res" where
  "destination_getDatafromBuffer dest reqlen =
     (if expired dest then Inr ([], dest)
      else if bufptr dest \<ge> 188 * 50 then
        let len = (if reqlen > bufptr dest then bufptr dest else reqlen) in
        if length (dbuffer dest) < len then Inl Overrun
        else
          bind_res (move_down (dbuffer dest) len (bufptr dest)) (\<lambda>b.
            Inr (take len (dbuffer dest), dest\<lparr>dbuffer := b, bufptr := bufptr dest - len\<rparr>))
      else Inr ([], dest))"

text \<open>The bytes a send or a write of the first \<open>n\<close> took, moved out of the buffer.\<close>

definition take_sent ::
  "destination_t \<Rightarrow> nat \<Rightarrow> (destination_t \<times> byte list) res" where
  "take_sent dest n =
     bind_res (move_down (dbuffer dest) n (bufptr dest)) (\<lambda>b.
       Inr (dest\<lparr>dbuffer := b, bufptr := bufptr dest - n\<rparr>, take n (dbuffer dest)))"

section \<open>Delivery\<close>

definition destination_processHTTP ::
  "destination_t \<Rightarrow> byte list \<Rightarrow> (destination_t option \<times> byte list) res" where
  "destination_processHTTP dest indata =
     bind_res (destination_addToBuffer dest indata) (\<lambda>d. Inr (Some d, []))"

text \<open>The socket is opened on first use; a missing port is read through a null pointer.\<close>

definition open_socket :: "net_env \<Rightarrow> destination_t \<Rightarrow> destination_t res" where
  "open_socket env dest =
     (if dfd dest < 0 then
        case port (durl dest) of
          None \<Rightarrow> Inl NullPointer
        | Some _ \<Rightarrow> Inr (dest\<lparr>dfd := n_socket env\<rparr>)
      else Inr dest)"

definition send_buffer ::
  "net_env \<Rightarrow> destination_t \<Rightarrow> nat \<Rightarrow> (destination_t option \<times> byte list) res" where
  "send_buffer env dest destSize =
     (let rc = n_send env destSize in
      if rc \<ge> 0 then bind_res (take_sent dest (nat rc)) (\<lambda>(d, out). Inr (Some d, out))
      else Inr (Some dest, []))"

definition destination_processUDP ::
  "net_env \<Rightarrow> destination_t \<Rightarrow> byte list \<Rightarrow> (destination_t option \<times> byte list) res" where
  "destination_processUDP env dest indata =
     bind_res (destination_addToBuffer dest indata) (\<lambda>d.
     bind_res (open_socket env d) (\<lambda>d.
       if dfd d > 0 \<and> bufptr d > 188 * 4 then send_buffer env d (188 * 3)
       else Inr (Some d, [])))"

definition destination_processMCAST ::
  "net_env \<Rightarrow> destination_t \<Rightarrow> byte list \<Rightarrow> (destination_t option \<times> byte list) res" where
  "destination_processMCAST env dest indata =
     bind_res (destination_addToBuffer dest indata) (\<lambda>d.
     bind_res (open_socket env d) (\<lambda>d.
       if dfd d > 0 \<and> bufptr d > 188 * 10 then send_buffer env d (bufptr d)
       else Inr (Some d, [])))"

text \<open>The name is built in an array of 256 characters.\<close>

definition file_name :: "parsed_url \<Rightarrow> string res" where
  "file_name u =
     (case path u of
        None \<Rightarrow> Inl NullPointer
      | Some p \<Rightarrow>
          bind_res (sprint 256 (''/'' @ host u @ ''/'' @ p)) (\<lambda>s.
            Inr (cstr_of (terminateCRLF (s @ [NUL])))))"

text \<open>
  \<open>wt\<close> is \<^verbatim>\<open>g_write_time\<close> and \<open>due\<close> whether that time has passed. The condition of the write
  is \<^verbatim>\<open>write_data=1\<close>, an assignment.
\<close>

definition destination_processFILE ::
  "net_env \<Rightarrow> int \<Rightarrow> bool \<Rightarrow> destination_t \<Rightarrow> byte list
   \<Rightarrow> (destination_t option \<times> byte list) res" where
  "destination_processFILE env wt due dest indata =
     bind_res (destination_addToBuffer dest indata) (\<lambda>d.
     bind_res (if dfd d < 0 then bind_res (file_name (durl d)) (\<lambda>f. Inr (n_open env f))
               else Inr (dfd d)) (\<lambda>h.
       if h < 0 then Inr (None, [])
       else
         let d = d\<lparr>dfd := h\<rparr>;
             write_data = (if wt > 0 then due
                           else int (bufptr d) > int (bufferSize d) - 1024 * 32);
             write_data = True in
         if dfd d > 0 \<and> write_data then
           let writeLen = (bufptr d div 4096) * 4096 in
           if writeLen > 0 then
             let rc = n_write env writeLen in
             if rc < 0 then Inr (None, [])
             else bind_res (take_sent d (nat rc)) (\<lambda>(d, out). Inr (Some d, out))
           else Inr (Some d, [])
         else Inr (Some d, [])))"

definition deliver ::
  "net_env \<Rightarrow> int \<Rightarrow> bool \<Rightarrow> destination_t \<Rightarrow> byte list
   \<Rightarrow> (destination_t option \<times> byte list) res" where
  "deliver env wt due dest indata =
     (case destination_type dest of
        dest_udp \<Rightarrow> destination_processUDP env dest indata
      | dest_file \<Rightarrow> destination_processFILE env wt due dest indata
      | dest_http \<Rightarrow> destination_processHTTP dest indata
      | dest_mcast \<Rightarrow> destination_processMCAST env dest indata
      | _ \<Rightarrow> Inr (Some dest, []))"

text \<open>
  One pass over a session's destinations: expired ones are destroyed and unlinked. The
  result is \<open>None\<close> when the process exits, else the list and what each delivery put out.
\<close>

fun destination_process ::
  "net_env \<Rightarrow> int \<Rightarrow> bool \<Rightarrow> destination_t list \<Rightarrow> byte list
   \<Rightarrow> (destination_t list \<times> byte list list) option res" where
  "destination_process env wt due [] indata = Inr (Some ([], []))"
| "destination_process env wt due (d # ds) indata =
     (if expired d then destination_process env wt due ds indata
      else
        bind_res (deliver env wt due d indata) (\<lambda>(d', out).
          case d' of
            None \<Rightarrow> Inr None
          | Some d1 \<Rightarrow>
              bind_res (destination_process env wt due ds indata) (\<lambda>r.
                Inr (map_option (\<lambda>(ds', outs). (d1 # ds', out # outs)) r))))"

section \<open>Closing\<close>

text \<open>The lists that are left; \<open>close_all\<close> also returns the descriptors it closes.\<close>

fun destination_close_type :: "destination_t list \<Rightarrow> dest_type \<Rightarrow> destination_t list" where
  "destination_close_type [] ty = []"
| "destination_close_type (d # ds) ty =
     (if destination_type d = ty then destination_close_type ds ty
      else d # destination_close_type ds ty)"

fun destination_close_all :: "destination_t list \<Rightarrow> int list" where
  "destination_close_all [] = []"
| "destination_close_all (d # ds) =
     (if destination_type d = dest_live \<or> destination_type d = dest_live2
      then destination_close_all ds else dfd d # destination_close_all ds)"

section \<open>Creation\<close>

text \<open>The type and the buffer size a scheme stands for; size 0 is an unknown transport.\<close>

definition transport :: "string \<Rightarrow> dest_type \<times> nat" where
  "transport s =
     (if s = ''http'' then (dest_http, 1024 * 1024)
      else if s = ''live'' then (dest_live, 1024 * 1024 * 2)
      else if s = ''mcast'' then (dest_mcast, 1024 * 1024)
      else if s = ''udp'' then (dest_udp, 1024 * 1024)
      else if s = ''fifo'' then (dest_fifo, 1024)
      else if s = ''file'' then (dest_file, 1024 * 1024)
      else (dest_none, 0))"

text \<open>
  \<open>rnd\<close> is the random identifier; the URL is copied by \<^verbatim>\<open>strncpy\<close> of 1023 characters into an
  array of 1024 that is not cleared, so a longer one is not terminated. \<open>None\<close> is the null
  pointer. The fresh buffer's bytes are taken to be zero.
\<close>

definition destination_create ::
  "(nat \<Rightarrow> bool) \<Rightarrow> u16 \<Rightarrow> string \<Rightarrow> destination_t option res" where
  "destination_create mem rnd inURL =
     (if 1023 \<le> length inURL then Inl Uninitialised
      else
        case parse_url mem inURL of
          None \<Rightarrow> Inr None
        | Some u \<Rightarrow>
            (let (ty, size) = transport (scheme u) in
             bind_res
               (if ty = dest_live then
                  case path u of
                    None \<Rightarrow> Inl NullPointer
                  | Some p \<Rightarrow> Inr (if mem_eq 5 p ''live2'' then dest_live2 else dest_live)
                else Inr ty) (\<lambda>ty'.
               if size = 0 then Inr None
               else Inr (Some \<lparr>dfd = -1, destid = rnd, destination_type = ty', url_text = inURL,
                               dbuffer = replicate size 0, bufferSize = size, bufptr = 0,
                               dstate = 0, durl = u, expired = False\<rparr>))))"

section \<open>Printing\<close>

text \<open>Each line is built in an array of 256 characters.\<close>

fun destination_print :: "destination_t list \<Rightarrow> string list res" where
  "destination_print [] = Inr []"
| "destination_print (d # ds) =
     bind_res (sprint 256
       ([TAB] @ ''SessionID: 0x'' @ hex_pad False 4 (unat (destid d)) @ CRLF
        @ [TAB] @ ''URL: '' @ url_text d @ CRLF
        @ [TAB] @ ''State: '' @ show_int (dstate d) @ CRLF
        @ [TAB] @ ''Buffer: '' @ show_nat (bufptr d div 1024) @ ''K of ''
        @ show_nat (bufferSize d div 1024) @ ''K'' @ CRLF)) (\<lambda>s.
     bind_res (destination_print ds) (\<lambda>r. Inr (s # r)))"

section \<open>The contract of a byte buffer\<close>

text \<open>
  A buffer of capacity \<open>cap\<close> keeps what it is given in order and hands it out from the
  front; when a block does not fit, the buffer is left holding \<open>spill\<close> of it.
\<close>

datatype 'b buf_op = Put "'b list" | Get nat

locale byte_queue =
  fixes inv :: "'q \<Rightarrow> bool"
    and pending :: "'q \<Rightarrow> byte list"
    and put :: "'q \<Rightarrow> byte list \<Rightarrow> 'q res"
    and get :: "'q \<Rightarrow> nat \<Rightarrow> (byte list \<times> 'q) res"
    and cap :: "'q \<Rightarrow> nat"
    and spill :: "byte list \<Rightarrow> byte list"
  assumes put: "inv q \<Longrightarrow> length xs < cap q \<Longrightarrow> \<exists>q'. put q xs = Inr q' \<and> inv q' \<and> cap q' = cap q
        \<and> pending q' = (if length (pending q) + length xs < cap q then pending q @ xs else spill xs)"
    and get: "inv q \<Longrightarrow> \<exists>k q'. get q n = Inr (take k (pending q), q') \<and> inv q' \<and> cap q' = cap q
        \<and> pending q' = drop k (pending q)"
begin

fun run :: "'q \<Rightarrow> byte buf_op list \<Rightarrow> (byte list \<times> 'q) res" where
  "run q [] = Inr ([], q)"
| "run q (Put xs # ops) = bind_res (put q xs) (\<lambda>q'. run q' ops)"
| "run q (Get n # ops) =
     bind_res (get q n) (\<lambda>(out, q'). bind_res (run q' ops) (\<lambda>(outs, q''). Inr (out @ outs, q'')))"

fun input_of :: "byte buf_op list \<Rightarrow> byte list" where
  "input_of [] = []"
| "input_of (Put xs # ops) = xs @ input_of ops"
| "input_of (Get n # ops) = input_of ops"

lemma run_fifo:
  assumes "inv q" and "length (pending q) + length (input_of ops) < cap q"
  shows "\<exists>out q'. run q ops = Inr (out, q') \<and> inv q' \<and> cap q' = cap q
    \<and> out @ pending q' = pending q @ input_of ops"
  using assms
proof (induction ops arbitrary: q)
  case (Cons op ops)
  show ?case
  proof (cases op)
    case (Put xs)
    obtain q1 where 1: "put q xs = Inr q1" "inv q1" "cap q1 = cap q" "pending q1 = pending q @ xs"
      using put [OF Cons.prems(1), of xs] Cons.prems(2) Put by auto
    have "length (pending q1) + length (input_of ops) < cap q1" using 1 Cons.prems(2) Put by simp
    from Cons.IH [OF 1(2) this] 1 Put show ?thesis by auto
  next
    case (Get n)
    obtain k q1 where 1: "get q n = Inr (take k (pending q), q1)" "inv q1" "cap q1 = cap q"
      "pending q1 = drop k (pending q)"
      using get [OF Cons.prems(1)] by blast
    have "length (pending q1) + length (input_of ops) < cap q1" using 1 Cons.prems(2) Get by simp
    from Cons.IH [OF 1(2) this] obtain out q' where
      2: "run q1 ops = Inr (out, q')" "inv q'" "cap q' = cap q1"
      "out @ pending q' = pending q1 @ input_of ops" by blast
    have "(take k (pending q) @ out) @ pending q' = pending q @ input_of ops"
      using 2(4) 1(4) by (metis append_assoc append_take_drop_id)
    with 1 2 Get show ?thesis by auto
  qed
qed simp

end

section \<open>The buffer keeps the contract\<close>

definition buf_ok :: "destination_t \<Rightarrow> bool" where
  "buf_ok d \<longleftrightarrow> length (dbuffer d) = bufferSize d \<and> bufptr d \<le> bufferSize d"

definition buf_pending :: "destination_t \<Rightarrow> byte list" where
  "buf_pending d = take (bufptr d) (dbuffer d)"

lemma put_bytes_ok:
  assumes "off + length xs \<le> length arr"
  shows "\<exists>arr'. put_bytes arr off xs = Inr arr' \<and> length arr' = length arr
    \<and> take (off + length xs) arr' = take off arr @ xs"
  using assms by (simp add: put_bytes_def)

lemma move_down_ok:
  assumes "n \<le> used" "used \<le> length arr"
  shows "\<exists>arr'. move_down arr n used = Inr arr' \<and> length arr' = length arr
    \<and> take (used - n) arr' = drop n (take used arr)"
  using assms by (simp add: move_down_def drop_take)

lemma length_pending [simp]: "buf_ok d \<Longrightarrow> length (buf_pending d) = bufptr d"
  by (simp add: buf_ok_def buf_pending_def)

lemma addToBuffer_ok:
  assumes "buf_ok d"
  shows "\<exists>d'. destination_addToBuffer d xs = Inr d' \<and> buf_ok d' \<and> bufferSize d' = bufferSize d
    \<and> dfd d' = dfd d \<and> durl d' = durl d \<and> destination_type d' = destination_type d
    \<and> expired d' = expired d
    \<and> buf_pending d' = (if bufptr d + length xs < bufferSize d then buf_pending d @ xs else [])"
proof (cases "bufptr d + length xs < bufferSize d")
  case True
  then have "bufptr d + length xs \<le> length (dbuffer d)" using assms by (simp add: buf_ok_def)
  then obtain arr where "put_bytes (dbuffer d) (bufptr d) xs = Inr arr"
    "length arr = length (dbuffer d)"
    "take (bufptr d + length xs) arr = take (bufptr d) (dbuffer d) @ xs"
    using put_bytes_ok by blast
  with True assms show ?thesis
    by (simp add: destination_addToBuffer_def buf_ok_def buf_pending_def add.commute)
next
  case False
  with assms show ?thesis
    by (simp add: destination_addToBuffer_def buf_ok_def buf_pending_def add.commute)
qed

lemma take_sent_ok:
  assumes "buf_ok d" "n \<le> bufptr d"
  shows "\<exists>d'. take_sent d n = Inr (d', take n (buf_pending d)) \<and> buf_ok d'
    \<and> bufferSize d' = bufferSize d \<and> expired d' = expired d
    \<and> buf_pending d' = drop n (buf_pending d) \<and> dfd d' = dfd d"
proof -
  obtain arr where arr: "move_down (dbuffer d) n (bufptr d) = Inr arr" "length arr = length (dbuffer d)"
    "take (bufptr d - n) arr = drop n (take (bufptr d) (dbuffer d))"
    using move_down_ok [OF assms(2), of "dbuffer d"] assms(1) by (auto simp: buf_ok_def)
  have "take n (buf_pending d) = take n (dbuffer d)"
    using assms(2) by (simp add: buf_pending_def min.absorb1)
  with arr assms show ?thesis by (auto simp: take_sent_def buf_ok_def buf_pending_def)
qed

lemma getData_ok:
  assumes "buf_ok d"
  shows "\<exists>k d'. destination_getDatafromBuffer d n = Inr (take k (buf_pending d), d')
    \<and> k \<le> n \<and> buf_ok d' \<and> bufferSize d' = bufferSize d \<and> buf_pending d' = drop k (buf_pending d)"
proof (cases "expired d \<or> bufptr d < 188 * 50")
  case True
  then have "destination_getDatafromBuffer d n = Inr ([], d)"
    by (auto simp: destination_getDatafromBuffer_def)
  then show ?thesis using assms by (intro exI [of _ 0] exI [of _ d]) simp
next
  case False
  let ?k = "if n > bufptr d then bufptr d else n"
  have k: "?k \<le> bufptr d" "?k \<le> n" by auto
  obtain d' where d': "take_sent d ?k = Inr (d', take ?k (buf_pending d))" "buf_ok d'"
    "bufferSize d' = bufferSize d" "buf_pending d' = drop ?k (buf_pending d)"
    using take_sent_ok [OF assms k(1)] by blast
  have "\<not> length (dbuffer d) < ?k" using k assms by (simp add: buf_ok_def)
  with False d'(1) have "destination_getDatafromBuffer d n = Inr (take ?k (buf_pending d), d')"
    by (auto simp: destination_getDatafromBuffer_def take_sent_def Let_def bind_res_Inr)
  with d' k(2) show ?thesis by blast
qed

interpretation db: byte_queue buf_ok buf_pending destination_addToBuffer
    destination_getDatafromBuffer bufferSize "\<lambda>_. []"
proof
  fix q :: destination_t and xs
  assume ok: "buf_ok q"
  show "\<exists>q'. destination_addToBuffer q xs = Inr q' \<and> buf_ok q' \<and> bufferSize q' = bufferSize q
        \<and> buf_pending q' = (if length (buf_pending q) + length xs < bufferSize q
            then buf_pending q @ xs else [])"
    using addToBuffer_ok [OF ok, of xs] ok by auto
next
  fix q :: destination_t and n
  assume "buf_ok q"
  then show "\<exists>k q'. destination_getDatafromBuffer q n = Inr (take k (buf_pending q), q')
      \<and> buf_ok q' \<and> bufferSize q' = bufferSize q \<and> buf_pending q' = drop k (buf_pending q)"
    using getData_ok [of q n] by blast
qed

section \<open>Delivery moves bytes in order\<close>

text \<open>Sockets and files never take more than they are given, and the socket's URL has a port.\<close>

definition net_ok :: "net_env \<Rightarrow> bool" where
  "net_ok env \<longleftrightarrow> (\<forall>n. n_send env n \<le> int n) \<and> (\<forall>n. n_write env n \<le> int n)"

definition url_ok :: "parsed_url \<Rightarrow> dest_type \<Rightarrow> bool" where
  "url_ok u ty \<longleftrightarrow> (ty \<in> {dest_udp, dest_mcast} \<longrightarrow> port u \<noteq> None)
     \<and> (ty = dest_file \<longrightarrow> (\<exists>p. path u = Some p \<and> length (host u) + length p \<le> 253))"

lemma send_buffer_ok:
  assumes "buf_ok d" "n \<le> bufptr d" "net_ok env"
  shows "\<exists>d' out. send_buffer env d n = Inr (Some d', out) \<and> buf_ok d'
    \<and> bufferSize d' = bufferSize d \<and> expired d' = expired d
    \<and> out @ buf_pending d' = buf_pending d"
proof (cases "0 \<le> n_send env n")
  case True
  have "n_send env n \<le> int n" using assms(3) by (simp add: net_ok_def)
  with assms(2) have "nat (n_send env n) \<le> bufptr d" by linarith
  from take_sent_ok [OF assms(1) this] True show ?thesis by (auto simp: send_buffer_def)
qed (use assms in \<open>simp add: send_buffer_def\<close>)

lemma open_socket_ok:
  assumes "port (durl d) \<noteq> None"
  shows "\<exists>h. open_socket env d = Inr (d\<lparr>dfd := h\<rparr>)"
proof (cases "dfd d < 0")
  case False
  then show ?thesis by (intro exI [of _ "dfd d"]) (simp add: open_socket_def)
qed (use assms in \<open>auto simp: open_socket_def\<close>)

lemma buf_fd [simp]: "buf_ok (d\<lparr>dfd := h\<rparr>) = buf_ok d" "buf_pending (d\<lparr>dfd := h\<rparr>) = buf_pending d"
  by (simp_all add: buf_ok_def buf_pending_def)

lemma file_name_ok:
  "url_ok u dest_file \<Longrightarrow> \<exists>f. file_name u = Inr f"
  by (auto simp: url_ok_def file_name_def sprint_def)

lemma processFILE_ok:
  assumes "buf_ok d" "net_ok env" "url_ok (durl d) dest_file"
    and "destination_processFILE env wt due d xs = Inr (Some d', out)"
  shows "buf_ok d' \<and> bufferSize d' = bufferSize d
    \<and> out @ buf_pending d' = (if bufptr d + length xs < bufferSize d then buf_pending d @ xs else [])"
proof -
  obtain d1 where d1: "destination_addToBuffer d xs = Inr d1" "buf_ok d1"
    "bufferSize d1 = bufferSize d" "dfd d1 = dfd d" "durl d1 = durl d"
    "buf_pending d1 = (if bufptr d + length xs < bufferSize d then buf_pending d @ xs else [])"
    using addToBuffer_ok [OF assms(1)] by blast
  obtain h where h: "(if dfd d1 < 0 then bind_res (file_name (durl d1)) (\<lambda>f. Inr (n_open env f))
               else Inr (dfd d1)) = Inr h"
    using file_name_ok [OF assms(3)] d1(5) by (cases "dfd d1 < 0") auto
  let ?d = "d1\<lparr>dfd := h\<rparr>" and ?n = "(bufptr d1 div 4096) * 4096"
  have hn: "\<not> h < 0" using assms(4) d1(1) h by (auto simp: destination_processFILE_def)
  have ok: "buf_ok ?d" "?n \<le> bufptr ?d" using d1(2) by simp_all
  show ?thesis
  proof (cases "h > 0 \<and> 0 < ?n")
    case True
    then have rc: "\<not> n_write env ?n < 0"
      using assms(4) d1(1) h hn by (auto simp: destination_processFILE_def Let_def)
    have "n_write env ?n \<le> int ?n" using assms(2) unfolding net_ok_def by blast
    with ok(2) have "nat (n_write env ?n) \<le> bufptr ?d" by linarith
    from take_sent_ok [OF ok(1) this] obtain d2 where
      d2: "take_sent ?d (nat (n_write env ?n)) = Inr (d2, take (nat (n_write env ?n)) (buf_pending ?d))"
      "buf_ok d2" "bufferSize d2 = bufferSize ?d"
      "buf_pending d2 = drop (nat (n_write env ?n)) (buf_pending ?d)" by blast
    have "d' = d2 \<and> out = take (nat (n_write env ?n)) (buf_pending ?d)"
      using assms(4) d1(1) h hn True rc d2(1)
      by (auto simp: destination_processFILE_def Let_def)
    with d2 d1(3,6) show ?thesis by simp
  next
    case False
    then have "d' = ?d \<and> out = []"
      using assms(4) d1(1) h hn by (auto simp: destination_processFILE_def Let_def split: if_splits)
    with d1 show ?thesis by simp
  qed
qed

lemma processSocket_ok:
  assumes "buf_ok d" "net_ok env" "port (durl d) \<noteq> None"
    and "P = destination_processUDP env d xs \<or> P = destination_processMCAST env d xs"
  shows "\<exists>d' out. P = Inr (Some d', out) \<and> buf_ok d' \<and> bufferSize d' = bufferSize d
    \<and> out @ buf_pending d' = (if bufptr d + length xs < bufferSize d then buf_pending d @ xs else [])"
proof -
  obtain d1 where d1: "destination_addToBuffer d xs = Inr d1" "buf_ok d1"
    "bufferSize d1 = bufferSize d" "durl d1 = durl d"
    "buf_pending d1 = (if bufptr d + length xs < bufferSize d then buf_pending d @ xs else [])"
    using addToBuffer_ok [OF assms(1)] by blast
  obtain h where h: "open_socket env d1 = Inr (d1\<lparr>dfd := h\<rparr>)"
    using open_socket_ok [of d1] assms(3) d1(4) by auto
  let ?d = "d1\<lparr>dfd := h\<rparr>"
  have send: "\<exists>d' out. send_buffer env ?d n = Inr (Some d', out) \<and> buf_ok d'
      \<and> bufferSize d' = bufferSize ?d \<and> expired d' = expired ?d
      \<and> out @ buf_pending d' = buf_pending ?d" if "n \<le> bufptr ?d" for n
    using send_buffer_ok [OF _ that assms(2)] d1(2) by simp
  have "P = Inr (Some ?d, []) \<or> (\<exists>n \<le> bufptr ?d. P = send_buffer env ?d n)"
  proof -
    have "P = Inr (Some ?d, []) \<or> P = send_buffer env ?d (bufptr ?d)
        \<or> (188 * 3 \<le> bufptr ?d \<and> P = send_buffer env ?d (188 * 3))"
      using assms(4) d1(1) h
      by (auto simp: destination_processUDP_def destination_processMCAST_def split: if_splits)
    then show ?thesis by blast
  qed
  then show ?thesis
  proof
    assume "P = Inr (Some ?d, [])"
    then show ?thesis using d1 by simp
  next
    assume "\<exists>n \<le> bufptr ?d. P = send_buffer env ?d n"
    then obtain n where n: "n \<le> bufptr ?d" "P = send_buffer env ?d n" by blast
    from send [OF n(1)] n(2) d1(3,5) show ?thesis by auto
  qed
qed

lemma processHTTP_ok:
  assumes "buf_ok d"
  shows "\<exists>d'. destination_processHTTP d xs = Inr (Some d', []) \<and> buf_ok d'
    \<and> bufferSize d' = bufferSize d
    \<and> buf_pending d' = (if bufptr d + length xs < bufferSize d then buf_pending d @ xs else [])"
proof -
  obtain d1 where "destination_addToBuffer d xs = Inr d1" "buf_ok d1"
    "bufferSize d1 = bufferSize d"
    "buf_pending d1 = (if bufptr d + length xs < bufferSize d then buf_pending d @ xs else [])"
    using addToBuffer_ok [OF assms] by blast
  then show ?thesis by (simp add: destination_processHTTP_def)
qed

lemma processFILE_no_fault:
  assumes "buf_ok d" "net_ok env" "url_ok (durl d) dest_file"
  shows "\<exists>r. destination_processFILE env wt due d xs = Inr r"
proof -
  obtain d1 where d1: "destination_addToBuffer d xs = Inr d1" "buf_ok d1"
    "dfd d1 = dfd d" "durl d1 = durl d"
    using addToBuffer_ok [OF assms(1)] by blast
  obtain h where h: "(if dfd d1 < 0 then bind_res (file_name (durl d1)) (\<lambda>f. Inr (n_open env f))
               else Inr (dfd d1)) = Inr h"
    using file_name_ok [OF assms(3)] d1(4) by (cases "dfd d1 < 0") auto
  let ?d = "d1\<lparr>dfd := h\<rparr>" and ?n = "(bufptr d1 div 4096) * 4096"
  have "n_write env ?n \<le> int ?n" using assms(2) unfolding net_ok_def by blast
  moreover have "?n \<le> bufptr ?d" by simp
  ultimately have "nat (n_write env ?n) \<le> bufptr ?d" by linarith
  from take_sent_ok [OF _ this] d1(2) obtain d2 out where
    "take_sent ?d (nat (n_write env ?n)) = Inr (d2, out)" by auto
  with d1(1) h show ?thesis by (simp add: destination_processFILE_def Let_def)
qed

lemma deliver_result:
  assumes "buf_ok d" and "net_ok env" and "url_ok (durl d) (destination_type d)"
    and "destination_type d \<in> {dest_udp, dest_mcast, dest_http, dest_file}"
  shows "\<exists>r out. deliver env wt due d xs = Inr (r, out)
    \<and> (r = None \<longrightarrow> destination_type d = dest_file)
    \<and> (\<forall>d'. r = Some d' \<longrightarrow> buf_ok d' \<and> bufferSize d' = bufferSize d
         \<and> out @ buf_pending d' =
             (if bufptr d + length xs < bufferSize d then buf_pending d @ xs else []))"
proof (cases "destination_type d = dest_file")
  case True
  with assms(3) have u: "url_ok (durl d) dest_file" by simp
  obtain r out where r: "destination_processFILE env wt due d xs = Inr (r, out)"
    using processFILE_no_fault [OF assms(1,2) u, of wt due xs] by (elim exE) (metis surj_pair)
  have "\<forall>d'. r = Some d' \<longrightarrow> buf_ok d' \<and> bufferSize d' = bufferSize d
         \<and> out @ buf_pending d' =
             (if bufptr d + length xs < bufferSize d then buf_pending d @ xs else [])"
    using processFILE_ok [OF assms(1,2) u] r by blast
  with r True show ?thesis by (simp add: deliver_def)
next
  case False
  show ?thesis
  proof (cases "destination_type d = dest_http")
    case True
    then show ?thesis using processHTTP_ok [OF assms(1), of xs] by (auto simp: deliver_def)
  next
    case http: False
    with False assms(4) have ty: "destination_type d = dest_udp \<or> destination_type d = dest_mcast"
      by blast
    then have "port (durl d) \<noteq> None" using assms(3) by (auto simp: url_ok_def)
    from processSocket_ok [OF assms(1,2) this, of "deliver env wt due d xs" xs] ty
    show ?thesis by (auto simp: deliver_def)
  qed
qed

section \<open>What a delivery keeps\<close>

definition same_dest :: "destination_t \<Rightarrow> destination_t \<Rightarrow> bool" where
  "same_dest d d' \<longleftrightarrow> durl d' = durl d \<and> destination_type d' = destination_type d
     \<and> bufferSize d' = bufferSize d \<and> expired d' = expired d"

lemma addToBuffer_frame: "destination_addToBuffer d xs = Inr d' \<Longrightarrow> same_dest d d'"
  by (auto simp: destination_addToBuffer_def bind_res_Inr same_dest_def split: if_splits)

lemma take_sent_frame: "take_sent d n = Inr (d', out) \<Longrightarrow> same_dest d d'"
  by (auto simp: take_sent_def bind_res_Inr same_dest_def)

lemma open_socket_frame: "open_socket env d = Inr d' \<Longrightarrow> same_dest d d'"
  by (auto simp: open_socket_def same_dest_def split: if_splits option.splits)

lemma send_buffer_frame: "send_buffer env d n = Inr (Some d', out) \<Longrightarrow> same_dest d d'"
  using take_sent_frame
  by (auto simp: send_buffer_def Let_def bind_res_Inr same_dest_def split: if_splits)

lemma processFILE_frame:
  assumes "destination_processFILE env wt due d xs = Inr (Some d', out)"
  shows "same_dest d d'"
proof -
  obtain d1 where d1: "destination_addToBuffer d xs = Inr d1"
    using assms by (auto simp: destination_processFILE_def bind_res_Inr)
  obtain h where h: "(if dfd d1 < 0 then bind_res (file_name (durl d1)) (\<lambda>f. Inr (n_open env f))
               else Inr (dfd d1)) = Inr h"
    using assms d1 by (auto simp: destination_processFILE_def bind_res_Inr)
  obtain d2 where d2: "d2 = d1\<lparr>dfd := h\<rparr>" by simp
  have r: "d' = d2 \<or> (\<exists>n. take_sent d2 n = Inr (d', out))"
    using assms d1 h unfolding destination_processFILE_def d2
    by (auto simp: bind_res_Inr Let_def simp del: if_split split: if_split_asm)
  have d2: "same_dest d1 d2" using d2 by (simp add: same_dest_def)
  have "same_dest d d1" by (rule addToBuffer_frame [OF d1])
  with d2 r take_sent_frame show ?thesis by (auto simp: same_dest_def)
qed

lemma deliver_frame:
  assumes "deliver env wt due d xs = Inr (Some d', out)"
  shows "same_dest d d'"
proof -
  have socket: "same_dest d d'"
    if "bind_res (destination_addToBuffer d xs) (\<lambda>d. bind_res (open_socket env d) (\<lambda>d.
          if P d then send_buffer env d (n d) else Inr (Some d, []))) = Inr (Some d', out)" for P n
    using that addToBuffer_frame open_socket_frame send_buffer_frame
    by (fastforce simp: bind_res_Inr same_dest_def split: if_splits)
  show ?thesis
  proof (cases "destination_type d")
    case dest_udp
    then show ?thesis using assms socket by (simp add: deliver_def destination_processUDP_def)
  next
    case dest_mcast
    then show ?thesis using assms socket by (simp add: deliver_def destination_processMCAST_def)
  next
    case dest_file
    then show ?thesis using assms processFILE_frame by (simp add: deliver_def)
  next
    case dest_http
    then show ?thesis using assms addToBuffer_frame
      by (auto simp: deliver_def destination_processHTTP_def bind_res_Inr)
  qed (use assms in \<open>simp_all add: deliver_def same_dest_def\<close>)
qed

text \<open>A whole pass over sound destinations does not fault and leaves sound destinations.\<close>

definition dest_ready :: "destination_t \<Rightarrow> bool" where
  "dest_ready d \<longleftrightarrow> buf_ok d \<and> url_ok (durl d) (destination_type d)"

lemma deliver_ready:
  assumes "dest_ready d" "net_ok env"
  shows "\<exists>r out. deliver env wt due d xs = Inr (r, out) \<and> (\<forall>d'. r = Some d' \<longrightarrow> dest_ready d')"
proof (cases "destination_type d \<in> {dest_udp, dest_mcast, dest_http, dest_file}")
  case True
  obtain r out where r: "deliver env wt due d xs = Inr (r, out)"
    "\<forall>d'. r = Some d' \<longrightarrow> buf_ok d'"
    using deliver_result [OF _ assms(2) _ True, of wt due xs] assms(1)
    by (auto simp: dest_ready_def)
  moreover have "dest_ready d'" if "r = Some d'" for d'
    using r that deliver_frame [of env wt due d xs d' out] assms(1)
    by (simp add: dest_ready_def same_dest_def)
  ultimately show ?thesis by blast
next
  case False
  with assms(1) show ?thesis by (cases "destination_type d") (auto simp: deliver_def)
qed

lemma destination_process_ready:
  assumes "\<forall>d \<in> set ds. dest_ready d" "net_ok env"
  shows "\<exists>r. destination_process env wt due ds xs = Inr r
    \<and> (\<forall>ds' outs. r = Some (ds', outs) \<longrightarrow> (\<forall>d \<in> set ds'. dest_ready d))"
  using assms(1)
proof (induction ds)
  case (Cons d ds)
  obtain r where IH: "destination_process env wt due ds xs = Inr r"
    "\<And>ds' outs. r = Some (ds', outs) \<Longrightarrow> \<forall>d \<in> set ds'. dest_ready d"
    using Cons by auto
  show ?case
  proof (cases "expired d")
    case True
    with IH(1) have "destination_process env wt due (d # ds) xs = Inr r" by simp
    with IH(2) show ?thesis by blast
  next
    case False
    obtain d1 out where "deliver env wt due d xs = Inr (d1, out)" "\<forall>d'. d1 = Some d' \<longrightarrow> dest_ready d'"
      using deliver_ready [OF _ assms(2), of d wt due xs] Cons.prems by auto
    with IH False show ?thesis by (auto split: option.split)
  qed
qed simp

section \<open>Properties\<close>

text \<open>
  C29. A destination's buffer is a queue of bytes: as long as what is waiting and what is added
  stay below its size, any sequence of additions and reads faults nowhere, and what was read
  followed by what is still there is exactly what was there followed by what was added.
\<close>

theorem destination_buffer_fifo:
  assumes "buf_ok d" and "length (buf_pending d) + length (db.input_of ops) < bufferSize d"
  shows "\<exists>out d'. db.run d ops = Inr (out, d') \<and> buf_ok d' \<and> bufferSize d' = bufferSize d
    \<and> out @ buf_pending d' = buf_pending d @ db.input_of ops"
  by (rule db.run_fifo [OF assms])

definition small_dest :: destination_t where
  "small_dest = \<lparr>dfd = 3, destid = 1, destination_type = dest_udp, url_text = ''udp://h:1'',
     dbuffer = [1, 2, 3, 0, 0, 0, 0, 0], bufferSize = 8, bufptr = 3, dstate = 0,
     durl = \<lparr>scheme = ''udp'', host = ''h'', port = Some ''1'', path = Some ''p'', query = None,
       fragment = None, username = None, password = None\<rparr>, expired = False\<rparr>"

lemma small_dest_ok: "buf_ok small_dest" "bufferSize small_dest = 8" "bufptr small_dest = 3"
    "url_ok (durl small_dest) ty" "buf_pending small_dest = [1, 2, 3]"
  by (simp_all add: small_dest_def buf_ok_def url_ok_def buf_pending_def)

lemma destination_buffer_fifo_witness:
  "\<exists>out d'. db.run small_dest [Put [4, 5], Get 2, Put [6]] = Inr (out, d')
    \<and> out @ buf_pending d' = [1, 2, 3, 4, 5, 6]"
  using destination_buffer_fifo [of small_dest "[Put [4, 5], Get 2, Put [6]]"] small_dest_ok
  by auto

text \<open>
  C31. Delivery moves bytes in order and stays inside the buffer. When the buffer is sound, the
  URL has the parts its transport needs and no socket or file takes more than it is given, a
  delivery faults nowhere; unless a failing file ends the process, the bytes that went out
  followed by those still waiting are those that were waiting followed by the new ones, or
  nothing at all when the new ones did not fit.
\<close>

theorem deliver_in_order:
  assumes "buf_ok d" and "net_ok env" and "url_ok (durl d) (destination_type d)"
    and "destination_type d \<in> {dest_udp, dest_mcast, dest_http, dest_file}"
  shows "\<exists>r out. deliver env wt due d xs = Inr (r, out)
    \<and> (r = None \<longrightarrow> destination_type d = dest_file)
    \<and> (\<forall>d'. r = Some d' \<longrightarrow> buf_ok d' \<and> bufferSize d' = bufferSize d
         \<and> out @ buf_pending d' =
             (if bufptr d + length xs < bufferSize d then buf_pending d @ xs else []))"
  by (rule deliver_result [OF assms])

lemma deliver_in_order_witness:
  "\<exists>r out. deliver \<lparr>n_socket = 3, n_send = int, n_open = \<lambda>_. 4, n_write = int\<rparr> 0 False
     small_dest [4, 5] = Inr (r, out) \<and> r \<noteq> None"
  using deliver_in_order [of small_dest "\<lparr>n_socket = 3, n_send = int, n_open = \<lambda>_. 4, n_write = int\<rparr>"
      0 False "[4, 5]"] small_dest_ok
  by (auto simp: net_ok_def small_dest_def)

text \<open>
  An open file gets whole blocks on every pass: when the data fits and the file takes all
  it is given, what is written is a multiple of 4096 bytes and less than 4096 remain, whatever
  the write time is and whether it has passed, because the flag of the timer is overwritten
  in the condition that should test it.
\<close>

theorem file_writes_whole_blocks:
  assumes "buf_ok d" and "0 < dfd d" and "bufptr d + length xs < bufferSize d"
    and "\<And>n. n_write env n = int n"
  shows "\<exists>d' out. destination_processFILE env wt due d xs = Inr (Some d', out)
    \<and> 4096 dvd length out \<and> length (buf_pending d') < 4096
    \<and> out @ buf_pending d' = buf_pending d @ xs"
proof -
  obtain d1 where d1: "destination_addToBuffer d xs = Inr d1" "buf_ok d1" "dfd d1 = dfd d"
    "buf_pending d1 = buf_pending d @ xs"
    using addToBuffer_ok [OF assms(1), of xs] assms(3) by auto
  let ?n = "(bufptr d1 div 4096) * 4096"
  have fd: "d1\<lparr>dfd := dfd d\<rparr> = d1" using d1(3) by (cases d1) simp
  have nn: "?n \<le> bufptr d1" by simp
  obtain d2 where d2: "take_sent d1 ?n = Inr (d2, take ?n (buf_pending d1))"
    "buf_pending d2 = drop ?n (buf_pending d1)"
    using take_sent_ok [OF d1(2) nn] by blast
  have len: "length (buf_pending d1) = bufptr d1" using d1(2) by simp
  show ?thesis
  proof (cases "?n = 0")
    case True
    then have "bufptr d1 < 4096" by simp
    with True d1 len fd assms(2,4) show ?thesis
      by (intro exI [of _ d1] exI [of _ "[]"]) (simp add: destination_processFILE_def Let_def)
  next
    case False
    have "length (take ?n (buf_pending d1)) = ?n" using len nn by simp
    moreover have "length (buf_pending d2) < 4096"
      using d2(2) len by (simp add: minus_div_mult_eq_mod)
    moreover have "destination_processFILE env wt due d xs = Inr (Some d2, take ?n (buf_pending d1))"
      using d1(1,3) d2(1) fd assms(2) False
      by (simp add: destination_processFILE_def Let_def assms(4) nat_mult_distrib fd)
    ultimately show ?thesis using d1(4) d2(2) by (metis append_take_drop_id dvd_triv_right)
  qed
qed

lemma file_writes_whole_blocks_witness:
  "\<exists>d' out. destination_processFILE \<lparr>n_socket = 3, n_send = int, n_open = \<lambda>_. 4, n_write = int\<rparr>
     10000 False small_dest [9, 9] = Inr (Some d', out) \<and> out @ buf_pending d' = [1, 2, 3, 9, 9]"
proof -
  have "0 < dfd small_dest" by (simp add: small_dest_def)
  from file_writes_whole_blocks [of small_dest "[9, 9]"
      "\<lparr>n_socket = 3, n_send = int, n_open = \<lambda>_. 4, n_write = int\<rparr>" 10000 False, OF _ this]
  show ?thesis using small_dest_ok by auto
qed

text \<open>
  Creating a destination yields an empty buffer of its transport's size that is sound, of the
  type the scheme names, for the URL as the parser reads it; \<open>None\<close> exactly when the URL does not
  parse or names no transport; and the \<^verbatim>\<open>live\<close> scheme without a path is a null pointer read.
\<close>

theorem destination_create_result:
  assumes "length inURL < 1023"
  shows "case parse_url mem inURL of
      None \<Rightarrow> destination_create mem rnd inURL = Inr None
    | Some u \<Rightarrow>
        if scheme u = ''live'' \<and> path u = None
        then destination_create mem rnd inURL = Inl NullPointer
        else if scheme u \<notin> {''http'', ''live'', ''mcast'', ''udp'', ''fifo'', ''file''}
        then destination_create mem rnd inURL = Inr None
        else \<exists>d. destination_create mem rnd inURL = Inr (Some d) \<and> durl d = u
          \<and> buf_ok d \<and> buf_pending d = [] \<and> 1024 \<le> bufferSize d \<and> \<not> expired d
          \<and> dfd d = -1 \<and> url_text d = inURL
          \<and> (destination_type d = fst (transport (scheme u))
              \<or> scheme u = ''live'' \<and> destination_type d = dest_live2)"
proof (cases "parse_url mem inURL")
  case None
  then show ?thesis using assms by (simp add: destination_create_def)
next
  case (Some u)
  note simps = destination_create_def transport_def buf_ok_def buf_pending_def
  show ?thesis
  proof (cases "path u")
    case None
    with Some assms show ?thesis by (auto simp: simps)
  next
    case path: (Some p)
    show ?thesis
      by (cases "mem_eq 5 p ''live2''") (use Some path assms in \<open>auto simp: simps\<close>)
  qed
qed

lemma destination_create_result_witness:
  "destination_create (\<lambda>_. True) 7 ''live://x'' = Inl NullPointer"
proof -
  have p: "parse_url (\<lambda>_. True) ''live://x'' =
      Some \<lparr>scheme = ''live'', host = ''x'', port = None, path = None, query = None,
        fragment = None, username = None, password = None\<rparr>"
    by code_simp
  show ?thesis using destination_create_result [of "''live://x''" "\<lambda>_. True" 7] p by simp
qed

end
