(* ===== verification/Telnet.thy ===== *)
theory Telnet
  imports Steps Iniparser Destination "HOL-Library.Sublist"
begin

text \<open>
  The console of \<^verbatim>\<open>src/DVB/telnetservermanager.c\<close>: the users it keeps per connection, the line
  editor with its login, the table of commands and the check of a user against the user file.
  What the commands act on is a type parameter; the handlers are functions of the table's
  entries. Output is the list of the strings sent.
\<close>

section \<open>Data\<close>

text \<open>
  A new user comes from \<^verbatim>\<open>malloc\<close>: \<open>tu_username\<close> and \<open>tu_buf\<close> are \<open>None\<close> until something is
  stored. The name is an array of 20 of which 19 are written; \<open>tu_buf\<close> is the string in the
  array of 128 (\<open>MAX_TELNET_STRING\<close>).
\<close>

definition MAX_TELNET_STRING :: nat where "MAX_TELNET_STRING = 128"

record telnet_user =
  tu_username :: "char list option"
  tu_failed :: int
  tu_auth :: int
  tu_fd :: int
  tu_ip :: string
  tu_buf :: "string option"
  tu_ptr :: nat
  tu_skip :: nat

text \<open>
  \<open>c_tail\<close> is the memory after the array of the name: \<^verbatim>\<open>number_of_parameters\<close>, which is never
  set, and the help text.
\<close>

type_synonym 's handler = "string \<Rightarrow> 's \<Rightarrow> ('s \<times> int \<times> string list) res"

record 's telnet_command =
  c_func :: "'s handler"
  c_name :: "char list"
  c_tail :: "char list"

record telnet_data =
  telnetFilename :: "char list"
  telnetDatabase :: "char list"

text \<open>What the console runs with: the command table and the lines of the user file, if any.\<close>

record 's console =
  con_commands :: "'s telnet_command list"
  con_users :: "string option"

section \<open>Start-up\<close>

definition telnet_init :: "bool \<Rightarrow> dictionary option \<Rightarrow> telnet_data \<Rightarrow> telnet_data res" where
  "telnet_init sc ini d =
     (case ini of
        None \<Rightarrow> Inr d
      | Some _ \<Rightarrow>
          bind_res (iniparser_getstring sc ini (Some ''telnet:userlist'') Null) (\<lambda>f.
            case f of
              Str s \<Rightarrow>
                bind_res (iniparser_getstring sc ini (Some ''telnet:database'') Null) (\<lambda>t.
                  let d1 = d\<lparr>telnetFilename := c_strncpy 99 (telnetFilename d) s\<rparr> in
                  Inr (case t of
                         Str u \<Rightarrow> d1\<lparr>telnetDatabase := c_strncpy 99 (telnetDatabase d1) u\<rparr>
                       | _ \<Rightarrow> d1))
            | _ \<Rightarrow> Inl NullPointer))"

definition telnet_addcommand ::
  "'s handler \<Rightarrow> string \<Rightarrow> string \<Rightarrow> char list \<Rightarrow> 's telnet_command list \<Rightarrow> 's telnet_command list"
where
  "telnet_addcommand func command helpText junk cmds =
     cmds @ [\<lparr>c_func = func, c_name = c_strncpy 20 (take 20 junk) command,
              c_tail = take 4 (drop 20 junk) @ c_strncpy 255 (drop 24 junk) helpText\<rparr>]"

section \<open>Checking a user\<close>

definition cut_crlf :: "string \<Rightarrow> string" where
  "cut_crlf t = cstr_of (terminateCRLF (t @ [NUL]))"

definition line_accepts :: "string \<Rightarrow> string \<Rightarrow> string \<Rightarrow> bool" where
  "line_accepts usr pwd line =
     (case tokenize 2 (cstr_of line) CHR '':'' of
        [u, p] \<Rightarrow> usr = cut_crlf u \<and> pwd = cut_crlf p
      | _ \<Rightarrow> False)"

lemma fgets_80: "(a, b) = fgets 80 (c # cs) \<Longrightarrow> length b < Suc (length cs)"
  using fgets_shorter(1) [of 80 "c # cs" a b] by simp

function verify_lines :: "string \<Rightarrow> string \<Rightarrow> string \<Rightarrow> int" where
  "verify_lines usr pwd [] = -1"
| "verify_lines usr pwd (c # cs) =
     (let (line, rest) = fgets 80 (c # cs) in
      if line_accepts usr pwd line then 0 else verify_lines usr pwd rest)"
  by pat_completeness auto
termination
  by (relation "measure (\<lambda>(_, _, s). length s)") (auto dest!: fgets_80)

definition verifyTelnetUser_text :: "string option \<Rightarrow> string \<Rightarrow> string \<Rightarrow> int" where
  "verifyTelnetUser_text content usr pwd =
     (case content of None \<Rightarrow> -1 | Some s \<Rightarrow> verify_lines usr pwd s)"

text \<open>The query is built and not run; its array has 100 characters.\<close>

definition verifyTelnetUser_sqlite :: "bool \<Rightarrow> string \<Rightarrow> string \<Rightarrow> int res" where
  "verifyTelnetUser_sqlite opened usr pwd =
     (if \<not> opened then Inr (-1)
      else
        bind_res (sprint 100 (''select * from TelnetUsers where username='' @ [CHR 0x22] @ usr
          @ [CHR 0x22] @ '' and password='' @ [CHR 0x22] @ pwd @ [CHR 0x22] @ '';''))
          (\<lambda>_. Inr (-1)))"

section \<open>Commands\<close>

text \<open>The name as \<^verbatim>\<open>strlen\<close> and \<^verbatim>\<open>strncmp\<close> see it.\<close>

definition command_text :: "'s telnet_command \<Rightarrow> string res" where
  "command_text c =
     (if NUL \<in> set (c_name c @ c_tail c) then Inr (cstr_of (c_name c @ c_tail c)) else Inl Overrun)"

fun dispatch_loop ::
  "'s telnet_command list \<Rightarrow> string option \<Rightarrow> string \<Rightarrow> int \<Rightarrow> 's \<Rightarrow> ('s \<times> int \<times> string list) res"
where
  "dispatch_loop [] tok original rv s = Inr (s, rv, [])"
| "dispatch_loop (c # cs) tok original rv s =
     bind_res (command_text c) (\<lambda>name.
       case tok of
         None \<Rightarrow> Inl Uninitialised
       | Some t \<Rightarrow>
           if name = t then
             bind_res (c_func c original s) (\<lambda>(s1, rv1, out1).
             bind_res (dispatch_loop cs tok original rv1 s1) (\<lambda>(s2, rv2, out2).
               Inr (s2, rv2, out1 @ (if rv1 = -1 then CRLF @ ''ERR'' else CRLF @ ''OK'' @ CRLF)
                             # out2)))
           else dispatch_loop cs tok original rv s)"

definition telnet_dispatchCommand ::
  "'s console \<Rightarrow> string \<Rightarrow> 's \<Rightarrow> ('s \<times> int \<times> string list) res" where
  "telnet_dispatchCommand con commandLine s =
     dispatch_loop (con_commands con)
       (case tokenize 2 commandLine CHR '' '' of [] \<Rightarrow> None | t # _ \<Rightarrow> Some t) commandLine 1 s"

fun help_names :: "'s telnet_command list \<Rightarrow> string list res" where
  "help_names [] = Inr []"
| "help_names (c # cs) =
     bind_res (command_text c) (\<lambda>name. bind_res (help_names cs) (\<lambda>r. Inr (name # LFCR # r)))"

definition telnet_command_help :: "'s console \<Rightarrow> string list res" where
  "telnet_command_help con =
     bind_res (help_names (con_commands con)) (\<lambda>names.
       Inr ([CRLF @ ''== Avaliable Commands =='' @ CRLF] @ names
            @ [CRLF @ replicate 24 CHR ''='' @ CRLF]))"

definition findChar :: "char \<Rightarrow> string \<Rightarrow> int" where
  "findChar needle haystack =
     (let c = hd (haystack @ [NUL]) in
      if code_of c > 127 \<or> code_of c \<le> 10 then 1
      else if needle \<in> set haystack
      then int (length (takeWhile (\<lambda>x. x \<noteq> needle) haystack)) + 1
      else -1)"

section \<open>The line editor\<close>

text \<open>What a byte leads to: the next byte, the end of this block, or a disconnection.\<close>

datatype outcome = Go | Skip_rest | Disconnect

type_synonym 's byte_result = "(outcome \<times> telnet_user \<times> 's \<times> string list) res"

definition type_char :: "char \<Rightarrow> telnet_user \<Rightarrow> 's \<Rightarrow> 's byte_result" where
  "type_char c u s =
     (if MAX_TELNET_STRING \<le> tu_ptr u + 1 then Inl Overrun
      else
        Inr (Go, u\<lparr>tu_buf := Some (take (tu_ptr u) (case tu_buf u of None \<Rightarrow> [] | Some b \<Rightarrow> b) @ [c]),
                   tu_ptr := tu_ptr u + 1\<rparr>, s,
             [if tu_auth u \<noteq> 1 then [c] else ''*'']))"

definition erase_char :: "telnet_user \<Rightarrow> 's \<Rightarrow> 's byte_result" where
  "erase_char u s =
     (if tu_ptr u = 0 then Inr (Go, u, s, [])
      else
        Inr (Go, u\<lparr>tu_buf := map_option (take (tu_ptr u - 1)) (tu_buf u), tu_ptr := tu_ptr u - 1\<rparr>, s,
             [[CHR 0x08, CHR '' '', CHR 0x08]]))"

text \<open>The name and the password, then the commands.\<close>

definition login_name :: "string \<Rightarrow> telnet_user \<Rightarrow> 's \<Rightarrow> 's byte_result" where
  "login_name b u s =
     Inr (Go, u\<lparr>tu_username := Some (c_strncpy 19 [] b), tu_auth := tu_auth u + 1\<rparr>, s,
          [LFCR, ''Password: ''])"

definition login_password :: "'s console \<Rightarrow> string \<Rightarrow> telnet_user \<Rightarrow> 's \<Rightarrow> 's byte_result" where
  "login_password con b u s =
     (case tu_username u of
        None \<Rightarrow> Inl Uninitialised
      | Some a \<Rightarrow>
          if NUL \<notin> set a then Inl Uninitialised
          else if verifyTelnetUser_text (con_users con) (cstr_of a) b < 0 then
            Inr (if tu_failed u \<ge> 2 then Disconnect else Go,
                 u\<lparr>tu_auth := 0, tu_failed := tu_failed u + 1\<rparr>, s,
                 [CRLF @ ''Login failed.....'' @ CRLF @ [NL] @ ''Login : ''])
          else Inr (Go, u\<lparr>tu_auth := 2, tu_failed := 0\<rparr>, s, []))"

definition enter_line :: "'s console \<Rightarrow> string \<Rightarrow> telnet_user \<Rightarrow> 's \<Rightarrow> 's byte_result" where
  "enter_line con b u s =
     bind_res (if b = ''help'' \<and> tu_auth u = 2 then telnet_command_help con else Inr []) (\<lambda>out0.
     if b = ''quit'' \<and> tu_auth u = 2 then Inr (Disconnect, u, s, out0)
     else
       bind_res
         (if tu_auth u = 0 then login_name b u s
          else if tu_auth u = 1 then login_password con b u s
          else if tu_ptr u > 0 then
            bind_res (telnet_dispatchCommand con b s) (\<lambda>(s1, _, out). Inr (Go, u, s1, out))
          else Inr (Go, u, s, [])) (\<lambda>(oc, u1, s1, out1).
       if oc = Disconnect then Inr (Disconnect, u1, s1, out0 @ out1)
       else
         Inr (Go, u1\<lparr>tu_ptr := 0, tu_buf := Some []\<rparr>, s1,
              out0 @ out1 @ (if tu_auth u1 = 2 then [LFCR, ''CMD> ''] else []))))"

definition telnet_byte :: "'s console \<Rightarrow> char \<Rightarrow> telnet_user \<Rightarrow> 's \<Rightarrow> 's byte_result" where
  "telnet_byte con c u s =
     (if tu_skip u > 0 then
        (if code_of c = 250 then Inr (Go, u\<lparr>tu_skip := 50\<rparr>, s, [])
         else if code_of c = 240 then Inr (Skip_rest, u\<lparr>tu_skip := 0\<rparr>, s, [])
         else Inr (Go, u\<lparr>tu_skip := tu_skip u - 1\<rparr>, s, []))
      else if c_isprint c then type_char c u s
      else if code_of c = 127 then erase_char u s
      else if code_of c = 13 then
        (case tu_buf u of None \<Rightarrow> Inl Uninitialised | Some b \<Rightarrow> enter_line con b u s)
      else if code_of c = 255 then Inr (Go, u\<lparr>tu_skip := 2, tu_ptr := 0\<rparr>, s, [])
      else Inr (Go, u, s, []))"

fun telnet_bytes ::
  "'s console \<Rightarrow> char list \<Rightarrow> telnet_user \<Rightarrow> 's \<Rightarrow> (bool \<times> telnet_user \<times> 's \<times> string list) res" where
  "telnet_bytes con [] u s = Inr (True, u, s, [])"
| "telnet_bytes con (c # cs) u s =
     bind_res (telnet_byte con c u s) (\<lambda>(oc, u1, s1, out1).
       case oc of
         Disconnect \<Rightarrow> Inr (False, u1, s1, out1)
       | Skip_rest \<Rightarrow> Inr (True, u1, s1, out1)
       | Go \<Rightarrow>
           bind_res (telnet_bytes con cs u1 s1) (\<lambda>(ok, u2, s2, out2).
             Inr (ok, u2, s2, out1 @ out2)))"

text \<open>What one connection sends in several blocks, one for each \<^verbatim>\<open>recv\<close>.\<close>

fun telnet_blocks ::
  "'s console \<Rightarrow> char list list \<Rightarrow> telnet_user \<Rightarrow> 's \<Rightarrow> (bool \<times> telnet_user \<times> 's \<times> string list) res" where
  "telnet_blocks con [] u s = Inr (True, u, s, [])"
| "telnet_blocks con (b # bs) u s =
     bind_res (telnet_bytes con b u s) (\<lambda>(ok, u1, s1, out1).
       if ok then bind_res (telnet_blocks con bs u1 s1) (\<lambda>(ok2, u2, s2, out2).
         Inr (ok2, u2, s2, out1 @ out2))
       else Inr (False, u1, s1, out1))"

section \<open>Connections\<close>

definition new_user :: "int \<Rightarrow> string \<Rightarrow> telnet_user" where
  "new_user fd ip = \<lparr>tu_username = None, tu_failed = 0, tu_auth = 0, tu_fd = fd, tu_ip = ip,
     tu_buf = None, tu_ptr = 0, tu_skip = 0\<rparr>"

definition telnet_onconnect ::
  "int \<Rightarrow> string \<Rightarrow> telnet_user list \<Rightarrow> (telnet_user list \<times> int \<times> string list) res" where
  "telnet_onconnect fd ip us =
     bind_res (sprint 20 ip) (\<lambda>ip'.
       Inr (filter (\<lambda>u. tu_fd u \<noteq> fd) us @ [new_user fd ip'], 0,
            [''Welcome to the Console'' @ [NL] @ ''Login : '',
             [CHR 0xFF, CHR 0xFB, CHR 0x01, CHR 0xFF, CHR 0xFD, CHR 0x22]]))"

definition telnet_ondisconnect :: "int \<Rightarrow> telnet_user list \<Rightarrow> telnet_user list" where
  "telnet_ondisconnect fd us = filter (\<lambda>u. tu_fd u \<noteq> fd) us"

text \<open>The first user with the descriptor gets the bytes.\<close>

fun telnet_process ::
  "'s console \<Rightarrow> int \<Rightarrow> char list \<Rightarrow> telnet_user list \<Rightarrow> 's
   \<Rightarrow> (int \<times> telnet_user list \<times> 's \<times> string list) res" where
  "telnet_process con fd buf [] s = Inr (1, [], s, [])"
| "telnet_process con fd buf (u # us) s =
     (if tu_fd u = fd then
        bind_res (telnet_bytes con buf u s) (\<lambda>(ok, u1, s1, out).
          Inr (if ok then 1 else -255, u1 # us, s1, out))
      else
        bind_res (telnet_process con fd buf us s) (\<lambda>(rc, us1, s1, out).
          Inr (rc, u # us1, s1, out)))"

section \<open>What holds of a table of commands holds of the console\<close>

text \<open>
  The contract of the handlers: none breaks the invariant of what they act on. Then no input to
  the console does.
\<close>

locale command_handlers =
  fixes con :: "'s console" and inv :: "'s \<Rightarrow> bool"
  assumes handler: "c \<in> set (con_commands con) \<Longrightarrow> inv s \<Longrightarrow> c_func c line s = Inr (s', rv, out)
    \<Longrightarrow> inv s'"
begin

lemma dispatch_loop_inv:
  "set cs \<subseteq> set (con_commands con) \<Longrightarrow> inv s
   \<Longrightarrow> dispatch_loop cs tok line rv s = Inr (s', rv', out) \<Longrightarrow> inv s'"
proof (induction cs arbitrary: s rv rv' out)
  case (Cons c cs)
  have c: "c \<in> set (con_commands con)" "set cs \<subseteq> set (con_commands con)" using Cons.prems(1) by auto
  obtain name t where n: "command_text c = Inr name" "tok = Some t"
    using Cons.prems(3) by (auto simp: bind_res_Inr split: option.splits)
  show ?case
  proof (cases "name = t")
    case True
    then obtain s1 rv1 out1 rv2 out2 where "c_func c line s = Inr (s1, rv1, out1)"
      "dispatch_loop cs tok line rv1 s1 = Inr (s', rv2, out2)"
      using Cons.prems(3) n by (auto simp: bind_res_Inr)
    then show ?thesis using Cons.IH [OF c(2)] handler [OF c(1) Cons.prems(2)] by blast
  next
    case False
    with Cons.prems n show ?thesis using Cons.IH [OF c(2) Cons.prems(2)] by simp
  qed
qed simp

lemma enter_line_inv:
  "inv s \<Longrightarrow> enter_line con b u s = Inr (oc, u', s', out) \<Longrightarrow> inv s'"
  using dispatch_loop_inv [OF subset_refl]
  by (auto simp: enter_line_def bind_res_Inr login_name_def login_password_def
      telnet_dispatchCommand_def split: if_splits option.splits)

lemma byte_inv: "inv s \<Longrightarrow> telnet_byte con c u s = Inr (oc, u', s', out) \<Longrightarrow> inv s'"
  using enter_line_inv
  by (auto simp: telnet_byte_def type_char_def erase_char_def split: if_splits option.splits)

lemma bytes_inv: "inv s \<Longrightarrow> telnet_bytes con bs u s = Inr (ok, u', s', out) \<Longrightarrow> inv s'"
proof (induction bs arbitrary: u s out)
  case (Cons c cs)
  obtain oc u1 s1 out1 where b: "telnet_byte con c u s = Inr (oc, u1, s1, out1)"
    using Cons.prems(2) by (auto simp: bind_res_Inr)
  have "inv s1" by (rule byte_inv [OF Cons.prems(1) b])
  then show ?case using Cons b by (cases oc) (auto simp: bind_res_Inr)
qed simp

lemma process_inv: "inv s \<Longrightarrow> telnet_process con fd bs us s = Inr (rc, us', s', out) \<Longrightarrow> inv s'"
proof (induction us arbitrary: us' out)
  case (Cons u us)
  then show ?case using bytes_inv by (auto simp: bind_res_Inr split: if_splits)
qed simp

end

section \<open>Login\<close>

text \<open>The login as a machine that takes lines.\<close>

datatype login = Name nat | Pass nat string | In | Gone

definition CR :: char where "CR = CHR 0x0D"

fun con_line :: "'s console \<Rightarrow> string \<Rightarrow> login \<times> 's \<Rightarrow> (login \<times> 's) res" where
  "con_line con line (Gone, s) = Inr (Gone, s)"
| "con_line con line (Name k, s) =
     (if MAX_TELNET_STRING \<le> length line then Inl Overrun else Inr (Pass k line, s))"
| "con_line con line (Pass k n, s) =
     (if MAX_TELNET_STRING \<le> length line then Inl Overrun
      else if 19 \<le> length n then Inl Uninitialised
      else Inr (if 0 \<le> verifyTelnetUser_text (con_users con) n line then In
                else if k \<ge> 2 then Gone else Name (k + 1), s))"
| "con_line con line (In, s) =
     (if MAX_TELNET_STRING \<le> length line then Inl Overrun
      else if line = ''quit'' then Inr (Gone, s)
      else
        bind_res (if line = ''help'' then telnet_command_help con else Inr []) (\<lambda>_.
          if line = [] then Inr (In, s)
          else bind_res (telnet_dispatchCommand con line s) (\<lambda>(s1, _). Inr (In, s1))))"

fun con_lines :: "'s console \<Rightarrow> string list \<Rightarrow> login \<times> 's \<Rightarrow> (login \<times> 's) res" where
  "con_lines con [] x = Inr x"
| "con_lines con (l # ls) x = bind_res (con_line con l x) (con_lines con ls)"

text \<open>When a user stands at the start of a line in a state of the login.\<close>

definition at_login :: "login \<Rightarrow> telnet_user \<Rightarrow> bool" where
  "at_login l u \<longleftrightarrow> tu_ptr u = 0 \<and> tu_skip u = 0 \<and> tu_buf u \<in> {None, Some []}
     \<and> (case l of
          Name k \<Rightarrow> tu_auth u = 0 \<and> tu_failed u = int k
        | Pass k n \<Rightarrow> tu_auth u = 1 \<and> tu_failed u = int k \<and> tu_username u = Some (c_strncpy 19 [] n)
            \<and> no_nul n
        | In \<Rightarrow> tu_auth u = 2
        | Gone \<Rightarrow> False)"

definition text_line :: "string \<Rightarrow> bool" where
  "text_line l \<longleftrightarrow> (\<forall>c \<in> set l. c_isprint c)"

lemma text_line_no_nul: "text_line l \<Longrightarrow> no_nul l"
  by (auto simp: text_line_def no_nul_def c_isprint_def)

definition typed :: "string \<Rightarrow> telnet_user \<Rightarrow> telnet_user" where
  "typed l u = (if l = [] then u else u\<lparr>tu_buf := Some l, tu_ptr := length l\<rparr>)"

lemma type_text:
  assumes "text_line l" "tu_skip u = 0" "tu_ptr u = length p"
    and "p = [] \<or> tu_buf u = Some p"
  shows "if MAX_TELNET_STRING \<le> length (p @ l) \<and> l \<noteq> []
     then telnet_bytes con (l @ cs) u s = Inl Overrun
     else \<exists>out. telnet_bytes con (l @ cs) u s =
        bind_res (telnet_bytes con cs (if l = [] then u
            else u\<lparr>tu_buf := Some (p @ l), tu_ptr := length (p @ l)\<rparr>) s)
          (\<lambda>(ok, u', s', out'). Inr (ok, u', s', out @ out'))"
  using assms
proof (induction l arbitrary: u p)
  case Nil
  have "telnet_bytes con cs u s = bind_res (telnet_bytes con cs u s)
      (\<lambda>(ok, u', s', out'). Inr (ok, u', s', [] @ out'))"
    by (simp add: bind_res_def split: sum.split)
  then have "\<exists>out. telnet_bytes con cs u s = bind_res (telnet_bytes con cs u s)
      (\<lambda>(ok, u', s', out'). Inr (ok, u', s', out @ out'))" by (rule exI)
  then show ?case by simp
next
  case (Cons c l)
  have b: "telnet_byte con c u s = type_char c u s"
    using Cons.prems(1,2) by (simp add: telnet_byte_def text_line_def)
  show ?case
  proof (cases "MAX_TELNET_STRING \<le> length p + 1")
    case True
    then have "telnet_bytes con ((c # l) @ cs) u s = Inl Overrun"
      using b Cons.prems(3) by (simp add: type_char_def)
    with True show ?thesis by simp
  next
    case False
    let ?u = "u\<lparr>tu_buf := Some (p @ [c]), tu_ptr := length (p @ [c])\<rparr>"
    have t: "type_char c u s = Inr (Go, ?u, s, [if tu_auth u \<noteq> 1 then [c] else ''*''])"
      using False Cons.prems(3,4) by (auto simp: type_char_def)
    have "if MAX_TELNET_STRING \<le> length ((p @ [c]) @ l) \<and> l \<noteq> []
     then telnet_bytes con (l @ cs) ?u s = Inl Overrun
     else \<exists>out. telnet_bytes con (l @ cs) ?u s =
        bind_res (telnet_bytes con cs (if l = [] then ?u
            else ?u\<lparr>tu_buf := Some ((p @ [c]) @ l), tu_ptr := length ((p @ [c]) @ l)\<rparr>) s)
          (\<lambda>(ok, u', s', out'). Inr (ok, u', s', out @ out'))"
      by (rule Cons.IH) (use Cons.prems in \<open>simp_all add: text_line_def\<close>)
    with False b t show ?thesis
      by (cases "l = []") (auto simp: bind_res_def split: sum.splits if_splits)
  qed
qed

lemma username_array:
  assumes "no_nul n"
  shows "NUL \<in> set (c_strncpy 19 [] n) \<longleftrightarrow> length n < 19"
    and "length n < 19 \<Longrightarrow> cstr_of (c_strncpy 19 [] n) = n"
proof -
  show "NUL \<in> set (c_strncpy 19 [] n) \<longleftrightarrow> length n < 19"
    using no_nul_take [OF assms, of 19] by (auto simp: c_strncpy_def no_nul_def)
  show "cstr_of (c_strncpy 19 [] n) = n" if "length n < 19"
    using that assms cstr_of_append_NUL [of n]
    by (cases "19 - length n") (auto simp: c_strncpy_def)
qed

definition follows :: "(login \<times> 's) res \<Rightarrow> 's byte_result \<Rightarrow> bool" where
  "follows a r \<longleftrightarrow>
     (case a of
        Inl e \<Rightarrow> r = Inl e
      | Inr (l, s) \<Rightarrow> \<exists>oc u out. r = Inr (oc, u, s, out)
          \<and> (if l = Gone then oc = Disconnect else oc = Go \<and> at_login l u \<and> tu_buf u = Some []))"

lemma enter_follows:
  assumes "at_login l u" "text_line line" "length line < MAX_TELNET_STRING"
    and "line \<noteq> [] \<or> tu_buf u = Some []" "v = typed line u"
  shows "follows (con_line con line (l, s)) (telnet_byte con CR v s)"
proof -
  have v: "tu_buf v = Some line" "tu_ptr v = length line" "tu_skip v = 0" "tu_auth v = tu_auth u"
    "tu_failed v = tu_failed u" "tu_username v = tu_username u"
    using assms(1,4,5) by (auto simp: typed_def at_login_def)
  have b: "telnet_byte con CR v s = enter_line con line v s"
    using v(1,3) by (simp add: telnet_byte_def CR_def c_isprint_def)
  have len: "\<not> MAX_TELNET_STRING \<le> length line" using assms(3) by simp
  show ?thesis
  proof (cases l)
    case (Name k)
    then have "tu_auth v = 0" "tu_failed v = int k" using assms(1) v by (simp_all add: at_login_def)
    with Name len v show ?thesis unfolding b
      using text_line_no_nul [OF assms(2)]
      by (simp add: follows_def enter_line_def login_name_def at_login_def)
  next
    case (Pass k n)
    then have p: "tu_auth v = 1" "tu_failed v = int k" "tu_username v = Some (c_strncpy 19 [] n)"
      "no_nul n" using assms(1) v by (simp_all add: at_login_def)
    have "login_password con line v s =
        (if 19 \<le> length n then Inl Uninitialised
         else if verifyTelnetUser_text (con_users con) n line < 0 then
            Inr (if k \<ge> 2 then Disconnect else Go,
                 v\<lparr>tu_auth := 0, tu_failed := int k + 1\<rparr>, s,
                 [CRLF @ ''Login failed.....'' @ CRLF @ [NL] @ ''Login : ''])
          else Inr (Go, v\<lparr>tu_auth := 2, tu_failed := 0\<rparr>, s, []))"
      using p username_array [OF p(4)] by (auto simp: login_password_def)
    with Pass len v p show ?thesis unfolding b
      by (auto simp: follows_def enter_line_def at_login_def)
  next
    case In
    then have p: "tu_auth v = 2" using assms(1) v by (simp add: at_login_def)
    show ?thesis
    proof (cases "line = ''quit''")
      case True
      with In p v len show ?thesis unfolding b by (simp add: follows_def enter_line_def)
    next
      case False
      show ?thesis
      proof (cases "if line = ''help'' then telnet_command_help con else Inr []")
        case (Inl e)
        with False In p len show ?thesis unfolding b by (simp add: follows_def enter_line_def)
      next
        case (Inr out0)
        show ?thesis
        proof (cases "line = []")
          case True
          with Inr In p v len show ?thesis unfolding b
            by (simp add: follows_def enter_line_def at_login_def)
        next
          case ne: False
          show ?thesis
          proof (cases "telnet_dispatchCommand con line s")
            case (Inl e)
            with Inr ne False In p v len show ?thesis unfolding b
              by (simp add: follows_def enter_line_def)
          next
            case (Inr x)
            obtain s1 rv out where "x = (s1, rv, out)" by (metis prod_cases3)
            with Inr \<open>(if line = ''help'' then telnet_command_help con else Inr []) = Inr out0\<close>
              ne False In p v len
            show ?thesis unfolding b by (simp add: follows_def enter_line_def at_login_def)
          qed
        qed
      qed
    qed
  next
    case Gone
    with assms(1) show ?thesis by (simp add: at_login_def)
  qed
qed

text \<open>The outcome of a run of lines, against the machine.\<close>

definition same_outcome ::
  "(login \<times> 's) res \<Rightarrow> (bool \<times> telnet_user \<times> 's \<times> string list) res \<Rightarrow> bool" where
  "same_outcome a r \<longleftrightarrow>
     (case a of
        Inl e \<Rightarrow> r = Inl e
      | Inr (l, s) \<Rightarrow> \<exists>u out. r = Inr (l \<noteq> Gone, u, s, out) \<and> (l \<noteq> Gone \<longrightarrow> at_login l u))"

lemma con_lines_Gone: "con_lines con ls (Gone, s) = Inr (Gone, s)"
  by (induction ls) simp_all

lemma same_outcome_out:
  "same_outcome a r \<Longrightarrow> same_outcome a (bind_res r (\<lambda>(ok, u, s, out'). Inr (ok, u, s, out @ out')))"
  by (auto simp: same_outcome_def split: sum.splits prod.splits)

lemma con_line_too_long:
  "l \<noteq> Gone \<Longrightarrow> MAX_TELNET_STRING \<le> length line \<Longrightarrow> con_line con line (l, s) = Inl Overrun"
  by (cases l) simp_all

lemma lines_follow:
  assumes "at_login l u" "\<forall>line \<in> set lines. text_line line"
    and "lines = [] \<or> hd lines \<noteq> [] \<or> tu_buf u = Some []"
  shows "same_outcome (con_lines con lines (l, s))
    (telnet_bytes con (concat (map (\<lambda>line. line @ [CR]) lines)) u s)"
  using assms
proof (induction lines arbitrary: l u s)
  case Nil
  then show ?case by (auto simp: same_outcome_def at_login_def)
next
  case (Cons line lines)
  let ?cs = "CR # concat (map (\<lambda>line. line @ [CR]) lines)"
  have tl: "text_line line" "\<forall>line \<in> set lines. text_line line" using Cons.prems(2) by simp_all
  have ng: "l \<noteq> Gone" using Cons.prems(1) by (auto simp: at_login_def)
  have u0: "tu_skip u = 0" "tu_ptr u = length []" using Cons.prems(1) by (simp_all add: at_login_def)
  from type_text [OF tl(1) u0 disjI1 [OF refl], of con ?cs s]
  have t: "if MAX_TELNET_STRING \<le> length line \<and> line \<noteq> []
     then telnet_bytes con (line @ ?cs) u s = Inl Overrun
     else \<exists>out. telnet_bytes con (line @ ?cs) u s =
        bind_res (telnet_bytes con ?cs (typed line u) s)
          (\<lambda>(ok, u', s', out'). Inr (ok, u', s', out @ out'))"
    by (simp only: typed_def append_Nil)
  show ?case
  proof (cases "MAX_TELNET_STRING \<le> length line")
    case True
    then have "line \<noteq> []" by (auto simp: MAX_TELNET_STRING_def)
    with t True ng show ?thesis by (simp add: con_line_too_long same_outcome_def)
  next
    case False
    from t False obtain out where o: "telnet_bytes con (line @ ?cs) u s =
        bind_res (telnet_bytes con ?cs (typed line u) s)
          (\<lambda>(ok, u', s', out'). Inr (ok, u', s', out @ out'))" by auto
    have "line \<noteq> [] \<or> tu_buf u = Some []" using Cons.prems(3) by simp
    with False have f: "follows (con_line con line (l, s)) (telnet_byte con CR (typed line u) s)"
      using enter_follows [OF Cons.prems(1) tl(1) _ _ refl] by simp
    have "same_outcome (con_lines con (line # lines) (l, s)) (telnet_bytes con ?cs (typed line u) s)"
    proof (cases "con_line con line (l, s)")
      case (Inl e)
      with f show ?thesis by (simp add: follows_def same_outcome_def)
    next
      case (Inr x)
      obtain l1 s1 where x: "x = (l1, s1)" by force
      from f Inr x obtain oc u1 out1 where r: "telnet_byte con CR (typed line u) s = Inr (oc, u1, s1, out1)"
        "if l1 = Gone then oc = Disconnect else oc = Go \<and> at_login l1 u1 \<and> tu_buf u1 = Some []"
        by (auto simp: follows_def)
      show ?thesis
      proof (cases "l1 = Gone")
        case True
        with r Inr x show ?thesis by (simp add: con_lines_Gone same_outcome_def)
      next
        case ng1: False
        then have "same_outcome (con_lines con lines (l1, s1))
            (telnet_bytes con (concat (map (\<lambda>line. line @ [CR]) lines)) u1 s1)"
          using Cons.IH [OF _ tl(2)] r(2) by simp
        from same_outcome_out [OF this, of out1] r ng1 Inr x show ?thesis by simp
      qed
    qed
    from same_outcome_out [OF this, of out] o show ?thesis by simp
  qed
qed

text \<open>
  A user who has sent \<open>pre\<close> and is not logged in: the line being typed is made of characters of \<open>pre\<close>, and
  so is the name before it when it is the password, with the carriage return in between.
\<close>

definition outside :: "char list \<Rightarrow> telnet_user \<Rightarrow> bool" where
  "outside pre u \<longleftrightarrow>
     (case tu_buf u of
        None \<Rightarrow> tu_auth u = 0
      | Some b \<Rightarrow> no_nul b \<and>
          (tu_auth u = 0 \<and> subseq b pre
           \<or> tu_auth u = 1 \<and> (\<exists>n. tu_username u = Some (c_strncpy 19 [] n) \<and> no_nul n \<and> subseq (n @ CR # b) pre)))"

definition unknown :: "'s console \<Rightarrow> char list \<Rightarrow> bool" where
  "unknown con bytes \<longleftrightarrow>
     (\<forall>n p. verifyTelnetUser_text (con_users con) n p < 0 \<or> \<not> subseq (n @ CR # p @ [CR]) bytes)"

lemma outside_auth: "outside pre u \<Longrightarrow> tu_auth u = 0 \<or> tu_auth u = 1"
  by (auto simp: outside_def split: option.splits)

lemma subseq_more: "subseq b pre \<Longrightarrow> subseq b (pre @ x)"
  by (simp add: subseq_rev_drop_many)

lemma subseq_take: "subseq (take n xs) xs"
  using subseq_more [of "take n xs" "take n xs" "drop n xs"] by simp

lemma outside_more: "outside pre u \<Longrightarrow> outside (pre @ x) u"
  using subseq_more by (fastforce simp: outside_def split: option.splits)

lemma outside_shorter:
  assumes "outside pre u" "tu_buf u = Some b" "subseq b' b" "tu_auth u' = tu_auth u" "tu_username u' = tu_username u"
    and "tu_buf u' = Some b'"
  shows "outside pre u'"
proof -
  have "subseq b' pre" if "subseq b pre" for pre using assms(3) that by (rule subseq_order.trans)
  moreover have "subseq (n @ CR # b') pre" if "subseq (n @ CR # b) pre" for n pre
    using assms(3) that by (meson list_emb_append_mono subseq_Cons2 subseq_order.trans subseq_order.refl)
  moreover have "no_nul b'" if "no_nul b" using that list_emb_set [OF assms(3)] by (metis no_nul_def)
  ultimately show ?thesis using assms by (auto simp: outside_def)
qed

lemma typed_outside:
  assumes "outside pre u" "c_isprint c" "type_char c u s = Inr (oc, u', s', out)"
  shows "outside (pre @ [c]) u' \<and> s' = s"
proof -
  let ?b = "case tu_buf u of None \<Rightarrow> [] | Some b \<Rightarrow> b"
  have u': "u' = u\<lparr>tu_buf := Some (take (tu_ptr u) ?b @ [c]), tu_ptr := tu_ptr u + 1\<rparr>" "s' = s"
    using assms(3) by (auto simp: type_char_def split: if_splits)
  have c: "c \<noteq> NUL" using assms(2) by (auto simp: c_isprint_def)
  have sub: "subseq (take (tu_ptr u) ?b) ?b" by (rule subseq_take)
  have "subseq (x @ take (tu_ptr u) ?b @ [c]) (pre @ [c])" if "subseq (x @ ?b) pre" for x
  proof -
    have "subseq (x @ take (tu_ptr u) ?b) (x @ ?b)" by (rule list_emb_append_mono [OF subseq_order.refl sub])
    then have "subseq (x @ take (tu_ptr u) ?b) pre" using that by (rule subseq_order.trans)
    from list_emb_append_mono [OF this subseq_order.refl, of "[c]"] show ?thesis by simp
  qed
  note grow = this [of "[]", simplified] this [of "n @ [CR]" for n, simplified]
  have "no_nul (take (tu_ptr u) ?b @ [c])" if "no_nul ?b"
    using that c by (cases "tu_buf u") (auto simp: no_nul_def dest: in_set_takeD)
  moreover have "no_nul ?b" using assms(1) by (auto simp: outside_def no_nul_def split: option.splits)
  ultimately show ?thesis using assms(1) grow u'
    by (cases "tu_buf u") (auto simp: outside_def)
qed

text \<open>A line is entered: a name makes way for its password, a password is refused.\<close>

lemma entered_outside:
  assumes "outside pre u" "tu_buf u = Some b" "unknown con (pre @ [CR])"
    and "enter_line con b u s = Inr (oc, u', s', out)"
  shows "outside (pre @ [CR]) u' \<and> s' = s"
proof (cases "tu_auth u = 0")
  case True
  then have "tu_auth u' = 1" "tu_username u' = Some (c_strncpy 19 [] b)" "tu_buf u' = Some []" "s' = s"
    using assms(4) by (auto simp: enter_line_def login_name_def bind_res_def)
  moreover have "no_nul b" "subseq (b @ [CR]) (pre @ [CR])"
    using assms(1,2) True by (simp_all add: outside_def list_emb_append_mono)
  ultimately show ?thesis by (auto simp: outside_def no_nul_def)
next
  case False
  then obtain n where n: "tu_auth u = 1" "tu_username u = Some (c_strncpy 19 [] n)" "no_nul n" "no_nul b"
      "subseq (n @ CR # b) pre"
    using assms(1,2) by (auto simp: outside_def)
  then have "subseq (n @ CR # b @ [CR]) (pre @ [CR])"
    using list_emb_append_mono [OF n(5), of "[CR]" "[CR]"] by simp
  with assms(3) have v: "verifyTelnetUser_text (con_users con) n b < 0" by (auto simp: unknown_def)
  have "subseq b (n @ CR # b)" by (simp add: subseq_drop_many subseq_Cons')
  then have b: "subseq b (pre @ [CR])" using n(5) subseq_more by (meson subseq_order.trans)
  have "NUL \<in> set (c_strncpy 19 [] n)" "cstr_of (c_strncpy 19 [] n) = n"
    using assms(4) n username_array [OF n(3)]
    by (auto simp: enter_line_def login_password_def bind_res_def split: if_splits)
  with assms(2,4) n v b show ?thesis
    by (auto simp: enter_line_def login_password_def bind_res_def outside_def no_nul_def split: if_splits)
qed

lemma byte_outside:
  assumes "outside pre u" "unknown con (pre @ [c])" "telnet_byte con c u s = Inr (oc, u', s', out)"
  shows "outside (pre @ [c]) u' \<and> s' = s"
proof -
  consider (type) "tu_skip u = 0" "c_isprint c" | (erase) "tu_skip u = 0" "\<not> c_isprint c" "code_of c = 127"
    | (enter) b where "tu_skip u = 0" "\<not> c_isprint c" "c = CR" "tu_buf u = Some b"
    | (other) "tu_buf u' = tu_buf u" "tu_auth u' = tu_auth u" "tu_username u' = tu_username u" "s' = s"
  proof (cases "tu_skip u > 0")
    case True
    with assms(3) other show thesis by (auto simp: telnet_byte_def split: if_splits)
  next
    case False
    have cr: "code_of c = 13 \<longleftrightarrow> c = CR"
      using of_char_eq_iff [of c CR, where ?'a = nat] by (simp add: CR_def)
    show thesis
    proof (cases "code_of c = 13")
      case True
      with False cr assms(3) enter show thesis
        by (auto simp: telnet_byte_def c_isprint_def split: option.splits)
    next
      case n13: False
      with False assms(3) type erase other show thesis
        by (auto simp: telnet_byte_def split: if_splits)
    qed
  qed
  then show ?thesis
  proof cases
    case type
    with assms(1,3) typed_outside show ?thesis by (simp add: telnet_byte_def)
  next
    case erase
    then have e: "erase_char u s = Inr (oc, u', s', out)" using assms(3) by (simp add: telnet_byte_def)
    have "outside pre u'"
    proof (cases "tu_buf u")
      case None
      with e assms(1) show ?thesis by (auto simp: erase_char_def outside_def split: if_splits)
    next
      case (Some b)
      show ?thesis
      proof (cases "tu_ptr u = 0")
        case True
        with e assms(1) show ?thesis by (simp add: erase_char_def)
      next
        case False
        with e Some show ?thesis
          by (intro outside_shorter [OF assms(1) Some subseq_take [of "tu_ptr u - 1"]])
            (auto simp: erase_char_def)
      qed
    qed
    with e outside_more show ?thesis by (auto simp: erase_char_def split: if_splits)
  next
    case enter
    then have "enter_line con b u s = Inr (oc, u', s', out)"
      using assms(3) by (simp add: telnet_byte_def CR_def c_isprint_def)
    with entered_outside [OF assms(1) enter(4)] assms(2) enter(3) show ?thesis by simp
  next
    case other
    then have "outside pre u'" using assms(1) by (simp add: outside_def cong: option.case_cong)
    with other(4) outside_more show ?thesis by blast
  qed
qed

lemma unknown_prefix: "unknown con (a @ b) \<Longrightarrow> unknown con a"
  using subseq_more by (auto simp: unknown_def)

lemma bytes_outside:
  "outside pre u \<Longrightarrow> unknown con (pre @ bs) \<Longrightarrow> telnet_bytes con bs u s = Inr (ok, u', s', out)
   \<Longrightarrow> outside (pre @ bs) u' \<and> s' = s"
proof (induction bs arbitrary: pre u s out)
  case (Cons c cs)
  obtain oc u1 s1 out1 where b: "telnet_byte con c u s = Inr (oc, u1, s1, out1)"
    using Cons.prems(3) by (auto simp: bind_res_Inr)
  have c: "unknown con (pre @ [c])" using Cons.prems(2) unknown_prefix [of con "pre @ [c]" cs] by simp
  have u1: "outside (pre @ [c]) u1 \<and> s1 = s" by (rule byte_outside [OF Cons.prems(1) c b])
  show ?case
  proof (cases oc)
    case Go
    with Cons.prems(3) b obtain out2 where "telnet_bytes con cs u1 s1 = Inr (ok, u', s', out2)"
      by (auto simp: bind_res_Inr)
    with Cons.IH [of "pre @ [c]" u1] Cons.prems(2) u1 show ?thesis by simp
  qed (use Cons.prems(3) b u1 outside_more [of "pre @ [c]" u1 cs] in auto)
qed simp

lemma blocks_outside:
  "outside pre u \<Longrightarrow> unknown con (pre @ concat bss) \<Longrightarrow> telnet_blocks con bss u s = Inr (ok, u', s', out)
   \<Longrightarrow> outside (pre @ concat bss) u' \<and> s' = s"
proof (induction bss arbitrary: pre u s out)
  case (Cons bs bss)
  obtain ok1 u1 s1 out1 where b: "telnet_bytes con bs u s = Inr (ok1, u1, s1, out1)"
    using Cons.prems(3) by (auto simp: bind_res_Inr)
  have u: "unknown con (pre @ bs)" using Cons.prems(2) unknown_prefix [of con "pre @ bs"] by simp
  have u1: "outside (pre @ bs) u1 \<and> s1 = s" by (rule bytes_outside [OF Cons.prems(1) u b])
  show ?case
  proof (cases ok1)
    case True
    with Cons.prems(3) b obtain out2 where "telnet_blocks con bss u1 s1 = Inr (ok, u', s', out2)"
      by (auto simp: bind_res_Inr)
    with Cons.IH [of "pre @ bs" u1] Cons.prems(2) u1 show ?thesis by simp
  next
    case False
    with Cons.prems(3) b u1 outside_more [of "pre @ bs" u1 "concat bss"] show ?thesis by simp
  qed
qed simp

section \<open>The table of commands\<close>

lemma command_text_added:
  assumes "no_nul command" "length command < 20"
  shows "command_text \<lparr>c_func = f, c_name = c_strncpy 20 junk command, c_tail = t\<rparr> = Inr command"
proof -
  obtain k where "20 - length command = Suc k" using assms(2) by (metis Suc_diff_Suc)
  then have "c_strncpy 20 junk command @ t = command @ NUL # (replicate k NUL @ drop 20 junk @ t)"
    using assms(2) by (simp add: c_strncpy_def)
  then show ?thesis using cstr_of_append_NUL [OF assms(1)] by (simp add: command_text_def)
qed

text \<open>One table entry per name: the first token of a line picks its handler.\<close>

lemma dispatch_loop_skip:
  assumes "\<forall>c \<in> set cs. \<exists>name. command_text c = Inr name \<and> name \<noteq> t"
  shows "dispatch_loop cs (Some t) line rv s = Inr (s, rv, [])"
  using assms by (induction cs) auto

lemma dispatch_loop_append:
  "dispatch_loop (xs @ ys) tok line rv s =
     bind_res (dispatch_loop xs tok line rv s) (\<lambda>(s1, rv1, out1).
     bind_res (dispatch_loop ys tok line rv1 s1) (\<lambda>(s2, rv2, out2). Inr (s2, rv2, out1 @ out2)))"
proof (induction xs arbitrary: rv s)
  case Nil
  show ?case by (simp add: bind_res_def split: sum.split)
next
  case (Cons x xs)
  show ?case
    unfolding append_Cons dispatch_loop.simps Cons.IH
    by (auto simp: bind_res_def split: sum.split option.split)
qed

section \<open>The user file\<close>

definition word_ok :: "string \<Rightarrow> bool" where
  "word_ok w \<longleftrightarrow> w \<noteq> [] \<and> (\<forall>c \<in> set w. c \<notin> {NUL, NL, CHR 0x0D, CHR '':'', CHR '' ''})"

definition user_line :: "string \<times> string \<Rightarrow> string" where
  "user_line up = fst up @ CHR '':'' # snd up @ [NL]"

definition user_ok :: "string \<times> string \<Rightarrow> bool" where
  "user_ok up \<longleftrightarrow> word_ok (fst up) \<and> word_ok (snd up) \<and> length (user_line up) < 80"

lemma cut_crlf_word: "word_ok w \<Longrightarrow> cut_crlf w = w \<and> cut_crlf (w @ [NL]) = w"
proof -
  assume w: "word_ok w"
  have nc: "\<not> is_crlf c" if "c \<in> set w" for c
  proof -
    have "c \<noteq> CHR 0x0D" "c \<noteq> CHR 0x0A" using w that by (auto simp: word_ok_def NL_def)
    moreover have "(of_char c :: nat) = of_char (CHR 0x0D) \<longleftrightarrow> c = CHR 0x0D"
      "(of_char c :: nat) = of_char (CHR 0x0A) \<longleftrightarrow> c = CHR 0x0A"
      by (rule of_char_eq_iff)+
    ultimately show ?thesis by (simp add: is_crlf_def)
  qed
  have nn: "no_nul w" "no_nul (w @ [NL])" using w by (auto simp: word_ok_def no_nul_def NL_def)
  have "is_crlf NL" by (simp add: is_crlf_def NL_def)
  moreover have "takeWhile (\<lambda>c. \<not> is_crlf c) w = w" using nc by (simp add: takeWhile_eq_all_conv)
  moreover have "takeWhile (\<lambda>c. \<not> is_crlf c) (w @ [NL]) = w"
    using nc \<open>is_crlf NL\<close> by (simp add: takeWhile_tail)
  ultimately show ?thesis
    using terminateCRLF_cstr [of "w @ [NUL]"] terminateCRLF_cstr [of "(w @ [NL]) @ [NUL]"]
      cstr_of_append_NUL [OF nn(1)] cstr_of_append_NUL [OF nn(2)]
    by (simp add: cut_crlf_def)
qed

lemma user_line_accepts:
  assumes "user_ok up"
  shows "line_accepts usr pwd (user_line up) \<longleftrightarrow> (usr, pwd) = up"
proof -
  obtain n p where up: "up = (n, p)" by force
  have w: "word_ok n" "word_ok p" using assms up by (simp_all add: user_ok_def)
  have nn: "no_nul (user_line up)"
    using w up by (auto simp: word_ok_def no_nul_def user_line_def NL_def)
  have c: "cstr_of (user_line up) = user_line up"
    using cstr_of_append [OF nn, of "[]"] by (simp add: cstr_of_def [of "[]"])
  have "n \<noteq> []" "hd n \<noteq> CHR '' ''" using w(1) by (auto simp: word_ok_def)
  then have "dropWhile (\<lambda>c. c = CHR '' '') (user_line up) = user_line up"
    using up by (cases n) (simp_all add: user_line_def)
  moreover have "CHR '':'' \<notin> set n" "CHR '':'' \<notin> set (p @ [NL])" "n \<noteq> []"
    using w by (auto simp: word_ok_def NL_def)
  then have "token_list CHR '':'' (user_line up) = [n, p @ [NL]]"
    using up by (simp add: token_list_def user_line_def split_on_append_delim split_on_single)
  ultimately have "tokenize 2 (cstr_of (user_line up)) CHR '':'' = [n, p @ [NL]]"
    by (simp add: tokenize_eq c)
  then show ?thesis using up cut_crlf_word [OF w(1)] cut_crlf_word [OF w(2)]
    by (simp add: line_accepts_def)
qed

lemma verify_lines_file:
  assumes "\<forall>up \<in> set us. user_ok up"
  shows "verify_lines usr pwd (concat (map user_line us)) = (if (usr, pwd) \<in> set us then 0 else -1)"
  using assms
proof (induction us)
  case (Cons up us)
  let ?rest = "concat (map user_line us)"
  have ok: "user_ok up" using Cons.prems by simp
  obtain n p where up: "up = (n, p)" by force
  have "NL \<notin> set (n @ CHR '':'' # p)"
    using ok up by (auto simp: user_ok_def word_ok_def NL_def)
  moreover have "length (n @ CHR '':'' # p) + 1 < 80" using ok up by (simp add: user_ok_def user_line_def)
  ultimately have f: "fgets 80 (user_line up @ ?rest) = (user_line up, ?rest)"
    using fgets_line [of "n @ CHR '':'' # p" 80 ?rest] up by (simp add: user_line_def)
  obtain c cs where cs: "user_line up @ ?rest = c # cs" by (cases n) (simp_all add: user_line_def up)
  have "verify_lines usr pwd (user_line up @ ?rest) =
      (if line_accepts usr pwd (user_line up) then 0 else verify_lines usr pwd ?rest)"
    unfolding cs verify_lines.simps using f by (simp add: cs)
  with Cons user_line_accepts [OF ok] show ?case by simp
qed simp

section \<open>Properties\<close>

text \<open>
  C7. The console implements the login machine. A client that types lines of printable text, the
  first of them not empty, each ended by a carriage return, gets from the byte by byte editor
  what the machine over whole lines says: a name, a password, then commands; the third wrong
  password in a row closes the connection, a name of 19 characters or more is read without an
  end, and a line of 128 characters or more overruns the buffer of the user, before any login.
\<close>

theorem console_refines_login:
  assumes "\<forall>line \<in> set lines. text_line line" and "lines = [] \<or> hd lines \<noteq> []"
  shows "same_outcome (con_lines con lines (Name 0, s))
    (telnet_bytes con (concat (map (\<lambda>line. line @ [CR]) lines)) (new_user fd ip) s)"
proof -
  have "at_login (Name 0) (new_user fd ip)" by (simp add: at_login_def new_user_def)
  then show ?thesis by (rule lines_follow [OF _ assms(1)]) (use assms(2) in blast)
qed

definition closed_console :: "nat console" where
  "closed_console = \<lparr>con_commands = [], con_users = Some (''ann:pw'' @ [NL])\<rparr>"

lemma closed_console_users:
  "verifyTelnetUser_text (con_users closed_console) ''ann'' ''pw'' = 0"
  "verifyTelnetUser_text (con_users closed_console) ''ann'' ''x'' = -1"
  by (simp_all add: closed_console_def NL_def) code_simp+

lemma console_refines_login_witness:
  "\<exists>u out. telnet_bytes closed_console
       (concat (map (\<lambda>line. line @ [CR]) [''ann'', ''x'', ''ann'', ''x'', ''ann'', ''x'', ''ann'']))
       (new_user 5 ''::1'') 7 = Inr (False, u, 7, out)"
proof -
  let ?lines = "[''ann'', ''x'', ''ann'', ''x'', ''ann'', ''x'', ''ann'']"
  have "con_lines closed_console ?lines (Name 0, 7) = Inr (Gone, 7)"
    by (simp add: closed_console_users MAX_TELNET_STRING_def)
  moreover have "same_outcome (con_lines closed_console ?lines (Name 0, 7))
      (telnet_bytes closed_console (concat (map (\<lambda>line. line @ [CR]) ?lines)) (new_user 5 ''::1'') 7)"
    by (rule console_refines_login) (simp_all add: text_line_def c_isprint_def)
  ultimately show ?thesis by (auto simp: same_outcome_def)
qed

text \<open>
  C19. Nobody gets past the login without the name and password of an account. Whatever bytes a
  connection sends, in whatever blocks, telnet negotiation and editing keys included: unless they contain,
  in this order but not necessarily next to each other, the characters of a name, a carriage return, the
  characters of the password the user file has for that name, and a carriage return, no command has run,
  what the commands act on is unchanged and the connection still asks for a name or a password.
\<close>

theorem login_needs_password:
  assumes "\<forall>n p. 0 \<le> verifyTelnetUser_text (con_users con) n p
      \<longrightarrow> \<not> subseq (n @ CR # p @ [CR]) (concat blocks)"
    and "telnet_blocks con blocks (new_user fd ip) s = Inr (ok, u, s', out)"
  shows "s' = s \<and> (tu_auth u = 0 \<or> tu_auth u = 1)"
proof -
  have "outside [] (new_user fd ip)" by (simp add: outside_def new_user_def)
  moreover have "unknown con ([] @ concat blocks)" using assms(1) by (auto simp: unknown_def not_le)
  ultimately have "outside ([] @ concat blocks) u \<and> s' = s" using assms(2) by (rule blocks_outside)
  then show ?thesis using outside_auth by blast
qed

text \<open>The right name with a wrong password, sent in two blocks, and then a line that would be a command.\<close>

lemma login_needs_password_witness:
  "\<exists>u out. telnet_blocks closed_console [''ann'' @ [CR] @ ''x'', [CR] @ ''help'' @ [CR]] (new_user 5 []) 7
      = Inr (True, u, 7, out) \<and> (tu_auth u = 0 \<or> tu_auth u = 1)"
proof -
  let ?blocks = "[''ann'' @ [CR] @ ''x'', [CR] @ ''help'' @ [CR]]"
  have "user_ok (''ann'', ''pw'')" by (simp add: user_ok_def word_ok_def user_line_def NL_def)
  then have "verifyTelnetUser_text (con_users closed_console) n p = (if (n, p) = (''ann'', ''pw'') then 0 else -1)"
    for n p
    using verify_lines_file [of "[(''ann'', ''pw'')]" n p]
    by (simp add: verifyTelnetUser_text_def closed_console_def user_line_def)
  then have h: "\<forall>n p. 0 \<le> verifyTelnetUser_text (con_users closed_console) n p
      \<longrightarrow> \<not> subseq (n @ CR # p @ [CR]) (concat ?blocks)"
    by (auto simp: CR_def)
  have "(case telnet_blocks closed_console ?blocks (new_user 5 []) 7 of Inr (ok, _) \<Rightarrow> ok | _ \<Rightarrow> False)"
    by code_simp
  then obtain u s out where r: "telnet_blocks closed_console ?blocks (new_user 5 []) 7 = Inr (True, u, s, out)"
    by (cases "telnet_blocks closed_console ?blocks (new_user 5 []) 7") auto
  from login_needs_password [OF h r] r show ?thesis by auto
qed

text \<open>
  C38. The check against a user file of lines \<^verbatim>\<open>name:password\<close> accepts exactly the pairs it holds,
  for names and passwords of ordinary characters and lines of less than 80 characters; without
  a file nobody is accepted.
\<close>

theorem user_file_exact:
  assumes "\<forall>up \<in> set us. user_ok up"
  shows "verifyTelnetUser_text (Some (concat (map user_line us))) usr pwd
      = (if (usr, pwd) \<in> set us then 0 else -1)
    \<and> verifyTelnetUser_text None usr pwd = -1"
  using verify_lines_file [OF assms] by (simp add: verifyTelnetUser_text_def)

lemma user_file_exact_witness:
  "verifyTelnetUser_text (Some (''ann:pw'' @ [NL] @ ''bob:x1'' @ [NL])) ''bob'' ''x1'' = 0
   \<and> verifyTelnetUser_text (Some (''ann:pw'' @ [NL] @ ''bob:x1'' @ [NL])) ''bob'' ''pw'' = -1"
proof -
  have "\<forall>up \<in> set [(''ann'', ''pw''), (''bob'', ''x1'')]. user_ok up"
    by (simp add: user_ok_def word_ok_def user_line_def NL_def)
  note u = user_file_exact [OF this]
  show ?thesis using u [of "''bob''" "''x1''"] u [of "''bob''" "''pw''"] by (simp add: user_line_def)
qed

end
