(* ===== verification/SocketServer.thy ===== *)
theory SocketServer
  imports Telnet
begin

text \<open>
  The select loop of \<^verbatim>\<open>src/DVB/socketserver.c\<close> with its callbacks, and the telnet server that
  runs in it (\<^verbatim>\<open>startTelnetServer\<close>): which descriptors are watched, and that the users the
  console keeps are those of the open connections.
\<close>

section \<open>The server and its callbacks\<close>

text \<open>The callbacks change what the server is about, of type \<open>'u\<close>; a null pointer is \<open>None\<close>.\<close>

record 'u socket_server_t =
  ss_connect :: "(int \<Rightarrow> string \<Rightarrow> 'u \<Rightarrow> ('u \<times> int) res) option"
  ss_disconnect :: "(int \<Rightarrow> 'u \<Rightarrow> 'u) option"
  ss_process :: "(int \<Rightarrow> char list \<Rightarrow> 'u \<Rightarrow> ('u \<times> int) res) option"
  ss_port :: int

record 'u socket_state =
  sk_listener :: int
  sk_master :: "int set"
  sk_fdmax :: int
  sk_data :: 'u

text \<open>What the calls answer for a ready descriptor: a new connection, or bytes.\<close>

datatype sock_input = Accepted "(int \<times> string) option" | Received int "char list"

text \<open>\<^verbatim>\<open>FD_SETSIZE\<close> of the C library.\<close>

definition FD_SETSIZE :: int where "FD_SETSIZE = 1024"

definition FD_SET_Handle :: "int \<Rightarrow> 'u socket_state \<Rightarrow> 'u socket_state res" where
  "FD_SET_Handle fd st =
     (if fd < 0 \<or> FD_SETSIZE \<le> fd then Inl Overrun
      else Inr (st\<lparr>sk_master := insert fd (sk_master st), sk_fdmax := max (sk_fdmax st) fd\<rparr>))"

definition FD_CLR_Handle :: "int \<Rightarrow> 'u socket_state \<Rightarrow> 'u socket_state" where
  "FD_CLR_Handle fd st = st\<lparr>sk_master := sk_master st - {fd}\<rparr>"

definition call_disconnect :: "'u socket_server_t \<Rightarrow> int \<Rightarrow> 'u socket_state \<Rightarrow> 'u socket_state" where
  "call_disconnect p fd st =
     (case ss_disconnect p of None \<Rightarrow> st | Some f \<Rightarrow> st\<lparr>sk_data := f fd (sk_data st)\<rparr>)"

text \<open>One ready descriptor; beside the state, the descriptors closed.\<close>

definition new_connection ::
  "'u socket_server_t \<Rightarrow> (int \<times> string) option \<Rightarrow> 'u socket_state \<Rightarrow> ('u socket_state \<times> int list) res"
where
  "new_connection p a st =
     (case a of
        None \<Rightarrow> Inr (st, [])
      | Some (newfd, addr) \<Rightarrow>
          bind_res (FD_SET_Handle newfd st) (\<lambda>st1.
            case ss_connect p of
              None \<Rightarrow> Inr (st1, [])
            | Some f \<Rightarrow>
                bind_res (sprint 20 addr) (\<lambda>ip.
                bind_res (f newfd ip (sk_data st1)) (\<lambda>(u, rc).
                  Inr (st1\<lparr>sk_data := u\<rparr>, if rc > 0 then [newfd] else [])))))"

definition client_data ::
  "'u socket_server_t \<Rightarrow> int \<Rightarrow> int \<Rightarrow> char list \<Rightarrow> 'u socket_state \<Rightarrow> ('u socket_state \<times> int list) res"
where
  "client_data p i nbytes buf st =
     (if nbytes \<le> 0 then
        Inr (FD_CLR_Handle i (if nbytes = 0 then call_disconnect p i st else st), [i])
      else
        case ss_process p of
          None \<Rightarrow> Inr (st, [])
        | Some f \<Rightarrow>
            bind_res (f i buf (sk_data st)) (\<lambda>(u, rc).
              let st1 = st\<lparr>sk_data := u\<rparr> in
              if rc = -255 then Inr (FD_CLR_Handle i (call_disconnect p i st1), [i])
              else Inr (st1, [])))"

definition socket_ready ::
  "'u socket_server_t \<Rightarrow> int \<Rightarrow> sock_input \<Rightarrow> 'u socket_state \<Rightarrow> ('u socket_state \<times> int list) res" where
  "socket_ready p i inp st =
     (case inp of
        Accepted a \<Rightarrow> if i = sk_listener st then new_connection p a st else Inr (st, [])
      | Received n buf \<Rightarrow> if i = sk_listener st then Inr (st, []) else client_data p i n buf st)"

text \<open>One pass over the descriptors \<^verbatim>\<open>select\<close> found ready.\<close>

fun socket_pass ::
  "'u socket_server_t \<Rightarrow> (int \<times> sock_input) list \<Rightarrow> 'u socket_state \<Rightarrow> ('u socket_state \<times> int list) res"
where
  "socket_pass p [] st = Inr (st, [])"
| "socket_pass p ((i, inp) # rest) st =
     bind_res (socket_ready p i inp st) (\<lambda>(st1, c1).
     bind_res (socket_pass p rest st1) (\<lambda>(st2, c2). Inr (st2, c1 @ c2)))"

text \<open>The start of the thread: \<open>None\<close> when the socket cannot be had.\<close>

definition socket_start :: "int option \<Rightarrow> bool \<Rightarrow> bool \<Rightarrow> 'u \<Rightarrow> 'u socket_state option res" where
  "socket_start sock bound listening u =
     (case sock of
        None \<Rightarrow> Inr None
      | Some l \<Rightarrow>
          if \<not> bound \<or> \<not> listening then Inr None
          else
            map_sum id Some
              (FD_SET_Handle l \<lparr>sk_listener = l, sk_master = {}, sk_fdmax = l, sk_data = u\<rparr>))"

section \<open>The telnet server\<close>

definition telnet_calls :: "'s console \<Rightarrow> (telnet_user list \<times> 's) socket_server_t" where
  "telnet_calls con =
     \<lparr>ss_connect = Some (\<lambda>fd ip (us, s).
        bind_res (telnet_onconnect fd ip us) (\<lambda>(us1, rc, _). Inr ((us1, s), rc))),
      ss_disconnect = Some (\<lambda>fd (us, s). (telnet_ondisconnect fd us, s)),
      ss_process = Some (\<lambda>fd buf (us, s).
        bind_res (telnet_process con fd buf us s) (\<lambda>(rc, us1, s1, _). Inr ((us1, s1), rc))),
      ss_port = 9000\<rparr>"

definition startTelnetServer ::
  "bool \<Rightarrow> nat \<Rightarrow> dictionary option \<Rightarrow> 's console \<Rightarrow> (telnet_user list \<times> 's) socket_server_t res"
where
  "startTelnetServer sc long_bits ini con =
     (case ini of
        None \<Rightarrow> Inr (telnet_calls con)
      | Some _ \<Rightarrow>
          bind_res (iniparser_getint sc long_bits ini (Some ''telnet:port'') (-1)) (\<lambda>port'.
            Inr ((telnet_calls con)\<lparr>ss_port := (if port' \<le> 0 then 9000 else port')\<rparr>)))"

lemma listener_kept [simp]:
  "sk_listener (FD_CLR_Handle i st) = sk_listener st"
  "sk_listener (call_disconnect p i st) = sk_listener st"
  by (simp_all add: FD_CLR_Handle_def call_disconnect_def split: option.split)

section \<open>What the callbacks have to keep\<close>

text \<open>
  \<open>serves F u\<close>: what the server is about knows the connections \<open>F\<close>. A connection may be closed
  without a word, as the loop does after an error of \<^verbatim>\<open>recv\<close>.
\<close>

locale connection_server =
  fixes p :: "'u socket_server_t" and serves :: "int set \<Rightarrow> 'u \<Rightarrow> bool"
  assumes opens: "ss_connect p = Some f \<Longrightarrow> serves F u \<Longrightarrow> f fd ip u = Inr (u', rc)
      \<Longrightarrow> serves (insert fd F) u'"
    and connects: "\<exists>f. ss_connect p = Some f"
    and forgets: "serves F u \<Longrightarrow> serves (F - {fd}) u"
    and closes: "ss_disconnect p = Some g \<Longrightarrow> serves F u \<Longrightarrow> serves (F - {fd}) (g fd u)"
    and works: "ss_process p = Some h \<Longrightarrow> serves F u \<Longrightarrow> h fd buf u = Inr (u', rc) \<Longrightarrow> serves F u'"
begin

abbreviation ok :: "'u socket_state \<Rightarrow> bool" where
  "ok st \<equiv> serves (sk_master st - {sk_listener st}) (sk_data st)"

lemma connected_serves:
  assumes "serves (insert fd (M - {l})) u"
  shows "serves (insert fd M - {l}) u"
proof (cases "fd = l")
  case True
  then have "insert fd M - {l} = insert fd (M - {l}) - {fd}" by auto
  with forgets [OF assms, of fd] show ?thesis by simp
next
  case False
  then have "insert fd M - {l} = insert fd (M - {l})" by auto
  with assms show ?thesis by simp
qed

lemma accepted_ok:
  assumes "ok st" "socket_ready p i (Accepted a) st = Inr (st', c)"
  shows "ok st' \<and> sk_listener st' = sk_listener st"
proof (cases "i = sk_listener st \<and> a \<noteq> None")
  case False
  with assms show ?thesis
    by (auto simp: socket_ready_def new_connection_def split: if_splits option.splits)
next
  case True
  then obtain fd addr where a: "a = Some (fd, addr)" by auto
  obtain f where f: "ss_connect p = Some f" using connects ..
  obtain u rc ip where r: "f fd ip (sk_data st) = Inr (u, rc)"
    "st' = st\<lparr>sk_master := insert fd (sk_master st), sk_fdmax := max (sk_fdmax st) fd, sk_data := u\<rparr>"
    using assms(2) True a f
    by (auto simp: socket_ready_def new_connection_def FD_SET_Handle_def bind_res_Inr split: if_splits)
  from connected_serves [OF opens [OF f assms(1) r(1)]] r(2) show ?thesis by simp
qed

lemma cleared_serves: "serves (M - {l} - {i}) u \<Longrightarrow> serves (M - {i} - {l}) u"
  by (simp add: Diff_insert2 [symmetric] insert_commute)

lemma disconnected_ok:
  assumes "ok st"
  shows "ok (FD_CLR_Handle i (call_disconnect p i st))
    \<and> sk_listener (FD_CLR_Handle i (call_disconnect p i st)) = sk_listener st"
  using cleared_serves forgets [OF assms, of i] closes [OF _ assms, of _ i]
  by (auto simp: FD_CLR_Handle_def call_disconnect_def split: option.splits)

lemma client_data_ok:
  assumes "ok st" "client_data p i n buf st = Inr (st', c)"
  shows "ok st' \<and> sk_listener st' = sk_listener st"
proof (cases "n \<le> 0")
  case True
  with assms disconnected_ok [OF assms(1)] cleared_serves forgets [OF assms(1), of i] show ?thesis
    by (auto simp: client_data_def FD_CLR_Handle_def split: if_splits)
next
  case False
  show ?thesis
  proof (cases "ss_process p")
    case None
    with assms False show ?thesis by (simp add: client_data_def)
  next
    case (Some h)
    then obtain u rc where r: "h i buf (sk_data st) = Inr (u, rc)"
      "st' = (if rc = -255 then FD_CLR_Handle i (call_disconnect p i (st\<lparr>sk_data := u\<rparr>))
              else st\<lparr>sk_data := u\<rparr>)"
      using assms(2) False by (auto simp: client_data_def bind_res_Inr Let_def split: if_splits)
    have u: "ok (st\<lparr>sk_data := u\<rparr>)" using works [OF Some assms(1) r(1)] by simp
    with r(2) disconnected_ok [OF u, of i] show ?thesis by simp
  qed
qed

lemma ready_ok:
  assumes "ok st" "socket_ready p i inp st = Inr (st', c)"
  shows "ok st' \<and> sk_listener st' = sk_listener st"
proof (cases inp)
  case (Accepted a)
  with assms accepted_ok show ?thesis by blast
next
  case (Received n buf)
  show ?thesis
  proof (cases "i = sk_listener st")
    case True
    with assms Received show ?thesis by (simp add: socket_ready_def)
  next
    case False
    then have "client_data p i n buf st = Inr (st', c)"
      using assms(2) Received by (simp add: socket_ready_def)
    with client_data_ok assms(1) show ?thesis by blast
  qed
qed

lemma pass_ok: "ok st \<Longrightarrow> socket_pass p rs st = Inr (st', c) \<Longrightarrow> ok st'"
proof (induction rs arbitrary: st c)
  case (Cons r rs)
  obtain i inp where r: "r = (i, inp)" by force
  obtain st1 c1 c2 where s: "socket_ready p i inp st = Inr (st1, c1)"
    "socket_pass p rs st1 = Inr (st', c2)"
    using Cons.prems(2) r by (auto simp: bind_res_Inr)
  show ?case using Cons.IH [OF _ s(2)] ready_ok [OF Cons.prems(1) s(1)] by blast
qed simp

end

section \<open>The users are those of the connections\<close>

text \<open>Each descriptor has at most one user, and each of \<open>F\<close> has one.\<close>

definition known :: "('s \<Rightarrow> bool) \<Rightarrow> int set \<Rightarrow> telnet_user list \<times> 's \<Rightarrow> bool" where
  "known I F us \<longleftrightarrow> distinct (map tu_fd (fst us)) \<and> F \<subseteq> tu_fd ` set (fst us) \<and> I (snd us)"

lemma type_char_fd: "type_char c u s = Inr (oc, u', s', out) \<Longrightarrow> tu_fd u' = tu_fd u"
  by (auto simp: type_char_def split: if_splits)

lemma byte_fd: "telnet_byte con c u s = Inr (oc, u', s', out) \<Longrightarrow> tu_fd u' = tu_fd u"
proof -
  have "enter_line con b u s = Inr (oc, u', s', out) \<Longrightarrow> tu_fd u' = tu_fd u" for b
    by (auto simp: enter_line_def bind_res_Inr login_name_def login_password_def
        split: if_splits option.splits)
  then show "telnet_byte con c u s = Inr (oc, u', s', out) \<Longrightarrow> tu_fd u' = tu_fd u"
    by (auto simp: telnet_byte_def erase_char_def type_char_fd split: if_splits option.splits)
qed

lemma bytes_fd: "telnet_bytes con bs u s = Inr (ok, u', s', out) \<Longrightarrow> tu_fd u' = tu_fd u"
proof (induction bs arbitrary: u s out)
  case (Cons c cs)
  obtain oc u1 s1 out1 where b: "telnet_byte con c u s = Inr (oc, u1, s1, out1)"
    using Cons.prems by (auto simp: bind_res_Inr)
  then show ?case using Cons byte_fd [OF b] by (cases oc) (auto simp: bind_res_Inr)
qed simp

lemma process_fds:
  "telnet_process con fd bs us s = Inr (rc, us', s', out) \<Longrightarrow> map tu_fd us' = map tu_fd us"
proof (induction us arbitrary: us' out)
  case (Cons u us)
  then show ?case using bytes_fd by (fastforce simp: bind_res_Inr split: if_splits)
qed simp

lemma onconnect_known:
  assumes "known I F (us, s)" "telnet_onconnect fd ip us = Inr (us', rc, out)"
  shows "known I (insert fd F) (us', s)"
proof -
  have us': "us' = filter (\<lambda>u. tu_fd u \<noteq> fd) us @ [new_user fd ip]"
    using assms(2) by (auto simp: telnet_onconnect_def sprint_def bind_res_Inr split: if_splits)
  have "distinct (map tu_fd (filter (\<lambda>u. tu_fd u \<noteq> fd) us))"
    using assms(1) by (simp add: known_def distinct_map_filter)
  with assms(1) show ?thesis unfolding us' by (auto simp: known_def new_user_def)
qed

lemma ondisconnect_known:
  "known I F (us, s) \<Longrightarrow> known I (F - {fd}) (telnet_ondisconnect fd us, s)"
  by (auto simp: known_def telnet_ondisconnect_def distinct_map_filter)

lemma telnet_serves:
  assumes "command_handlers con I"
  shows "connection_server (telnet_calls con) (known I)"
proof
  show "known I (insert fd F) u'"
    if "ss_connect (telnet_calls con) = Some f" "known I F u" "f fd ip u = Inr (u', rc)"
    for f F u fd ip u' rc
    using that onconnect_known by (cases u) (auto simp: telnet_calls_def bind_res_Inr)
  show "known I (F - {fd}) (g fd u)"
    if "ss_disconnect (telnet_calls con) = Some g" "known I F u" for g F u fd
    using that ondisconnect_known by (cases u) (auto simp: telnet_calls_def)
  show "known I F u'"
    if that': "ss_process (telnet_calls con) = Some h" "known I F u" "h fd buf u = Inr (u', rc)"
    for h F u fd buf u' rc
  proof -
    obtain us s where u: "u = (us, s)" by force
    obtain us' s' out where r: "telnet_process con fd buf us s = Inr (rc, us', s', out)"
      "u' = (us', s')"
      using that'(1,3) u by (auto simp: telnet_calls_def bind_res_Inr)
    have "I s'"
      using command_handlers.process_inv [OF assms _ r(1)] that'(2) u by (simp add: known_def)
    moreover have "tu_fd ` set us' = tu_fd ` set us"
      using process_fds [OF r(1)] unfolding set_map [symmetric] by simp
    ultimately show ?thesis using that'(2) u r(2) process_fds [OF r(1)] by (simp add: known_def)
  qed
qed (auto simp: telnet_calls_def known_def)

text \<open>The telnet server as a machine whose events are the passes of its loop.\<close>

definition telnet_run ::
  "'s console \<Rightarrow> ((int \<times> sock_input) list, (telnet_user list \<times> 's) socket_state) machine" where
  "telnet_run con rs st = bind_res (socket_pass (telnet_calls con) rs st) (\<lambda>(st1, _). Inr (Some st1))"

definition telnet_start :: "int \<Rightarrow> 's \<Rightarrow> (telnet_user list \<times> 's) socket_state" where
  "telnet_start l s = \<lparr>sk_listener = l, sk_master = {l}, sk_fdmax = l, sk_data = ([], s)\<rparr>"

lemma telnet_run_known:
  assumes "command_handlers con I" "I s"
    and "runs (telnet_run con) (\<lambda>_ _. True) (telnet_start l s) rss st"
  shows "known I (sk_master st - {sk_listener st}) (sk_data st)"
  using assms(3)
proof (induction rule: runs.induct)
  case nothing
  show ?case using assms(2) by (simp add: telnet_start_def known_def)
next
  case (event rss st rs st')
  obtain c where "socket_pass (telnet_calls con) rs st = Inr (st', c)"
    using event.hyps(3) by (auto simp: telnet_run_def bind_res_Inr)
  then show ?case
    using connection_server.pass_ok [OF telnet_serves [OF assms(1)]] event.IH by blast
qed

section \<open>Properties\<close>

text \<open>
  C39. At any time of the telnet server, whatever connects, sends and hangs up, no descriptor has
  two users and every open connection has its user; no input breaks what no command breaks; and
  a connection that is accepted starts outside, even when its descriptor was in use before by
  somebody who had logged in and whose connection ended in an error the console was not told of.
\<close>

theorem telnet_server_users:
  assumes "command_handlers con I" and "I s"
    and "runs (telnet_run con) (\<lambda>_ _. True) (telnet_start l s) rss st"
  shows "distinct (map tu_fd (fst (sk_data st)))
    \<and> sk_master st - {sk_listener st} \<subseteq> tu_fd ` set (fst (sk_data st))
    \<and> I (snd (sk_data st))
    \<and> (\<forall>fd addr st'. socket_ready (telnet_calls con) (sk_listener st) (Accepted (Some (fd, addr))) st
          \<noteq> Inr st' \<or> (\<forall>u \<in> set (fst (sk_data (fst st'))). tu_fd u = fd \<longrightarrow> u = new_user fd addr))"
proof -
  have "u = new_user fd addr"
    if "socket_ready (telnet_calls con) (sk_listener st) (Accepted (Some (fd, addr))) st = Inr st'"
      "u \<in> set (fst (sk_data (fst st')))" "tu_fd u = fd" for fd addr st' u
    using that
    by (cases "sk_data st")
      (auto simp: socket_ready_def new_connection_def telnet_calls_def telnet_onconnect_def
        FD_SET_Handle_def sprint_def bind_res_Inr split: if_splits)
  with telnet_run_known [OF assms] show ?thesis by (simp add: known_def)
qed

lemma closed_handlers: "command_handlers closed_console (\<lambda>n. n = 7)"
  by unfold_locales (simp add: closed_console_def)

lemma telnet_server_users_witness:
  "\<exists>st. runs (telnet_run closed_console) (\<lambda>_ _. True) (telnet_start 3 7)
        [[(3, Accepted (Some (5, ''10.0.0.9'')))], [(5, Received (-1) [])]] st
     \<and> sk_master st = {3} \<and> map tu_fd (fst (sk_data st)) = [5] \<and> snd (sk_data st) = 7
     \<and> distinct (map tu_fd (fst (sk_data st)))"
proof -
  let ?rs1 = "[(3, Accepted (Some (5, ''10.0.0.9'')))]" and ?rs2 = "[(5, Received (-1) [])]"
  obtain st1 where 1: "telnet_run closed_console ?rs1 (telnet_start 3 7) = Inr (Some st1)"
    "st1 = \<lparr>sk_listener = 3, sk_master = {3, 5}, sk_fdmax = 5,
            sk_data = ([new_user 5 ''10.0.0.9''], 7)\<rparr>"
    by (auto simp: telnet_run_def telnet_start_def socket_ready_def new_connection_def
        telnet_calls_def telnet_onconnect_def FD_SET_Handle_def FD_SETSIZE_def sprint_def)
  let ?st = "\<lparr>sk_listener = 3, sk_master = {3}, sk_fdmax = 5,
      sk_data = ([new_user 5 ''10.0.0.9''], 7)\<rparr>"
  have "telnet_run closed_console ?rs2 st1 = Inr (Some ?st)"
    by (auto simp: 1(2) telnet_run_def socket_ready_def client_data_def FD_CLR_Handle_def)
  moreover have "runs (telnet_run closed_console) (\<lambda>_ _. True) (telnet_start 3 7) [?rs1] st1"
    by (rule runs_one) (simp_all only: 1(1))
  ultimately have "runs (telnet_run closed_console) (\<lambda>_ _. True) (telnet_start 3 7) ([?rs1] @ [?rs2]) ?st"
    by (intro runs.event) simp_all
  then have r: "runs (telnet_run closed_console) (\<lambda>_ _. True) (telnet_start 3 7) [?rs1, ?rs2] ?st"
    by simp
  from telnet_server_users [OF closed_handlers _ r] r show ?thesis
    by (intro exI [of _ ?st]) (simp add: new_user_def)
qed

end
