(* ===== verification/Channels.thy ===== *)
theory Channels
  imports Prelude
begin

text \<open>
  The tuners of \<^verbatim>\<open>src/DVB/dvbhardware.h\<close> with their frequencies and channels, and the channel
  operations of \<^verbatim>\<open>src/DVB/channels.c\<close>.

  A linked list of the program is the list of its elements; the theory of the linked list
  shows that append and traversal act on that list. The frequencies of a tuner are only ever
  appended, so \<^verbatim>\<open>curr_frequency_ptr\<close> is the position of the frequency, \<open>None\<close> for \<^verbatim>\<open>NULL\<close>. The
  elements of a tuner's list are DVB-T or DVB-S structures with a common beginning; reading
  one as the other beyond that beginning is the fault \<open>BadPointer\<close>. The allocation of an
  element succeeds.
\<close>

section \<open>Data\<close>

record channels_dvb_t =
  ch_onid :: u16
  service_id :: u16
  pmt_pid :: u16
  channelName :: "char list"
  providerName :: "char list"
  running_status :: int
  ca_mode :: int
  service_type :: int

record dvb_frequency_base_t =
  freq_id :: int
  channels_ll :: "channels_dvb_t list"
  frequency :: int

record dvb_frequency_dvbt_t = dvb_frequency_base_t +
  t_bandwidth :: "char list"
  t_fec_hi :: "char list"
  t_fec_lo :: "char list"
  t_modulation :: "char list"
  transmission_mode :: "char list"
  t_guard :: "char list"
  heirachy :: "char list"

text \<open>\<open>None\<close> is a field that nothing has written since the structure was allocated.\<close>

record dvb_frequency_dvbs_t = dvb_frequency_base_t +
  s_polarity :: char
  s_fec :: "char list option"
  s_modulation :: "char list"
  symbolrate :: int

datatype dvb_frequency = FreqT dvb_frequency_dvbt_t | FreqS dvb_frequency_dvbs_t

fun base_of :: "dvb_frequency \<Rightarrow> dvb_frequency_base_t" where
  "base_of (FreqT f) = dvb_frequency_base_t.truncate f"
| "base_of (FreqS f) = dvb_frequency_base_t.truncate f"

fun map_channels :: "(channels_dvb_t list \<Rightarrow> channels_dvb_t list) \<Rightarrow> dvb_frequency \<Rightarrow> dvb_frequency"
where
  "map_channels g (FreqT f) = FreqT (f\<lparr>channels_ll := g (channels_ll f)\<rparr>)"
| "map_channels g (FreqS f) = FreqS (f\<lparr>channels_ll := g (channels_ll f)\<rparr>)"

datatype dvb_types = dvb_cable | dvb_t | dvb_t2 | dvb_s | dvb_s2

datatype dvb_state = st_none | st_idle | st_scanning | st_busy | st_failed

fun state_number :: "dvb_state \<Rightarrow> nat" where
  "state_number st_none = 0"
| "state_number st_idle = 1"
| "state_number st_scanning = 2"
| "state_number st_busy = 3"
| "state_number st_failed = 4"

record pid_list_t =
  pl_pid :: int
  demuxHandle :: int

text \<open>The frontend parameters the program sets, by the names of the kernel's enumerations.\<close>

datatype fe_bandwidth =
    BANDWIDTH_8_MHZ | BANDWIDTH_7_MHZ | BANDWIDTH_6_MHZ | BANDWIDTH_5_MHZ | BANDWIDTH_AUTO

datatype fe_code_rate =
    FEC_NONE | FEC_1_2 | FEC_2_3 | FEC_3_4 | FEC_4_5 | FEC_5_6 | FEC_6_7 | FEC_7_8 | FEC_8_9
  | FEC_AUTO | FEC_3_5 | FEC_9_10

datatype fe_modulation = QPSK | QAM_16 | QAM_32 | QAM_64 | QAM_256 | QAM_AUTO

datatype fe_params_u =
    Ofdm fe_bandwidth fe_code_rate fe_code_rate fe_modulation
  | Qpsk int fe_code_rate
  | Unset

record dvb_device_t =
  logicalNumber :: u16
  uid :: u16
  sequence_no :: u32
  last_sequence :: u32
  frontendDevice :: "char list"
  demuxDevice :: "char list"
  dvrDevice :: "char list"
  initialTuning :: "char list"
  serial :: u64
  frequency_ll :: "dvb_frequency list"
  curr_frequency :: "nat option"
  dvbType :: "dvb_types option"      \<comment> \<open>\<open>None\<close> is 255, the type of no device\<close>
  frontendHandle :: int
  dvrHandle :: int
  pids :: "pid_list_t list"
  lastStat :: int
  lastber :: int
  currentState :: dvb_state
  refcnt :: int
  fe_frequency :: u32
  fe_params :: fe_params_u

definition MAX_DVB_DEVICES :: nat where
  "MAX_DVB_DEVICES = 8"

definition MAX_FILTER_PID :: nat where
  "MAX_FILTER_PID = 32"

section \<open>Channel tables\<close>

text \<open>\<open>(unsigned short)x\<close> compared with an \<^verbatim>\<open>int\<close>: the 16 bits are widened.\<close>

definition is_id :: "u16 \<Rightarrow> int \<Rightarrow> bool" where
  "is_id w i \<longleftrightarrow> uint w = i"

text \<open>The loops that stop at the first match and change it.\<close>

fun update_first :: "('a \<Rightarrow> bool) \<Rightarrow> ('a \<Rightarrow> 'a) \<Rightarrow> 'a list \<Rightarrow> 'a list" where
  "update_first P f [] = []"
| "update_first P f (x # xs) = (if P x then f x # xs else x # update_first P f xs)"

text \<open>The channel list of the frequency the tuner is on; a null pointer is followed.\<close>

definition curr_channels :: "dvb_device_t \<Rightarrow> (nat \<times> channels_dvb_t list) res" where
  "curr_channels tuner =
     (case curr_frequency tuner of
        None \<Rightarrow> Inl NullPointer
      | Some i \<Rightarrow>
          if i < length (frequency_ll tuner)
          then Inr (i, channels_ll (base_of (frequency_ll tuner ! i)))
          else Inl BadPointer)"

definition set_channels :: "dvb_device_t \<Rightarrow> nat \<Rightarrow> channels_dvb_t list \<Rightarrow> dvb_device_t" where
  "set_channels tuner i cs =
     tuner\<lparr>frequency_ll := (frequency_ll tuner)[i := map_channels (\<lambda>_. cs) (frequency_ll tuner ! i)]\<rparr>"

definition new_channel :: "int \<Rightarrow> int \<Rightarrow> channels_dvb_t" where
  "new_channel channel_id pmt =
     \<lparr>ch_onid = 0, service_id = word_of_int channel_id, pmt_pid = word_of_int pmt,
      channelName = replicate 128 NUL, providerName = replicate 128 NUL,
      running_status = 0, ca_mode = 0, service_type = 0\<rparr>"

definition channel_addPAT :: "dvb_device_t \<Rightarrow> int \<Rightarrow> int \<Rightarrow> dvb_device_t res" where
  "channel_addPAT tuner channel_id pmt =
     bind_res (curr_channels tuner) (\<lambda>(i, ll).
       if last_sequence tuner \<noteq> sequence_no tuner then Inr tuner
       else if channel_id = 0 then Inr tuner
       else if \<exists>c \<in> set ll. is_id (service_id c) channel_id then Inr tuner
       else Inr (set_channels tuner i (ll @ [new_channel channel_id pmt])))"

definition channel_addSDT_Info1 :: "dvb_device_t \<Rightarrow> int \<Rightarrow> int \<Rightarrow> int \<Rightarrow> dvb_device_t res" where
  "channel_addSDT_Info1 tuner channel_id running ca =
     bind_res (curr_channels tuner) (\<lambda>(i, ll).
       if last_sequence tuner \<noteq> sequence_no tuner then Inr tuner
       else Inr (set_channels tuner i
              (update_first (\<lambda>c. is_id (service_id c) channel_id)
                 (\<lambda>c. c\<lparr>ca_mode := ca, running_status := running\<rparr>) ll)))"

text \<open>
  Returns the row handed to \<^verbatim>\<open>database_addchannel\<close> beside the tuner. The names are copied by
  \<^verbatim>\<open>strncpy\<close> of 127 bytes into arrays of 128.
\<close>

type_synonym channel_row = "u64 \<times> int \<times> int \<times> string"

definition channel_addSDT_Info2 ::
  "dvb_device_t \<Rightarrow> int \<Rightarrow> string \<Rightarrow> string option \<Rightarrow> int \<Rightarrow> int \<Rightarrow> int \<Rightarrow> int
   \<Rightarrow> (dvb_device_t \<times> channel_row option) res" where
  "channel_addSDT_Info2 tuner channel_id channel_name provider_name stype running onid ca =
     bind_res (curr_channels tuner) (\<lambda>(i, ll).
       if last_sequence tuner \<noteq> sequence_no tuner then Inr (tuner, None)
       else Inr (set_channels tuner i
              (update_first (\<lambda>c. is_id (service_id c) channel_id)
                 (\<lambda>c. c\<lparr>channelName := c_strncpy 127 (channelName c) channel_name,
                        providerName := (case provider_name of
                            None \<Rightarrow> providerName c
                          | Some p \<Rightarrow> c_strncpy 127 (providerName c) p),
                        running_status := running, service_type := stype,
                        ch_onid := word_of_int onid, ca_mode := ca\<rparr>) ll),
            Some (serial tuner, onid, channel_id, channel_name)))"

section \<open>Looking channels up\<close>

text \<open>A channel is named by the position of its frequency and its position there.\<close>

fun find_index :: "('a \<Rightarrow> bool) \<Rightarrow> 'a list \<Rightarrow> nat option" where
  "find_index P [] = None"
| "find_index P (x # xs) = (if P x then Some 0 else map_option Suc (find_index P xs))"

fun find_channel :: "(channels_dvb_t \<Rightarrow> bool) \<Rightarrow> dvb_frequency list \<Rightarrow> (nat \<times> nat) option" where
  "find_channel P [] = None"
| "find_channel P (f # fs) =
     (case find_index P (channels_ll (base_of f)) of
        Some j \<Rightarrow> Some (0, j)
      | None \<Rightarrow> map_option (\<lambda>(i, j). (Suc i, j)) (find_channel P fs))"

text \<open>The comparison of 16 bit values, and the one of an \<^verbatim>\<open>int\<close> with 16 bits.\<close>

definition matches16 :: "int \<Rightarrow> int \<Rightarrow> channels_dvb_t \<Rightarrow> bool" where
  "matches16 onid channel_id c \<longleftrightarrow>
     ch_onid c = word_of_int onid \<and> service_id c = word_of_int channel_id"

definition matches_int :: "int \<Rightarrow> int \<Rightarrow> channels_dvb_t \<Rightarrow> bool" where
  "matches_int onid channel_id c \<longleftrightarrow> is_id (ch_onid c) onid \<and> is_id (service_id c) channel_id"

definition getChannelByNumber_tuners :: "dvb_device_t \<Rightarrow> int \<Rightarrow> int \<Rightarrow> (nat \<times> nat) option" where
  "getChannelByNumber_tuners tuner onid channel_id =
     find_channel (matches16 onid channel_id) (frequency_ll tuner)"

definition channel_getFrequencyForTuner :: "dvb_device_t \<Rightarrow> int \<Rightarrow> int \<Rightarrow> nat option" where
  "channel_getFrequencyForTuner tuner onid channel_id =
     map_option fst (find_channel (matches16 onid channel_id) (frequency_ll tuner))"

text \<open>The loop counts every match, from -1.\<close>

fun count_channels :: "(channels_dvb_t \<Rightarrow> bool) \<Rightarrow> dvb_frequency list \<Rightarrow> int \<Rightarrow> int" where
  "count_channels P [] hit = hit"
| "count_channels P (f # fs) hit =
     count_channels P fs
       (fold (\<lambda>c h. if P c then h + 1 else h) (channels_ll (base_of f)) hit)"

definition channel_isProgramValid :: "dvb_device_t \<Rightarrow> int \<Rightarrow> int \<Rightarrow> int" where
  "channel_isProgramValid tuner onid channel_id =
     count_channels (matches_int onid channel_id) (frequency_ll tuner) (-1)"

section \<open>Well-formed channel tables\<close>

definition name_ok :: "char list \<Rightarrow> bool" where
  "name_ok a \<longleftrightarrow> length a = 128 \<and> last a = NUL"

definition channels_ok :: "channels_dvb_t list \<Rightarrow> bool" where
  "channels_ok cs \<longleftrightarrow> distinct (map service_id cs) \<and> 0 \<notin> service_id ` set cs
     \<and> (\<forall>c \<in> set cs. name_ok (channelName c) \<and> name_ok (providerName c))"

definition tables_ok :: "dvb_device_t \<Rightarrow> bool" where
  "tables_ok tuner \<longleftrightarrow>
     (\<forall>f \<in> set (frequency_ll tuner). channels_ok (channels_ll (base_of f)))
     \<and> (\<forall>i. curr_frequency tuner = Some i \<longrightarrow> i < length (frequency_ll tuner))"

lemma base_map_channels [simp]:
  "channels_ll (base_of (map_channels g f)) = g (channels_ll (base_of f))"
  by (cases f) (simp_all add: dvb_frequency_base_t.defs)

lemma set_channels_ok:
  assumes "tables_ok tuner" "channels_ok cs"
  shows "tables_ok (set_channels tuner i cs)"
  using assms set_update_subset_insert [of "frequency_ll tuner" i]
  by (fastforce simp: tables_ok_def set_channels_def)

lemma curr_channels_ok:
  assumes "tables_ok tuner" "curr_channels tuner = Inr (i, ll)"
  shows "channels_ok ll" "i < length (frequency_ll tuner)"
    "ll = channels_ll (base_of (frequency_ll tuner ! i))" "curr_frequency tuner = Some i"
  using assms by (auto simp: tables_ok_def curr_channels_def split: option.splits if_splits)

lemma strncpy_name_ok:
  assumes "name_ok a"
  shows "name_ok (c_strncpy 127 a s)"
proof -
  have "drop 127 a \<noteq> []" "last (drop 127 a) = NUL" using assms by (auto simp: name_ok_def)
  then have "last (c_strncpy 127 a s) = NUL" by (simp add: c_strncpy_def)
  then show ?thesis using assms by (simp add: name_ok_def length_strncpy)
qed

lemma map_update_first:
  "(\<And>x. g (f x) = g x) \<Longrightarrow> map g (update_first P f xs) = map g xs"
  by (induction xs) auto

lemma set_update_first: "y \<in> set (update_first P f xs) \<Longrightarrow> y \<in> set xs \<or> (\<exists>x \<in> set xs. P x \<and> y = f x)"
  by (induction xs) (auto split: if_splits)

lemma update_first_at:
  "k < length xs \<Longrightarrow> P (xs ! k) \<Longrightarrow> (\<And>j. j < k \<Longrightarrow> \<not> P (xs ! j))
   \<Longrightarrow> update_first P f xs = xs[k := f (xs ! k)]"
proof (induction xs arbitrary: k)
  case (Cons x xs)
  show ?case
  proof (cases k)
    case (Suc k')
    then have "\<not> P x" using Cons.prems(3) [of 0] by simp
    moreover have "\<not> P (xs ! j)" if "j < k'" for j
      using Cons.prems(3) [of "Suc j"] Suc that by simp
    ultimately show ?thesis using Cons.IH [of k'] Cons.prems(1,2) Suc by simp
  qed (use Cons.prems in simp)
qed simp

lemma channels_ok_update:
  assumes "channels_ok cs" and "\<And>c. service_id (f c) = service_id c"
    and "\<And>c. name_ok (channelName c) \<Longrightarrow> name_ok (channelName (f c))"
    and "\<And>c. name_ok (providerName c) \<Longrightarrow> name_ok (providerName (f c))"
  shows "channels_ok (update_first P f cs)"
proof -
  have m: "map service_id (update_first P f cs) = map service_id cs"
    by (rule map_update_first) (rule assms(2))
  have "service_id ` set (update_first P f cs) = service_id ` set cs"
    using m by (metis set_map)
  with m assms show ?thesis
    unfolding channels_ok_def by (auto dest: set_update_first)
qed

lemma find_index_Some:
  "find_index P xs = Some j \<longleftrightarrow> j < length xs \<and> P (xs ! j) \<and> (\<forall>k < j. \<not> P (xs ! k))"
proof (induction xs arbitrary: j)
  case (Cons x xs)
  then show ?case by (cases j) (auto simp: less_Suc_eq_0_disj nth_Cons')
qed simp

lemma find_index_None: "find_index P xs = None \<longleftrightarrow> (\<forall>x \<in> set xs. \<not> P x)"
  by (induction xs) auto

lemma find_index_SomeD: "find_index P xs = Some j \<Longrightarrow> \<exists>x \<in> set xs. P x"
  by (auto simp: find_index_Some intro: nth_mem)

lemma find_channel_None:
  "find_channel P fs = None \<longleftrightarrow> (\<forall>f \<in> set fs. \<forall>c \<in> set (channels_ll (base_of f)). \<not> P c)"
  by (induction fs) (auto simp: find_index_None split: option.split dest: find_index_SomeD)

lemma find_channel_Some:
  "find_channel P fs = Some (i, j) \<Longrightarrow>
     i < length fs \<and> j < length (channels_ll (base_of (fs ! i)))
     \<and> P (channels_ll (base_of (fs ! i)) ! j)
     \<and> (\<forall>i' < i. \<forall>c \<in> set (channels_ll (base_of (fs ! i'))). \<not> P c)"
proof (induction fs arbitrary: i j)
  case (Cons f fs)
  show ?case
  proof (cases "find_index P (channels_ll (base_of f))")
    case None
    with Cons.prems obtain i' where i': "i = Suc i'" "find_channel P fs = Some (i', j)"
      by (auto split: prod.splits)
    with Cons.IH [OF i'(2)] None show ?thesis
      by (auto simp: find_index_None less_Suc_eq_0_disj)
  next
    case (Some j')
    with Cons.prems show ?thesis by (auto simp: find_index_Some)
  qed
qed simp

lemma count_fold:
  "fold (\<lambda>c h. if P c then h + 1 else h) cs (h :: int) = h + int (length (filter P cs))"
  by (induction cs arbitrary: h) auto

lemma count_channels_eq:
  "count_channels P fs h = h + (\<Sum>f \<leftarrow> fs. int (length (filter P (channels_ll (base_of f)))))"
  by (induction fs arbitrary: h) (simp_all add: count_fold)

lemma matches_int_16:
  assumes "0 \<le> onid" "onid < 2 ^ 16" "0 \<le> channel_id" "channel_id < 2 ^ 16"
  shows "matches_int onid channel_id = matches16 onid channel_id"
proof -
  have "uint w = i \<longleftrightarrow> w = word_of_int i" if "0 \<le> i" "i < 2 ^ 16" for w :: u16 and i
  proof
    assume "w = word_of_int i"
    with that show "uint w = i" by (simp add: unsigned_of_int take_bit_int_eq_self)
  qed auto
  with assms show ?thesis by (intro ext) (simp add: matches_int_def matches16_def is_id_def)
qed

lemma isProgramValid_iff:
  assumes "0 \<le> onid" "onid < 2 ^ 16" "0 \<le> channel_id" "channel_id < 2 ^ 16"
  shows "0 \<le> channel_isProgramValid tuner onid channel_id
    \<longleftrightarrow> getChannelByNumber_tuners tuner onid channel_id \<noteq> None"
proof -
  let ?P = "matches16 onid channel_id" and ?fs = "frequency_ll tuner"
  have "channel_isProgramValid tuner onid channel_id
      = -1 + (\<Sum>f \<leftarrow> ?fs. int (length (filter ?P (channels_ll (base_of f)))))"
    by (simp add: channel_isProgramValid_def count_channels_eq matches_int_16 [OF assms])
  moreover have "1 \<le> (\<Sum>f \<leftarrow> fs. int (length (filter ?P (channels_ll (base_of f)))))
      \<longleftrightarrow> (\<exists>f \<in> set fs. \<exists>c \<in> set (channels_ll (base_of f)). ?P c)" for fs
  proof (induction fs)
    case (Cons f fs)
    have nn: "0 \<le> (\<Sum>f \<leftarrow> fs. int (length (filter ?P (channels_ll (base_of f)))))"
      by (induction fs) simp_all
    show ?case
    proof (cases "filter ?P (channels_ll (base_of f))")
      case Nil
      then have "\<forall>c \<in> set (channels_ll (base_of f)). \<not> ?P c" by (simp add: filter_empty_conv)
      with Nil Cons.IH show ?thesis by simp
    next
      case (Cons c r)
      then have "c \<in> set (filter ?P (channels_ll (base_of f)))" by simp
      with Cons nn show ?thesis by auto
    qed
  qed simp
  moreover have "find_channel ?P ?fs \<noteq> None
      \<longleftrightarrow> (\<exists>f \<in> set ?fs. \<exists>c \<in> set (channels_ll (base_of f)). ?P c)"
    unfolding find_channel_None by blast
  moreover have "0 \<le> -1 + n \<longleftrightarrow> 1 \<le> n" for n :: int by arith
  ultimately show ?thesis
    by (simp only: getChannelByNumber_tuners_def)
qed

lemma isProgramValid_ge: "-1 \<le> channel_isProgramValid tuner onid channel_id"
proof -
  have "0 \<le> (\<Sum>f \<leftarrow> frequency_ll tuner.
      int (length (filter (matches_int onid channel_id) (channels_ll (base_of f)))))"
    by (rule sum_list_nonneg) auto
  then show ?thesis unfolding channel_isProgramValid_def count_channels_eq by linarith
qed

section \<open>Properties\<close>

text \<open>
  While a tuner stays on its frequency, a program of the PAT is added to the channels of
  that frequency exactly when its number is neither 0 nor already listed; the new entry has
  no name yet, the channels of the other frequencies are untouched, and the tables stay well
  formed: no two channels of a frequency share a number, and every name is terminated.
\<close>

theorem channel_addPAT_correct:
  assumes "tables_ok tuner" and "curr_frequency tuner = Some i"
    and "last_sequence tuner = sequence_no tuner" and "0 \<le> channel_id" "channel_id < 2 ^ 16"
  defines "ll \<equiv> \<lambda>t j. channels_ll (base_of (frequency_ll t ! j))"
  shows "\<exists>tuner'. channel_addPAT tuner channel_id pmt = Inr tuner' \<and> tables_ok tuner'
    \<and> ll tuner' i = (if channel_id = 0 \<or> word_of_int channel_id \<in> service_id ` set (ll tuner i)
                     then ll tuner i else ll tuner i @ [new_channel channel_id pmt])
    \<and> (\<forall>j. j \<noteq> i \<longrightarrow> ll tuner' j = ll tuner j)"
proof -
  have i: "i < length (frequency_ll tuner)" using assms(1,2) by (simp add: tables_ok_def)
  then have cc: "curr_channels tuner = Inr (i, ll tuner i)"
    using assms(2) by (simp add: curr_channels_def ll_def)
  have ok: "channels_ok (ll tuner i)" using curr_channels_ok(1) [OF assms(1) cc] .
  have id: "is_id w channel_id \<longleftrightarrow> w = word_of_int channel_id" for w :: u16
    using assms(4,5) by (auto simp: is_id_def unsigned_of_int take_bit_int_eq_self)
  show ?thesis
  proof (cases "channel_id = 0 \<or> word_of_int channel_id \<in> service_id ` set (ll tuner i)")
    case True
    then have "channel_addPAT tuner channel_id pmt = Inr tuner"
      using cc assms(3) by (auto simp: channel_addPAT_def id)
    with True assms(1) show ?thesis by simp
  next
    case False
    then have "channel_addPAT tuner channel_id pmt
        = Inr (set_channels tuner i (ll tuner i @ [new_channel channel_id pmt]))"
      using cc assms(3) by (auto simp: channel_addPAT_def id image_iff)
    moreover have nz: "(word_of_int channel_id :: u16) \<noteq> 0"
      using False id [of 0] by (auto simp: is_id_def)
    moreover have "channels_ok (ll tuner i @ [new_channel channel_id pmt])"
      using ok False nz by (auto simp: channels_ok_def new_channel_def name_ok_def last_replicate)
    ultimately show ?thesis
      using False set_channels_ok [OF assms(1)] i
      by (auto simp: ll_def set_channels_def)
  qed
qed

definition one_freq :: dvb_frequency where
  "one_freq = FreqS \<lparr>freq_id = 0, channels_ll = [new_channel 4 257], frequency = 11720000,
     s_polarity = CHR ''H'', s_fec = Some ''3/4'', s_modulation = [], symbolrate = 29500000\<rparr>"

definition one_tuner :: dvb_device_t where
  "one_tuner = \<lparr>logicalNumber = 0, uid = 0, sequence_no = 1, last_sequence = 1,
     frontendDevice = replicate 32 NUL, demuxDevice = replicate 32 NUL,
     dvrDevice = replicate 32 NUL, initialTuning = replicate 256 NUL, serial = 7,
     frequency_ll = [one_freq], curr_frequency = Some 0, dvbType = Some dvb_s2,
     frontendHandle = 3, dvrHandle = 4,
     pids = replicate 32 \<lparr>pl_pid = 65535, demuxHandle = 5\<rparr>, lastStat = 31, lastber = 0,
     currentState = st_idle, refcnt = 0, fe_frequency = 0, fe_params = Unset\<rparr>"

lemma one_tuner_ok [simp]: "tables_ok one_tuner"
  by (simp add: tables_ok_def one_tuner_def one_freq_def channels_ok_def new_channel_def
      name_ok_def last_replicate dvb_frequency_base_t.defs)

lemma channel_addPAT_correct_witness:
  "\<exists>tuner'. channel_addPAT one_tuner 5 258 = Inr tuner' \<and> tables_ok tuner'
    \<and> channels_ll (base_of (frequency_ll tuner' ! 0)) =
        (if (5::int) = 0 \<or> word_of_int 5 \<in> service_id ` set
              (channels_ll (base_of (frequency_ll one_tuner ! 0)))
         then channels_ll (base_of (frequency_ll one_tuner ! 0))
         else channels_ll (base_of (frequency_ll one_tuner ! 0)) @ [new_channel 5 258])
    \<and> (\<forall>j. j \<noteq> 0 \<longrightarrow> channels_ll (base_of (frequency_ll tuner' ! j))
                     = channels_ll (base_of (frequency_ll one_tuner ! j)))"
  by (rule channel_addPAT_correct) (simp_all, simp_all add: one_tuner_def)

text \<open>
  A service description for a listed channel gives that channel its identifiers and its
  name, cut to 127 characters and always terminated; no other channel and no service number
  changes, the tables stay well formed, and the row for the database carries the tuner's
  serial and the full name.
\<close>

theorem channel_addSDT_Info2_correct:
  assumes "tables_ok tuner" and "curr_frequency tuner = Some i"
    and "last_sequence tuner = sequence_no tuner"
    and "cs = channels_ll (base_of (frequency_ll tuner ! i))"
    and "k < length cs" and "uint (service_id (cs ! k)) = channel_id" and "no_nul name"
  shows "\<exists>tuner' c. channel_addSDT_Info2 tuner channel_id name prov st run onid ca
        = Inr (tuner', Some (serial tuner, onid, channel_id, name))
    \<and> tables_ok tuner'
    \<and> channels_ll (base_of (frequency_ll tuner' ! i)) = cs[k := c]
    \<and> service_id c = service_id (cs ! k) \<and> pmt_pid c = pmt_pid (cs ! k)
    \<and> ch_onid c = word_of_int onid \<and> ca_mode c = ca \<and> running_status c = run
    \<and> service_type c = st \<and> cstr_of (channelName c) = take 127 name"
proof -
  let ?f = "\<lambda>c. c\<lparr>channelName := c_strncpy 127 (channelName c) name,
                  providerName := (case prov of None \<Rightarrow> providerName c
                    | Some p \<Rightarrow> c_strncpy 127 (providerName c) p),
                  running_status := run, service_type := st,
                  ch_onid := word_of_int onid, ca_mode := ca\<rparr>"
  let ?P = "\<lambda>c. is_id (service_id c) channel_id"
  have i: "i < length (frequency_ll tuner)" using assms(1,2) by (simp add: tables_ok_def)
  then have cc: "curr_channels tuner = Inr (i, cs)"
    using assms(2,4) by (simp add: curr_channels_def)
  have ok: "channels_ok cs" using curr_channels_ok(1) [OF assms(1) cc] .
  then have dist: "distinct (map service_id cs)" by (simp add: channels_ok_def)
  have "\<not> ?P (cs ! j)" if "j < k" for j
  proof
    assume "?P (cs ! j)"
    then have "service_id (cs ! j) = service_id (cs ! k)"
      using assms(6) by (simp add: is_id_def word_uint_eq_iff)
    then have "map service_id cs ! j = map service_id cs ! k" using that assms(5) by simp
    then show False using dist that assms(5) by (simp add: nth_eq_iff_index_eq del: nth_map)
  qed
  then have upd: "update_first ?P ?f cs = cs[k := ?f (cs ! k)]"
    using assms(5,6) by (intro update_first_at) (auto simp: is_id_def)
  have ok': "channels_ok (update_first ?P ?f cs)"
    by (rule channels_ok_update [OF ok]) (auto intro: strncpy_name_ok split: option.split)
  have "name_ok (channelName (cs ! k))" using ok assms(5) by (simp add: channels_ok_def)
  then have nm: "cstr_of (channelName (?f (cs ! k))) = take 127 name"
  proof -
    have ne: "channelName (cs ! k) \<noteq> []"
      using \<open>name_ok (channelName (cs ! k))\<close> by (auto simp: name_ok_def)
    have "drop 127 (channelName (cs ! k)) = [NUL]"
      using \<open>name_ok (channelName (cs ! k))\<close> last_conv_nth [OF ne]
      by (auto simp: name_ok_def Cons_nth_drop_Suc [symmetric])
    then show ?thesis
      using assms(7) cstr_of_append_NUL [of "take 127 name"]
      by (cases "127 - length name") (auto simp: c_strncpy_def no_nul_take)
  qed
  have "channel_addSDT_Info2 tuner channel_id name prov st run onid ca
      = Inr (set_channels tuner i (cs[k := ?f (cs ! k)]),
             Some (serial tuner, onid, channel_id, name))"
    using cc assms(3) upd by (simp add: channel_addSDT_Info2_def)
  moreover have "tables_ok (set_channels tuner i (cs[k := ?f (cs ! k)]))"
    using set_channels_ok [OF assms(1) ok'] upd by simp
  ultimately show ?thesis
    using nm i
    by (intro exI [of _ "set_channels tuner i (cs[k := ?f (cs ! k)])"] exI [of _ "?f (cs ! k)"])
      (simp add: set_channels_def)
qed

lemma channel_addSDT_Info2_correct_witness:
  "\<exists>tuner' c. channel_addSDT_Info2 one_tuner 4 ''One'' None 1 4 2 0
        = Inr (tuner', Some (serial one_tuner, 2, 4, ''One''))
    \<and> tables_ok tuner'
    \<and> channels_ll (base_of (frequency_ll tuner' ! 0)) = [new_channel 4 257][0 := c]
    \<and> service_id c = service_id ([new_channel 4 257] ! 0)
    \<and> pmt_pid c = pmt_pid ([new_channel 4 257] ! 0)
    \<and> ch_onid c = word_of_int 2 \<and> ca_mode c = 0 \<and> running_status c = 4
    \<and> service_type c = 1 \<and> cstr_of (channelName c) = take 127 ''One''"
  by (rule channel_addSDT_Info2_correct [OF one_tuner_ok])
    (simp_all add: one_tuner_def one_freq_def new_channel_def dvb_frequency_base_t.defs)

text \<open>
  For identifiers of 16 bits the three lookups agree: a program is valid exactly when a
  frequency and a channel are found for it, and what they find is a channel with those
  identifiers on that frequency, on no frequency before it.
\<close>

theorem channel_lookups_agree:
  assumes "0 \<le> onid" "onid < 2 ^ 16" "0 \<le> channel_id" "channel_id < 2 ^ 16"
  shows "(0 \<le> channel_isProgramValid tuner onid channel_id
            \<longleftrightarrow> channel_getFrequencyForTuner tuner onid channel_id \<noteq> None)
    \<and> channel_getFrequencyForTuner tuner onid channel_id
        = map_option fst (getChannelByNumber_tuners tuner onid channel_id)
    \<and> (\<forall>i j. getChannelByNumber_tuners tuner onid channel_id = Some (i, j) \<longrightarrow>
         i < length (frequency_ll tuner)
         \<and> j < length (channels_ll (base_of (frequency_ll tuner ! i)))
         \<and> matches16 onid channel_id (channels_ll (base_of (frequency_ll tuner ! i)) ! j)
         \<and> (\<forall>i' < i. \<forall>c \<in> set (channels_ll (base_of (frequency_ll tuner ! i'))).
               \<not> matches16 onid channel_id c))"
  using isProgramValid_iff [OF assms, of tuner]
    find_channel_Some [of "matches16 onid channel_id" "frequency_ll tuner"]
  unfolding channel_getFrequencyForTuner_def getChannelByNumber_tuners_def by blast

lemma channel_lookups_agree_witness:
  "(0 \<le> channel_isProgramValid one_tuner 0 4
            \<longleftrightarrow> channel_getFrequencyForTuner one_tuner 0 4 \<noteq> None)
    \<and> channel_getFrequencyForTuner one_tuner 0 4
        = map_option fst (getChannelByNumber_tuners one_tuner 0 4)
    \<and> getChannelByNumber_tuners one_tuner 0 4 = Some (0, 0)"
  using channel_lookups_agree [of 0 4 one_tuner]
  by (simp add: getChannelByNumber_tuners_def one_tuner_def one_freq_def new_channel_def
      matches16_def dvb_frequency_base_t.defs)

end
