(* ===== verification/PidFilter.thy ===== *)
theory PidFilter
  imports Channels
begin

text \<open>
  The table of hardware PID filters of a tuner: \<^verbatim>\<open>AddPID_to_Demux\<close> and
  \<^verbatim>\<open>removePID_from_Demux\<close> of \<^verbatim>\<open>src/DVB/dvbhardware.c\<close>. The result of the \<^verbatim>\<open>ioctl\<close> that sets a
  filter is an argument; the operations return the device calls they make, in order.

  The locale \<open>pid_table\<close> states what the table promises its clients, a bounded set of PIDs,
  and proves what adding and removing a list of PIDs does; the table interprets it.
\<close>

section \<open>Operations\<close>

text \<open>The calls the program makes on its devices, with the handle.\<close>

datatype dev_call =
    DMX_STOP int
  | DMX_SET_PES_FILTER int u16
  | FE_SET_FRONTEND int u32 fe_params_u
  | FE_SET_VOLTAGE int nat
  | FE_SET_TONE int bool
  | CLOSE int

definition set_pid :: "nat \<Rightarrow> int \<Rightarrow> dvb_device_t \<Rightarrow> dvb_device_t" where
  "set_pid j p tuner = tuner\<lparr>pids := (pids tuner)[j := (pids tuner ! j)\<lparr>pl_pid := p\<rparr>]\<rparr>"

definition removePID_from_Demux ::
  "dvb_device_t \<Rightarrow> u16 \<Rightarrow> dvb_device_t \<times> dev_call list" where
  "removePID_from_Demux tuner pid =
     (case find_index (\<lambda>s. pl_pid s = uint pid) (pids tuner) of
        None \<Rightarrow> (tuner, [])
      | Some j \<Rightarrow> (set_pid j 65535 tuner, [DMX_STOP (demuxHandle (pids tuner ! j))]))"

text \<open>\<open>rc h p\<close> is what setting the filter for \<open>p\<close> on the handle \<open>h\<close> returns.\<close>

definition AddPID_to_Demux ::
  "(int \<Rightarrow> u16 \<Rightarrow> int) \<Rightarrow> dvb_device_t \<Rightarrow> u16 \<Rightarrow> int \<times> dvb_device_t \<times> dev_call list" where
  "AddPID_to_Demux rc tuner pid =
     (if \<exists>s \<in> set (pids tuner). pl_pid s = uint pid then (1, tuner, [])
      else
        case find_index (\<lambda>s. pl_pid s = 65535) (pids tuner) of
          None \<Rightarrow> (-1, tuner, [])
        | Some hit \<Rightarrow>
            (let h = demuxHandle (pids tuner ! hit) in
             (1, set_pid hit (uint pid) tuner,
              DMX_SET_PES_FILTER h pid # (if rc h pid < 0 then [CLOSE h] else []))))"

section \<open>The contract of a PID table\<close>

locale pid_table =
  fixes inv :: "'t \<Rightarrow> bool"
    and members :: "'t \<Rightarrow> u16 set"
    and add :: "'t \<Rightarrow> u16 \<Rightarrow> int \<times> 't"
    and del :: "'t \<Rightarrow> u16 \<Rightarrow> 't"
    and valid :: "u16 \<Rightarrow> bool"
    and cap :: nat
  assumes add: "inv t \<Longrightarrow> valid p \<Longrightarrow> inv (snd (add t p)) \<and>
        (if p \<in> members t \<or> card (members t) < cap
         then fst (add t p) = 1 \<and> members (snd (add t p)) = insert p (members t)
         else add t p = (-1, t))"
    and del: "inv t \<Longrightarrow> valid p \<Longrightarrow> inv (del t p) \<and> members (del t p) = members t - {p}"
begin

definition add_all :: "'t \<Rightarrow> u16 list \<Rightarrow> 't" where
  "add_all t ps = foldl (\<lambda>t p. snd (add t p)) t ps"

definition del_all :: "'t \<Rightarrow> u16 list \<Rightarrow> 't" where
  "del_all t ps = foldl del t ps"

lemma add_all_ok:
  assumes "inv t" and "\<forall>p \<in> set ps. valid p" and "card (members t \<union> set ps) \<le> cap"
  shows "inv (add_all t ps) \<and> members (add_all t ps) = members t \<union> set ps"
  using assms
proof (induction ps arbitrary: t)
  case (Cons p ps)
  have room: "p \<in> members t \<or> card (members t) < cap"
  proof (rule disjCI)
    assume "\<not> card (members t) < cap"
    then have "card (members t \<union> set (p # ps)) \<le> card (members t)" using Cons.prems(3) by simp
    then have "members t \<union> set (p # ps) = members t"
      by (metis Un_upper1 card_seteq finite)
    then show "p \<in> members t" by auto
  qed
  with add [of t p] Cons.prems have "inv (snd (add t p))"
    "members (snd (add t p)) = insert p (members t)" by auto
  with Cons.IH [of "snd (add t p)"] Cons.prems show ?case by (simp add: add_all_def)
qed (simp add: add_all_def)

lemma del_all_ok:
  assumes "inv t" and "\<forall>p \<in> set ps. valid p"
  shows "inv (del_all t ps) \<and> members (del_all t ps) = members t - set ps"
  using assms
proof (induction ps arbitrary: t)
  case (Cons p ps)
  with del [of t p] have "inv (del t p)" "members (del t p) = members t - {p}" by auto
  with Cons.IH [of "del t p"] Cons.prems(2) show ?case by (auto simp: del_all_def)
qed (simp add: del_all_def)

lemma add_then_del:
  assumes "inv t" and "\<forall>p \<in> set ps. valid p" and "card (members t \<union> set ps) \<le> cap"
  shows "members (del_all (add_all t ps) ps) = members t - set ps"
  using add_all_ok [OF assms] del_all_ok [OF _ assms(2), of "add_all t ps"] by auto

end

section \<open>The table keeps the contract\<close>

definition pid_ok :: "dvb_device_t \<Rightarrow> bool" where
  "pid_ok tuner \<longleftrightarrow> length (pids tuner) = MAX_FILTER_PID
     \<and> distinct (filter (\<lambda>p. p \<noteq> 65535) (map pl_pid (pids tuner)))
     \<and> (\<forall>s \<in> set (pids tuner). 0 \<le> pl_pid s \<and> pl_pid s \<le> 65535)"

definition filtered :: "dvb_device_t \<Rightarrow> u16 set" where
  "filtered tuner = {p. p \<noteq> 65535 \<and> (\<exists>s \<in> set (pids tuner). pl_pid s = uint p)}"

lemma uint_65535 [simp]: "uint (p :: u16) = 65535 \<longleftrightarrow> p = 65535"
  by (simp add: word_uint_eq_iff)

lemma uint_16_bounds: "0 \<le> uint (p :: u16)" "uint p \<le> 65535"
  using uint_bounded [of p] by simp_all

lemma uint_inj [simp]: "uint (a :: u16) = uint b \<longleftrightarrow> a = b"
  by (simp add: word_uint_eq_iff)

lemma card_filtered:
  assumes "pid_ok tuner"
  shows "card (filtered tuner) = length (filter (\<lambda>p. p \<noteq> 65535) (map pl_pid (pids tuner)))"
proof -
  let ?l = "filter (\<lambda>p. p \<noteq> 65535) (map pl_pid (pids tuner))"
  have bounds: "0 \<le> x \<and> x < 2 ^ 16" if "x \<in> set ?l" for x
    using assms that by (auto simp: pid_ok_def)
  have "uint ` filtered tuner = set ?l"
  proof
    show "uint ` filtered tuner \<subseteq> set ?l"
      unfolding filtered_def set_filter set_map by force
    show "set ?l \<subseteq> uint ` filtered tuner"
    proof
      fix x assume x: "x \<in> set ?l"
      then have "uint (word_of_int x :: u16) = x"
        using bounds [OF x] by (simp add: unsigned_of_int take_bit_int_eq_self)
      with x show "x \<in> uint ` filtered tuner"
        by (intro image_eqI [of _ _ "word_of_int x"]) (auto simp: filtered_def)
    qed
  qed
  then have "card (filtered tuner) = card (set ?l)"
    by (metis card_image inj_on_subset inj_unsigned top_greatest)
  also have "card (set ?l) = length ?l"
    by (rule distinct_card) (use assms in \<open>simp add: pid_ok_def\<close>)
  finally show ?thesis .
qed

lemma free_slot_iff:
  assumes "pid_ok tuner"
  shows "(\<exists>s \<in> set (pids tuner). pl_pid s = 65535) \<longleftrightarrow> card (filtered tuner) < MAX_FILTER_PID"
proof -
  let ?l = "map pl_pid (pids tuner)"
  have "length (filter (\<lambda>p. p \<noteq> 65535) ?l) < length ?l \<longleftrightarrow> (\<exists>p \<in> set ?l. p = 65535)"
    using length_filter_less [of _ ?l "\<lambda>p. p \<noteq> 65535"]
    by (metis (mono_tags, lifting) filter_True less_irrefl)
  moreover have "length ?l = MAX_FILTER_PID" using assms by (simp add: pid_ok_def)
  moreover have "(\<exists>s \<in> set (pids tuner). pl_pid s = 65535) \<longleftrightarrow> (\<exists>p \<in> set ?l. p = 65535)"
    by (simp only: set_map bex_simps)
  ultimately show ?thesis unfolding card_filtered [OF assms] by (simp only:)
qed

text \<open>Rewriting one slot.\<close>

lemma set_pid_lemmas:
  assumes "pid_ok tuner" "j < length (pids tuner)" "0 \<le> p" "p \<le> 65535"
    and "p \<noteq> 65535 \<longrightarrow> (\<forall>s \<in> set (pids tuner). pl_pid s \<noteq> p)"
  shows "pid_ok (set_pid j p tuner)"
    and "filtered (set_pid j p tuner) =
      {q. q \<noteq> 65535 \<and> uint q = p}
      \<union> (filtered tuner - {q. uint q = pl_pid (pids tuner ! j)})"
proof -
  let ?ss = "pids tuner"
  obtain xs y zs where split: "?ss = xs @ y # zs" "length xs = j" "?ss ! j = y"
    using assms(2) id_take_nth_drop [of j ?ss] by (metis length_take min.absorb4)
  have new: "pids (set_pid j p tuner) = xs @ y\<lparr>pl_pid := p\<rparr> # zs"
    using split list_update_length [of xs y zs] by (simp add: set_pid_def)
  show ok: "pid_ok (set_pid j p tuner)"
    using assms(1,3-) unfolding pid_ok_def new split(1) by (auto split: if_splits)
  have d: "distinct (filter (\<lambda>p. p \<noteq> 65535) (map pl_pid xs @ pl_pid y # map pl_pid zs))"
    using assms(1) by (simp only: pid_ok_def split(1) map_append list.map)
  have "pl_pid s \<noteq> pl_pid y \<or> pl_pid y = 65535" if "s \<in> set xs \<or> s \<in> set zs" for s
  proof (cases "pl_pid y = 65535")
    case False
    with d have "pl_pid y \<notin> pl_pid ` set xs" "pl_pid y \<notin> pl_pid ` set zs" by auto
    with that show ?thesis by (metis imageI)
  qed simp
  then show "filtered (set_pid j p tuner) =
      {q. q \<noteq> 65535 \<and> uint q = p}
      \<union> (filtered tuner - {q. uint q = pl_pid (pids tuner ! j)})"
    unfolding filtered_def new split(3) unfolding split(1) by fastforce
qed

lemma AddPID_ok:
  assumes "pid_ok tuner" and "pid \<noteq> 65535"
  shows "AddPID_to_Demux rc tuner pid = (r, tuner', calls) \<Longrightarrow> pid_ok tuner' \<and>
    (if pid \<in> filtered tuner \<or> card (filtered tuner) < MAX_FILTER_PID
     then r = 1 \<and> filtered tuner' = insert pid (filtered tuner)
     else r = -1 \<and> tuner' = tuner)"
proof -
  assume a: "AddPID_to_Demux rc tuner pid = (r, tuner', calls)"
  have mem: "pid \<in> filtered tuner \<longleftrightarrow> (\<exists>s \<in> set (pids tuner). pl_pid s = uint pid)"
    using assms(2) by (auto simp: filtered_def)
  show ?thesis
  proof (cases "pid \<in> filtered tuner")
    case True
    with a assms(1) mem show ?thesis by (auto simp: AddPID_to_Demux_def insert_absorb)
  next
    case new: False
    show ?thesis
    proof (cases "find_index (\<lambda>s. pl_pid s = 65535) (pids tuner)")
      case None
      then have full: "\<not> card (filtered tuner) < MAX_FILTER_PID"
        unfolding free_slot_iff [OF assms(1), symmetric] find_index_None by blast
      have "\<not> (\<exists>s \<in> set (pids tuner). pl_pid s = uint pid)" using new mem by simp
      with a None have "r = -1" "tuner' = tuner"
        by (simp_all only: AddPID_to_Demux_def if_False option.case prod.inject)
      with new full assms(1) show ?thesis by simp
    next
      case (Some j)
      then have j: "j < length (pids tuner)" "pl_pid (pids tuner ! j) = 65535"
        by (auto simp: find_index_Some)
      have t: "tuner' = set_pid j (uint pid) tuner" "r = 1"
        using a new mem Some by (auto simp: AddPID_to_Demux_def Let_def)
      note sp = set_pid_lemmas [OF assms(1) j(1) uint_16_bounds, of pid]
      have n: "uint pid \<noteq> 65535 \<longrightarrow> (\<forall>s \<in> set (pids tuner). pl_pid s \<noteq> uint pid)"
        using new mem by auto
      have "{q :: u16. q \<noteq> 65535 \<and> uint q = uint pid} = {pid}"
        using assms(2) by auto
      moreover have "filtered tuner - {q. uint q = pl_pid (pids tuner ! j)} = filtered tuner"
        using j(2) by (auto simp: filtered_def)
      ultimately have "filtered tuner' = insert pid (filtered tuner)"
        using sp(2) [OF n] t by simp
      moreover have "card (filtered tuner) < MAX_FILTER_PID"
        using free_slot_iff [OF assms(1)] j nth_mem by blast
      ultimately show ?thesis using sp(1) [OF n] t by simp
    qed
  qed
qed

lemma removePID_ok:
  assumes "pid_ok tuner" and "pid \<noteq> 65535"
  shows "pid_ok (fst (removePID_from_Demux tuner pid))"
    and "filtered (fst (removePID_from_Demux tuner pid)) = filtered tuner - {pid}"
proof -
  let ?t = "fst (removePID_from_Demux tuner pid)"
  have "pid_ok ?t \<and> filtered ?t = filtered tuner - {pid}"
  proof (cases "find_index (\<lambda>s. pl_pid s = uint pid) (pids tuner)")
    case None
    then have "pid \<notin> filtered tuner" by (auto simp: filtered_def find_index_None)
    with None assms(1) show ?thesis by (simp add: removePID_from_Demux_def)
  next
    case (Some j)
    then have j: "j < length (pids tuner)" "pl_pid (pids tuner ! j) = uint pid"
      by (auto simp: find_index_Some)
    note sp = set_pid_lemmas [OF assms(1) j(1), of 65535]
    have "{q :: u16. q \<noteq> 65535 \<and> uint q = 65535} = {}" by auto
    moreover have "{q :: u16. uint q = uint pid} = {pid}" by auto
    ultimately show ?thesis using sp j Some by (simp add: removePID_from_Demux_def)
  qed
  then show "pid_ok ?t" "filtered ?t = filtered tuner - {pid}" by simp_all
qed

text \<open>The operations without the trace of calls, as the locale's clients see them.\<close>

definition demux_add :: "(int \<Rightarrow> u16 \<Rightarrow> int) \<Rightarrow> dvb_device_t \<Rightarrow> u16 \<Rightarrow> int \<times> dvb_device_t" where
  "demux_add rc tuner pid = (case AddPID_to_Demux rc tuner pid of (r, t, _) \<Rightarrow> (r, t))"

definition demux_del :: "dvb_device_t \<Rightarrow> u16 \<Rightarrow> dvb_device_t" where
  "demux_del tuner pid = fst (removePID_from_Demux tuner pid)"

interpretation demux: pid_table pid_ok filtered "demux_add rc" demux_del "\<lambda>p. p \<noteq> 65535"
    MAX_FILTER_PID for rc
proof
  fix t p assume "pid_ok t" "(p :: u16) \<noteq> 65535"
  moreover obtain r t' calls where "AddPID_to_Demux rc t p = (r, t', calls)"
    by (metis prod_cases3)
  ultimately show "pid_ok (snd (demux_add rc t p)) \<and>
        (if p \<in> filtered t \<or> card (filtered t) < MAX_FILTER_PID
         then fst (demux_add rc t p) = 1 \<and> filtered (snd (demux_add rc t p)) = insert p (filtered t)
         else demux_add rc t p = (-1, t))"
    using AddPID_ok [of t p rc r t' calls] by (auto simp: demux_add_def)
next
  fix t p assume "pid_ok t" "(p :: u16) \<noteq> 65535"
  then show "pid_ok (demux_del t p) \<and> filtered (demux_del t p) = filtered t - {p}"
    using removePID_ok by (simp add: demux_del_def)
qed

section \<open>Properties\<close>

text \<open>
  C18. On a table without duplicates, \<^verbatim>\<open>AddPID_to_Demux\<close> gives up with -1 exactly when the PID
  is new and all 32 slots are taken, and then changes nothing; otherwise it returns 1 and the
  PID is in the table, which still has no duplicates. That holds whatever the driver answers:
  when setting the filter fails the slot stays taken, its handle is closed, and the caller is
  told that all went well.
\<close>

theorem AddPID_to_Demux_correct:
  assumes "pid_ok tuner" and "pid \<noteq> 65535"
    and "AddPID_to_Demux rc tuner pid = (r, tuner', calls)"
  shows "pid_ok tuner'
    \<and> (if pid \<in> filtered tuner \<or> card (filtered tuner) < MAX_FILTER_PID
       then r = 1 \<and> filtered tuner' = insert pid (filtered tuner)
       else r = -1 \<and> tuner' = tuner)
    \<and> (\<forall>h. CLOSE h \<in> set calls \<longleftrightarrow> DMX_SET_PES_FILTER h pid \<in> set calls \<and> rc h pid < 0)"
proof -
  have "CLOSE h \<in> set calls \<longleftrightarrow> DMX_SET_PES_FILTER h pid \<in> set calls \<and> rc h pid < 0" for h
    using assms(3) by (auto simp: AddPID_to_Demux_def Let_def split: if_splits option.splits)
  with AddPID_ok [OF assms(1,2,3)] show ?thesis by blast
qed

lemma one_tuner_pids [simp]: "pid_ok one_tuner" "filtered one_tuner = {}"
  by (auto simp: pid_ok_def filtered_def one_tuner_def MAX_FILTER_PID_def)

lemma AddPID_to_Demux_correct_witness:
  "\<exists>r tuner' calls. AddPID_to_Demux (\<lambda>_ _. -1) one_tuner 17 = (r, tuner', calls)
    \<and> pid_ok tuner' \<and> filtered tuner' = {17} \<and> r = 1"
proof -
  obtain r tuner' calls where a: "AddPID_to_Demux (\<lambda>_ _. -1) one_tuner 17 = (r, tuner', calls)"
    by (metis prod_cases3)
  have "(17 :: u16) \<noteq> 65535" by simp
  from AddPID_to_Demux_correct [OF one_tuner_pids(1) this a] a show ?thesis
    by (simp add: MAX_FILTER_PID_def)
qed

text \<open>
  Adding PIDs that fit in the table and removing them again leaves exactly the PIDs that
  were filtered before and are not among them.
\<close>

theorem demux_add_remove:
  assumes "pid_ok tuner" and "\<forall>p \<in> set ps. p \<noteq> 65535"
    and "card (filtered tuner \<union> set ps) \<le> MAX_FILTER_PID"
  shows "filtered (foldl demux_del (foldl (\<lambda>t p. snd (demux_add rc t p)) tuner ps) ps)
    = filtered tuner - set ps"
  using demux.add_then_del [OF assms] by (simp add: demux.add_all_def demux.del_all_def)

lemma demux_add_remove_witness:
  "filtered (foldl demux_del (foldl (\<lambda>t p. snd (demux_add (\<lambda>_ _. 0) t p)) one_tuner [256, 257])
      [256, 257]) = filtered one_tuner - set [256, 257]"
  by (rule demux_add_remove) (simp_all add: MAX_FILTER_PID_def)

end
