(* ===== verification/Frequencies.thy ===== *)
theory Frequencies
  imports Channels TextUtils Iniparser
begin

text \<open>
  The frequency lists of the tuners in \<^verbatim>\<open>src/DVB/dvbhardware.c\<close>: the initial tuning files and
  the satellite transponders found in the network information table.

  The lemmas show that the identifiers of a list are its positions, that no two entries
  stand for the same transponder, and that a printed tuning file is read back as the list
  of its transponders.
\<close>

section \<open>Names of frontend parameters\<close>

text \<open>\<^verbatim>\<open>memcmp\<close> against a literal, on arrays of ten characters.\<close>

definition starts :: "string \<Rightarrow> char list \<Rightarrow> bool" where
  "starts lit a \<longleftrightarrow> take (length lit) a = lit"

definition bandwidth_string_to_number :: "char list \<Rightarrow> fe_bandwidth" where
  "bandwidth_string_to_number bandwidth =
     (if starts ''8MHz'' bandwidth then BANDWIDTH_8_MHZ
      else if starts ''7MHz'' bandwidth then BANDWIDTH_7_MHZ
      else if starts ''6MHz'' bandwidth then BANDWIDTH_6_MHZ
      else if starts ''5MHz'' bandwidth then BANDWIDTH_5_MHZ
      else BANDWIDTH_AUTO)"

definition modulation_to_number :: "char list \<Rightarrow> fe_modulation" where
  "modulation_to_number modulation =
     (if starts ''QPSK'' modulation then QPSK
      else if starts ''QAM16'' modulation then QAM_16
      else if starts ''QAM32'' modulation then QAM_32
      else if starts ''QAM64'' modulation then QAM_64
      else if starts ''QAM256'' modulation then QAM_256
      else QAM_AUTO)"

definition fec_string_to_number :: "char list \<Rightarrow> fe_code_rate" where
  "fec_string_to_number fec =
     (if starts ''1/2'' fec then FEC_1_2
      else if starts ''2/3'' fec then FEC_2_3
      else if starts ''3/4'' fec then FEC_3_4
      else if starts ''3/5'' fec then FEC_3_5
      else if starts ''4/5'' fec then FEC_4_5
      else if starts ''5/6'' fec then FEC_5_6
      else if starts ''6/7'' fec then FEC_6_7
      else if starts ''7/8'' fec then FEC_7_8
      else if starts ''8/9'' fec then FEC_8_9
      else if starts ''9/10'' fec then FEC_9_10
      else if starts ''NONE'' fec then FEC_NONE
      else FEC_AUTO)"

section \<open>Comparing and adding entries\<close>

definition compare_dvbt_entries :: "dvb_frequency \<Rightarrow> dvb_frequency \<Rightarrow> int" where
  "compare_dvbt_entries a b =
     (if frequency (base_of a) = frequency (base_of b) then 0 else -1)"

text \<open>The polarity is only read when the frequencies are equal.\<close>

definition polarity_of :: "dvb_frequency \<Rightarrow> char res" where
  "polarity_of f = (case f of FreqS s \<Rightarrow> Inr (s_polarity s) | FreqT _ \<Rightarrow> Inl BadPointer)"

definition compare_dvbs_entries :: "dvb_frequency \<Rightarrow> dvb_frequency \<Rightarrow> int res" where
  "compare_dvbs_entries a b =
     (if frequency (base_of a) \<noteq> frequency (base_of b) then Inr (-1)
      else bind_res (polarity_of a) (\<lambda>p. bind_res (polarity_of b) (\<lambda>q.
             Inr (if p = q then 0 else -1))))"

text \<open>The loop over the list: whether an entry compares equal.\<close>

fun scan_hit :: "(dvb_frequency \<Rightarrow> int res) \<Rightarrow> dvb_frequency list \<Rightarrow> bool res" where
  "scan_hit cmp [] = Inr False"
| "scan_hit cmp (f # fs) =
     bind_res (cmp f) (\<lambda>rc. if rc \<ge> 0 then Inr True else scan_hit cmp fs)"

text \<open>Appending with the next identifier, an empty channel list, unless the entry is known.\<close>

fun set_id :: "int \<Rightarrow> dvb_frequency \<Rightarrow> dvb_frequency" where
  "set_id i (FreqT f) = FreqT (f\<lparr>freq_id := i, channels_ll := []\<rparr>)"
| "set_id i (FreqS f) = FreqS (f\<lparr>freq_id := i, channels_ll := []\<rparr>)"

definition append_unless ::
  "(dvb_frequency \<Rightarrow> int res) \<Rightarrow> dvb_frequency list \<Rightarrow> dvb_frequency \<Rightarrow> dvb_frequency list res" where
  "append_unless cmp ll f =
     bind_res (scan_hit cmp ll) (\<lambda>hit.
       Inr (if hit then ll else ll @ [set_id (int (length ll)) f]))"

text \<open>A token the tokeniser did not store is an uninitialised pointer.\<close>

definition tok :: "string list \<Rightarrow> nat \<Rightarrow> string res" where
  "tok ts i = (if i < length ts then Inr (ts ! i) else Inl Uninitialised)"

definition copy10 :: "string \<Rightarrow> char list" where
  "copy10 s = c_strncpy 10 [] s"

definition first_char :: "string \<Rightarrow> char" where
  "first_char s = (case s of [] \<Rightarrow> NUL | c # _ \<Rightarrow> c)"

definition addInitialData_dvbt :: "dvb_frequency list \<Rightarrow> string \<Rightarrow> dvb_frequency list res" where
  "addInitialData_dvbt ll intext =
     (if first_char intext = CHR ''#'' then Inr ll
      else
        let ts = tokenize 20 intext CHR '' '' in
        bind_res (tok ts 0) (\<lambda>t0.
        if first_char t0 \<noteq> CHR ''T'' then Inr ll
        else
          bind_res (tok ts 1) (\<lambda>t1. bind_res (tok ts 2) (\<lambda>t2. bind_res (tok ts 3) (\<lambda>t3.
          bind_res (tok ts 4) (\<lambda>t4. bind_res (tok ts 5) (\<lambda>t5. bind_res (tok ts 6) (\<lambda>t6.
          bind_res (tok ts 7) (\<lambda>t7. bind_res (tok ts 8) (\<lambda>t8.
            let new = FreqT \<lparr>freq_id = 0, channels_ll = [], frequency = c_atol t1,
                  t_bandwidth = copy10 t2, t_fec_hi = copy10 t3, t_fec_lo = copy10 t4,
                  t_modulation = copy10 t5, transmission_mode = copy10 t6,
                  t_guard = copy10 t7, heirachy = copy10 t8\<rparr> in
            append_unless (\<lambda>f. Inr (compare_dvbt_entries f new)) ll new))))))))))"

definition addInitialData_dvbs :: "dvb_frequency list \<Rightarrow> string \<Rightarrow> dvb_frequency list res" where
  "addInitialData_dvbs ll intext =
     (if first_char intext = CHR ''#'' then Inr ll
      else
        let ts = tokenize 20 intext CHR '' '' in
        bind_res (tok ts 0) (\<lambda>t0.
        if first_char t0 \<noteq> CHR ''S'' then Inr ll
        else
          bind_res (tok ts 1) (\<lambda>t1. bind_res (tok ts 3) (\<lambda>t3. bind_res (tok ts 4) (\<lambda>t4.
          bind_res (tok ts 2) (\<lambda>t2.
            let new = FreqS \<lparr>freq_id = 0, channels_ll = [], frequency = c_atol t1,
                  s_polarity = first_char t2, s_fec = Some (copy10 t4), s_modulation = [NUL],
                  symbolrate = c_atol t3\<rparr> in
            append_unless (\<lambda>f. compare_dvbs_entries f new) ll new))))))"

text \<open>
  A transponder of the network information table, for the frequency the tuner is on. The
  polarity and the modulation index the tables \<^verbatim>\<open>hor_vert_ISO\<close> and
  \<^verbatim>\<open>constellation_Satellite_ISO\<close>; the field \<^verbatim>\<open>fec\<close> is not set.
\<close>

definition hor_vert_ISO :: "string list" where
  "hor_vert_ISO = [''H'', ''V'']"

definition constellation_Satellite_ISO :: "string list" where
  "constellation_Satellite_ISO = [''AUTO'', ''QPSK'', ''PSK8'', ''QAM16'']"

definition at_index :: "'a list \<Rightarrow> int \<Rightarrow> 'a res" where
  "at_index xs i = (if 0 \<le> i \<and> i < int (length xs) then Inr (xs ! nat i) else Inl Overrun)"

definition addSatelliteFrequency ::
  "dvb_device_t \<Rightarrow> u32 \<Rightarrow> u32 \<Rightarrow> int \<Rightarrow> int \<Rightarrow> dvb_device_t res" where
  "addSatelliteFrequency tuner infreq sr pol modulation =
     (if last_sequence tuner \<noteq> sequence_no tuner then Inr tuner
      else
        bind_res (at_index hor_vert_ISO pol) (\<lambda>p.
        bind_res (at_index constellation_Satellite_ISO modulation) (\<lambda>m.
          let new = FreqS \<lparr>freq_id = 0, channels_ll = [], frequency = uint infreq,
                s_polarity = first_char p, s_fec = None, s_modulation = m @ [NUL],
                symbolrate = uint sr\<rparr> in
          bind_res (append_unless (compare_dvbs_entries new) (frequency_ll tuner) new) (\<lambda>ll.
            Inr (tuner\<lparr>frequency_ll := ll\<rparr>)))))"

text \<open>The entry with a given position, as the scan of \<^verbatim>\<open>getInitialTuning_dvbt\<close> finds it.\<close>

fun nth_frequency :: "dvb_frequency list \<Rightarrow> int \<Rightarrow> int \<Rightarrow> nat option" where
  "nth_frequency [] i pos = None"
| "nth_frequency (f # fs) i pos =
     (if i = pos then Some 0 else map_option Suc (nth_frequency fs i (pos + 1)))"

definition getInitialTuning_dvbt :: "dvb_device_t \<Rightarrow> int \<Rightarrow> nat option" where
  "getInitialTuning_dvbt tuner i = nth_frequency (frequency_ll tuner) i 0"

definition getInitialTuning_dvbs :: "dvb_device_t \<Rightarrow> int \<Rightarrow> nat option" where
  "getInitialTuning_dvbs tuner i = nth_frequency (frequency_ll tuner) i 0"

section \<open>The initial tuning file\<close>

definition is_dvbt :: "dvb_types option \<Rightarrow> bool" where
  "is_dvbt t \<longleftrightarrow> t = Some dvb_t \<or> t = Some dvb_t2"

definition is_dvbs :: "dvb_types option \<Rightarrow> bool" where
  "is_dvbs t \<longleftrightarrow> t = Some dvb_s \<or> t = Some dvb_s2"

definition add_line ::
  "dvb_types option \<Rightarrow> dvb_frequency list \<Rightarrow> string \<Rightarrow> dvb_frequency list res" where
  "add_line ty ll line =
     (if is_dvbt ty then addInitialData_dvbt ll line
      else if is_dvbs ty then addInitialData_dvbs ll line
      else Inr ll)"

function load_lines ::
  "dvb_types option \<Rightarrow> string \<Rightarrow> dvb_frequency list \<Rightarrow> dvb_frequency list res" where
  "load_lines ty content ll =
     (if content = [] then Inr ll
      else bind_res (add_line ty ll (cstr_of (fst (fgets 128 content)))) (\<lambda>ll'.
             load_lines ty (snd (fgets 128 content)) ll'))"
  by pat_completeness auto
termination
  by (relation "measure (\<lambda>(_, content, _). length content)")
    (auto simp: prod_eq_iff intro!: fgets_shorter(1) [where n = 128])

declare load_lines.simps [simp del]

definition loadInitialFile :: "dvb_device_t \<Rightarrow> string option \<Rightarrow> dvb_device_t res" where
  "loadInitialFile tuner fp =
     (case fp of
        None \<Rightarrow> Inr tuner
      | Some content \<Rightarrow>
          bind_res (load_lines (dvbType tuner) content (frequency_ll tuner)) (\<lambda>ll.
            Inr (tuner\<lparr>frequency_ll := ll\<rparr>)))"

section \<open>Well-formed frequency lists\<close>

text \<open>What makes two entries the same transponder.\<close>

fun freq_key :: "dvb_frequency \<Rightarrow> int \<times> char option" where
  "freq_key (FreqT f) = (frequency f, None)"
| "freq_key (FreqS f) = (frequency f, Some (s_polarity f))"

fun is_freqS :: "dvb_frequency \<Rightarrow> bool" where
  "is_freqS (FreqS f) = True"
| "is_freqS (FreqT f) = False"

definition freqs_ok :: "dvb_frequency list \<Rightarrow> bool" where
  "freqs_ok ll \<longleftrightarrow> map (freq_id \<circ> base_of) ll = map int [0..<length ll]
     \<and> distinct (map freq_key ll)"

lemma truncate_simps [simp]:
  "freq_id (dvb_frequency_base_t.truncate t) = freq_id t"
  "frequency (dvb_frequency_base_t.truncate t) = frequency t"
  "channels_ll (dvb_frequency_base_t.truncate t) = channels_ll t"
  by (simp_all add: dvb_frequency_base_t.defs)

lemma set_id_simps [simp]:
  "freq_id (base_of (set_id i f)) = i" "freq_key (set_id i f) = freq_key f"
  "is_freqS (set_id i f) = is_freqS f"
  by (cases f; simp add: dvb_frequency_base_t.defs)+

lemma scan_hit_ok:
  assumes "\<And>f. f \<in> set ll \<Longrightarrow> cmp f = Inr (if P f then 0 else -1)"
  shows "scan_hit cmp ll = Inr (\<exists>f \<in> set ll. P f)"
  using assms by (induction ll) auto

lemma append_unless_ok:
  assumes "\<And>f. f \<in> set ll \<Longrightarrow> cmp f = Inr (if freq_key f = freq_key new then 0 else -1)"
    and "freqs_ok ll"
  shows "\<exists>ll'. append_unless cmp ll new = Inr ll' \<and> freqs_ok ll'
    \<and> ll' = (if freq_key new \<in> freq_key ` set ll then ll
             else ll @ [set_id (int (length ll)) new])"
proof -
  have "scan_hit cmp ll = Inr (\<exists>f \<in> set ll. freq_key f = freq_key new)"
    using assms(1) by (rule scan_hit_ok)
  then have "append_unless cmp ll new = Inr (if freq_key new \<in> freq_key ` set ll then ll
             else ll @ [set_id (int (length ll)) new])"
    by (auto simp: append_unless_def image_iff eq_commute)
  with assms(2) show ?thesis by (auto simp: freqs_ok_def)
qed

lemma compare_dvbs_ok:
  "is_freqS f \<Longrightarrow> is_freqS g \<Longrightarrow>
   compare_dvbs_entries f g = Inr (if freq_key f = freq_key g then 0 else -1)"
  by (cases f; cases g) (auto simp: compare_dvbs_entries_def polarity_of_def)

lemma compare_dvbt_ok:
  "\<not> is_freqS f \<Longrightarrow> \<not> is_freqS g \<Longrightarrow>
   compare_dvbt_entries f g = (if freq_key f = freq_key g then 0 else -1)"
  by (cases f; cases g) (auto simp: compare_dvbt_entries_def)

lemma nth_frequency_eq:
  "nth_frequency ll i pos = (if pos \<le> i \<and> nat (i - pos) < length ll
     then Some (nat (i - pos)) else None)"
  by (induction ll arbitrary: pos) (auto simp: nat_diff_distrib Suc_nat_eq_nat_zadd1 nat_less_iff)

section \<open>Printed numbers are read back\<close>

lemma digit_val_digit: "d < 10 \<Longrightarrow> digit_val (char_of (48 + d)) = Some d"
  by (simp add: digit_val_def of_char_of)

lemma read_digits_show:
  "read_digits 10 acc (show_nat n @ r) = read_digits 10 (acc * 10 ^ length (show_nat n) + n) r"
proof (induction n arbitrary: acc r rule: show_nat.induct)
  case (1 n)
  show ?case
  proof (cases "n < 10")
    case True
    then show ?thesis by (simp add: show_nat.simps [of n] digit_val_digit)
  next
    case False
    have d: "digit_val (char_of (48 + n mod 10)) = Some (n mod 10)" by (rule digit_val_digit) simp
    let ?x = "acc * 10 ^ length (show_nat (n div 10)) + n div 10"
    have len: "length (show_nat n) = Suc (length (show_nat (n div 10)))"
      using False by (simp add: show_nat.simps [of n])
    have "read_digits 10 acc (show_nat n @ r)
        = read_digits 10 ?x (char_of (48 + n mod 10) # r)"
      using False 1 [OF False, of acc "char_of (48 + n mod 10) # r"]
      by (simp add: show_nat.simps [of n])
    also have "\<dots> = read_digits 10 (?x * 10 + n mod 10) r" using d by simp
    also have "?x * 10 + n mod 10 = acc * 10 ^ length (show_nat n) + n"
      unfolding len by (simp add: algebra_simps)
    finally show ?thesis .
  qed
qed

lemma show_nat_chars: "c \<in> set (show_nat n) \<Longrightarrow> 48 \<le> code_of c \<and> code_of c \<le> 57"
proof (induction n rule: show_nat.induct)
  case (1 n)
  show ?case
  proof (cases "n < 10")
    case True
    with "1.prems" show ?thesis by (auto simp: show_nat.simps [of n] of_char_of)
  next
    case False
    have "48 + n mod 10 < 256" "48 + n mod 10 \<le> 57" by simp_all
    with False "1.prems" "1.IH" show ?thesis
      by (auto simp: show_nat.simps [of n] of_char_of)
  qed
qed

lemma show_nat_nonempty: "show_nat n \<noteq> []"
  by (simp add: show_nat.simps [of n])

lemma show_nat_length: "n < 10 ^ k \<Longrightarrow> 0 < k \<Longrightarrow> length (show_nat n) \<le> k"
proof (induction n arbitrary: k rule: show_nat.induct)
  case (1 n)
  show ?case
  proof (cases "n < 10")
    case True
    with 1 show ?thesis by (simp add: show_nat.simps [of n])
  next
    case False
    then obtain k' where k: "k = Suc k'" "0 < k'" using "1.prems"
      by (cases k; cases "k - 1") auto
    then have "n div 10 < 10 ^ k'" using "1.prems"(1) by (simp add: less_mult_imp_div_less)
    with "1.IH" [OF False this k(2)] k show ?thesis
      using False by (simp add: show_nat.simps [of n])
  qed
qed

lemma atol_show: "n < 2 ^ 63 \<Longrightarrow> c_atol (show_nat n) = int n"
proof -
  assume n: "n < 2 ^ 63"
  obtain c cs where c: "show_nat n = c # cs" using show_nat_nonempty by (cases "show_nat n") auto
  then have cc: "48 \<le> code_of c" "code_of c \<le> 57" using show_nat_chars [of c n] by auto
  then have "\<not> c_isspace c" "c \<noteq> CHR ''-''" "c \<noteq> CHR ''+''"
    by (auto simp: c_isspace_def)
  moreover have "read_digits 10 0 (show_nat n) = n" using read_digits_show [of 0 n "[]"] by simp
  ultimately show ?thesis
    using n by (simp add: c_atol_def c_strtol_def signed_value_def c saturate_def)
qed

section \<open>A tuning file of satellite transponders\<close>

text \<open>Frequency, polarity, symbol rate and error correction, and how a line shows them.\<close>

type_synonym sat_entry = "nat \<times> char \<times> nat \<times> string"

fun sat_ok :: "sat_entry \<Rightarrow> bool" where
  "sat_ok (f, p, sr, fec) \<longleftrightarrow> f < 2 ^ 63 \<and> sr < 2 ^ 63 \<and> p \<notin> {CHR '' '', NL, NUL}
     \<and> CHR '' '' \<notin> set fec \<and> NL \<notin> set fec \<and> no_nul fec \<and> length fec \<le> 40"

fun sat_words :: "sat_entry \<Rightarrow> string list" where
  "sat_words (f, p, sr, fec) = [''S'', show_nat f, [p], show_nat sr, fec @ [NL]]"

definition sat_line :: "sat_entry \<Rightarrow> string" where
  "sat_line e = join_with CHR '' '' (sat_words e)"

fun sat_freq :: "sat_entry \<Rightarrow> dvb_frequency" where
  "sat_freq (f, p, sr, fec) = FreqS \<lparr>freq_id = 0, channels_ll = [], frequency = int f,
     s_polarity = p, s_fec = Some (copy10 (fec @ [NL])), s_modulation = [NUL],
     symbolrate = int sr\<rparr>"

definition sat_add :: "dvb_frequency list \<Rightarrow> sat_entry \<Rightarrow> dvb_frequency list" where
  "sat_add ll e = (if freq_key (sat_freq e) \<in> freq_key ` set ll then ll
     else ll @ [set_id (int (length ll)) (sat_freq e)])"

lemma sat_tokens:
  assumes "sat_ok e"
  shows "tokenize 20 (sat_line e) CHR '' '' = sat_words e"
proof -
  obtain f p sr fec where e: "e = (f, p, sr, fec)" by (cases e)
  have sp: "CHR '' '' \<notin> set (show_nat n)" for n using show_nat_chars [of "CHR '' ''" n] by auto
  have "\<forall>t \<in> set (sat_words e). t \<noteq> [] \<and> CHR '' '' \<notin> set t"
    using assms e sp show_nat_nonempty by (auto simp: NL_def)
  then have "token_list CHR '' '' (sat_line e) = sat_words e"
    by (simp add: sat_line_def token_list_join)
  moreover have "hd (sat_line e) = CHR ''S''" by (simp add: e sat_line_def)
  ultimately show ?thesis
    by (simp add: tokenize_eq dropWhile_head_neq e)
qed

lemma add_sat_line:
  assumes "sat_ok e" "freqs_ok ll" "\<forall>f \<in> set ll. is_freqS f"
  shows "addInitialData_dvbs ll (sat_line e) = Inr (sat_add ll e)"
    "freqs_ok (sat_add ll e)" "\<forall>f \<in> set (sat_add ll e). is_freqS f"
proof -
  obtain f p sr fec where e: "e = (f, p, sr, fec)" by (cases e)
  let ?new = "sat_freq e"
  have S: "is_freqS ?new" by (simp add: e)
  have "addInitialData_dvbs ll (sat_line e) = append_unless (\<lambda>f. compare_dvbs_entries f ?new) ll ?new"
    unfolding addInitialData_dvbs_def sat_tokens [OF assms(1)] Let_def
    using assms(1) atol_show [of f] atol_show [of sr]
    by (simp add: e tok_def first_char_def sat_line_def)
  moreover obtain ll' where "append_unless (\<lambda>f. compare_dvbs_entries f ?new) ll ?new = Inr ll'"
    "freqs_ok ll'" "ll' = sat_add ll e"
    using append_unless_ok [OF _ assms(2), of "\<lambda>f. compare_dvbs_entries f ?new" ?new]
      compare_dvbs_ok [OF _ S] assms(3) unfolding sat_add_def by blast
  ultimately show "addInitialData_dvbs ll (sat_line e) = Inr (sat_add ll e)"
    "freqs_ok (sat_add ll e)" by simp_all
  show "\<forall>f \<in> set (sat_add ll e). is_freqS f" using assms(3) S by (auto simp: sat_add_def)
qed

lemma sat_line_text:
  assumes "sat_ok e"
  shows "\<exists>l. sat_line e = l @ [NL] \<and> NL \<notin> set l \<and> no_nul l \<and> length l \<le> 120"
proof -
  obtain f p sr fec where e: "e = (f, p, sr, fec)" by (cases e)
  let ?l = "''S '' @ show_nat f @ '' '' @ [p] @ '' '' @ show_nat sr @ '' '' @ fec"
  have dig: "NL \<notin> set (show_nat n)" "no_nul (show_nat n)" for n
    using show_nat_chars [of _ n] by (fastforce simp: NL_def no_nul_def)+
  have "(2::nat) ^ 63 < 10 ^ 19" by simp
  then have "length (show_nat n) \<le> 19" if "n < 2 ^ 63" for n
    using show_nat_length [of n 19] that by (meson less_trans zero_less_numeral)
  then have "length (show_nat f) \<le> 19" "length (show_nat sr) \<le> 19" using assms e by auto
  then show ?thesis
    using assms dig by (intro exI [of _ ?l]) (auto simp: e sat_line_def NL_def)
qed

lemma load_sat_lines:
  assumes "is_dvbs ty" "\<forall>e \<in> set es. sat_ok e" "freqs_ok ll" "\<forall>f \<in> set ll. is_freqS f"
  shows "load_lines ty (concat (map sat_line es)) ll = Inr (foldl sat_add ll es)
    \<and> freqs_ok (foldl sat_add ll es)"
  using assms(2-)
proof (induction es arbitrary: ll)
  case Nil
  then show ?case by (subst load_lines.simps) simp
next
  case (Cons e es)
  obtain l where l: "sat_line e = l @ [NL]" "NL \<notin> set l" "no_nul l" "length l \<le> 120"
    using sat_line_text [of e] Cons.prems(1) by auto
  have f: "fgets 128 (l @ NL # concat (map sat_line es)) = (l @ [NL], concat (map sat_line es))"
    by (rule fgets_line) (use l in auto)
  have "cstr_of (l @ [NL]) = l @ [NL]"
    using l(3) by (auto simp: cstr_of_def no_nul_def takeWhile_eq_all_conv NL_def)
  moreover have "\<not> is_dvbt ty" using assms(1) by (auto simp: is_dvbs_def is_dvbt_def)
  ultimately have "add_line ty ll (cstr_of (l @ [NL])) = Inr (sat_add ll e)"
    using add_sat_line(1) [of e ll] Cons.prems l(1) assms(1) by (simp add: add_line_def)
  then have "load_lines ty (concat (map sat_line (e # es))) ll
      = load_lines ty (concat (map sat_line es)) (sat_add ll e)"
    using f l(1) by (subst load_lines.simps) simp
  moreover have "freqs_ok (sat_add ll e)" "\<forall>f \<in> set (sat_add ll e). is_freqS f"
    by (rule add_sat_line; use Cons.prems in simp)+
  moreover have "\<forall>e \<in> set es. sat_ok e" using Cons.prems(1) by simp
  ultimately show ?case using Cons.IH [of "sat_add ll e"] by (simp only: foldl_Cons)
qed

section \<open>Properties\<close>

text \<open>
  C40. A printed tuning file of satellite transponders is loaded, on a satellite tuner with
  an empty list, as the list of its transponders in the order of the file, without those
  whose frequency and polarity occurred before; the identifiers are the positions and no two
  entries are the same transponder.
\<close>

theorem loadInitialFile_correct:
  assumes "is_dvbs (dvbType tuner)" and "frequency_ll tuner = []" and "\<forall>e \<in> set es. sat_ok e"
  shows "loadInitialFile tuner (Some (concat (map sat_line es)))
      = Inr (tuner\<lparr>frequency_ll := foldl sat_add [] es\<rparr>)
    \<and> freqs_ok (foldl sat_add [] es)"
  using load_sat_lines [OF assms(1,3), of "[]"] assms(2)
  by (simp add: loadInitialFile_def freqs_ok_def)

lemma loadInitialFile_correct_witness:
  "loadInitialFile (one_tuner\<lparr>frequency_ll := []\<rparr>)
      (Some (concat (map sat_line [(11720000, CHR ''H'', 29500000, ''3/4''),
                                   (11720000, CHR ''V'', 27500000, ''5/6'')])))
    = Inr ((one_tuner\<lparr>frequency_ll := []\<rparr>)
        \<lparr>frequency_ll := foldl sat_add [] [(11720000, CHR ''H'', 29500000, ''3/4''),
                                          (11720000, CHR ''V'', 27500000, ''5/6'')]\<rparr>)
    \<and> freqs_ok (foldl sat_add [] [(11720000, CHR ''H'', 29500000, ''3/4''),
                                 (11720000, CHR ''V'', 27500000, ''5/6'')])"
  by (rule loadInitialFile_correct) (simp_all add: one_tuner_def is_dvbs_def NL_def)

text \<open>
  On a tuner that stays on its frequency, a transponder of the network information table
  with a linear polarity is appended exactly when its frequency and polarity are new, and
  the list stays well formed; with a circular polarity (2 or 3) the code reads past the table
  of polarities.
\<close>

theorem addSatelliteFrequency_correct:
  assumes "last_sequence tuner = sequence_no tuner" and "freqs_ok (frequency_ll tuner)"
    and "\<forall>f \<in> set (frequency_ll tuner). is_freqS f" and "modulation \<in> {0..3}" and "pol \<in> {0..3}"
  shows "if 2 \<le> pol then addSatelliteFrequency tuner infreq sr pol modulation = Inl Overrun
    else \<exists>ll new. addSatelliteFrequency tuner infreq sr pol modulation
                = Inr (tuner\<lparr>frequency_ll := ll\<rparr>)
      \<and> freqs_ok ll \<and> freq_key new = (uint infreq, Some (if pol = 0 then CHR ''H'' else CHR ''V''))
      \<and> ll = (if freq_key new \<in> freq_key ` set (frequency_ll tuner) then frequency_ll tuner
              else frequency_ll tuner @ [set_id (int (length (frequency_ll tuner))) new])"
proof (cases "2 \<le> pol")
  case True
  then show ?thesis using assms by (simp add: addSatelliteFrequency_def at_index_def hor_vert_ISO_def)
next
  case False
  let ?p = "hor_vert_ISO ! nat pol" and ?m = "constellation_Satellite_ISO ! nat modulation"
  let ?new = "FreqS \<lparr>freq_id = 0, channels_ll = [], frequency = uint infreq,
        s_polarity = first_char ?p, s_fec = None, s_modulation = ?m @ [NUL],
        symbolrate = uint sr\<rparr>"
  have p: "pol = 0 \<or> pol = 1" using False assms(5) by auto
  have key: "freq_key ?new = (uint infreq, Some (if pol = 0 then CHR ''H'' else CHR ''V''))"
    using p by (auto simp: first_char_def hor_vert_ISO_def)
  have cmp: "compare_dvbs_entries ?new f = Inr (if freq_key f = freq_key ?new then 0 else -1)"
    if "f \<in> set (frequency_ll tuner)" for f
    using compare_dvbs_ok [of ?new f] assms(3) that by (simp add: eq_commute)
  obtain ll where ll: "append_unless (compare_dvbs_entries ?new) (frequency_ll tuner) ?new = Inr ll"
    "freqs_ok ll" "ll = (if freq_key ?new \<in> freq_key ` set (frequency_ll tuner)
        then frequency_ll tuner
        else frequency_ll tuner @ [set_id (int (length (frequency_ll tuner))) ?new])"
    using append_unless_ok [OF cmp assms(2)] by blast
  have "addSatelliteFrequency tuner infreq sr pol modulation = Inr (tuner\<lparr>frequency_ll := ll\<rparr>)"
    using assms(1,4) p ll(1)
    by (auto simp: addSatelliteFrequency_def at_index_def hor_vert_ISO_def
        constellation_Satellite_ISO_def Let_def)
  then have "\<exists>ll new. addSatelliteFrequency tuner infreq sr pol modulation
                = Inr (tuner\<lparr>frequency_ll := ll\<rparr>)
      \<and> freqs_ok ll \<and> freq_key new = (uint infreq, Some (if pol = 0 then CHR ''H'' else CHR ''V''))
      \<and> ll = (if freq_key new \<in> freq_key ` set (frequency_ll tuner) then frequency_ll tuner
              else frequency_ll tuner @ [set_id (int (length (frequency_ll tuner))) new])"
    using key ll(2,3) by (intro exI [of _ ll] exI [of _ ?new] conjI)
  with False show ?thesis by (simp only: if_False)
qed

lemma addSatelliteFrequency_correct_witness:
  "if (2::int) \<le> 1 then addSatelliteFrequency one_tuner 12000000 2750000 1 1 = Inl Overrun
    else \<exists>ll new. addSatelliteFrequency one_tuner 12000000 2750000 1 1
                = Inr (one_tuner\<lparr>frequency_ll := ll\<rparr>)
      \<and> freqs_ok ll
      \<and> freq_key new = (uint (12000000 :: u32), Some (if (1::int) = 0 then CHR ''H'' else CHR ''V''))
      \<and> ll = (if freq_key new \<in> freq_key ` set (frequency_ll one_tuner) then frequency_ll one_tuner
              else frequency_ll one_tuner @ [set_id (int (length (frequency_ll one_tuner))) new])"
  by (rule addSatelliteFrequency_correct [where pol = 1 and modulation = 1 and tuner = one_tuner
        and infreq = 12000000 and sr = 2750000])
    (simp_all add: one_tuner_def one_freq_def freqs_ok_def)

end
