(* ===== verification/Tuner.thy ===== *)
theory Tuner
  imports PidFilter Frequencies
begin

text \<open>
  Tuning and the hardware thread of \<^verbatim>\<open>src/DVB/dvbhardware.c\<close>, the start-up of the tuners from
  the configuration file, and \<^verbatim>\<open>getChannelByNumber_addRef\<close> of \<^verbatim>\<open>src/DVB/channels.c\<close>.

  What the devices and the file system answer is a record of functions; the operations
  return the device calls they make, in order. One pass of the hardware thread's endless
  loop is \<open>hw_step\<close>; the packets it hands to the section decoders and to the sessions are its
  output.
\<close>

section \<open>The environment\<close>

datatype fe_type = FE_QPSK | FE_QAM | FE_OFDM | FE_OTHER

record dvb_env =
  e_open :: "nat \<Rightarrow> string \<Rightarrow> int"     \<comment> \<open>the result of the nth open of a device\<close>
  e_fe_type :: "int \<Rightarrow> fe_type"
  e_file :: "string \<Rightarrow> string option"
  e_sysfs :: "string \<Rightarrow> string option"
  e_filter :: "int \<Rightarrow> u16 \<Rightarrow> int"
  e_frontend :: "u32 \<Rightarrow> int"
  e_voltage :: int
  e_tone :: int

section \<open>Tuning\<close>

text \<open>All filters with a device are stopped and their slots freed.\<close>

fun clear_slots :: "pid_list_t list \<Rightarrow> pid_list_t list \<times> dev_call list" where
  "clear_slots [] = ([], [])"
| "clear_slots (s # r) =
     (case clear_slots r of
        (ss, calls) \<Rightarrow>
          if demuxHandle s > 0 then (s\<lparr>pl_pid := 65535\<rparr> # ss, DMX_STOP (demuxHandle s) # calls)
          else (s # ss, calls))"

text \<open>Following the pointer to a frequency.\<close>

definition get_freq :: "dvb_device_t \<Rightarrow> nat option \<Rightarrow> (nat \<times> dvb_frequency) res" where
  "get_freq tuner p =
     (case p of
        None \<Rightarrow> Inl NullPointer
      | Some i \<Rightarrow> if i < length (frequency_ll tuner) then Inr (i, frequency_ll tuner ! i)
                 else Inl BadPointer)"

text \<open>The code reads the frequency before it compares the pointer with \<^verbatim>\<open>NULL\<close>.\<close>

definition dvbt_tune ::
  "dvb_env \<Rightarrow> dvb_device_t \<Rightarrow> nat option \<Rightarrow> (int \<times> dvb_device_t \<times> dev_call list) res" where
  "dvbt_tune env tuner freq =
     bind_res (get_freq tuner freq) (\<lambda>(i, f).
       let fr = word_of_int (frequency (base_of f)) :: u32 in
       if fr \<noteq> fe_frequency tuner then
         case f of
           FreqS _ \<Rightarrow> Inl BadPointer
         | FreqT t \<Rightarrow>
             (let (slots', stops) = clear_slots (pids tuner);
                  par = Ofdm (bandwidth_string_to_number (t_bandwidth t))
                             (fec_string_to_number (t_fec_hi t))
                             (fec_string_to_number (t_fec_lo t))
                             (modulation_to_number (t_modulation t)) in
              Inr (e_frontend env fr,
                   tuner\<lparr>pids := slots', fe_frequency := fr, fe_params := par,
                         sequence_no := sequence_no tuner + 1, curr_frequency := Some i\<rparr>,
                   stops @ [FE_SET_FRONTEND (frontendHandle tuner) fr par]))
       else Inr (0, tuner, []))"

definition SLOF :: u32 where "SLOF = 11700 * 1000"
definition LOF1 :: u32 where "LOF1 = 9750 * 1000"
definition LOF2 :: u32 where "LOF2 = 10600 * 1000"

definition dvbs_tone_voltage :: "dvb_env \<Rightarrow> int \<Rightarrow> char \<Rightarrow> bool \<Rightarrow> int \<times> dev_call list" where
  "dvbs_tone_voltage env fd polv hi_lo =
     (let v = FE_SET_VOLTAGE fd (if polv = CHR ''V'' then 13 else 18) in
      if e_voltage env < 0 then (-1, [v])
      else if e_tone env < 0 then (-1, [v, FE_SET_TONE fd hi_lo])
      else (0, [v, FE_SET_TONE fd hi_lo]))"

definition dvbs_tune ::
  "dvb_env \<Rightarrow> dvb_device_t \<Rightarrow> nat option \<Rightarrow> (int \<times> dvb_device_t \<times> dev_call list) res" where
  "dvbs_tune env tuner freq =
     bind_res (get_freq tuner freq) (\<lambda>(i, f).
       case f of
         FreqT _ \<Rightarrow> Inl BadPointer
       | FreqS s \<Rightarrow>
           (let fr = word_of_int (frequency s) :: u32 in
            if fr \<noteq> fe_frequency tuner then
              let (slots', stops) = clear_slots (pids tuner);
                  hi_lo = (\<not> fr < SLOF);
                  tuned = (if hi_lo then fr - LOF2 else fr - LOF1);
                  (_, tone) = dvbs_tone_voltage env (frontendHandle tuner) (s_polarity s) hi_lo in
              case s_fec s of
                None \<Rightarrow> Inl Uninitialised
              | Some fec \<Rightarrow>
                  (let par = Qpsk (uint (word_of_int (symbolrate s) :: u32))
                               (fec_string_to_number fec) in
                   Inr (e_frontend env tuned,
                        tuner\<lparr>lastber := 9000, pids := slots', fe_frequency := tuned,
                              fe_params := par, sequence_no := sequence_no tuner + 1,
                              curr_frequency := Some i\<rparr>,
                        stops @ tone @ [FE_SET_FRONTEND (frontendHandle tuner) tuned par]))
            else Inr (0, tuner, [])))"

section \<open>Choosing a tuner for a channel\<close>

definition tune_any ::
  "dvb_env \<Rightarrow> dvb_device_t \<Rightarrow> nat option \<Rightarrow> (int \<times> dvb_device_t \<times> dev_call list) res" where
  "tune_any env tuner freq =
     (if is_dvbt (dvbType tuner) then dvbt_tune env tuner freq
      else if is_dvbs (dvbType tuner) then dvbs_tune env tuner freq
      else Inr (0, tuner, []))"

text \<open>
  A channel matches with its network identifier and any service number but 0, on a tuner that is not busy.
  The code releases the list of channels and goes to the next frequency inside the loop over
  the channels, and releases the list of frequencies inside the loop over these; a released iterator has no
  next node. The first channel of the first frequency is looked at as meant. A second channel is
  looked at after its list was released, with the next frequency to tune to, and then its list is released
  again; so is the list of frequencies when there is a second frequency. A frequency without
  channels is entered twice, and the second time waits for its own mutex.
\<close>

definition addRef_match :: "int \<Rightarrow> dvb_device_t \<Rightarrow> channels_dvb_t \<Rightarrow> bool" where
  "addRef_match onid t c \<longleftrightarrow>
     is_id (ch_onid c) onid \<and> service_id c \<noteq> 0 \<and> state_number (currentState t) < 2"

definition addRef_take :: "dvb_device_t \<Rightarrow> dvb_device_t" where
  "addRef_take t = t\<lparr>refcnt := refcnt t + 1, currentState := st_busy\<rparr>"

definition addRef_stray :: "dvb_env \<Rightarrow> int \<Rightarrow> dvb_device_t \<Rightarrow> nat option \<Rightarrow> channels_dvb_t \<Rightarrow> 'a res" where
  "addRef_stray env onid t freq c =
     (if addRef_match onid t c then bind_res (tune_any env (addRef_take t) freq) (\<lambda>_. Inl NotLocked)
      else Inl NotLocked)"

definition addRef_again :: "dvb_env \<Rightarrow> int \<Rightarrow> dvb_device_t \<Rightarrow> dvb_frequency \<Rightarrow> 'a res" where
  "addRef_again env onid t f =
     (case channels_ll (base_of f) of
        [] \<Rightarrow> Inl NotLocked
      | c # cs \<Rightarrow>
          if addRef_match onid t c then addRef_stray env onid t (Some 1) c
          else case cs of [] \<Rightarrow> Inl NotLocked | d # _ \<Rightarrow> addRef_stray env onid t None d)"

text \<open>
  One tuner: \<open>None\<close> when the thread waits for ever, else the tuner when it was taken, and whether its list
  of frequencies is left locked, as an empty one is.
\<close>

definition addRef_tuner ::
  "dvb_env \<Rightarrow> int \<Rightarrow> dvb_device_t \<Rightarrow> ((dvb_device_t \<times> dev_call list) option \<times> bool) option res" where
  "addRef_tuner env onid t =
     (case frequency_ll t of
        [] \<Rightarrow> Inr (Some (None, True))
      | f # fs \<Rightarrow>
          (case channels_ll (base_of f) of
             [] \<Rightarrow> Inr None
           | c # cs \<Rightarrow>
               if addRef_match onid t c then
                 bind_res (tune_any env (addRef_take t) (Some 0)) (\<lambda>(_, t', calls).
                   Inr (Some (Some (t', calls), False)))
               else
                 case cs of
                   d # _ \<Rightarrow> addRef_stray env onid t (if fs = [] then None else Some 1) d
                 | [] \<Rightarrow> if fs = [] then Inr (Some (None, False)) else addRef_again env onid t (hd fs)))"

text \<open>The tuners in turn; \<open>session\<close> is the random number drawn, the last result says which lists stay locked.\<close>

fun addRef_loop ::
  "dvb_env \<Rightarrow> int \<Rightarrow> int \<Rightarrow> dvb_device_t list
   \<Rightarrow> (int \<times> dvb_device_t list \<times> dev_call list \<times> bool list) option res"
where
  "addRef_loop env onid session [] = Inr (Some (0, [], [], []))"
| "addRef_loop env onid session (t # ts) =
     bind_res (addRef_tuner env onid t) (\<lambda>r.
       case r of
         None \<Rightarrow> Inr None
       | Some (Some (t', calls), locked) \<Rightarrow> Inr (Some (session, t' # ts, calls, [locked]))
       | Some (None, locked) \<Rightarrow>
           bind_res (addRef_loop env onid session ts) (\<lambda>x.
             Inr (map_option (\<lambda>(rc, ts', calls, ls). (rc, t # ts', calls, locked # ls)) x)))"

definition getChannelByNumber_addRef ::
  "dvb_env \<Rightarrow> int \<Rightarrow> dvb_device_t list \<Rightarrow> int \<Rightarrow> int
   \<Rightarrow> (int \<times> dvb_device_t list \<times> dev_call list \<times> bool list) option res" where
  "getChannelByNumber_addRef env session tuners onid channel_id = addRef_loop env onid session tuners"

section \<open>Reading the transport stream\<close>

datatype psi_table = PAT | CAT | SDT | EIT | NIT

definition psi_of :: "u16 \<Rightarrow> psi_table option" where
  "psi_of pid =
     (if pid = 0 then Some PAT else if pid = 1 then Some CAT
      else if pid = 0x11 then Some SDT else if pid = 0x12 then Some EIT
      else if pid = 0x10 then Some NIT else None)"

definition packet_pid :: "byte list \<Rightarrow> u16" where
  "packet_pid buffer = push_bit 8 (ucast (buffer ! 1 AND 0x1f)) + ucast (buffer ! 2)"

text \<open>\<^verbatim>\<open>memmove(buffer, buffer+188, 188*4)\<close> on the buffer of five packets.\<close>

definition shift_buffer :: "byte list \<Rightarrow> byte list" where
  "shift_buffer b = take 752 (drop 188 b) @ drop 752 b"

text \<open>A packet: its PID, the decoder it is pushed to, and the bytes given to the sessions.\<close>

type_synonym packet = "u16 \<times> psi_table option \<times> byte list"

function packets :: "int \<Rightarrow> byte list \<Rightarrow> packet list" where
  "packets rc buffer =
     (if rc > 0 then
        (packet_pid buffer, psi_of (packet_pid buffer), take 188 buffer)
        # packets (rc - 188) (shift_buffer buffer)
      else [])"
  by pat_completeness auto
termination by (relation "measure (\<lambda>(rc, _). nat rc)") auto

declare packets.simps [simp del]

text \<open>
  \<open>data\<close> is what \<^verbatim>\<open>read\<close> delivered, at most 940 bytes, \<open>None\<close> an error; \<open>stack\<close> is what the
  buffer held before.
\<close>

definition dvb_read_data ::
  "byte list \<Rightarrow> dvb_device_t \<Rightarrow> byte list option \<Rightarrow> dvb_device_t \<times> packet list" where
  "dvb_read_data stack tuner data =
     (let tuner1 = (if last_sequence tuner \<noteq> sequence_no tuner
                    then tuner\<lparr>last_sequence := sequence_no tuner\<rparr> else tuner) in
      if lastStat tuner1 < 0x10 then (tuner1, [])
      else
        case data of
          None \<Rightarrow> (tuner1, [])
        | Some d \<Rightarrow> (tuner1, packets (int (length d)) (d @ drop (length d) stack)))"

section \<open>The hardware thread\<close>

text \<open>\<open>answer\<close> is the status or the error rate when the \<^verbatim>\<open>ioctl\<close> succeeds.\<close>

definition dvb_readstatus :: "dvb_device_t \<Rightarrow> int option \<Rightarrow> byte" where
  "dvb_readstatus tuner answer =
     (if frontendHandle tuner < 0 then 0
      else case answer of None \<Rightarrow> -1 | Some stat \<Rightarrow> word_of_int stat)"

definition dvb_readBer :: "dvb_device_t \<Rightarrow> int option \<Rightarrow> int" where
  "dvb_readBer tuner answer =
     (if frontendHandle tuner < 0 then 0
      else case answer of None \<Rightarrow> 0 | Some ber \<Rightarrow> ber)"

definition psi_pids :: "u16 list" where
  "psi_pids = [0x0, 0x1, 0x10, 0x11, 0x12]"

fun add_pids ::
  "dvb_env \<Rightarrow> u16 list \<Rightarrow> dvb_device_t \<Rightarrow> dvb_device_t \<times> dev_call list" where
  "add_pids env [] tuner = (tuner, [])"
| "add_pids env (p # ps) tuner =
     (case AddPID_to_Demux (e_filter env) tuner p of
        (_, tuner1, c1) \<Rightarrow>
          (case add_pids env ps tuner1 of (tuner2, c2) \<Rightarrow> (tuner2, c1 @ c2)))"

record hw_state =
  hw_tuner :: dvb_device_t
  hw_id :: int
  hw_cnt :: int

text \<open>The part under \<^verbatim>\<open>cnt >= CONT_TIME * 5\<close>: the next frequency of an idle tuner.\<close>

definition scan_next :: "dvb_env \<Rightarrow> hw_state \<Rightarrow> (hw_state \<times> dev_call list) res" where
  "scan_next env st =
     (let tuner = hw_tuner st; st0 = st\<lparr>hw_cnt := 0\<rparr> in
      if is_dvbt (dvbType tuner) \<and> currentState tuner = st_idle then
        (case getInitialTuning_dvbt tuner (hw_id st) of
           None \<Rightarrow> Inr (st0\<lparr>hw_id := 0\<rparr>, [])
         | Some i \<Rightarrow>
             bind_res (dvbt_tune env tuner (Some i)) (\<lambda>(_, tuner1, c1).
               case (if currentState tuner1 = st_idle then add_pids env psi_pids tuner1
                     else (tuner1, [])) of
                 (tuner2, c2) \<Rightarrow>
                   Inr (st0\<lparr>hw_tuner := tuner2, hw_id := hw_id st + 1\<rparr>, c1 @ c2)))
      else if is_dvbs (dvbType tuner) \<and> currentState tuner = st_idle then
        (case getInitialTuning_dvbs tuner (hw_id st) of
           None \<Rightarrow> Inr (st0\<lparr>hw_id := 0\<rparr>, [])
         | Some i \<Rightarrow>
             bind_res (dvbs_tune env tuner (Some i)) (\<lambda>(z, tuner1, c1).
               if z < 0 then Inr (st0\<lparr>hw_tuner := tuner1, hw_id := hw_id st + 1\<rparr>, c1)
               else
                 case (if currentState tuner1 = st_idle then add_pids env psi_pids tuner1
                       else (tuner1, [])) of
                   (tuner2, c2) \<Rightarrow>
                     Inr (st0\<lparr>hw_tuner := tuner2, hw_id := hw_id st + 1\<rparr>, c1 @ c2)))
      else Inr (st0, []))"

text \<open>Where the thread starts.\<close>

definition hw_start :: "dvb_device_t \<Rightarrow> hw_state" where
  "hw_start tuner = \<lparr>hw_tuner = tuner\<lparr>currentState := st_idle\<rparr>, hw_id = 0, hw_cnt = 0\<rparr>"

text \<open>
  What one pass sees: data when the poll says so, whether more than 500 ms have gone by,
  the answers of the two status calls. \<^verbatim>\<open>CONT_TIME * 2\<close> and \<^verbatim>\<open>CONT_TIME * 5\<close> are 10 and 25.
\<close>

record hw_input =
  i_poll :: bool
  i_data :: "byte list option"
  i_due :: bool
  i_ber :: "int option"
  i_stat :: "int option"

definition hw_step ::
  "dvb_env \<Rightarrow> byte list \<Rightarrow> hw_state \<Rightarrow> hw_input \<Rightarrow> (hw_state \<times> dev_call list \<times> packet list) res"
where
  "hw_step env stack st inp =
     (let (tuner1, out) = (if i_poll inp then dvb_read_data stack (hw_tuner st) (i_data inp)
                           else (hw_tuner st, [])) in
      if \<not> i_due inp then Inr (st\<lparr>hw_tuner := tuner1\<rparr>, [], out)
      else
        let tuner2 = tuner1\<lparr>lastStat := uint (dvb_readstatus tuner1 (i_stat inp)),
                            lastber := dvb_readBer tuner1 (i_ber inp)\<rparr>;
            cnt1 = hw_cnt st + 1;
            cnt2 = (if lastStat tuner2 < 0x1F \<and> cnt1 > 10 then 25 else cnt1);
            st1 = st\<lparr>hw_tuner := tuner2, hw_cnt := cnt2\<rparr> in
        if cnt2 \<ge> 25 then
          bind_res (scan_next env st1) (\<lambda>(st2, calls). Inr (st2, calls, out))
        else Inr (st1, [], out))"

section \<open>Start-up\<close>

text \<open>A name in an array; without a terminating zero it runs on into the next field.\<close>

definition array_str :: "char list \<Rightarrow> string res" where
  "array_str a = (if NUL \<in> set a then Inr (cstr_of a) else Inl Overrun)"

definition initDVBDevice ::
  "dvb_env \<Rightarrow> dvb_device_t \<Rightarrow> (int \<times> dvb_device_t \<times> dev_call list) res" where
  "initDVBDevice env tuner =
     bind_res (array_str (frontendDevice tuner)) (\<lambda>fe.
     bind_res (array_str (dvrDevice tuner)) (\<lambda>dvrname.
     Inr (let h = e_open env 0 fe;
          tuner1 = tuner\<lparr>dvbType := None, frontendHandle := h\<rparr> in
      if h > 0 then
        let ty = (case e_fe_type env h of FE_QPSK \<Rightarrow> dvb_s2 | FE_QAM \<Rightarrow> dvb_cable | _ \<Rightarrow> dvb_t2);
            dvr = e_open env 0 dvrname in
        if dvr < 0
        then (-1, tuner1\<lparr>dvrHandle := dvr, frontendHandle := -1, dvbType := None\<rparr>, [CLOSE h])
        else (h, tuner1\<lparr>dvrHandle := dvr, dvbType := Some ty\<rparr>, [])
      else (h, tuner1, []))))"

text \<open>\<^verbatim>\<open>strncpy\<close> of a configured name into an array of \<open>n\<close> characters, when it is set.\<close>

definition config_string ::
  "bool \<Rightarrow> dictionary option \<Rightarrow> nat \<Rightarrow> string \<Rightarrow> nat \<Rightarrow> char list \<Rightarrow> char list res" where
  "config_string sc ini loop field n dst =
     bind_res (iniparser_getstring sc ini
                 (Some (''tuner_'' @ show_nat loop @ '':'' @ field)) Null) (\<lambda>p.
       Inr (case p of Str s \<Rightarrow> c_strncpy n dst s | _ \<Rightarrow> dst))"

definition config_device ::
  "bool \<Rightarrow> dictionary option \<Rightarrow> dvb_env \<Rightarrow> nat \<Rightarrow> dvb_device_t \<Rightarrow> dvb_device_t res" where
  "config_device sc ini env loop d =
     bind_res (config_string sc ini loop ''frontend'' 32 (frontendDevice d)) (\<lambda>fe.
     bind_res (config_string sc ini loop ''dvr'' 32 (dvrDevice d)) (\<lambda>dvr.
     bind_res (config_string sc ini loop ''demux'' 32 (demuxDevice d)) (\<lambda>dmx.
     bind_res (config_string sc ini loop ''initialtuning'' 256 (initialTuning d)) (\<lambda>init.
     bind_res (array_str dmx) (\<lambda>dmxname.
       Inr (d\<lparr>frontendDevice := fe, dvrDevice := dvr, demuxDevice := dmx, initialTuning := init,
              logicalNumber := of_nat loop, refcnt := 0, currentState := st_none,
              sequence_no := 0, frequency_ll := [],
              pids := map (\<lambda>k. \<lparr>pl_pid = 65535, demuxHandle = e_open env k dmxname\<rparr>)
                        [0..<MAX_FILTER_PID]\<rparr>))))))"

definition start_device :: "dvb_env \<Rightarrow> dvb_device_t \<Rightarrow> (dvb_device_t \<times> dev_call list) res" where
  "start_device env d =
     bind_res (array_str (frontendDevice d)) (\<lambda>fe.
      if fe = [] then Inr (d, [])
      else
        bind_res (getDVB_Serial (e_sysfs env) fe) (\<lambda>sn.
        bind_res (initDVBDevice env (d\<lparr>serial := sn\<rparr>)) (\<lambda>(_, d1, c1).
        bind_res (array_str (initialTuning d1)) (\<lambda>file.
        bind_res (loadInitialFile d1 (e_file env file)) (\<lambda>d2.
        bind_res
          (if is_dvbt (dvbType d2) then dvbt_tune env d2 (getInitialTuning_dvbt d2 0)
           else if is_dvbs (dvbType d2) then dvbs_tune env d2 (getInitialTuning_dvbs d2 0)
           else Inr (0, d2, [])) (\<lambda>(_, d3, c3).
          case add_pids env psi_pids d3 of (d4, c4) \<Rightarrow> Inr (d4, c1 @ c3 @ c4)))))))"

fun config_all ::
  "bool \<Rightarrow> dictionary option \<Rightarrow> dvb_env \<Rightarrow> nat \<Rightarrow> dvb_device_t list \<Rightarrow> dvb_device_t list res"
where
  "config_all sc ini env loop [] = Inr []"
| "config_all sc ini env loop (d # ds) =
     bind_res (config_device sc ini env loop d) (\<lambda>d'.
     bind_res (config_all sc ini env (Suc loop) ds) (\<lambda>ds'. Inr (d' # ds')))"

fun start_all :: "dvb_env \<Rightarrow> dvb_device_t list \<Rightarrow> (dvb_device_t list \<times> dev_call list) res" where
  "start_all env [] = Inr ([], [])"
| "start_all env (d # ds) =
     bind_res (start_device env d) (\<lambda>(d', c).
     bind_res (start_all env ds) (\<lambda>(ds', cs). Inr (d' # ds', c @ cs)))"

text \<open>\<open>ini\<close> is the loaded configuration, \<open>None\<close> when it could not be loaded.\<close>

definition dvb_getTunerConfigs ::
  "bool \<Rightarrow> dictionary option \<Rightarrow> dvb_env \<Rightarrow> dvb_device_t list
   \<Rightarrow> (dvb_device_t list \<times> dev_call list) res" where
  "dvb_getTunerConfigs sc ini env devices =
     bind_res (case ini of None \<Rightarrow> Inr devices | Some _ \<Rightarrow> config_all sc ini env 0 devices) (\<lambda>ds.
       start_all env ds)"

section \<open>Lemmas\<close>

lemma clear_slots_eq:
  "clear_slots ss =
     (map (\<lambda>s. if demuxHandle s > 0 then s\<lparr>pl_pid := 65535\<rparr> else s) ss,
      map (\<lambda>s. DMX_STOP (demuxHandle s)) (filter (\<lambda>s. demuxHandle s > 0) ss))"
  by (induction ss) auto

lemma distinct_filter_map_if:
  "distinct (filter P (map f xs)) \<Longrightarrow> (\<And>x. P (g x) \<Longrightarrow> g x = f x)
   \<Longrightarrow> distinct (filter P (map g xs))"
proof (induction xs)
  case (Cons x xs)
  have sub: "set (filter P (map g xs)) \<subseteq> set (filter P (map f xs))"
    using Cons.prems(2) by (fastforce simp: image_iff)
  show ?case
  proof (cases "P (g x)")
    case True
    then have e: "g x = f x" "P (f x)" using Cons.prems(2) [OF True] by simp_all
    with Cons.prems(1) have d: "f x \<notin> set (filter P (map f xs))" "distinct (filter P (map f xs))"
      by (simp_all del: set_filter set_map)
    have "distinct (filter P (map g xs))" by (rule Cons.IH [OF d(2) Cons.prems(2)])
    moreover have "f x \<notin> set (filter P (map g xs))" using d(1) sub by blast
    ultimately show ?thesis using e by (simp del: set_filter set_map)
  next
    case False
    have "distinct (filter P (map f xs))" using Cons.prems(1) by (simp split: if_splits)
    then have "distinct (filter P (map g xs))" by (rule Cons.IH [OF _ Cons.prems(2)])
    with False show ?thesis by simp
  qed
qed simp

lemma pid_ok_clear:
  assumes "pid_ok t"
  shows "pid_ok (t\<lparr>pids := fst (clear_slots (pids t))\<rparr>)"
proof -
  let ?c = "\<lambda>s. if demuxHandle s > 0 then s\<lparr>pl_pid := 65535\<rparr> else s"
  have slots: "pids (t\<lparr>pids := fst (clear_slots (pids t))\<rparr>) = map ?c (pids t)"
    by (simp add: clear_slots_eq)
  have d: "distinct (filter (\<lambda>p. p \<noteq> 65535) (map pl_pid (pids t)))"
    and b: "\<forall>s \<in> set (pids t). 0 \<le> pl_pid s \<and> pl_pid s \<le> 65535"
    and l: "length (pids t) = MAX_FILTER_PID"
    using assms unfolding pid_ok_def by blast+
  have "distinct (filter (\<lambda>p. p \<noteq> 65535) (map (\<lambda>s. pl_pid (?c s)) (pids t)))"
    by (rule distinct_filter_map_if [OF d]) (simp split: if_splits)
  then have "distinct (filter (\<lambda>p. p \<noteq> 65535) (map pl_pid (map ?c (pids t))))"
    unfolding map_map comp_def .
  moreover have "0 \<le> pl_pid (?c s) \<and> pl_pid (?c s) \<le> 65535" if "s \<in> set (pids t)" for s
    using b that by simp
  then have "\<forall>s \<in> set (map ?c (pids t)). 0 \<le> pl_pid s \<and> pl_pid s \<le> 65535"
    unfolding set_map by blast
  ultimately show ?thesis unfolding pid_ok_def slots length_map using l by blast
qed

lemma pid_ok_cong: "pids t' = pids t \<Longrightarrow> pid_ok t' = pid_ok t"
  by (simp add: pid_ok_def)

lemma tables_ok_cong:
  "frequency_ll t' = frequency_ll t \<Longrightarrow> curr_frequency t' = curr_frequency t
   \<Longrightarrow> tables_ok t' = tables_ok t"
  by (simp add: tables_ok_def)

text \<open>What every kind of tuning leaves alone, and what it keeps.\<close>

lemma get_freq_Inr: "get_freq t p = Inr (i, f) \<Longrightarrow>
    p = Some i \<and> i < length (frequency_ll t) \<and> f = frequency_ll t ! i"
  by (auto simp: get_freq_def split: option.splits if_splits)

lemma dvbt_tune_keeps:
  assumes "dvbt_tune env t p = Inr (rc, t', calls)"
  shows "frequency_ll t' = frequency_ll t" "currentState t' = currentState t"
    "dvbType t' = dvbType t" "refcnt t' = refcnt t"
    "pid_ok t \<Longrightarrow> pid_ok t'" "tables_ok t \<Longrightarrow> tables_ok t'"
proof -
  obtain i f where g: "get_freq t p = Inr (i, f)"
    using assms by (auto simp: dvbt_tune_def bind_res_Inr)
  note gf = get_freq_Inr [OF g]
  have c: "pid_ok t \<Longrightarrow> pid_ok (t\<lparr>pids := fst (clear_slots (pids t))\<rparr>)" by (rule pid_ok_clear)
  show "frequency_ll t' = frequency_ll t" "currentState t' = currentState t"
    "dvbType t' = dvbType t" "refcnt t' = refcnt t"
    using assms g
    by (auto simp: dvbt_tune_def Let_def split: if_splits prod.splits dvb_frequency.splits)
  show "pid_ok t \<Longrightarrow> pid_ok t'"
    using assms g c
    by (auto simp: dvbt_tune_def Let_def pid_ok_def split: if_splits prod.splits dvb_frequency.splits)
  show "tables_ok t \<Longrightarrow> tables_ok t'"
    using assms g gf
    by (auto simp: dvbt_tune_def Let_def tables_ok_def
        split: if_splits prod.splits dvb_frequency.splits)
qed

lemma dvbs_tune_keeps:
  assumes "dvbs_tune env t p = Inr (rc, t', calls)"
  shows "frequency_ll t' = frequency_ll t" "currentState t' = currentState t"
    "dvbType t' = dvbType t" "refcnt t' = refcnt t"
    "pid_ok t \<Longrightarrow> pid_ok t'" "tables_ok t \<Longrightarrow> tables_ok t'"
proof -
  obtain i f where g: "get_freq t p = Inr (i, f)"
    using assms by (auto simp: dvbs_tune_def bind_res_Inr)
  note gf = get_freq_Inr [OF g]
  have c: "pid_ok t \<Longrightarrow> pid_ok (t\<lparr>pids := fst (clear_slots (pids t))\<rparr>)" by (rule pid_ok_clear)
  show "frequency_ll t' = frequency_ll t" "currentState t' = currentState t"
    "dvbType t' = dvbType t" "refcnt t' = refcnt t"
    using assms g
    by (auto simp: dvbs_tune_def Let_def
        split: if_splits prod.splits dvb_frequency.splits option.splits)
  show "pid_ok t \<Longrightarrow> pid_ok t'"
    using assms g c
    by (auto simp: dvbs_tune_def Let_def pid_ok_def
        split: if_splits prod.splits dvb_frequency.splits option.splits)
  show "tables_ok t \<Longrightarrow> tables_ok t'"
    using assms g gf
    by (auto simp: dvbs_tune_def Let_def tables_ok_def
        split: if_splits prod.splits dvb_frequency.splits option.splits)
qed

lemma add_pid_keeps:
  assumes "AddPID_to_Demux rc t p = (r, t', c)"
  shows "frequency_ll t' = frequency_ll t" "currentState t' = currentState t"
    "dvbType t' = dvbType t" "curr_frequency t' = curr_frequency t"
    "sequence_no t' = sequence_no t"
  using assms
  by (auto simp: AddPID_to_Demux_def set_pid_def Let_def split: if_splits option.splits)

lemma add_pids_keeps:
  assumes "add_pids env ps t = (t', c)"
  shows "frequency_ll t' = frequency_ll t \<and> currentState t' = currentState t
    \<and> dvbType t' = dvbType t \<and> curr_frequency t' = curr_frequency t
    \<and> (pid_ok t \<longrightarrow> 65535 \<notin> set ps \<longrightarrow> pid_ok t')"
  using assms
proof (induction ps arbitrary: t t' c)
  case (Cons p ps)
  obtain r t1 c1 where 1: "AddPID_to_Demux (e_filter env) t p = (r, t1, c1)"
    by (metis prod_cases3)
  obtain t2 c2 where 2: "add_pids env ps t1 = (t2, c2)" by force
  have "t' = t2" using Cons.prems 1 2 by simp
  with Cons.IH [OF 2] add_pid_keeps [OF 1] AddPID_ok [OF _ _ 1] show ?case by auto
qed simp

section \<open>Runs of the hardware thread\<close>

inductive hw_reach :: "dvb_env \<Rightarrow> byte list \<Rightarrow> dvb_device_t \<Rightarrow> hw_state \<Rightarrow> bool"
  for env stack tuner where
  start: "hw_reach env stack tuner (hw_start tuner)"
| pass: "hw_reach env stack tuner st \<Longrightarrow> hw_step env stack st inp = Inr (st', calls, out)
     \<Longrightarrow> hw_reach env stack tuner st'"

definition hw_inv :: "hw_state \<Rightarrow> bool" where
  "hw_inv st \<longleftrightarrow> pid_ok (hw_tuner st) \<and> tables_ok (hw_tuner st)
     \<and> 0 \<le> hw_cnt st \<and> hw_cnt st < 25
     \<and> 0 \<le> hw_id st \<and> hw_id st \<le> int (length (frequency_ll (hw_tuner st)))"

lemma psi_pids_valid: "65535 \<notin> set psi_pids"
  by (simp add: psi_pids_def)

lemma getInitialTuning_Some:
  "getInitialTuning_dvbt t i = Some j \<Longrightarrow> 0 \<le> i \<and> i < int (length (frequency_ll t))"
  "getInitialTuning_dvbs t i = Some j \<Longrightarrow> 0 \<le> i \<and> i < int (length (frequency_ll t))"
  by (auto simp: getInitialTuning_dvbt_def getInitialTuning_dvbs_def nth_frequency_eq
      split: if_splits)

lemma scan_next_inv:
  assumes "scan_next env st = Inr (st', calls)"
    and "pid_ok (hw_tuner st)" "tables_ok (hw_tuner st)"
    and "0 \<le> hw_id st" "hw_id st \<le> int (length (frequency_ll (hw_tuner st)))"
  shows "hw_inv st'"
proof -
  let ?t = "hw_tuner st"
  have keep: "hw_inv st'"
    if "hw_tuner st' = t2" "hw_id st' = hw_id st + 1" "hw_cnt st' = 0"
      "pid_ok t2" "tables_ok t2" "frequency_ll t2 = frequency_ll ?t"
      "hw_id st < int (length (frequency_ll ?t))" for t2
    using that assms(4) by (simp add: hw_inv_def)
  have pids: "pid_ok t2 \<and> tables_ok t2 \<and> frequency_ll t2 = frequency_ll t1"
    if "(if c then add_pids env psi_pids t1 else (t1, [])) = (t2, cs)" "pid_ok t1" "tables_ok t1"
    for c t1 t2 cs
    using that add_pids_keeps [of env psi_pids t1 t2 cs] psi_pids_valid tables_ok_cong [of t2 t1]
    by (auto split: if_splits)
  consider (t) i where "is_dvbt (dvbType ?t)" "currentState ?t = st_idle"
      "getInitialTuning_dvbt ?t (hw_id st) = Some i"
    | (s) i where "\<not> is_dvbt (dvbType ?t)" "is_dvbs (dvbType ?t)" "currentState ?t = st_idle"
      "getInitialTuning_dvbs ?t (hw_id st) = Some i"
    | (no) "hw_tuner st' = ?t" "hw_cnt st' = 0" "hw_id st' = 0 \<or> hw_id st' = hw_id st"
    using assms(1) by (auto simp: scan_next_def Let_def split: if_splits option.splits)
  then show ?thesis
  proof cases
    case t
    with assms(1) have "\<not> isl (dvbt_tune env ?t (Some i))"
      by (cases "dvbt_tune env ?t (Some i)") (simp_all add: scan_next_def Let_def)
    then obtain rc t1 c1 where 1: "dvbt_tune env ?t (Some i) = Inr (rc, t1, c1)"
      by (cases "dvbt_tune env ?t (Some i)") auto
    obtain t2 c2 where
      2: "(if currentState t1 = st_idle then add_pids env psi_pids t1 else (t1, [])) = (t2, c2)"
      by force
    with assms(1) t 1
    have st': "hw_tuner st' = t2" "hw_id st' = hw_id st + 1" "hw_cnt st' = 0"
      by (auto simp: scan_next_def Let_def)
    note k = dvbt_tune_keeps [OF 1]
    from keep [OF st'] pids [OF 2] k(1,5,6) assms(2,3) getInitialTuning_Some(1) [OF t(3)]
    show ?thesis by simp
  next
    case s
    with assms(1) have "\<not> isl (dvbs_tune env ?t (Some i))"
      by (cases "dvbs_tune env ?t (Some i)") (simp_all add: scan_next_def Let_def)
    then obtain rc t1 c1 where 1: "dvbs_tune env ?t (Some i) = Inr (rc, t1, c1)"
      by (cases "dvbs_tune env ?t (Some i)") auto
    note k = dvbs_tune_keeps [OF 1]
    obtain t2 c2 where
      2: "(if 0 \<le> rc \<and> currentState t1 = st_idle then add_pids env psi_pids t1 else (t1, []))
          = (t2, c2)"
      by force
    with assms(1) s 1
    have st': "hw_tuner st' = t2" "hw_id st' = hw_id st + 1" "hw_cnt st' = 0"
      by (auto simp: scan_next_def Let_def split: if_splits prod.splits)
    from keep [OF st'] pids [OF 2] k(1,5,6) assms(2,3) getInitialTuning_Some(2) [OF s(4)]
    show ?thesis by simp
  next
    case no
    with assms show ?thesis by (auto simp: hw_inv_def)
  qed
qed

lemma read_data_keeps:
  assumes "dvb_read_data stack t data = (t', out)"
  shows "frequency_ll t' = frequency_ll t \<and> pids t' = pids t \<and> curr_frequency t' = curr_frequency t
    \<and> currentState t' = currentState t \<and> dvbType t' = dvbType t \<and> sequence_no t' = sequence_no t
    \<and> fe_frequency t' = fe_frequency t"
  using assms by (auto simp: dvb_read_data_def Let_def split: if_splits option.splits)

lemma hw_step_inv:
  assumes "hw_step env stack st inp = Inr (st', calls, out)" "hw_inv st"
  shows "hw_inv st'"
proof -
  obtain t1 out1 where 1: "(if i_poll inp then dvb_read_data stack (hw_tuner st) (i_data inp)
      else (hw_tuner st, [])) = (t1, out1)" by force
  then have k: "frequency_ll t1 = frequency_ll (hw_tuner st)" "pids t1 = pids (hw_tuner st)"
    "curr_frequency t1 = curr_frequency (hw_tuner st)"
    using read_data_keeps by (auto split: if_splits)
  have ok: "pid_ok t1" "tables_ok t1"
    using assms(2) pid_ok_cong [OF k(2)] tables_ok_cong [OF k(1,3)] by (simp_all add: hw_inv_def)
  let ?t2 = "t1\<lparr>lastStat := uint (dvb_readstatus t1 (i_stat inp)),
                lastber := dvb_readBer t1 (i_ber inp)\<rparr>"
  let ?c1 = "hw_cnt st + 1"
  let ?c2 = "if lastStat ?t2 < 0x1F \<and> ?c1 > 10 then 25 else ?c1"
  let ?st1 = "st\<lparr>hw_tuner := ?t2, hw_cnt := ?c2\<rparr>"
  have ok2: "pid_ok ?t2" "tables_ok ?t2"
    using ok pid_ok_cong [of ?t2 t1] tables_ok_cong [of ?t2 t1] by simp_all
  show ?thesis
  proof (cases "i_due inp \<and> ?c2 \<ge> 25")
    case True
    then have "\<exists>c. scan_next env ?st1 = Inr (st', c)"
      using assms(1) 1 by (auto simp: hw_step_def Let_def bind_res_Inr)
    then obtain c where sn: "scan_next env ?st1 = Inr (st', c)" by blast
    show ?thesis
      by (rule scan_next_inv [OF sn]) (use ok2 assms(2) k in \<open>simp_all add: hw_inv_def\<close>)
  next
    case False
    then have "st' = (if i_due inp then ?st1 else st\<lparr>hw_tuner := t1\<rparr>)"
      using assms(1) 1 by (auto simp: hw_step_def Let_def)
    with False ok ok2 assms(2) k show ?thesis by (auto simp: hw_inv_def)
  qed
qed

section \<open>Properties\<close>

text \<open>
  C25. In every state the hardware thread reaches, whatever the devices answer, the filter
  table has no duplicates and at most 32 PIDs, the current frequency and the next one to scan
  lie in the tuner's list, and its wait counter is below 25.
\<close>

theorem hw_thread_invariant:
  assumes "hw_reach env stack tuner st" and "pid_ok tuner" and "tables_ok tuner"
  shows "pid_ok (hw_tuner st) \<and> tables_ok (hw_tuner st)
    \<and> 0 \<le> hw_cnt st \<and> hw_cnt st < 25
    \<and> 0 \<le> hw_id st \<and> hw_id st \<le> int (length (frequency_ll (hw_tuner st)))"
proof -
  have "hw_inv st"
    using assms(1)
  proof induction
    case start
    have "pid_ok (tuner\<lparr>currentState := st_idle\<rparr>)" "tables_ok (tuner\<lparr>currentState := st_idle\<rparr>)"
      using assms(2,3) pid_ok_cong [of "tuner\<lparr>currentState := st_idle\<rparr>" tuner]
        tables_ok_cong [of "tuner\<lparr>currentState := st_idle\<rparr>" tuner] by simp_all
    then show ?case by (simp add: hw_inv_def hw_start_def)
  next
    case (pass st inp st' calls out)
    then show ?case using hw_step_inv by blast
  qed
  then show ?thesis by (simp add: hw_inv_def)
qed

definition quiet_env :: dvb_env where
  "quiet_env = \<lparr>e_open = (\<lambda>_ _. 3), e_fe_type = (\<lambda>_. FE_QPSK), e_file = (\<lambda>_. None),
     e_sysfs = (\<lambda>_. None), e_filter = (\<lambda>_ _. 0), e_frontend = (\<lambda>_. 0), e_voltage = 0,
     e_tone = 0\<rparr>"

lemma hw_thread_invariant_witness:
  "pid_ok (hw_tuner (hw_start one_tuner)) \<and> tables_ok (hw_tuner (hw_start one_tuner))
    \<and> 0 \<le> hw_cnt (hw_start one_tuner) \<and> hw_cnt (hw_start one_tuner) < 25
    \<and> 0 \<le> hw_id (hw_start one_tuner)
    \<and> hw_id (hw_start one_tuner) \<le> int (length (frequency_ll (hw_tuner (hw_start one_tuner))))"
  by (rule hw_thread_invariant [of quiet_env "[]" one_tuner])
    (simp_all add: hw_reach.start)

text \<open>
  The hardware thread never retunes a tuner that is not idle: a pass then makes no device
  call and leaves the frequency, the sequence number and the filters as they are.
\<close>

theorem hw_step_busy:
  assumes "hw_step env stack st inp = Inr (st', calls, out)"
    and "currentState (hw_tuner st) \<noteq> st_idle"
  shows "calls = [] \<and> currentState (hw_tuner st') = currentState (hw_tuner st)
    \<and> curr_frequency (hw_tuner st') = curr_frequency (hw_tuner st)
    \<and> sequence_no (hw_tuner st') = sequence_no (hw_tuner st)
    \<and> fe_frequency (hw_tuner st') = fe_frequency (hw_tuner st)
    \<and> pids (hw_tuner st') = pids (hw_tuner st)"
proof -
  obtain t1 out1 where 1: "(if i_poll inp then dvb_read_data stack (hw_tuner st) (i_data inp)
      else (hw_tuner st, [])) = (t1, out1)" by force
  then have k: "currentState t1 = currentState (hw_tuner st)" "pids t1 = pids (hw_tuner st)"
    "curr_frequency t1 = curr_frequency (hw_tuner st)" "sequence_no t1 = sequence_no (hw_tuner st)"
    "fe_frequency t1 = fe_frequency (hw_tuner st)"
    using read_data_keeps by (auto split: if_splits)
  then show ?thesis
    using assms 1 by (auto simp: hw_step_def scan_next_def Let_def split: if_splits)
qed

lemma hw_step_busy_witness:
  "\<exists>st' calls out. hw_step quiet_env [] \<lparr>hw_tuner = one_tuner\<lparr>currentState := st_busy\<rparr>,
        hw_id = 0, hw_cnt = 24\<rparr> \<lparr>i_poll = False, i_data = None, i_due = True, i_ber = Some 0,
        i_stat = Some 0\<rparr> = Inr (st', calls, out) \<and> calls = []"
proof -
  let ?st = "\<lparr>hw_tuner = one_tuner\<lparr>currentState := st_busy\<rparr>, hw_id = 0, hw_cnt = 24\<rparr>"
  let ?inp = "\<lparr>i_poll = False, i_data = None, i_due = True, i_ber = Some 0, i_stat = Some 0\<rparr>"
  obtain st' calls out where s: "hw_step quiet_env [] ?st ?inp = Inr (st', calls, out)"
    by (simp add: hw_step_def scan_next_def Let_def)
  have "currentState (hw_tuner ?st) \<noteq> st_idle" by simp
  from hw_step_busy [OF s this] s show ?thesis by blast
qed

text \<open>
  Tuning a DVB-T tuner to the frequency it is on does nothing. A satellite tuner, which
  keeps the intermediate frequency, never recognises the frequency it is on: tuning it a
  second time stops all its filters, starts a new sequence and sets the frontend again.
\<close>

theorem tune_again:
  assumes "frequency_ll tuner ! i = FreqS s" and "s_fec s \<noteq> None"
    and "dvbs_tune env tuner (Some i) = Inr (rc, tuner1, calls)"
    and "word_of_int (frequency s) \<noteq> fe_frequency tuner"
  shows "\<exists>rc2 tuner2 calls2. dvbs_tune env tuner1 (Some i) = Inr (rc2, tuner2, calls2)
    \<and> sequence_no tuner2 = sequence_no tuner1 + 1
    \<and> FE_SET_FRONTEND (frontendHandle tuner1) (fe_frequency tuner2) (fe_params tuner2) \<in> set calls2
    \<and> (\<forall>p \<in> set (pids tuner2). demuxHandle p > 0 \<longrightarrow> pl_pid p = 65535)
    \<and> (\<forall>t j rc' t' c. dvbt_tune env t (Some j) = Inr (rc', t', c)
         \<longrightarrow> dvbt_tune env t' (Some j) = Inr (0, t', []))"
proof -
  let ?fr = "word_of_int (frequency s) :: u32"
  obtain fec where fec: "s_fec s = Some fec" using assms(2) by auto
  have i: "i < length (frequency_ll tuner)"
    using assms(3) by (auto simp: dvbs_tune_def get_freq_def split: if_splits)
  have same: "frequency_ll tuner1 = frequency_ll tuner" by (rule dvbs_tune_keeps(1) [OF assms(3)])
  have "?fr - LOF1 \<noteq> ?fr" "?fr - LOF2 \<noteq> ?fr" by (simp_all add: LOF1_def LOF2_def)
  then have ne: "?fr \<noteq> fe_frequency tuner1"
    using assms i fec by (auto simp: dvbs_tune_def get_freq_def Let_def split: prod.splits if_splits)
  let ?tuned = "if \<not> ?fr < SLOF then ?fr - LOF2 else ?fr - LOF1"
  obtain slots stops where cl: "clear_slots (pids tuner1) = (slots, stops)" by force
  obtain z tone where tn: "dvbs_tone_voltage env (frontendHandle tuner1) (s_polarity s) (\<not> ?fr < SLOF)
      = (z, tone)" by force
  let ?par = "Qpsk (uint (word_of_int (symbolrate s) :: u32)) (fec_string_to_number fec)"
  let ?t2 = "tuner1\<lparr>lastber := 9000, pids := slots, fe_frequency := ?tuned,
                    fe_params := ?par, sequence_no := sequence_no tuner1 + 1,
                    curr_frequency := Some i\<rparr>"
  have "dvbs_tune env tuner1 (Some i) = Inr (e_frontend env ?tuned, ?t2,
      stops @ tone @ [FE_SET_FRONTEND (frontendHandle tuner1) ?tuned ?par])"
    using i ne cl tn fec by (simp add: dvbs_tune_def get_freq_def same assms(1) Let_def)
  moreover have "\<forall>p \<in> set slots. demuxHandle p > 0 \<longrightarrow> pl_pid p = 65535"
    using cl by (auto simp: clear_slots_eq)
  moreover have "dvbt_tune env t' (Some j) = Inr (0, t', [])"
    if t: "dvbt_tune env t (Some j) = Inr (rc', t', c)" for t j rc' t' c
  proof -
    note k = dvbt_tune_keeps(1) [OF t]
    show ?thesis
      using t unfolding dvbt_tune_def get_freq_def k
      by (auto simp: Let_def bind_res_Inr split: if_splits prod.splits dvb_frequency.splits)
  qed
  ultimately show ?thesis by (intro exI conjI) auto
qed

lemma tune_again_witness:
  "\<exists>rc tuner1 calls rc2 tuner2 calls2.
      dvbs_tune quiet_env one_tuner (Some 0) = Inr (rc, tuner1, calls)
    \<and> dvbs_tune quiet_env tuner1 (Some 0) = Inr (rc2, tuner2, calls2)
    \<and> sequence_no tuner2 = sequence_no tuner1 + 1"
proof -
  let ?s = "\<lparr>freq_id = 0, channels_ll = [new_channel 4 257], frequency = 11720000,
     s_polarity = CHR ''H'', s_fec = Some ''3/4'', s_modulation = [], symbolrate = 29500000\<rparr>"
  have "\<not> isl (dvbs_tune quiet_env one_tuner (Some 0))"
    by (simp add: dvbs_tune_def get_freq_def one_tuner_def one_freq_def Let_def case_prod_beta)
  then obtain rc tuner1 calls
    where t: "dvbs_tune quiet_env one_tuner (Some 0) = Inr (rc, tuner1, calls)"
    by (cases "dvbs_tune quiet_env one_tuner (Some 0)") auto
  have "frequency_ll one_tuner ! 0 = FreqS ?s" "s_fec ?s \<noteq> None"
    "word_of_int (frequency ?s) \<noteq> fe_frequency one_tuner"
    by (simp_all add: one_tuner_def one_freq_def)
  from tune_again [OF this(1,2) t this(3)] t show ?thesis by blast
qed

text \<open>The PID is the 13 bit number of the second and third byte.\<close>

lemma packet_pid_value:
  "uint (packet_pid b) = (uint (b ! 1) mod 32) * 256 + uint (b ! 2)"
proof -
  have "b ! 1 AND 0x1f = take_bit 5 (b ! 1)"
    by (simp add: take_bit_eq_mask mask_eq_exp_minus_1)
  then have hi: "uint (b ! 1 AND 0x1f) = uint (b ! 1) mod 32"
    by (simp only: unsigned_take_bit_eq) (simp add: take_bit_eq_mod)
  let ?h = "uint (b ! 1) mod 32" and ?l = "uint (b ! 2)"
  have b: "0 \<le> ?h" "?h < 32" "0 \<le> ?l" "?l < 256"
    using uint_bounded [of "b ! 2"] by simp_all
  have "uint (ucast (b ! 1 AND 0x1f) :: u16) = ?h"
    using hi b by (simp add: unsigned_ucast_eq take_bit_int_eq_self)
  moreover have "uint (push_bit 8 w :: u16) = uint w * 256" if "uint w < 32" for w :: u16
    by (simp only: unsigned_push_bit_eq) (use that in \<open>simp add: push_bit_eq_mult take_bit_eq_mod\<close>)
  ultimately have "uint (push_bit 8 (ucast (b ! 1 AND 0x1f)) :: u16) = ?h * 256" using b by simp
  moreover have "uint (ucast (b ! 2) :: u16) = ?l"
    using b by (simp add: unsigned_ucast_eq take_bit_int_eq_self)
  ultimately show ?thesis
    using b by (simp add: packet_pid_def uint_word_ariths(1))
qed

lemma packets_whole:
  assumes "\<forall>p \<in> set ps. length p = 188" "length (concat ps @ rest) = 940"
  shows "packets (188 * int (length ps)) (concat ps @ rest)
       = map (\<lambda>p. (packet_pid p, psi_of (packet_pid p), p)) ps"
  using assms
proof (induction ps arbitrary: rest)
  case Nil
  then show ?case by (simp add: packets.simps)
next
  case (Cons p ps)
  let ?b = "p @ concat ps @ rest"
  have p: "length p = 188" using Cons.prems(1) by simp
  have len: "length (concat ps @ rest) = 752" using Cons.prems(2) p by simp
  have sh: "shift_buffer ?b = concat ps @ (rest @ drop 752 ?b)"
    using len p by (simp add: shift_buffer_def)
  have "length (concat ps @ (rest @ drop 752 ?b)) = 940" using len p by simp
  from Cons.IH [OF _ this] Cons.prems(1)
  have IH: "packets (188 * int (length ps)) (shift_buffer ?b)
      = map (\<lambda>p. (packet_pid p, psi_of (packet_pid p), p)) ps"
    unfolding sh by simp
  have "packet_pid ?b = packet_pid p" using p by (simp add: packet_pid_def nth_append)
  moreover have "take 188 ?b = p" using p by simp
  moreover have "188 * int (length (p # ps)) - 188 = 188 * int (length ps)" by simp
  ultimately show ?case
    using IH by (subst packets.simps) simp
qed

text \<open>
  When the tuner has a signal, a read of whole packets hands each packet, in order and
  unchanged, to the decoder its PID stands for and to the sessions, with the 13 bit PID of
  its header; the tuner then counts as settled on its current sequence. Without a signal the
  data are dropped.
\<close>

theorem dvb_read_data_packets:
  assumes "\<forall>p \<in> set ps. length p = 188" and "length ps \<le> 5" and "length stack = 940"
  shows "\<exists>tuner'. dvb_read_data stack tuner (Some (concat ps))
      = (tuner', if lastStat tuner < 0x10 then []
                 else map (\<lambda>p. (packet_pid p, psi_of (packet_pid p), p)) ps)
    \<and> last_sequence tuner' = sequence_no tuner
    \<and> (\<forall>p. uint (packet_pid p) = (uint (p ! 1) mod 32) * 256 + uint (p ! 2))"
proof -
  have len: "length (concat ps) = 188 * length ps"
    using assms(1) by (induction ps) auto
  then have "length (concat ps @ drop (length (concat ps)) stack) = 940"
    using assms(2,3) by simp
  from packets_whole [OF assms(1) this]
  have "packets (int (length (concat ps))) (concat ps @ drop (length (concat ps)) stack)
      = map (\<lambda>p. (packet_pid p, psi_of (packet_pid p), p)) ps"
    by (simp add: len)
  then show ?thesis using packet_pid_value by (simp add: dvb_read_data_def Let_def)
qed

lemma dvb_read_data_packets_witness:
  "\<exists>tuner'. dvb_read_data (replicate 940 0) one_tuner (Some (concat [replicate 188 0x47]))
      = (tuner', if lastStat one_tuner < 0x10 then []
                 else map (\<lambda>p. (packet_pid p, psi_of (packet_pid p), p)) [replicate 188 0x47])
    \<and> last_sequence tuner' = sequence_no one_tuner
    \<and> (\<forall>p. uint (packet_pid p) = (uint (p ! 1) mod 32) * 256 + uint (p ! 2))"
  by (rule dvb_read_data_packets) simp_all

text \<open>
  Starting a device whose frontend and recorder open but whose tuning file is missing
  crashes: the pointer to its first frequency is null, and the tuning functions follow it
  before they compare it with \<^verbatim>\<open>NULL\<close>.
\<close>

theorem start_device_no_tuning:
  assumes "frontendDevice d = dev @ NUL # junk" "no_nul dev" "dev \<noteq> []"
    and "NUL \<in> set (dvrDevice d)" "NUL \<in> set (initialTuning d)"
    and "getDVB_Serial (e_sysfs env) dev = Inr sn"
    and "0 < e_open env 0 dev" "e_fe_type env (e_open env 0 dev) \<noteq> FE_QAM"
    and "0 \<le> e_open env 0 (cstr_of (dvrDevice d))"
    and "e_file env (cstr_of (initialTuning d)) = None" and "frequency_ll d = []"
  shows "start_device env d = Inl NullPointer"
proof -
  have dev: "array_str (frontendDevice d) = Inr dev"
    using assms(1,2) by (simp add: array_str_def cstr_of_append_NUL)
  obtain h d1 c ty where init: "initDVBDevice env (d\<lparr>serial := sn\<rparr>) = Inr (h, d1, c)"
    and d1: "dvbType d1 = Some ty" "ty = dvb_s2 \<or> ty = dvb_t2"
      "frequency_ll d1 = frequency_ll d" "initialTuning d1 = initialTuning d"
    using dev assms(4,7,8,9)
    by (cases "e_fe_type env (e_open env 0 dev)")
      (auto simp: initDVBDevice_def array_str_def Let_def split: if_splits)
  have fnm: "array_str (initialTuning d) = Inr (cstr_of (initialTuning d))"
    using assms(5) by (simp add: array_str_def)
  show ?thesis
    using d1 assms(3,6,10,11)
    by (auto simp: start_device_def dev init fnm loadInitialFile_def is_dvbt_def
        is_dvbs_def getInitialTuning_dvbt_def getInitialTuning_dvbs_def dvbt_tune_def
        dvbs_tune_def get_freq_def)
qed

lemma start_device_no_tuning_witness:
  "start_device quiet_env (one_tuner\<lparr>frequency_ll := [],
      frontendDevice := ''/dev/dvb/adapter0/frontend0'' @ NUL # []\<rparr>) = Inl NullPointer"
  by (rule start_device_no_tuning [where dev = "''/dev/dvb/adapter0/frontend0''"
        and junk = "[]" and sn = "word_of_nat ((0 + 1) * 256 + 1)"])
    (simp_all add: one_tuner_def quiet_env_def, code_simp)

text \<open>
  A transponder discovered in the network information table cannot be tuned to without
  reading memory nothing has written: \<^verbatim>\<open>addSatelliteFrequency\<close> leaves the error correction
  of the new entry unset and \<^verbatim>\<open>dvbs_tune\<close> reads it.
\<close>

theorem discovered_frequency_untunable:
  assumes "addSatelliteFrequency tuner infreq sr pol modulation = Inr tuner'"
    and "length (frequency_ll tuner) < length (frequency_ll tuner')"
    and "infreq \<noteq> fe_frequency tuner"
  shows "dvbs_tune env tuner' (Some (length (frequency_ll tuner))) = Inl Uninitialised"
proof -
  obtain p m where pm: "tuner' = tuner\<lparr>frequency_ll := frequency_ll tuner @ [set_id
      (int (length (frequency_ll tuner))) (FreqS \<lparr>freq_id = 0, channels_ll = [],
        frequency = uint infreq, s_polarity = first_char p, s_fec = None,
        s_modulation = m @ [NUL], symbolrate = uint sr\<rparr>)]\<rparr>"
    using assms(1,2)
    by (auto simp: addSatelliteFrequency_def append_unless_def bind_res_Inr Let_def
        split: if_splits)
  show ?thesis
    unfolding pm using assms(3)
    by (auto simp: dvbs_tune_def get_freq_def Let_def case_prod_beta)
qed

lemma discovered_frequency_untunable_witness:
  "\<exists>tuner'. addSatelliteFrequency one_tuner 12000000 2750000 1 1 = Inr tuner'
     \<and> dvbs_tune quiet_env tuner' (Some (length (frequency_ll one_tuner))) = Inl Uninitialised"
proof -
  obtain tuner' where t: "addSatelliteFrequency one_tuner 12000000 2750000 1 1 = Inr tuner'"
    "length (frequency_ll one_tuner) < length (frequency_ll tuner')"
    by (simp add: addSatelliteFrequency_def at_index_def hor_vert_ISO_def
        constellation_Satellite_ISO_def append_unless_def compare_dvbs_entries_def
        one_tuner_def one_freq_def Let_def)
  have "(12000000 :: u32) \<noteq> fe_frequency one_tuner" by (simp add: one_tuner_def)
  from discovered_frequency_untunable [OF t this] t(1) show ?thesis by blast
qed

text \<open>
  \<^verbatim>\<open>getChannelByNumber_addRef\<close> never looks at the channel number it is given, and of a tuner at
  no channel but the first of the first frequency: when it returns with a tuner, that is the channel it
  found, whatever others the tuner has. The tuner was not busy, has one more user and is busy.
\<close>

theorem addRef_first_channel:
  assumes "getChannelByNumber_addRef env session ts onid ch = Inr (Some (rc, ts', calls, locked))"
  shows "ts' = ts \<or> (\<exists>k < length ts. (\<forall>j < length ts. j \<noteq> k \<longrightarrow> ts' ! j = ts ! j)
     \<and> (\<exists>f fs c cs. frequency_ll (ts ! k) = f # fs \<and> channels_ll (base_of f) = c # cs
          \<and> addRef_match onid (ts ! k) c)
     \<and> currentState (ts' ! k) = st_busy \<and> refcnt (ts' ! k) = refcnt (ts ! k) + 1 \<and> rc = session)"
  using assms unfolding getChannelByNumber_addRef_def
proof (induction ts arbitrary: rc ts' calls locked)
  case (Cons t ts)
  have stray: "addRef_stray env onid t p c \<noteq> Inr x" "addRef_again env onid t f \<noteq> Inr x"
    for p c f and x :: "((dvb_device_t \<times> dev_call list) option \<times> bool) option"
    by (auto simp: addRef_again_def addRef_stray_def bind_res_Inr split: list.splits if_splits)
  obtain y where y: "addRef_tuner env onid t = Inr y" using Cons.prems by (auto simp: bind_res_Inr)
  then obtain r l where r: "addRef_tuner env onid t = Inr (Some (r, l))"
    using Cons.prems by (cases y) auto
  show ?case
  proof (cases r)
    case None
    then obtain rc1 ts1 ls where 1: "addRef_loop env onid session ts = Inr (Some (rc, ts1, calls, ls))"
        "ts' = t # ts1"
      using Cons.prems r by (auto simp: bind_res_Inr)
    from Cons.IH [OF 1(1)] show ?thesis
    proof (elim disjE exE conjE)
      fix k f fs c cs assume k: "k < length ts" "\<forall>j < length ts. j \<noteq> k \<longrightarrow> ts1 ! j = ts ! j"
        "frequency_ll (ts ! k) = f # fs" "channels_ll (base_of f) = c # cs" "addRef_match onid (ts ! k) c"
        "currentState (ts1 ! k) = st_busy" "refcnt (ts1 ! k) = refcnt (ts ! k) + 1" "rc = session"
      then show ?thesis unfolding 1(2)
        by (intro disjI2 exI [of _ "Suc k"]) (auto simp: nth_Cons split: nat.split)
    qed (simp add: 1(2))
  next
    case (Some x)
    obtain t1 calls1 where x: "x = (t1, calls1)" by force
    with r Some stray obtain f fs c cs z where t: "frequency_ll t = f # fs" "channels_ll (base_of f) = c # cs"
        "addRef_match onid t c" "tune_any env (addRef_take t) (Some 0) = Inr (z, t1, calls1)"
      by (auto simp: addRef_tuner_def bind_res_Inr split: list.splits if_splits)
    have "currentState t1 = currentState (addRef_take t) \<and> refcnt t1 = refcnt (addRef_take t)"
      using t(4) dvbt_tune_keeps [of env "addRef_take t" "Some 0" z t1 calls1]
        dvbs_tune_keeps [of env "addRef_take t" "Some 0" z t1 calls1]
      by (auto simp: tune_any_def split: if_splits)
    moreover have "ts' = t1 # ts" "rc = session" using Cons.prems r Some x by simp_all
    ultimately show ?thesis using t(1-3)
      by (intro disjI2 exI [of _ 0]) (auto simp: addRef_take_def nth_Cons split: nat.split)
  qed
qed simp

text \<open>A second channel that is asked for is never found: its list is released a second time.\<close>

lemma addRef_second_channel:
  assumes "frequency_ll t = [f]" "channels_ll (base_of f) = c # d # cs" "\<not> addRef_match onid t c"
    and "\<not> addRef_match onid t d"
  shows "getChannelByNumber_addRef env session (t # ts) onid ch = Inl NotLocked"
  using assms by (simp add: getChannelByNumber_addRef_def addRef_tuner_def addRef_stray_def)

lemma addRef_first_channel_witness:
  "\<exists>rc ts' calls locked. getChannelByNumber_addRef quiet_env 99 [one_tuner] 0 4 = Inr (Some (rc, ts', calls, locked))
    \<and> (ts' = [one_tuner] \<or> rc = 99)"
proof -
  have "\<not> isl (getChannelByNumber_addRef quiet_env 99 [one_tuner] 0 4)
    \<and> getChannelByNumber_addRef quiet_env 99 [one_tuner] 0 4 \<noteq> Inr None"
    by code_simp
  then obtain rc ts' calls locked
    where t: "getChannelByNumber_addRef quiet_env 99 [one_tuner] 0 4 = Inr (Some (rc, ts', calls, locked))"
    by (cases "getChannelByNumber_addRef quiet_env 99 [one_tuner] 0 4") auto
  from addRef_first_channel [OF t] t show ?thesis by blast
qed

end
