(* ===== verification/Session.thy ===== *)
theory Session
  imports Tuner Destination
begin

text \<open>
  The sessions of \<^verbatim>\<open>src/DVB/session.c\<close>: a channel that is being served, its tuner, its PIDs,
  its buffer and its destinations; starting, feeding, emptying and stopping them.

  The pointers of a session are positions: of its tuner in \<open>tuners\<close>, of its channel in the
  tuner's table (frequency and channel, which are only ever appended). The decoder of the
  program map table is external: what it makes of a packet is an argument, and so is the
  decoding of a conditional access descriptor. The threads are modelled by the passes of
  their loops; the operations of several threads interleave as calls.
\<close>

section \<open>State\<close>

definition SESSION_BUFFER :: nat where
  "SESSION_BUFFER = 1024 * 1024"

type_synonym timeval = "int \<times> int"

record session_service_t =
  s_tuner :: nat
  sessionID :: u64
  s_onid :: u16
  s_channel_id :: u16
  s_caid :: u16
  s_channel :: "nat \<times> nat"
  pmt_program :: u16              \<comment> \<open>the program the decoder is attached to\<close>
  destination_ll :: "destination_t list"
  outbytes_total :: u32
  pidList :: "(u16 \<times> byte) list"
  pidCnt :: nat
  currentBandwidth :: u64
  s_buffer :: "byte list"
  bufferPtr :: nat
  snap_time :: timeval
  totalCount :: u64

record server =
  tuners :: "dvb_device_t list"
  sessions :: "session_service_t list"
  g_write_time :: int

text \<open>Following the pointers of a session.\<close>

definition tuner_at :: "dvb_device_t list \<Rightarrow> nat \<Rightarrow> dvb_device_t res" where
  "tuner_at ts i = (if i < length ts then Inr (ts ! i) else Inl BadPointer)"

definition channel_at :: "dvb_device_t \<Rightarrow> nat \<times> nat \<Rightarrow> channels_dvb_t res" where
  "channel_at tuner p =
     (if fst p < length (frequency_ll tuner)
         \<and> snd p < length (channels_ll (base_of (frequency_ll tuner ! fst p)))
      then Inr (channels_ll (base_of (frequency_ll tuner ! fst p)) ! snd p)
      else Inl BadPointer)"

section \<open>The PIDs of a session\<close>

definition session_addPid ::
  "dvb_env \<Rightarrow> u16 \<Rightarrow> byte \<Rightarrow> dvb_device_t \<times> session_service_t
   \<Rightarrow> (int \<times> (dvb_device_t \<times> session_service_t) \<times> dev_call list) res" where
  "session_addPid env pid pidtype ts =
     (let (tuner, sess) = ts in
      if pid \<in> fst ` set (take (pidCnt sess) (pidList sess)) then Inr (0, ts, [])
      else if pidCnt sess \<ge> length (pidList sess) then Inl Overrun
      else
        (case AddPID_to_Demux (e_filter env) tuner pid of
           (_, tuner1, calls) \<Rightarrow>
             Inr (int (pidCnt sess),
                  (tuner1, sess\<lparr>pidList := (pidList sess)[pidCnt sess := (pid, pidtype)],
                                pidCnt := pidCnt sess + 1\<rparr>), calls)))"

definition session_isPidMine :: "u16 \<Rightarrow> channels_dvb_t \<Rightarrow> session_service_t \<Rightarrow> int" where
  "session_isPidMine pid channel sess =
     (if pid \<in> {0x00, 0x10, 0x11, 0x12} \<or> pmt_pid channel = pid
         \<or> pid \<in> fst ` set (take (pidCnt sess) (pidList sess))
      then 0 else -1)"

section \<open>The program map table\<close>

record descriptor =
  d_tag :: byte
  d_data :: "byte list"

record pmt_es =
  es_type :: byte
  es_pid :: u16
  es_descriptors :: "descriptor list"

record pmt =
  pmt_descriptors :: "descriptor list"
  pmt_first_es :: "pmt_es list"

text \<open>\<open>dec\<close> decodes a conditional access descriptor into its PID and its system.\<close>

type_synonym ca_decoder = "descriptor \<Rightarrow> (u16 \<times> u16) option"

type_synonym tuner_session = "(dvb_device_t \<times> session_service_t) \<times> dev_call list"

fun process_descriptors ::
  "dvb_env \<Rightarrow> ca_decoder \<Rightarrow> descriptor list \<Rightarrow> tuner_session \<Rightarrow> tuner_session res" where
  "process_descriptors env dec [] x = Inr x"
| "process_descriptors env dec (d # ds) x =
     (case (if d_tag d = 0x09 then dec d else None) of
        None \<Rightarrow> process_descriptors env dec ds x
      | Some (pid, system) \<Rightarrow>
          bind_res (session_addPid env pid 0xFF (fst x)) (\<lambda>(_, (t, s), calls).
            process_descriptors env dec ds ((t, s\<lparr>s_caid := system\<rparr>), snd x @ calls)))"

fun process_es ::
  "dvb_env \<Rightarrow> ca_decoder \<Rightarrow> pmt_es list \<Rightarrow> tuner_session \<Rightarrow> tuner_session res" where
  "process_es env dec [] x = Inr x"
| "process_es env dec (e # es) x =
     bind_res (session_addPid env (es_pid e) (es_type e) (fst x)) (\<lambda>(_, ts, calls).
     bind_res (process_descriptors env dec (es_descriptors e) (ts, snd x @ calls)) (\<lambda>y.
       process_es env dec es y))"

definition process_pmt ::
  "dvb_env \<Rightarrow> ca_decoder \<Rightarrow> pmt \<Rightarrow> tuner_session \<Rightarrow> tuner_session res" where
  "process_pmt env dec p x =
     bind_res (process_descriptors env dec (pmt_descriptors p) x) (\<lambda>y.
       process_es env dec (pmt_first_es p) y)"

definition type_names :: "string list" where
  "type_names =
     [''Reserved'', ''ISO/IEC 11172 Video'', ''ISO/IEC 13818-2 Video'', ''ISO/IEC 11172 Audio'',
      ''ISO/IEC 13818-3 Audio'', ''ISO/IEC 13818-1 Private Section'',
      ''ISO/IEC 13818-1 Private PES data packets'', ''ISO/IEC 13522 MHEG'',
      ''ISO/IEC 13818-1 Annex A DSM CC'', ''H222.1'', ''ISO/IEC 13818-6 type A'',
      ''ISO/IEC 13818-6 type B'', ''ISO/IEC 13818-6 type C'', ''ISO/IEC 13818-6 type D'',
      ''ISO/IEC 13818-1 auxillary'']"

definition GetTypeName :: "byte \<Rightarrow> string" where
  "GetTypeName type =
     (if unat type < 15 then type_names ! unat type
      else if type = 0xFF then ''CA ECM/EMM''
      else if type < 0x80 then ''ISO/IEC 13818-1 reserved''
      else ''User Private'')"

section \<open>Feeding the sessions\<close>

text \<open>The buffer of a session: when a block does not fit, all that was there is dropped.\<close>

definition append_buffer :: "session_service_t \<Rightarrow> byte list \<Rightarrow> session_service_t res" where
  "append_buffer s data =
     (if bufferPtr s + length data < SESSION_BUFFER
      then bind_res (put_bytes (s_buffer s) (bufferPtr s) data) (\<lambda>b.
             Inr (s\<lparr>outbytes_total := outbytes_total s + of_nat (length data),
                    s_buffer := b, bufferPtr := bufferPtr s + length data\<rparr>))
      else bind_res (put_bytes (s_buffer s) 0 data) (\<lambda>b.
             Inr (s\<lparr>s_buffer := b, bufferPtr := length data\<rparr>)))"

text \<open>
  One session and one packet. \<open>pmt_of\<close> is the table the session's decoder completes with this
  packet, if any; the decoder calls \<open>process_pmt\<close> with it.
\<close>

definition session_packet ::
  "dvb_env \<Rightarrow> ca_decoder \<Rightarrow> (u64 \<Rightarrow> pmt option) \<Rightarrow> u16 \<Rightarrow> byte list \<Rightarrow> u16
   \<Rightarrow> dvb_device_t \<times> session_service_t \<Rightarrow> tuner_session res" where
  "session_packet env dec pmt_of pid data vnumber ts =
     (let (tuner, s) = ts in
      if vnumber \<noteq> logicalNumber tuner then Inr (ts, [])
      else
        bind_res (channel_at tuner (s_channel s)) (\<lambda>c.
          if session_isPidMine pid c s < 0 then Inr (ts, [])
          else
            bind_res (case (if pmt_pid c = pid then pmt_of (sessionID s) else None) of
                        None \<Rightarrow> Inr (ts, [])
                      | Some p \<Rightarrow> process_pmt env dec p (ts, [])) (\<lambda>((t1, s1), calls).
            bind_res (append_buffer s1 data) (\<lambda>s2. Inr ((t1, s2), calls)))))"

fun write_sessions ::
  "dvb_env \<Rightarrow> ca_decoder \<Rightarrow> (u64 \<Rightarrow> pmt option) \<Rightarrow> u16 \<Rightarrow> byte list \<Rightarrow> u16
   \<Rightarrow> dvb_device_t list \<Rightarrow> session_service_t list
   \<Rightarrow> (dvb_device_t list \<times> session_service_t list \<times> dev_call list) res" where
  "write_sessions env dec pmt_of pid data v ts [] = Inr (ts, [], [])"
| "write_sessions env dec pmt_of pid data v ts (s # ss) =
     bind_res (tuner_at ts (s_tuner s)) (\<lambda>t.
     bind_res (session_packet env dec pmt_of pid data v (t, s)) (\<lambda>((t1, s1), c1).
     bind_res (write_sessions env dec pmt_of pid data v (ts[s_tuner s := t1]) ss)
       (\<lambda>(ts2, ss2, c2). Inr (ts2, s1 # ss2, c1 @ c2))))"

definition session_write ::
  "dvb_env \<Rightarrow> ca_decoder \<Rightarrow> (u64 \<Rightarrow> pmt option) \<Rightarrow> u16 \<Rightarrow> byte list \<Rightarrow> nat \<Rightarrow> server
   \<Rightarrow> (server \<times> dev_call list) res" where
  "session_write env dec pmt_of pid data v st =
     bind_res (tuner_at (tuners st) v) (\<lambda>vtuner.
     bind_res (write_sessions env dec pmt_of pid data (logicalNumber vtuner)
                 (tuners st) (sessions st)) (\<lambda>(ts, ss, calls).
       Inr (st\<lparr>tuners := ts, sessions := ss\<rparr>, calls)))"

text \<open>
  One pass of a destination thread: the buffer is copied and emptied, and the copy delivered
  to the destinations. \<open>None\<close> is the end of the process.
\<close>

definition session_drain :: "session_service_t \<Rightarrow> (byte list \<times> session_service_t) res" where
  "session_drain s =
     (if length (s_buffer s) < bufferPtr s then Inl Overrun
      else Inr (take (bufferPtr s) (s_buffer s), s\<lparr>bufferPtr := 0\<rparr>))"

definition destination_thread_pass ::
  "net_env \<Rightarrow> int \<Rightarrow> bool \<Rightarrow> session_service_t
   \<Rightarrow> (session_service_t \<times> byte list list) option res" where
  "destination_thread_pass net wt due s =
     bind_res (session_drain s) (\<lambda>(data, s1).
     bind_res (destination_process net wt due (destination_ll s1) data) (\<lambda>r.
       Inr (map_option (\<lambda>(ds, outs). (s1\<lparr>destination_ll := ds\<rparr>, outs)) r)))"

section \<open>Stopping\<close>

fun remove_pids :: "dvb_device_t \<Rightarrow> u16 list \<Rightarrow> dvb_device_t \<times> dev_call list" where
  "remove_pids tuner [] = (tuner, [])"
| "remove_pids tuner (p # ps) =
     (case removePID_from_Demux tuner p of (t1, c1) \<Rightarrow>
        (case remove_pids t1 ps of (t2, c2) \<Rightarrow> (t2, c1 @ c2)))"

text \<open>What \<^verbatim>\<open>session_stop\<close> and the session thread both do to the tuner of a session that ends.\<close>

definition release_tuner ::
  "dvb_device_t \<Rightarrow> session_service_t \<Rightarrow> (dvb_device_t \<times> dev_call list) res" where
  "release_tuner tuner s =
     bind_res (channel_at tuner (s_channel s)) (\<lambda>c.
       if pidCnt s > length (pidList s) then Inl Overrun
       else
         (case remove_pids tuner (pmt_pid c # map fst (take (pidCnt s) (pidList s))) of
            (t1, calls) \<Rightarrow>
              (let t2 = t1\<lparr>refcnt := refcnt t1 - 1\<rparr> in
               Inr (if refcnt t2 \<le> 0 then t2\<lparr>currentState := st_idle\<rparr> else t2, calls))))"

text \<open>Beside the new state, the calls to the tuner and the descriptors closed.\<close>

definition session_stop ::
  "u64 \<Rightarrow> server \<Rightarrow> (int \<times> server \<times> dev_call list \<times> int list) res" where
  "session_stop session_id st =
     (case find_index (\<lambda>s. sessionID s = session_id) (sessions st) of
        None \<Rightarrow> Inr (-1, st, [], [])
      | Some k \<Rightarrow>
          (let s = sessions st ! k in
           bind_res (tuner_at (tuners st) (s_tuner s)) (\<lambda>t.
           bind_res (release_tuner t s) (\<lambda>(t1, calls).
             Inr (0, st\<lparr>tuners := (tuners st)[s_tuner s := t1],
                       sessions := take k (sessions st) @ drop (Suc k) (sessions st)\<rparr>,
                  calls, destination_close_all (destination_ll s))))))"

definition session_stop_type :: "dest_type \<Rightarrow> session_service_t list \<Rightarrow> session_service_t list"
where
  "session_stop_type ty ss =
     map (\<lambda>s. s\<lparr>destination_ll := destination_close_type (destination_ll s) ty\<rparr>) ss"

section \<open>Starting\<close>

definition new_session :: "u64 \<Rightarrow> session_service_t" where
  "new_session rnd =
     \<lparr>s_tuner = 0, sessionID = drop_bit 4 rnd, s_onid = 0, s_channel_id = 0, s_caid = 0,
      s_channel = (0, 0), pmt_program = 0, destination_ll = [], outbytes_total = 0,
      pidList = replicate 32 (0xFFFF, 0xFF), pidCnt = 0, currentBandwidth = 0,
      s_buffer = replicate SESSION_BUFFER 0, bufferPtr = 0, snap_time = (0, 0), totalCount = 0\<rparr>"

text \<open>The last result of the loop that asks each tuner, which stops at the first that serves.\<close>

fun channel_OK :: "dvb_device_t list \<Rightarrow> int \<Rightarrow> int \<Rightarrow> int \<Rightarrow> int" where
  "channel_OK [] onid channel_id ok = ok"
| "channel_OK (t # ts) onid channel_id ok =
     (let v = channel_isProgramValid t onid channel_id in
      if v \<ge> 0 then v else channel_OK ts onid channel_id v)"

text \<open>Comparing the frequency wanted with the one a busy tuner is on.\<close>

definition share_result :: "dvb_device_t \<Rightarrow> nat \<Rightarrow> int res" where
  "share_result t fi =
     (if is_dvbt (dvbType t) then
        bind_res (get_freq t (curr_frequency t)) (\<lambda>(_, g).
          Inr (compare_dvbt_entries (frequency_ll t ! fi) g))
      else if is_dvbs (dvbType t) then
        bind_res (get_freq t (curr_frequency t)) (\<lambda>(_, g).
          compare_dvbs_entries (frequency_ll t ! fi) g)
      else Inr (-1))"

text \<open>
  The loop over the tuners: the first that has the channel and is free, or is on its
  frequency already. The result names the tuner, the channel, and whether it was tuned.
\<close>

fun choose_tuner ::
  "dvb_env \<Rightarrow> int \<Rightarrow> int \<Rightarrow> nat \<Rightarrow> dvb_device_t list
   \<Rightarrow> ((nat \<times> (nat \<times> nat) \<times> bool) option \<times> dvb_device_t list \<times> dev_call list) res" where
  "choose_tuner env onid channel_id k [] = Inr (None, [], [])"
| "choose_tuner env onid channel_id k (t # ts) =
     (let next_one = bind_res (choose_tuner env onid channel_id (Suc k) ts) (\<lambda>(r, ts', calls).
            Inr (r, t # ts', calls)) in
      case channel_getFrequencyForTuner t onid channel_id of
        None \<Rightarrow> next_one
      | Some fi \<Rightarrow>
          case getChannelByNumber_tuners t onid channel_id of
            None \<Rightarrow> next_one
          | Some ch \<Rightarrow>
              bind_res (channel_at t ch) (\<lambda>c.
              if refcnt t = 0 then
                bind_res (tune_any env (t\<lparr>currentState := st_busy, refcnt := refcnt t + 1\<rparr>) (Some fi))
                  (\<lambda>(_, t1, c1).
                    case add_pids env [0x0, 0x10, 0x11, 0x12, pmt_pid c] t1 of
                      (t2, c2) \<Rightarrow> Inr (Some (k, ch, True), t2 # ts, c1 @ c2))
              else
                bind_res (share_result t fi) (\<lambda>rc1.
                  if rc1 \<ge> 0 then
                    case AddPID_to_Demux (e_filter env) (t\<lparr>refcnt := refcnt t + 1\<rparr>) (pmt_pid c) of
                      (_, t1, c1) \<Rightarrow> Inr (Some (k, ch, False), t1 # ts, c1)
                  else next_one)))"

definition append_dest :: "destination_t \<Rightarrow> session_service_t \<Rightarrow> session_service_t" where
  "append_dest d s = s\<lparr>destination_ll := destination_ll s @ [d]\<rparr>"

text \<open>
  Beside the session number and the state, the calls to the tuner and the sessions for which
  a destination thread is started, once per start.
\<close>

definition session_addNew ::
  "dvb_env \<Rightarrow> u64 \<Rightarrow> server \<Rightarrow> u16 \<Rightarrow> u16 \<Rightarrow> destination_t option
   \<Rightarrow> (u64 \<times> server \<times> dev_call list \<times> u64 list) res" where
  "session_addNew env rnd st onid channel_id dest =
     (case dest of
        None \<Rightarrow> Inl NullPointer
      | Some d \<Rightarrow>
          if channel_OK (tuners st) (uint onid) (uint channel_id) 0 = -1 then Inr (0, st, [], [])
          else
            (let ss = (if destination_type d = dest_live \<or> destination_type d = dest_live2
                       then session_stop_type (destination_type d) (sessions st)
                       else sessions st);
                 session = new_session rnd in
             case find_index (\<lambda>s. s_onid s = onid \<and> s_channel_id s = channel_id) ss of
               Some k \<Rightarrow>
                 Inr (sessionID (ss ! k), st\<lparr>sessions := ss[k := append_dest d (ss ! k)]\<rparr>, [], [])
             | None \<Rightarrow>
                 bind_res (choose_tuner env (uint onid) (uint channel_id) 0 (tuners st))
                   (\<lambda>(r, ts, calls).
                     case r of
                       None \<Rightarrow> Inr (0, st\<lparr>tuners := ts, sessions := ss\<rparr>, calls, [])
                     | Some (k, ch, tuned) \<Rightarrow>
                         bind_res (channel_at (ts ! k) ch) (\<lambda>c.
                           Inr (sessionID session,
                                st\<lparr>tuners := ts,
                                   sessions := ss @ [session\<lparr>s_tuner := k, s_channel := ch,
                                     s_onid := onid, s_channel_id := channel_id,
                                     pmt_program := service_id c, destination_ll := [d]\<rparr>]\<rparr>,
                                calls,
                                (if tuned then [sessionID session] else []) @ [sessionID session])))))"

section \<open>The session thread\<close>

text \<open>
  The difference of two times, computed in doubles, which are exact for the times at hand; a
  negative one is converted like an \<^verbatim>\<open>int64_t\<close>.
\<close>

definition time_diff_us :: "timeval \<Rightarrow> timeval \<Rightarrow> u64" where
  "time_diff_us x y = word_of_int ((fst y * 1000000 + snd y) - (fst x * 1000000 + snd x))"

definition update_bandwidth :: "timeval \<Rightarrow> session_service_t \<Rightarrow> session_service_t" where
  "update_bandwidth now s =
     (let diff_ms = time_diff_us (snap_time s) now div 1000 in
      if diff_ms > 500 then
        s\<lparr>currentBandwidth :=
             (1000 div diff_ms) * (word_of_int (sint (outbytes_total s)) - totalCount s),
          totalCount := word_of_int (sint (outbytes_total s)), snap_time := now\<rparr>
      else s)"

fun session_thread_pass ::
  "timeval \<Rightarrow> dvb_device_t list \<Rightarrow> session_service_t list
   \<Rightarrow> (dvb_device_t list \<times> session_service_t list \<times> dev_call list) res" where
  "session_thread_pass now ts [] = Inr (ts, [], [])"
| "session_thread_pass now ts (s # ss) =
     (if destination_ll s = [] then
        bind_res (tuner_at ts (s_tuner s)) (\<lambda>t.
        bind_res (release_tuner t s) (\<lambda>(t1, c1).
        bind_res (session_thread_pass now (ts[s_tuner s := t1]) ss) (\<lambda>(ts2, ss2, c2).
          Inr (ts2, ss2, c1 @ c2))))
      else
        bind_res (session_thread_pass now ts ss) (\<lambda>(ts2, ss2, c2).
          Inr (ts2, update_bandwidth now s # ss2, c2)))"

section \<open>The buffer of a session\<close>

definition sbuf_ok :: "session_service_t \<Rightarrow> bool" where
  "sbuf_ok s \<longleftrightarrow> length (s_buffer s) = SESSION_BUFFER \<and> bufferPtr s \<le> SESSION_BUFFER"

definition sbuf_pending :: "session_service_t \<Rightarrow> byte list" where
  "sbuf_pending s = take (bufferPtr s) (s_buffer s)"

lemma length_sbuf_pending [simp]: "sbuf_ok s \<Longrightarrow> length (sbuf_pending s) = bufferPtr s"
  by (simp add: sbuf_ok_def sbuf_pending_def)

lemma append_buffer_ok:
  assumes "sbuf_ok s" "length xs < SESSION_BUFFER"
  shows "\<exists>b n k. append_buffer s xs = Inr (s\<lparr>outbytes_total := n, s_buffer := b, bufferPtr := k\<rparr>)
    \<and> sbuf_ok (s\<lparr>s_buffer := b, bufferPtr := k\<rparr>)
    \<and> take k b = (if bufferPtr s + length xs < SESSION_BUFFER then sbuf_pending s @ xs else xs)"
proof (cases "bufferPtr s + length xs < SESSION_BUFFER")
  case True
  then have "bufferPtr s + length xs \<le> length (s_buffer s)" using assms(1) by (simp add: sbuf_ok_def)
  from put_bytes_ok [OF this] obtain b where b: "put_bytes (s_buffer s) (bufferPtr s) xs = Inr b"
    "length b = length (s_buffer s)" "take (bufferPtr s + length xs) b = take (bufferPtr s) (s_buffer s) @ xs"
    by blast
  with True assms(1) show ?thesis
    by (intro exI [of _ b] exI [of _ "outbytes_total s + of_nat (length xs)"]
        exI [of _ "bufferPtr s + length xs"])
      (simp add: append_buffer_def sbuf_ok_def sbuf_pending_def)
next
  case False
  have "0 + length xs \<le> length (s_buffer s)" using assms by (simp add: sbuf_ok_def)
  from put_bytes_ok [OF this] obtain b where b: "put_bytes (s_buffer s) 0 xs = Inr b"
    "length b = length (s_buffer s)" "take (length xs) b = xs" by auto
  with False assms show ?thesis
    by (intro exI [of _ b] exI [of _ "outbytes_total s"] exI [of _ "length xs"])
      (simp add: append_buffer_def sbuf_ok_def sbuf_pending_def)
qed

interpretation sb: byte_queue sbuf_ok sbuf_pending append_buffer "\<lambda>s _. session_drain s"
    "\<lambda>_. SESSION_BUFFER" "\<lambda>xs. xs"
proof
  fix q :: session_service_t and xs :: "byte list"
  assume ok: "sbuf_ok q" and len: "length xs < SESSION_BUFFER"
  obtain b n k where r: "append_buffer q xs = Inr (q\<lparr>outbytes_total := n, s_buffer := b, bufferPtr := k\<rparr>)"
    "sbuf_ok (q\<lparr>s_buffer := b, bufferPtr := k\<rparr>)"
    "take k b = (if bufferPtr q + length xs < SESSION_BUFFER then sbuf_pending q @ xs else xs)"
    using append_buffer_ok [OF ok len] by blast
  then show "\<exists>q'. append_buffer q xs = Inr q' \<and> sbuf_ok q' \<and> SESSION_BUFFER = SESSION_BUFFER
        \<and> sbuf_pending q' = (if length (sbuf_pending q) + length xs < SESSION_BUFFER
            then sbuf_pending q @ xs else xs)"
    using ok by (simp add: sbuf_ok_def [of "q\<lparr>outbytes_total := n, s_buffer := b, bufferPtr := k\<rparr>"]
        sbuf_ok_def [of "q\<lparr>s_buffer := b, bufferPtr := k\<rparr>"]
        sbuf_pending_def [of "q\<lparr>outbytes_total := n, s_buffer := b, bufferPtr := k\<rparr>"])
next
  fix q :: session_service_t and n
  assume ok: "sbuf_ok q"
  show "\<exists>k q'. session_drain q = Inr (take k (sbuf_pending q), q') \<and> sbuf_ok q'
      \<and> SESSION_BUFFER = SESSION_BUFFER \<and> sbuf_pending q' = drop k (sbuf_pending q)"
    using ok
    by (intro exI [of _ "bufferPtr q"] exI [of _ "q\<lparr>bufferPtr := 0\<rparr>"])
      (simp add: session_drain_def sbuf_ok_def sbuf_pending_def)
qed

section \<open>The PIDs of a session, without the array\<close>

definition sess_pids :: "session_service_t \<Rightarrow> u16 list" where
  "sess_pids s = map fst (take (pidCnt s) (pidList s))"

definition pl_ok :: "session_service_t \<Rightarrow> bool" where
  "pl_ok s \<longleftrightarrow> length (pidList s) = 32 \<and> pidCnt s \<le> 32 \<and> distinct (sess_pids s)"

definition add_new :: "u16 list \<Rightarrow> u16 \<Rightarrow> u16 list" where
  "add_new xs p = (if p \<in> set xs then xs else xs @ [p])"

lemma length_sess_pids: "pl_ok s \<Longrightarrow> length (sess_pids s) = pidCnt s"
  by (simp add: pl_ok_def sess_pids_def)

lemma length_foldl_add_new: "length xs \<le> length (foldl add_new xs ps)"
proof (induction ps arbitrary: xs)
  case (Cons p ps)
  have "length xs \<le> length (add_new xs p)" by (simp add: add_new_def)
  also have "\<dots> \<le> length (foldl add_new (add_new xs p) ps)" by (rule Cons.IH)
  finally show ?case by simp
qed simp

lemma foldl_add_new:
  "set (foldl add_new xs ps) = set xs \<union> set ps"
  "distinct xs \<Longrightarrow> distinct (foldl add_new xs ps)"
  by (induction ps arbitrary: xs) (auto simp: add_new_def)

lemma card_foldl_add_new:
  "distinct xs \<Longrightarrow> length (foldl add_new xs ps) = card (set xs \<union> set ps)"
  using foldl_add_new [of xs ps] distinct_card by metis

text \<open>All that handling a table may change.\<close>

definition same_but_pids :: "dvb_device_t \<times> session_service_t \<Rightarrow> dvb_device_t \<times> session_service_t \<Rightarrow> bool"
where
  "same_but_pids x y \<longleftrightarrow>
     (\<exists>ps l n ca. y = (fst x\<lparr>pids := ps\<rparr>, snd x\<lparr>pidList := l, pidCnt := n, s_caid := ca\<rparr>))"

lemma same_but_pids_refl: "same_but_pids x x"
  unfolding same_but_pids_def
  by (intro exI [of _ "pids (fst x)"] exI [of _ "pidList (snd x)"] exI [of _ "pidCnt (snd x)"]
      exI [of _ "s_caid (snd x)"]) simp

lemma same_but_pids_trans: "same_but_pids x y \<Longrightarrow> same_but_pids y z \<Longrightarrow> same_but_pids x z"
  by (fastforce simp: same_but_pids_def)

lemma same_but_pids_caid: "same_but_pids x (t, s) \<Longrightarrow> same_but_pids x (t, s\<lparr>s_caid := c\<rparr>)"
  by (fastforce simp: same_but_pids_def)

definition pids_added :: "tuner_session \<Rightarrow> u16 list \<Rightarrow> tuner_session res \<Rightarrow> bool" where
  "pids_added x ps r \<longleftrightarrow>
     (let ps' = foldl add_new (sess_pids (snd (fst x))) ps in
      if length ps' \<le> 32
      then \<exists>ts calls. r = Inr (ts, calls) \<and> pl_ok (snd ts) \<and> sess_pids (snd ts) = ps'
             \<and> same_but_pids (fst x) ts
      else r = Inl Overrun)"

lemma AddPID_only_pids:
  assumes "AddPID_to_Demux rc t p = (r, t', c)"
  shows "\<exists>x. t' = t\<lparr>pids := x\<rparr>"
proof (cases "t' = t")
  case True
  then show ?thesis by (intro exI [of _ "pids t"]) simp
next
  case False
  with assms show ?thesis
    by (auto simp: AddPID_to_Demux_def set_pid_def Let_def split: if_splits option.splits)
qed

lemma addPid_pids:
  assumes "pl_ok s"
  shows "if length (add_new (sess_pids s) p) \<le> 32
     then \<exists>n t' s' calls. session_addPid env p ty (t, s) = Inr (n, (t', s'), calls)
       \<and> pl_ok s' \<and> sess_pids s' = add_new (sess_pids s) p \<and> same_but_pids (t, s) (t', s')
     else session_addPid env p ty (t, s) = Inl Overrun"
proof (cases "p \<in> set (sess_pids s)")
  case True
  then have "session_addPid env p ty (t, s) = Inr (0, (t, s), [])"
    by (simp add: session_addPid_def sess_pids_def)
  moreover have "length (sess_pids s) \<le> 32" using assms by (simp add: pl_ok_def sess_pids_def)
  ultimately show ?thesis using True assms same_but_pids_refl by (simp add: add_new_def)
next
  case False
  then have not_in: "p \<notin> fst ` set (take (pidCnt s) (pidList s))" by (simp add: sess_pids_def)
  show ?thesis
  proof (cases "pidCnt s < 32")
    case True
    obtain r t' calls where a: "AddPID_to_Demux (e_filter env) t p = (r, t', calls)"
      by (metis prod_cases3)
    let ?s = "s\<lparr>pidList := (pidList s)[pidCnt s := (p, ty)], pidCnt := pidCnt s + 1\<rparr>"
    have l: "length (pidList s) = 32" using assms by (simp add: pl_ok_def)
    have "take (Suc (pidCnt s)) ((pidList s)[pidCnt s := (p, ty)]) = take (pidCnt s) (pidList s) @ [(p, ty)]"
      using True l by (simp add: take_Suc_conv_app_nth)
    then have sp: "sess_pids ?s = sess_pids s @ [p]" by (simp add: sess_pids_def)
    then have "pl_ok ?s" using assms True False unfolding pl_ok_def by simp
    moreover obtain ps where "t' = t\<lparr>pids := ps\<rparr>" using AddPID_only_pids [OF a] ..
    then have "same_but_pids (t, s) (t', ?s)"
      unfolding same_but_pids_def
      by (intro exI [of _ ps] exI [of _ "pidList ?s"] exI [of _ "pidCnt ?s"] exI [of _ "s_caid s"]) simp
    moreover have "session_addPid env p ty (t, s) = Inr (int (pidCnt s), (t', ?s), calls)"
      using not_in True l a by (simp add: session_addPid_def)
    moreover have "length (add_new (sess_pids s) p) \<le> 32"
      using True length_sess_pids [OF assms] by (simp add: add_new_def)
    moreover have "add_new (sess_pids s) p = sess_pids s @ [p]" using False by (simp add: add_new_def)
    ultimately show ?thesis using sp by auto
  next
    case full: False
    with False length_sess_pids [OF assms] not_in assms show ?thesis
      by (simp add: add_new_def session_addPid_def pl_ok_def)
  qed
qed

lemma pids_added_nil: "pl_ok (snd (fst x)) \<Longrightarrow> pids_added x [] (Inr x)"
  using length_sess_pids [of "snd (fst x)"] same_but_pids_refl [of "fst x"]
  by (cases x) (auto simp: pids_added_def pl_ok_def)

lemma pids_added_bind:
  assumes "pids_added x ps r" "\<And>y. r = Inr y \<Longrightarrow> pl_ok (snd (fst y)) \<Longrightarrow> pids_added y qs (f y)"
  shows "pids_added x (ps @ qs) (bind_res r f)"
proof (cases "length (foldl add_new (sess_pids (snd (fst x))) ps) \<le> 32")
  case True
  with assms(1) obtain ts calls where r: "r = Inr (ts, calls)" "pl_ok (snd ts)"
    "sess_pids (snd ts) = foldl add_new (sess_pids (snd (fst x))) ps" "same_but_pids (fst x) ts"
    by (auto simp: pids_added_def)
  from assms(2) [of "(ts, calls)"] r have "pids_added (ts, calls) qs (f (ts, calls))" by simp
  with r same_but_pids_trans [OF r(4)] show ?thesis
    by (fastforce simp: pids_added_def Let_def split: if_splits)
next
  case False
  with assms(1) have "r = Inl Overrun" by (simp add: pids_added_def)
  moreover have "\<not> length (foldl add_new (sess_pids (snd (fst x))) (ps @ qs)) \<le> 32"
    using False length_foldl_add_new [of "foldl add_new (sess_pids (snd (fst x))) ps" qs] by simp
  ultimately show ?thesis by (simp add: pids_added_def)
qed

text \<open>The PIDs a table names, in the order they are added.\<close>

definition descriptor_pids :: "ca_decoder \<Rightarrow> descriptor list \<Rightarrow> u16 list" where
  "descriptor_pids dec ds =
     concat (map (\<lambda>d. case (if d_tag d = 0x09 then dec d else None) of
                        None \<Rightarrow> [] | Some (pid, _) \<Rightarrow> [pid]) ds)"

definition pmt_pids :: "ca_decoder \<Rightarrow> pmt \<Rightarrow> u16 list" where
  "pmt_pids dec p = descriptor_pids dec (pmt_descriptors p)
     @ concat (map (\<lambda>e. es_pid e # descriptor_pids dec (es_descriptors e)) (pmt_first_es p))"

lemma addPid_added:
  assumes "pl_ok (snd (fst x))"
  shows "pids_added x [p] (bind_res (session_addPid env p ty (fst x))
    (\<lambda>(_, (t, s), calls). Inr ((t, if b then s\<lparr>s_caid := ca\<rparr> else s), snd x @ calls)))"
proof -
  obtain t s c where x: "x = ((t, s), c)" by (cases x) auto
  with addPid_pids [of s p env ty t] assms show ?thesis
    by (cases "length (add_new (sess_pids s) p) \<le> 32")
      (auto simp: pids_added_def same_but_pids_caid pl_ok_def sess_pids_def)
qed

lemma process_descriptors_pids:
  "pl_ok (snd (fst x)) \<Longrightarrow> pids_added x (descriptor_pids dec ds) (process_descriptors env dec ds x)"
proof (induction ds arbitrary: x)
  case Nil
  then show ?case by (simp add: descriptor_pids_def pids_added_nil)
next
  case (Cons d ds)
  show ?case
  proof (cases "if d_tag d = 0x09 then dec d else None")
    case None
    with Cons show ?thesis by (simp add: descriptor_pids_def)
  next
    case (Some q)
    obtain pid system where q: "q = (pid, system)" by force
    have e: "process_descriptors env dec (d # ds) x =
        bind_res (bind_res (session_addPid env pid 0xFF (fst x))
          (\<lambda>(_, (t, s), calls). Inr ((t, if True then s\<lparr>s_caid := system\<rparr> else s), snd x @ calls)))
          (process_descriptors env dec ds)"
    proof (cases "session_addPid env pid 0xFF (fst x)")
      case (Inl err)
      then show ?thesis by (simp add: Some q)
    next
      case (Inr r)
      then show ?thesis by (cases r) (simp add: Some q split_beta)
    qed
    have "descriptor_pids dec (d # ds) = [pid] @ descriptor_pids dec ds"
      using Some q by (simp add: descriptor_pids_def)
    then show ?thesis unfolding e
      by (simp only:) (intro pids_added_bind addPid_added [OF Cons.prems] Cons.IH)
  qed
qed

lemma process_es_pids:
  "pl_ok (snd (fst x)) \<Longrightarrow>
   pids_added x (concat (map (\<lambda>e. es_pid e # descriptor_pids dec (es_descriptors e)) es))
     (process_es env dec es x)"
proof (induction es arbitrary: x)
  case Nil
  then show ?case by (simp add: pids_added_nil)
next
  case (Cons e es)
  let ?add = "bind_res (session_addPid env (es_pid e) (es_type e) (fst x))
    (\<lambda>(_, (t, s), calls). Inr ((t, if False then s\<lparr>s_caid := 0\<rparr> else s), snd x @ calls))"
  have e: "process_es env dec (e # es) x =
      bind_res (bind_res ?add (process_descriptors env dec (es_descriptors e))) (process_es env dec es)"
  proof (cases "session_addPid env (es_pid e) (es_type e) (fst x)")
    case (Inr r)
    then show ?thesis by (cases r) (simp add: split_beta)
  qed simp
  have "pids_added x (([es_pid e] @ descriptor_pids dec (es_descriptors e))
        @ concat (map (\<lambda>e. es_pid e # descriptor_pids dec (es_descriptors e)) es))
      (bind_res (bind_res ?add (process_descriptors env dec (es_descriptors e)))
        (process_es env dec es))"
    by (intro pids_added_bind addPid_added [OF Cons.prems] process_descriptors_pids Cons.IH)
  with e show ?case by simp
qed

lemma process_pmt_added:
  "pl_ok (snd (fst x)) \<Longrightarrow> pids_added x (pmt_pids dec p) (process_pmt env dec p x)"
  unfolding process_pmt_def pmt_pids_def
  by (intro pids_added_bind process_descriptors_pids process_es_pids)

section \<open>The invariant of the server\<close>

text \<open>
  A tuner can be tuned to anything in its list: the entries are of its kind, with a code rate,
  and it is on one of them.
\<close>

definition tunable :: "dvb_device_t \<Rightarrow> bool" where
  "tunable t \<longleftrightarrow>
     (is_dvbt (dvbType t) \<longrightarrow> (\<forall>f \<in> set (frequency_ll t). \<exists>x. f = FreqT x))
     \<and> (is_dvbs (dvbType t) \<longrightarrow> (\<forall>f \<in> set (frequency_ll t). \<exists>x. f = FreqS x \<and> s_fec x \<noteq> None))
     \<and> (is_dvbt (dvbType t) \<or> is_dvbs (dvbType t) \<longrightarrow> curr_frequency t \<noteq> None)"

text \<open>\<open>n\<close> sessions use the tuner.\<close>

definition tuner_inv :: "dvb_device_t \<Rightarrow> nat \<Rightarrow> bool" where
  "tuner_inv t n \<longleftrightarrow> tables_ok t \<and> tunable t \<and> refcnt t = int n
     \<and> (currentState t = st_busy \<longleftrightarrow> n > 0)"

definition sess_ok :: "dvb_device_t list \<Rightarrow> session_service_t \<Rightarrow> bool" where
  "sess_ok ts s \<longleftrightarrow> s_tuner s < length ts
     \<and> (\<exists>c. channel_at (ts ! s_tuner s) (s_channel s) = Inr c)
     \<and> pl_ok s \<and> sbuf_ok s"

definition refs :: "session_service_t list \<Rightarrow> nat \<Rightarrow> nat" where
  "refs ss i = length (filter (\<lambda>s. s_tuner s = i) ss)"

definition channel_key :: "session_service_t \<Rightarrow> u16 \<times> u16" where
  "channel_key s = (s_onid s, s_channel_id s)"

definition server_ok :: "server \<Rightarrow> bool" where
  "server_ok st \<longleftrightarrow>
     (\<forall>i < length (tuners st). tuner_inv (tuners st ! i) (refs (sessions st) i))
     \<and> (\<forall>s \<in> set (sessions st). sess_ok (tuners st) s)
     \<and> distinct (map channel_key (sessions st))"

lemma refs_simps [simp]:
  "refs [] i = 0"
  "refs (s # ss) i = (if s_tuner s = i then Suc (refs ss i) else refs ss i)"
  "refs (ss @ ss') i = refs ss i + refs ss' i"
  by (simp_all add: refs_def)

lemma refs_cong: "map s_tuner ss' = map s_tuner ss \<Longrightarrow> refs ss' i = refs ss i"
proof -
  assume e: "map s_tuner ss' = map s_tuner ss"
  have "refs xs i = length (filter (\<lambda>j. j = i) (map s_tuner xs))" for xs
    by (induction xs) (simp_all add: refs_def)
  with e show ?thesis by (simp only:)
qed

lemma channel_at_cong: "frequency_ll t' = frequency_ll t \<Longrightarrow> channel_at t' p = channel_at t p"
  by (simp add: channel_at_def)

lemma sess_ok_cong:
  assumes "map frequency_ll ts' = map frequency_ll ts"
  shows "sess_ok ts' s = sess_ok ts s"
proof -
  have "length ts' = length ts" using assms map_eq_imp_length_eq by blast
  moreover have "frequency_ll (ts' ! s_tuner s) = frequency_ll (ts ! s_tuner s)"
    if "s_tuner s < length ts"
    using assms that calculation nth_map [of "s_tuner s" ts frequency_ll]
      nth_map [of "s_tuner s" ts' frequency_ll] by simp
  ultimately show ?thesis using channel_at_cong unfolding sess_ok_def by metis
qed

lemma map_update_same: "f y = f (xs ! i) \<Longrightarrow> map f (xs[i := y]) = map f xs"
  by (metis list_update_id map_update)

lemma remove_pids_keeps:
  "fst (remove_pids t ps) = t\<lparr>pids := pids (fst (remove_pids t ps))\<rparr>"
proof (induction ps arbitrary: t)
  case (Cons p ps)
  obtain t1 c1 where 1: "removePID_from_Demux t p = (t1, c1)" by force
  have "\<exists>x. t1 = t\<lparr>pids := x\<rparr>"
  proof (cases "t1 = t")
    case True
    then show ?thesis by (intro exI [of _ "pids t"]) simp
  qed (use 1 in \<open>auto simp: removePID_from_Demux_def set_pid_def split: option.splits\<close>)
  then obtain x where "t1 = t\<lparr>pids := x\<rparr>" ..
  with Cons.IH [of t1] 1 show ?case by (simp add: split_beta)
qed simp

lemma release_tuner_ok:
  assumes "tuner_inv t (Suc n)" "\<exists>c. channel_at t (s_channel s) = Inr c" "pl_ok s"
  shows "\<exists>t' calls. release_tuner t s = Inr (t', calls) \<and> tuner_inv t' n
    \<and> frequency_ll t' = frequency_ll t \<and> (n = 0 \<longrightarrow> currentState t' = st_idle)"
proof -
  obtain c where c: "channel_at t (s_channel s) = Inr c" using assms(2) ..
  let ?r = "remove_pids t (pmt_pid c # map fst (take (pidCnt s) (pidList s)))"
  obtain x where x: "fst ?r = t\<lparr>pids := x\<rparr>" using remove_pids_keeps by blast
  have "tables_ok (t\<lparr>pids := y, refcnt := z, currentState := w\<rparr>)
      \<and> tunable (t\<lparr>pids := y, refcnt := z, currentState := w\<rparr>)" for y z w
    using assms(1) by (simp add: tuner_inv_def tables_ok_def tunable_def)
  moreover have "tables_ok (t\<lparr>pids := y, refcnt := z\<rparr>) \<and> tunable (t\<lparr>pids := y, refcnt := z\<rparr>)" for y z
    using assms(1) by (simp add: tuner_inv_def tables_ok_def tunable_def)
  moreover have "\<not> length (pidList s) < pidCnt s" using assms(3) by (simp add: pl_ok_def)
  ultimately show ?thesis using c x assms(1)
    by (auto simp: release_tuner_def split_beta Let_def tuner_inv_def simp del: remove_pids.simps)
qed

lemma find_index_split:
  assumes "find_index P xs = Some k"
  shows "k < length xs" "P (xs ! k)" "xs = take k xs @ xs ! k # drop (Suc k) xs"
    "find_index P (take k xs) = None"
  using assms id_take_nth_drop [of k xs]
  by (auto simp: find_index_Some find_index_None in_set_conv_nth)

lemma session_stop_split:
  assumes "server_ok st" "find_index (\<lambda>s. sessionID s = x) (sessions st) = Some k"
  shows "\<exists>t1 calls. session_stop x st = Inr (0,
      st\<lparr>tuners := (tuners st)[s_tuner (sessions st ! k) := t1],
         sessions := take k (sessions st) @ drop (Suc k) (sessions st)\<rparr>,
      calls, destination_close_all (destination_ll (sessions st ! k)))
    \<and> tuner_inv t1 (refs (take k (sessions st) @ drop (Suc k) (sessions st))
        (s_tuner (sessions st ! k)))
    \<and> frequency_ll t1 = frequency_ll (tuners st ! s_tuner (sessions st ! k))
    \<and> (refs (take k (sessions st) @ drop (Suc k) (sessions st)) (s_tuner (sessions st ! k)) = 0
        \<longrightarrow> currentState t1 = st_idle)"
proof -
  let ?ss = "sessions st" and ?s = "sessions st ! k"
  let ?rest = "take k ?ss @ drop (Suc k) ?ss"
  note fk = find_index_split [OF assms(2)]
  have ok: "sess_ok (tuners st) ?s" using assms(1) fk(1) by (simp add: server_ok_def)
  then have j: "s_tuner ?s < length (tuners st)" by (simp add: sess_ok_def)
  have "refs ?ss (s_tuner ?s) = Suc (refs ?rest (s_tuner ?s))"
    by (subst fk(3)) simp
  then have "tuner_inv (tuners st ! s_tuner ?s) (Suc (refs ?rest (s_tuner ?s)))"
    using assms(1) j unfolding server_ok_def by metis
  moreover have "\<exists>c. channel_at (tuners st ! s_tuner ?s) (s_channel ?s) = Inr c" "pl_ok ?s"
    using ok by (simp_all add: sess_ok_def)
  ultimately obtain t1 calls where "release_tuner (tuners st ! s_tuner ?s) ?s = Inr (t1, calls)"
    "tuner_inv t1 (refs ?rest (s_tuner ?s))"
    "frequency_ll t1 = frequency_ll (tuners st ! s_tuner ?s)"
    "refs ?rest (s_tuner ?s) = 0 \<longrightarrow> currentState t1 = st_idle"
    using release_tuner_ok by blast
  then show ?thesis using assms(2) j
    by (intro exI [of _ t1] exI [of _ calls]) (simp add: session_stop_def tuner_at_def Let_def)
qed

lemma session_stop_keeps:
  assumes "server_ok st" "find_index (\<lambda>s. sessionID s = x) (sessions st) = Some k"
    and "session_stop x st = Inr (rc, st', calls, fds)"
  shows "server_ok st'"
proof -
  let ?ss = "sessions st" and ?s = "sessions st ! k"
  let ?rest = "take k ?ss @ drop (Suc k) ?ss"
  obtain t1 where st': "st' = st\<lparr>tuners := (tuners st)[s_tuner ?s := t1], sessions := ?rest\<rparr>"
    and inv: "tuner_inv t1 (refs ?rest (s_tuner ?s))"
    and fr: "frequency_ll t1 = frequency_ll (tuners st ! s_tuner ?s)"
    using session_stop_split [OF assms(1,2)] assms(3) by auto
  note fk = find_index_split [OF assms(2)]
  have sub: "set ?rest \<subseteq> set ?ss" using set_take_subset set_drop_subset by fastforce
  have refs: "refs ?ss i = (if s_tuner ?s = i then Suc (refs ?rest i) else refs ?rest i)" for i
    by (subst fk(3)) simp
  have "tuner_inv ((tuners st)[s_tuner ?s := t1] ! i) (refs ?rest i)" if "i < length (tuners st)" for i
  proof (cases "i = s_tuner ?s")
    case True
    then show ?thesis using inv that by (simp only: nth_list_update_eq)
  next
    case False
    have "tuner_inv (tuners st ! i) (refs ?ss i)" using assms(1) that unfolding server_ok_def by blast
    moreover have "refs ?ss i = refs ?rest i" using refs [of i] False by metis
    ultimately show ?thesis using False by (simp del: refs_simps)
  qed
  moreover have "map frequency_ll ((tuners st)[s_tuner ?s := t1]) = map frequency_ll (tuners st)"
    by (rule map_update_same) (rule fr)
  then have "\<forall>s \<in> set ?rest. sess_ok ((tuners st)[s_tuner ?s := t1]) s"
    using assms(1) sub sess_ok_cong unfolding server_ok_def by blast
  moreover have "distinct (map channel_key ?ss)" using assms(1) by (simp add: server_ok_def)
  then have "distinct (map channel_key (take k ?ss @ ?s # drop (Suc k) ?ss))"
    using fk(3) by simp
  then have "distinct (map channel_key ?rest)" by simp
  ultimately show ?thesis using st' by (simp add: server_ok_def)
qed

text \<open>The session thread; \<open>m\<close> counts the sessions it has passed and kept.\<close>

lemma update_bandwidth_same [simp]:
  "s_tuner (update_bandwidth now s) = s_tuner s"
  "channel_key (update_bandwidth now s) = channel_key s"
  "sess_ok ts (update_bandwidth now s) = sess_ok ts s"
  "destination_ll (update_bandwidth now s) = destination_ll s"
  by (simp_all add: update_bandwidth_def channel_key_def sess_ok_def Let_def pl_ok_def sess_pids_def
      sbuf_ok_def)

lemma thread_pass_ok:
  assumes "\<forall>i < length ts. tuner_inv (ts ! i) (m i + refs ss i)" "\<forall>s \<in> set ss. sess_ok ts s"
  shows "\<exists>ts' calls. session_thread_pass now ts ss =
      Inr (ts', map (update_bandwidth now) (filter (\<lambda>s. destination_ll s \<noteq> []) ss), calls)
    \<and> map frequency_ll ts' = map frequency_ll ts
    \<and> (\<forall>i < length ts'. tuner_inv (ts' ! i)
         (m i + refs (filter (\<lambda>s. destination_ll s \<noteq> []) ss) i))"
  using assms
proof (induction ss arbitrary: ts m)
  case (Cons s ss)
  show ?case
  proof (cases "destination_ll s = []")
    case True
    have ok: "sess_ok ts s" using Cons.prems(2) by simp
    then have j: "s_tuner s < length ts" by (simp add: sess_ok_def)
    have "tuner_inv (ts ! s_tuner s) (Suc (m (s_tuner s) + refs ss (s_tuner s)))"
      using Cons.prems(1) j by fastforce
    moreover have "\<exists>c. channel_at (ts ! s_tuner s) (s_channel s) = Inr c" "pl_ok s"
      using ok by (simp_all add: sess_ok_def)
    ultimately obtain t1 c1 where r: "release_tuner (ts ! s_tuner s) s = Inr (t1, c1)"
      "tuner_inv t1 (m (s_tuner s) + refs ss (s_tuner s))"
      "frequency_ll t1 = frequency_ll (ts ! s_tuner s)"
      using release_tuner_ok by blast
    let ?ts = "ts[s_tuner s := t1]"
    have fr: "map frequency_ll ?ts = map frequency_ll ts" by (rule map_update_same) (rule r(3))
    have "\<forall>i < length ?ts. tuner_inv (?ts ! i) (m i + refs ss i)"
    proof (intro allI impI)
      fix i assume i: "i < length ?ts"
      then have "tuner_inv (ts ! i) (m i + refs (s # ss) i)" using Cons.prems(1) by simp
      with i r(2) show "tuner_inv (?ts ! i) (m i + refs ss i)"
        by (cases "i = s_tuner s") simp_all
    qed
    moreover have "\<forall>s \<in> set ss. sess_ok ?ts s" using Cons.prems(2) sess_ok_cong [OF fr] by simp
    ultimately show ?thesis using Cons.IH [of ?ts m] True r(1) j fr
      by (auto simp: tuner_at_def)
  next
    case False
    have "\<forall>i < length ts. tuner_inv (ts ! i) ((m i + (if s_tuner s = i then 1 else 0)) + refs ss i)"
      using Cons.prems(1) by fastforce
    from Cons.IH [OF this] Cons.prems(2) obtain ts' calls where
      r: "session_thread_pass now ts ss =
        Inr (ts', map (update_bandwidth now) (filter (\<lambda>s. destination_ll s \<noteq> []) ss), calls)"
      "map frequency_ll ts' = map frequency_ll ts"
      "\<forall>i < length ts'. tuner_inv (ts' ! i) ((m i + (if s_tuner s = i then 1 else 0))
         + refs (filter (\<lambda>s. destination_ll s \<noteq> []) ss) i)"
      by auto
    have "\<forall>i < length ts'. tuner_inv (ts' ! i)
         (m i + refs (filter (\<lambda>s. destination_ll s \<noteq> []) (s # ss)) i)"
      using r(3) False by (fastforce split: if_splits)
    with r(1,2) False show ?thesis by auto
  qed
qed simp

section \<open>Choosing a tuner\<close>

lemma dvbt_not_dvbs: "is_dvbt ty \<Longrightarrow> \<not> is_dvbs ty"
  by (auto simp: is_dvbt_def is_dvbs_def)

lemma dvbt_tune_total:
  assumes "tunable t" "is_dvbt (dvbType t)" "i < length (frequency_ll t)"
  shows "\<exists>rc t' c. dvbt_tune env t (Some i) = Inr (rc, t', c) \<and> curr_frequency t' \<noteq> None"
proof -
  obtain x where x: "frequency_ll t ! i = FreqT x"
    using assms nth_mem unfolding tunable_def by metis
  obtain s' c' where cs: "clear_slots (pids t) = (s', c')" by force
  show ?thesis
  proof (cases "word_of_int (frequency (base_of (FreqT x))) = fe_frequency t")
    case True
    with x assms show ?thesis by (simp add: dvbt_tune_def get_freq_def tunable_def)
  next
    case False
    with x assms(3) cs show ?thesis by (simp add: dvbt_tune_def get_freq_def Let_def)
  qed
qed

lemma dvbs_tune_total:
  assumes "tunable t" "is_dvbs (dvbType t)" "i < length (frequency_ll t)"
  shows "\<exists>rc t' c. dvbs_tune env t (Some i) = Inr (rc, t', c) \<and> curr_frequency t' \<noteq> None"
proof -
  obtain x where "frequency_ll t ! i = FreqS x \<and> s_fec x \<noteq> None"
    using assms nth_mem unfolding tunable_def by metis
  then obtain fec where x: "frequency_ll t ! i = FreqS x" "s_fec x = Some fec" by blast
  obtain s' c' where cs: "clear_slots (pids t) = (s', c')" by force
  show ?thesis
  proof (cases "word_of_int (frequency x) = fe_frequency t")
    case True
    with x assms show ?thesis by (simp add: dvbs_tune_def get_freq_def tunable_def)
  next
    case False
    with x assms(3) cs show ?thesis
      by (simp add: dvbs_tune_def get_freq_def Let_def split_beta)
  qed
qed

lemma tune_any_ok:
  assumes "tables_ok t" "tunable t" "i < length (frequency_ll t)"
  shows "\<exists>rc t' c. tune_any env t (Some i) = Inr (rc, t', c) \<and> tables_ok t' \<and> tunable t'
    \<and> frequency_ll t' = frequency_ll t \<and> refcnt t' = refcnt t \<and> currentState t' = currentState t"
proof -
  consider (T) "is_dvbt (dvbType t)" | (S) "\<not> is_dvbt (dvbType t)" "is_dvbs (dvbType t)"
    | (N) "\<not> is_dvbt (dvbType t)" "\<not> is_dvbs (dvbType t)" by blast
  then show ?thesis
  proof cases
    case T
    from dvbt_tune_total [OF assms(2) T assms(3)] obtain rc t' c where
      r: "dvbt_tune env t (Some i) = Inr (rc, t', c)" "curr_frequency t' \<noteq> None" by blast
    note k = dvbt_tune_keeps [OF r(1)]
    have "tunable t'" using assms(2) k(1,3) r(2) by (simp add: tunable_def)
    with T r(1) k(1,2,4) k(6) [OF assms(1)] show ?thesis by (simp add: tune_any_def)
  next
    case S
    from dvbs_tune_total [OF assms(2) S(2) assms(3)] obtain rc t' c where
      r: "dvbs_tune env t (Some i) = Inr (rc, t', c)" "curr_frequency t' \<noteq> None" by blast
    note k = dvbs_tune_keeps [OF r(1)]
    have "tunable t'" using assms(2) k(1,3) r(2) by (simp add: tunable_def)
    with S r(1) k(1,2,4) k(6) [OF assms(1)] show ?thesis by (simp add: tune_any_def)
  next
    case N
    with assms show ?thesis by (simp add: tune_any_def)
  qed
qed

lemma share_result_ok:
  assumes "tables_ok t" "tunable t" "i < length (frequency_ll t)"
  shows "\<exists>rc. share_result t i = Inr rc"
proof -
  consider (T) "is_dvbt (dvbType t)" | (S) "\<not> is_dvbt (dvbType t)" "is_dvbs (dvbType t)"
    | (N) "\<not> is_dvbt (dvbType t)" "\<not> is_dvbs (dvbType t)" by blast
  then show ?thesis
  proof cases
    case T
    then obtain j where "curr_frequency t = Some j" using assms(2) by (auto simp: tunable_def)
    with T assms(1) show ?thesis by (simp add: share_result_def get_freq_def tables_ok_def)
  next
    case S
    then obtain j where j: "curr_frequency t = Some j" using assms(2) by (auto simp: tunable_def)
    then have "j < length (frequency_ll t)" using assms(1) by (simp add: tables_ok_def)
    moreover from this obtain x y where "frequency_ll t ! j = FreqS x" "frequency_ll t ! i = FreqS y"
      using S assms(2,3) nth_mem unfolding tunable_def by metis
    ultimately show ?thesis using S j
      by (simp add: share_result_def get_freq_def compare_dvbs_entries_def polarity_of_def)
  next
    case N
    then show ?thesis by (simp add: share_result_def)
  qed
qed

lemma add_pids_only_pids:
  "add_pids env ps t = (t', c) \<Longrightarrow> \<exists>x. t' = t\<lparr>pids := x\<rparr>"
proof (induction ps arbitrary: t t' c)
  case Nil
  then show ?case by (intro exI [of _ "pids t"]) simp
next
  case (Cons p ps)
  obtain r t1 c1 where 1: "AddPID_to_Demux (e_filter env) t p = (r, t1, c1)" by (metis prod_cases3)
  obtain t2 c2 where 2: "add_pids env ps t1 = (t2, c2)" by force
  have "t' = t2" using Cons.prems 1 2 by simp
  with Cons.IH [OF 2] AddPID_only_pids [OF 1] show ?case by auto
qed

lemma tuner_inv_pids [simp]:
  "tuner_inv (t\<lparr>pids := x\<rparr>) n = tuner_inv t n"
  by (simp add: tuner_inv_def tables_ok_def tunable_def)

text \<open>One tuner of the loop: it is passed over, or it is taken and counts one session more.\<close>

lemma choose_tuner_step:
  assumes "tuner_inv t n"
  obtains (skip) "choose_tuner env on ch k (t # ts)
      = bind_res (choose_tuner env on ch (Suc k) ts) (\<lambda>(r, ts', calls). Inr (r, t # ts', calls))"
      "getChannelByNumber_tuners t on ch = None \<or> 0 < n"
    | (take) p t' calls where
      "choose_tuner env on ch k (t # ts) = Inr (Some (k, p, n = 0), t' # ts, calls)"
      "getChannelByNumber_tuners t on ch = Some p" "tuner_inv t' (Suc n)"
      "frequency_ll t' = frequency_ll t"
proof (cases "getChannelByNumber_tuners t on ch")
  case None
  then show thesis
    by (intro skip) (simp_all add: channel_getFrequencyForTuner_def getChannelByNumber_tuners_def Let_def)
next
  case (Some p)
  obtain fi j where p: "p = (fi, j)" by force
  have freq: "channel_getFrequencyForTuner t on ch = Some fi"
    using Some p by (simp add: channel_getFrequencyForTuner_def getChannelByNumber_tuners_def)
  have fc: "fi < length (frequency_ll t)" "j < length (channels_ll (base_of (frequency_ll t ! fi)))"
    using find_channel_Some [of _ "frequency_ll t" fi j] Some p
    by (auto simp: getChannelByNumber_tuners_def)
  then obtain c where c: "channel_at t p = Inr c" using p by (simp add: channel_at_def)
  show thesis
  proof (cases "n = 0")
    case True
    let ?t = "t\<lparr>currentState := st_busy, refcnt := refcnt t + 1\<rparr>"
    have "tables_ok ?t" "tunable ?t" "fi < length (frequency_ll ?t)" "refcnt t = 0"
      using assms fc(1) True by (simp_all add: tuner_inv_def tables_ok_def tunable_def)
    then obtain rc t1 c1 where t1: "tune_any env ?t (Some fi) = Inr (rc, t1, c1)"
      "tuner_inv t1 1" "frequency_ll t1 = frequency_ll t"
      using tune_any_ok [of ?t fi env] by (auto simp: tuner_inv_def)
    obtain t2 c2 where t2: "add_pids env [0x0, 0x10, 0x11, 0x12, pmt_pid c] t1 = (t2, c2)" by force
    from add_pids_only_pids [OF t2] obtain x where "t2 = t1\<lparr>pids := x\<rparr>" ..
    with True t1 have "tuner_inv t2 (Suc n)" "frequency_ll t2 = frequency_ll t" by simp_all
    moreover have "choose_tuner env on ch k (t # ts) = Inr (Some (k, p, True), t2 # ts, c1 @ c2)"
      using freq Some c t1(1) t2 \<open>refcnt t = 0\<close> by (simp del: add_pids.simps)
    ultimately show thesis using Some True by (intro take [of p t2 "c1 @ c2"]) (simp_all del: choose_tuner.simps)
  next
    case False
    have nz: "refcnt t \<noteq> 0" using assms False by (simp add: tuner_inv_def)
    obtain rc where rc: "share_result t fi = Inr rc"
      using share_result_ok [of t fi] assms fc(1) by (auto simp: tuner_inv_def)
    show thesis
    proof (cases "rc \<ge> 0")
      case True
      obtain r t1 c1 where
        a: "AddPID_to_Demux (e_filter env) (t\<lparr>refcnt := refcnt t + 1\<rparr>) (pmt_pid c) = (r, t1, c1)"
        by (metis prod_cases3)
      from AddPID_only_pids [OF a] obtain x where "t1 = t\<lparr>refcnt := refcnt t + 1, pids := x\<rparr>" by auto
      with assms False have "tuner_inv t1 (Suc n)" "frequency_ll t1 = frequency_ll t"
        by (simp_all add: tuner_inv_def tables_ok_def tunable_def)
      moreover have "choose_tuner env on ch k (t # ts) = Inr (Some (k, p, False), t1 # ts, c1)"
        using freq Some c nz rc True a by simp
      ultimately show thesis using Some False by (intro take [of p t1 c1]) (simp_all del: choose_tuner.simps)
    next
      case neg: False
      with freq Some c nz rc False show thesis by (intro skip) (simp_all add: Let_def)
    qed
  qed
qed

definition bump :: "(nat \<Rightarrow> nat) \<Rightarrow> nat \<Rightarrow> nat \<Rightarrow> nat" where
  "bump m j i = (if i = j then Suc (m i) else m i)"

lemma choose_tuner_ok:
  assumes "\<forall>i < length ts. tuner_inv (ts ! i) (m i)"
  obtains (none) "choose_tuner env on ch k ts = Inr (None, ts, [])"
      "\<forall>i < length ts. getChannelByNumber_tuners (ts ! i) on ch = None \<or> 0 < m i"
    | (some) j p ts' calls where
      "choose_tuner env on ch k ts = Inr (Some (k + j, p, m j = 0), ts', calls)"
      "j < length ts" "getChannelByNumber_tuners (ts ! j) on ch = Some p"
      "map frequency_ll ts' = map frequency_ll ts"
      "\<forall>i < length ts. tuner_inv (ts' ! i) (bump m j i)"
  using assms
proof (induction ts arbitrary: k m thesis)
  case Nil
  show ?case by (rule Nil.prems(1)) simp_all
next
  case (Cons t ts)
  have t: "tuner_inv t (m 0)" using Cons.prems(3) by force
  have rest: "\<forall>i < length ts. tuner_inv (ts ! i) (m (Suc i))" using Cons.prems(3) by fastforce
  show ?case
  proof (rule choose_tuner_step [OF t, of env on ch k ts])
    fix p t' calls
    assume c: "choose_tuner env on ch k (t # ts) = Inr (Some (k, p, m 0 = 0), t' # ts, calls)"
      "getChannelByNumber_tuners t on ch = Some p"
      and t': "tuner_inv t' (Suc (m 0))" "frequency_ll t' = frequency_ll t"
    have "tuner_inv ((t' # ts) ! i) (bump m 0 i)" if "i < length (t # ts)" for i
      using that t'(1) rest by (cases i) (simp_all add: bump_def)
    with c t'(2) show ?case
      by (intro Cons.prems(2) [of 0 p "t' # ts" calls]) (simp_all del: choose_tuner.simps)
  next
    assume c: "choose_tuner env on ch k (t # ts) =
        bind_res (choose_tuner env on ch (Suc k) ts) (\<lambda>(r, ts', calls). Inr (r, t # ts', calls))"
      and skip: "getChannelByNumber_tuners t on ch = None \<or> 0 < m 0"
    show ?case
    proof (rule Cons.IH [OF _ _ rest, of "Suc k"])
      assume "choose_tuner env on ch (Suc k) ts = Inr (None, ts, [])"
        "\<forall>i < length ts. getChannelByNumber_tuners (ts ! i) on ch = None \<or> 0 < m (Suc i)"
      with c skip show ?case
        by (intro Cons.prems(1)) (simp_all add: All_less_Suc2 del: choose_tuner.simps)
    next
      fix j p ts' calls
      assume r: "choose_tuner env on ch (Suc k) ts = Inr (Some (Suc k + j, p, m (Suc j) = 0), ts', calls)"
        and j: "j < length ts" "getChannelByNumber_tuners (ts ! j) on ch = Some p"
        and ts': "map frequency_ll ts' = map frequency_ll ts"
          "\<forall>i < length ts. tuner_inv (ts' ! i) (bump (\<lambda>i. m (Suc i)) j i)"
      have "tuner_inv ((t # ts') ! i) (bump m (Suc j) i)" if "i < length (t # ts)" for i
        using that t ts'(2) by (cases i) (simp_all add: bump_def)
      with c r j ts'(1) show ?case
        by (intro Cons.prems(2) [of "Suc j" p "t # ts'" calls]) (simp_all del: choose_tuner.simps)
    qed
  qed
qed

section \<open>Feeding one session\<close>

text \<open>Whether a table the decoder completes leaves the session at most 32 PIDs.\<close>

definition room :: "ca_decoder \<Rightarrow> (u64 \<Rightarrow> pmt option) \<Rightarrow> session_service_t \<Rightarrow> bool" where
  "room dec pmt_of s \<longleftrightarrow>
     (case pmt_of (sessionID s) of
        None \<Rightarrow> True
      | Some p \<Rightarrow> card (set (sess_pids s) \<union> set (pmt_pids dec p)) \<le> 32)"

text \<open>Which sessions get a packet, and what they hold then.\<close>

definition wants :: "dvb_device_t list \<Rightarrow> u16 \<Rightarrow> u16 \<Rightarrow> session_service_t \<Rightarrow> bool" where
  "wants ts v pid s \<longleftrightarrow> logicalNumber (ts ! s_tuner s) = v
     \<and> (\<exists>c. channel_at (ts ! s_tuner s) (s_channel s) = Inr c \<and> session_isPidMine pid c s = 0)"

definition identity :: "session_service_t \<Rightarrow> nat \<times> u64 \<times> (u16 \<times> u16) \<times> (nat \<times> nat) \<times> destination_t list"
where
  "identity s = (s_tuner s, sessionID s, channel_key s, s_channel s, destination_ll s)"

definition delivered ::
  "dvb_device_t list \<Rightarrow> u16 \<Rightarrow> u16 \<Rightarrow> byte list \<Rightarrow> session_service_t \<Rightarrow> session_service_t \<Rightarrow> bool"
where
  "delivered ts v pid data s s' \<longleftrightarrow>
     (if wants ts v pid s
      then identity s' = identity s \<and> set (sess_pids s) \<subseteq> set (sess_pids s')
        \<and> sbuf_pending s' = (if bufferPtr s + length data < SESSION_BUFFER
             then sbuf_pending s @ data else data)
      else s' = s)"

lemma same_but_pids_frame:
  assumes "same_but_pids (t, s) (t', s')"
  shows "\<exists>x. t' = t\<lparr>pids := x\<rparr>" "identity s' = identity s" "s_buffer s' = s_buffer s"
    "bufferPtr s' = bufferPtr s"
  using assms by (auto simp: same_but_pids_def identity_def channel_key_def)

lemma isPidMine_neg: "session_isPidMine pid c s \<noteq> 0 \<Longrightarrow> session_isPidMine pid c s = -1"
  unfolding session_isPidMine_def by presburger

lemma session_packet_ok:
  assumes "channel_at t (s_channel s) = Inr c" "pl_ok s" "sbuf_ok s" "room dec pmt_of s"
    and "length data < SESSION_BUFFER"
  obtains t' s' calls where "session_packet env dec pmt_of pid data v (t, s) = Inr ((t', s'), calls)"
    "\<exists>x. t' = t\<lparr>pids := x\<rparr>" "pl_ok s'" "sbuf_ok s'" "identity s' = identity s"
    "delivered (ts[s_tuner s := t]) v pid data s s' \<or> length ts \<le> s_tuner s"
proof (cases "v = logicalNumber t \<and> session_isPidMine pid c s = 0")
  case False
  then have "session_packet env dec pmt_of pid data v (t, s) = Inr ((t, s), [])"
    using assms(1) isPidMine_neg [of pid c s] by (auto simp: session_packet_def)
  moreover have "\<exists>x. t = t\<lparr>pids := x\<rparr>" by (intro exI [of _ "pids t"]) simp
  moreover have "delivered (ts[s_tuner s := t]) v pid data s s \<or> length ts \<le> s_tuner s"
    using False assms(1) by (auto simp: delivered_def wants_def)
  ultimately show thesis using assms(2,3) by (intro that [of t s "[]"]) simp_all
next
  case mine: True
  obtain t1 s1 c1 where
    p: "(case (if pmt_pid c = pid then pmt_of (sessionID s) else None) of
          None \<Rightarrow> Inr ((t, s), []) | Some p \<Rightarrow> process_pmt env dec p ((t, s), [])) = Inr ((t1, s1), c1)"
    and same: "same_but_pids (t, s) (t1, s1)" and pl: "pl_ok s1"
    and sub: "set (sess_pids s) \<subseteq> set (sess_pids s1)"
  proof (cases "if pmt_pid c = pid then pmt_of (sessionID s) else None")
    case None
    then show thesis using same_but_pids_refl assms(2) by (intro that [of t s "[]"]) simp_all
  next
    case (Some p)
    have "pmt_of (sessionID s) = Some p" using Some by (simp split: if_splits)
    then have "card (set (sess_pids s) \<union> set (pmt_pids dec p)) \<le> 32"
      using assms(4) by (simp add: room_def)
    moreover have "distinct (sess_pids s)" using assms(2) by (simp add: pl_ok_def)
    moreover have "pids_added ((t, s), []) (pmt_pids dec p) (process_pmt env dec p ((t, s), []))"
      by (rule process_pmt_added) (simp add: assms(2))
    ultimately obtain t1 s1 c1 where "process_pmt env dec p ((t, s), []) = Inr ((t1, s1), c1)"
      "pl_ok s1" "sess_pids s1 = foldl add_new (sess_pids s) (pmt_pids dec p)"
      "same_but_pids (t, s) (t1, s1)"
      by (auto simp: pids_added_def card_foldl_add_new)
    with Some foldl_add_new(1) [of "sess_pids s" "pmt_pids dec p"] show thesis
      by (intro that [of t1 s1 c1]) simp_all
  qed
  note fr = same_but_pids_frame [OF same]
  have sb: "sbuf_ok s1" "sbuf_pending s1 = sbuf_pending s"
    using assms(3) fr(3,4) by (simp_all add: sbuf_ok_def sbuf_pending_def)
  obtain b n k where r: "append_buffer s1 data = Inr (s1\<lparr>outbytes_total := n, s_buffer := b, bufferPtr := k\<rparr>)"
    "sbuf_ok (s1\<lparr>s_buffer := b, bufferPtr := k\<rparr>)"
    "take k b = (if bufferPtr s1 + length data < SESSION_BUFFER then sbuf_pending s1 @ data else data)"
    using append_buffer_ok [OF sb(1) assms(5)] by blast
  let ?s = "s1\<lparr>outbytes_total := n, s_buffer := b, bufferPtr := k\<rparr>"
  have "session_packet env dec pmt_of pid data v (t, s) = Inr ((t1, ?s), c1)"
    using mine assms(1) p r(1) by (simp add: session_packet_def)
  moreover have "pl_ok ?s" "sess_pids ?s = sess_pids s1" using pl by (simp_all add: pl_ok_def sess_pids_def)
  moreover have "identity ?s = identity s" using fr(2) by (simp add: identity_def channel_key_def)
  moreover have "sbuf_ok ?s" using r(2) by (simp add: sbuf_ok_def)
  moreover have "sbuf_pending ?s = (if bufferPtr s + length data < SESSION_BUFFER
      then sbuf_pending s @ data else data)"
    using r(3) sb(2) fr(4) by (simp add: sbuf_pending_def [of ?s])
  moreover have "wants (ts[s_tuner s := t]) v pid s \<or> length ts \<le> s_tuner s"
    using mine assms(1) by (auto simp: wants_def)
  ultimately show thesis using fr(1) sub
    by (intro that [of t1 ?s c1]) (auto simp: delivered_def)
qed

lemma identityD:
  assumes "identity s' = identity s"
  shows "s_tuner s' = s_tuner s" "channel_key s' = channel_key s" "s_channel s' = s_channel s"
    "sessionID s' = sessionID s" "destination_ll s' = destination_ll s"
  using assms by (simp_all add: identity_def)

lemma delivered_cong:
  assumes "map frequency_ll ts' = map frequency_ll ts" "map logicalNumber ts' = map logicalNumber ts"
    and "s_tuner s < length ts"
  shows "delivered ts' v pid data s s' = delivered ts v pid data s s'"
proof -
  have len: "length ts' = length ts" using assms(1) by (rule map_eq_imp_length_eq)
  have fr: "frequency_ll (ts' ! s_tuner s) = frequency_ll (ts ! s_tuner s)"
    and ln: "logicalNumber (ts' ! s_tuner s) = logicalNumber (ts ! s_tuner s)"
    using assms len by (metis nth_map)+
  have "wants ts' v pid s = wants ts v pid s"
    unfolding wants_def channel_at_cong [OF fr] ln ..
  then show ?thesis by (simp add: delivered_def)
qed

lemma write_sessions_ok:
  assumes "\<forall>i < length ts. tuner_inv (ts ! i) (m i)" "\<forall>s \<in> set ss. sess_ok ts s \<and> room dec pmt_of s"
    and "length data < SESSION_BUFFER"
  obtains ts' ss' calls where "write_sessions env dec pmt_of pid data v ts ss = Inr (ts', ss', calls)"
    "\<forall>i < length ts. tuner_inv (ts' ! i) (m i)" "map frequency_ll ts' = map frequency_ll ts"
    "map logicalNumber ts' = map logicalNumber ts"
    "\<forall>s \<in> set ss'. sess_ok ts' s" "map identity ss' = map identity ss"
    "list_all2 (delivered ts v pid data) ss ss'"
  using assms(1,2)
proof (induction ss arbitrary: ts thesis)
  case Nil
  show ?case by (rule Nil.prems(1) [of ts "[]" "[]"]) (use Nil.prems in simp_all)
next
  case (Cons s ss)
  let ?t = "ts ! s_tuner s"
  have ok: "sess_ok ts s" "room dec pmt_of s" using Cons.prems(3) by simp_all
  then have j: "s_tuner s < length ts" by (simp add: sess_ok_def)
  obtain c where c: "channel_at ?t (s_channel s) = Inr c" using ok(1) by (auto simp: sess_ok_def)
  have ps: "pl_ok s" "sbuf_ok s" using ok(1) by (simp_all add: sess_ok_def)
  obtain t1 s1 c1 where p: "session_packet env dec pmt_of pid data v (?t, s) = Inr ((t1, s1), c1)"
    "\<exists>x. t1 = ?t\<lparr>pids := x\<rparr>" "pl_ok s1" "sbuf_ok s1" "identity s1 = identity s"
    "delivered (ts[s_tuner s := ?t]) v pid data s s1 \<or> length ts \<le> s_tuner s"
    by (rule session_packet_ok [OF c ps ok(2) assms(3), of env pid v ts])
  note id = identityD [OF p(5)]
  let ?ts = "ts[s_tuner s := t1]"
  have fr: "map frequency_ll ?ts = map frequency_ll ts" "map logicalNumber ?ts = map logicalNumber ts"
    using p(2) by (auto intro!: map_update_same)
  have inv: "\<forall>i < length ?ts. tuner_inv (?ts ! i) (m i)"
  proof (intro allI impI)
    fix i assume "i < length ?ts"
    then have "tuner_inv (ts ! i) (m i)" using Cons.prems(2) by simp
    with p(2) \<open>i < length ?ts\<close> show "tuner_inv (?ts ! i) (m i)"
      by (cases "i = s_tuner s") auto
  qed
  have "\<forall>s \<in> set ss. sess_ok ?ts s \<and> room dec pmt_of s"
    using Cons.prems(3) sess_ok_cong [OF fr(1)] by simp
  then obtain ts2 ss2 c2 where r: "write_sessions env dec pmt_of pid data v ?ts ss = Inr (ts2, ss2, c2)"
    "\<forall>i < length ?ts. tuner_inv (ts2 ! i) (m i)" "map frequency_ll ts2 = map frequency_ll ?ts"
    "map logicalNumber ts2 = map logicalNumber ?ts"
    "\<forall>s \<in> set ss2. sess_ok ts2 s" "map identity ss2 = map identity ss"
    "list_all2 (delivered ?ts v pid data) ss ss2"
    using Cons.IH [OF _ inv] by blast
  have fr2: "map frequency_ll ts2 = map frequency_ll ts" using r(3) fr(1) by simp
  have "sess_ok ts s1"
    using ok(1) p(3,4) id by (simp add: sess_ok_def)
  then have "sess_ok ts2 s1" using sess_ok_cong [OF fr2] by simp
  moreover have "list_all2 (delivered ts v pid data) ss ss2"
    using r(7)
  proof (rule list.rel_mono_strong)
    fix x y assume "x \<in> set ss" "delivered ?ts v pid data x y"
    moreover from this have "s_tuner x < length ts" using Cons.prems(3) by (simp add: sess_ok_def)
    ultimately show "delivered ts v pid data x y" using delivered_cong [OF fr] by blast
  qed
  moreover have "delivered ts v pid data s s1" using p(6) j by simp
  moreover have "write_sessions env dec pmt_of pid data v ts (s # ss) = Inr (ts2, s1 # ss2, c1 @ c2)"
    using j p(1) r(1) by (simp add: tuner_at_def)
  ultimately show ?case using r fr p(5)
    by (intro Cons.prems(1) [of ts2 "s1 # ss2" "c1 @ c2"]) simp_all
qed

lemma session_write_ok:
  assumes "server_ok st" and "v < length (tuners st)" and "length data < SESSION_BUFFER"
    and "\<forall>s \<in> set (sessions st). room dec pmt_of s"
  shows "\<exists>st' calls. session_write env dec pmt_of pid data v st = Inr (st', calls) \<and> server_ok st'
    \<and> list_all2 (delivered (tuners st) (logicalNumber (tuners st ! v)) pid data)
        (sessions st) (sessions st')
    \<and> map identity (sessions st') = map identity (sessions st)"
proof -
  have inv: "\<forall>i < length (tuners st). tuner_inv (tuners st ! i) (refs (sessions st) i)"
    and ok: "\<forall>s \<in> set (sessions st). sess_ok (tuners st) s \<and> room dec pmt_of s"
    using assms(1,4) by (simp_all add: server_ok_def)
  obtain ts' ss' calls where
    r: "write_sessions env dec pmt_of pid data (logicalNumber (tuners st ! v)) (tuners st) (sessions st)
        = Inr (ts', ss', calls)"
    "\<forall>i < length (tuners st). tuner_inv (ts' ! i) (refs (sessions st) i)"
    "map frequency_ll ts' = map frequency_ll (tuners st)" "\<forall>s \<in> set ss'. sess_ok ts' s"
    "map identity ss' = map identity (sessions st)"
    "list_all2 (delivered (tuners st) (logicalNumber (tuners st ! v)) pid data) (sessions st) ss'"
    by (rule write_sessions_ok [OF inv ok assms(3), of env pid "logicalNumber (tuners st ! v)"])
  have "map s_tuner xs = map fst (map identity xs)"
    "map channel_key xs = map (\<lambda>x. fst (snd (snd x))) (map identity xs)" for xs
    by (simp_all add: identity_def comp_def)
  then have "map s_tuner ss' = map s_tuner (sessions st)"
    "map channel_key ss' = map channel_key (sessions st)"
    using r(5) by (simp_all only:)
  moreover have "length ts' = length (tuners st)" using r(3) by (rule map_eq_imp_length_eq)
  ultimately have "server_ok (st\<lparr>tuners := ts', sessions := ss'\<rparr>)"
    using r(2,4) assms(1) refs_cong [of ss' "sessions st"] by (simp add: server_ok_def)
  with r assms(2) show ?thesis
    by (intro exI [of _ "st\<lparr>tuners := ts', sessions := ss'\<rparr>"] exI [of _ calls])
      (simp add: session_write_def tuner_at_def)
qed

lemma thread_pass_server:
  assumes "server_ok st"
  shows "\<exists>ts calls. session_thread_pass now (tuners st) (sessions st) =
      Inr (ts, map (update_bandwidth now) (filter (\<lambda>s. destination_ll s \<noteq> []) (sessions st)), calls)
    \<and> server_ok (st\<lparr>tuners := ts,
        sessions := map (update_bandwidth now) (filter (\<lambda>s. destination_ll s \<noteq> []) (sessions st))\<rparr>)"
proof -
  let ?keep = "filter (\<lambda>s. destination_ll s \<noteq> []) (sessions st)"
  have "\<forall>i < length (tuners st). tuner_inv (tuners st ! i) (0 + refs (sessions st) i)"
    and ok: "\<forall>s \<in> set (sessions st). sess_ok (tuners st) s"
    using assms by (simp_all add: server_ok_def)
  from thread_pass_ok [OF this, of now] obtain ts calls where
    r: "session_thread_pass now (tuners st) (sessions st) =
      Inr (ts, map (update_bandwidth now) ?keep, calls)"
    "map frequency_ll ts = map frequency_ll (tuners st)"
    "\<forall>i < length ts. tuner_inv (ts ! i) (refs ?keep i)" by auto
  have "map s_tuner (map (update_bandwidth now) ?keep) = map s_tuner ?keep" by simp
  then have "\<forall>i < length ts. tuner_inv (ts ! i) (refs (map (update_bandwidth now) ?keep) i)"
    using r(3) refs_cong by metis
  moreover have "\<forall>s \<in> set (map (update_bandwidth now) ?keep). sess_ok ts s"
    using ok sess_ok_cong [OF r(2)] by auto
  moreover have "map channel_key (map (update_bandwidth now) ?keep) = map channel_key ?keep" by simp
  moreover have "distinct (map channel_key ?keep)"
    using assms by (simp add: server_ok_def distinct_map_filter)
  ultimately show ?thesis using r(1) by (simp add: server_ok_def comp_def)
qed

section \<open>Properties\<close>

text \<open>
  C28. A program map table adds its elementary streams' PIDs and its conditional access PIDs to
  the session, each once, in the order of the table, as long as the session has at most 32
  PIDs together; with more, the array \<^verbatim>\<open>pidList\<close> is overrun.
\<close>

theorem process_pmt_pids:
  assumes "pl_ok s"
  shows "if card (set (sess_pids s) \<union> set (pmt_pids dec p)) \<le> 32
    then \<exists>t' s' calls. process_pmt env dec p ((t, s), []) = Inr ((t', s'), calls)
      \<and> sess_pids s' = foldl add_new (sess_pids s) (pmt_pids dec p)
      \<and> distinct (sess_pids s') \<and> set (sess_pids s') = set (sess_pids s) \<union> set (pmt_pids dec p)
      \<and> pl_ok s'
    else process_pmt env dec p ((t, s), []) = Inl Overrun"
proof -
  have "pids_added ((t, s), []) (pmt_pids dec p) (process_pmt env dec p ((t, s), []))"
    by (rule process_pmt_added) (simp add: assms)
  moreover have d: "distinct (sess_pids s)" using assms by (simp add: pl_ok_def)
  ultimately show ?thesis
    using foldl_add_new(1) [of "sess_pids s" "pmt_pids dec p"] foldl_add_new(2) [OF d]
    by (simp add: pids_added_def Let_def card_foldl_add_new split: if_splits) auto
qed

lemma new_session_ok: "pl_ok (new_session rnd)" "sbuf_ok (new_session rnd)"
    "sess_pids (new_session rnd) = []" "sbuf_pending (new_session rnd) = []"
  by (simp_all add: pl_ok_def sbuf_ok_def sbuf_pending_def sess_pids_def new_session_def)

lemma process_pmt_pids_witness:
  "process_pmt quiet_env (\<lambda>_. None)
     \<lparr>pmt_descriptors = [],
      pmt_first_es = map (\<lambda>i. \<lparr>es_type = 2, es_pid = of_nat i, es_descriptors = []\<rparr>) [0..<33]\<rparr>
     ((one_tuner, new_session 99), []) = Inl Overrun"
proof -
  let ?p = "\<lparr>pmt_descriptors = [],
    pmt_first_es = map (\<lambda>i. \<lparr>es_type = 2, es_pid = of_nat i, es_descriptors = []\<rparr>) [0..<33]\<rparr>"
  have "card (set (pmt_pids (\<lambda>_. None) ?p)) = 33"
    by (simp add: pmt_pids_def descriptor_pids_def upt_rec)
  then have "\<not> card (set (sess_pids (new_session 99)) \<union> set (pmt_pids (\<lambda>_. None) ?p)) \<le> 32"
    by (simp add: new_session_ok)
  with process_pmt_pids [OF new_session_ok(1), of 99 "\<lambda>_. None" ?p quiet_env one_tuner]
  show ?thesis by simp
qed

definition carries :: "dvb_device_t \<Rightarrow> u16 \<times> u16 \<Rightarrow> bool" where
  "carries t key \<longleftrightarrow> getChannelByNumber_tuners t (uint (fst key)) (uint (snd key)) \<noteq> None"

lemma channel_OK_iff:
  "ts \<noteq> [] \<Longrightarrow> channel_OK ts (uint onid) (uint ch) ok = -1
     \<longleftrightarrow> \<not> (\<exists>t \<in> set ts. carries t (onid, ch))"
proof (induction ts arbitrary: ok)
  case (Cons t ts)
  have b: "uint w < 2 ^ 16" for w :: u16 using uint_bounded [of w] by simp
  have v: "0 \<le> channel_isProgramValid t (uint onid) (uint ch) \<longleftrightarrow> carries t (onid, ch)"
    using isProgramValid_iff [OF _ b _ b, of onid ch t] by (simp add: carries_def)
  have ge: "-1 \<le> channel_isProgramValid t (uint onid) (uint ch)" by (rule isProgramValid_ge)
  show ?case
  proof (cases "carries t (onid, ch)")
    case True
    with v show ?thesis by (simp add: Let_def)
  next
    case False
    with v ge have "channel_isProgramValid t (uint onid) (uint ch) = -1" by linarith
    with False Cons.IH show ?thesis by (cases ts) (simp_all add: Let_def)
  qed
qed simp

lemma close_type_sess [simp]:
  "sess_ok ts (s\<lparr>destination_ll := x\<rparr>) = sess_ok ts s"
  "channel_key (s\<lparr>destination_ll := x\<rparr>) = channel_key s"
  by (simp_all add: sess_ok_def pl_ok_def sess_pids_def sbuf_ok_def channel_key_def)

lemma map_dest_ok:
  assumes "server_ok st" "map s_tuner ss = map s_tuner (sessions st)"
    and "map channel_key ss = map channel_key (sessions st)"
    and "\<forall>s \<in> set ss. \<exists>s' \<in> set (sessions st). sess_ok (tuners st) s = sess_ok (tuners st) s'"
  shows "server_ok (st\<lparr>sessions := ss\<rparr>)"
  using assms refs_cong [OF assms(2)] by (simp add: server_ok_def)

lemma stop_type_ok: "server_ok st \<Longrightarrow> server_ok (st\<lparr>sessions := session_stop_type ty (sessions st)\<rparr>)"
  by (rule map_dest_ok) (auto simp: session_stop_type_def comp_def)

lemma append_dest_ok:
  assumes "server_ok st" "k < length (sessions st)"
  shows "server_ok (st\<lparr>sessions := (sessions st)[k := append_dest d (sessions st ! k)]\<rparr>)"
proof (rule map_dest_ok [OF assms(1)])
  let ?ss = "(sessions st)[k := append_dest d (sessions st ! k)]"
  show "map s_tuner ?ss = map s_tuner (sessions st)"
    by (rule map_update_same) (simp add: append_dest_def)
  show "map channel_key ?ss = map channel_key (sessions st)"
    by (rule map_update_same) (simp add: append_dest_def)
  show "\<forall>s \<in> set ?ss. \<exists>s' \<in> set (sessions st). sess_ok (tuners st) s = sess_ok (tuners st) s'"
  proof
    fix s assume "s \<in> set ?ss"
    then have "s \<in> set (sessions st) \<or> s = append_dest d (sessions st ! k)"
      using set_update_subset_insert by fastforce
    then show "\<exists>s' \<in> set (sessions st). sess_ok (tuners st) s = sess_ok (tuners st) s'"
      using assms(2) nth_mem by (auto simp: append_dest_def)
  qed
qed

text \<open>The session list a new request finds, after the live outputs of its kind are closed.\<close>

definition after_live :: "destination_t \<Rightarrow> session_service_t list \<Rightarrow> session_service_t list" where
  "after_live d ss =
     (if destination_type d = dest_live \<or> destination_type d = dest_live2
      then session_stop_type (destination_type d) ss else ss)"

lemma after_live_ok: "server_ok st \<Longrightarrow> server_ok (st\<lparr>sessions := after_live d (sessions st)\<rparr>)"
  using stop_type_ok by (simp add: after_live_def)

lemma addNew_fresh_ok:
  assumes "server_ok (st\<lparr>sessions := ss\<rparr>)" "map frequency_ll ts' = map frequency_ll (tuners st)"
    and "\<forall>i < length (tuners st). tuner_inv (ts' ! i) (bump (refs ss) j i)"
    and "sess_ok ts' s" "s_tuner s = j" "channel_key s \<notin> channel_key ` set ss"
  shows "server_ok (st\<lparr>tuners := ts', sessions := ss @ [s]\<rparr>)"
proof -
  have "length ts' = length (tuners st)" using assms(2) by (rule map_eq_imp_length_eq)
  moreover have "bump (refs ss) j i = refs (ss @ [s]) i" for i
    using assms(5) by (simp add: bump_def)
  moreover have "\<forall>x \<in> set ss. sess_ok ts' x"
    using assms(1) sess_ok_cong [OF assms(2)] by (simp add: server_ok_def)
  ultimately show ?thesis using assms(1,3,4,6) by (simp add: server_ok_def)
qed

text \<open>What comes of a request for a channel some tuner carries.\<close>

text \<open>The session that is entered for a channel that has none, on tuner \<open>j\<close>.\<close>

lemma addNew_starts:
  fixes d :: destination_t and rnd :: u64
  assumes sok: "server_ok (st\<lparr>sessions := ss\<rparr>)" and fresh: "(onid, ch) \<notin> channel_key ` set ss"
    and j: "j < length (tuners st)" "getChannelByNumber_tuners (tuners st ! j) (uint onid) (uint ch) = Some p"
    and ts': "map frequency_ll ts' = map frequency_ll (tuners st)"
      "\<forall>i < length (tuners st). tuner_inv (ts' ! i) (bump (refs ss) j i)"
  obtains chan s where "channel_at (ts' ! j) p = Inr chan"
    and "s = (new_session rnd)\<lparr>s_tuner := j, s_channel := p, s_onid := onid, s_channel_id := ch,
          pmt_program := service_id chan, destination_ll := [d]\<rparr>"
    and "server_ok (st\<lparr>tuners := ts', sessions := ss @ [s]\<rparr>)"
proof -
  have len: "length ts' = length (tuners st)" using ts'(1) by (rule map_eq_imp_length_eq)
  have fr: "frequency_ll (ts' ! j) = frequency_ll (tuners st ! j)"
    using ts'(1) j(1) len nth_map [of j ts' frequency_ll] nth_map [of j "tuners st" frequency_ll]
    by simp
  obtain chan where chan: "channel_at (ts' ! j) p = Inr chan"
    using find_channel_Some [of _ "frequency_ll (tuners st ! j)" "fst p" "snd p"] j(2) fr
    by (auto simp: getChannelByNumber_tuners_def channel_at_def)
  let ?s = "(new_session rnd)\<lparr>s_tuner := j, s_channel := p, s_onid := onid, s_channel_id := ch,
      pmt_program := service_id chan, destination_ll := [d]\<rparr>"
  have "sess_ok ts' ?s"
    using new_session_ok(1,2) [of rnd] chan j(1) len
    by (simp add: sess_ok_def pl_ok_def sess_pids_def sbuf_ok_def)
  then have "server_ok (st\<lparr>tuners := ts', sessions := ss @ [?s]\<rparr>)"
    by (rule addNew_fresh_ok [OF sok ts']) (use fresh in \<open>simp_all add: channel_key_def\<close>)
  with chan show thesis by (rule that [OF _ refl])
qed

lemma addNew_result:
  fixes d :: destination_t
  assumes "server_ok st" and "\<exists>t \<in> set (tuners st). carries t (onid, ch)"
  defines "ss \<equiv> after_live d (sessions st)"
  shows "\<exists>rc st' calls threads.
    session_addNew env rnd st onid ch (Some d) = Inr (rc, st', calls, threads) \<and> server_ok st'
    \<and> ((\<exists>k < length ss. channel_key (ss ! k) = (onid, ch) \<and> rc = sessionID (ss ! k)
           \<and> sessions st' = ss[k := append_dest d (ss ! k)] \<and> tuners st' = tuners st
           \<and> threads = [])
       \<or> (onid, ch) \<notin> channel_key ` set ss \<and> rc = 0 \<and> sessions st' = ss \<and> tuners st' = tuners st
           \<and> (\<forall>t \<in> set (tuners st). carries t (onid, ch) \<longrightarrow> 0 < refcnt t)
       \<or> (onid, ch) \<notin> channel_key ` set ss \<and> (\<exists>s. sessions st' = ss @ [s]
           \<and> channel_key s = (onid, ch) \<and> destination_ll s = [d] \<and> sessionID s = drop_bit 4 rnd
           \<and> rc = sessionID s \<and> s_tuner s < length (tuners st)
           \<and> carries (tuners st ! s_tuner s) (onid, ch)
           \<and> threads = (if refcnt (tuners st ! s_tuner s) = 0 then [rc, rc] else [rc])))"
proof -
  have ts: "tuners st \<noteq> []" using assms(2) by auto
  have OK: "channel_OK (tuners st) (uint onid) (uint ch) 0 \<noteq> -1"
    using channel_OK_iff [OF ts] assms(2) by blast
  have sok: "server_ok (st\<lparr>sessions := ss\<rparr>)" using after_live_ok [OF assms(1)] by (simp add: ss_def)
  have ss_if: "(if destination_type d = dest_live \<or> destination_type d = dest_live2
      then session_stop_type (destination_type d) (sessions st) else sessions st) = ss"
    by (simp add: ss_def after_live_def)
  show ?thesis
  proof (cases "find_index (\<lambda>s. s_onid s = onid \<and> s_channel_id s = ch) ss")
    case (Some k)
    then have k: "k < length ss" "channel_key (ss ! k) = (onid, ch)"
      by (auto simp: find_index_Some channel_key_def)
    have "session_addNew env rnd st onid ch (Some d) =
        Inr (sessionID (ss ! k), st\<lparr>sessions := ss[k := append_dest d (ss ! k)]\<rparr>, [], [])"
      using OK Some unfolding session_addNew_def by (simp add: ss_if)
    moreover have "server_ok (st\<lparr>sessions := ss[k := append_dest d (ss ! k)]\<rparr>)"
      using append_dest_ok [OF sok] k(1) by simp
    ultimately show ?thesis using k by fastforce
  next
    case None
    then have fresh: "(onid, ch) \<notin> channel_key ` set ss"
      by (auto simp: find_index_None channel_key_def)
    have inv: "\<forall>i < length (tuners st). tuner_inv (tuners st ! i) (refs ss i)"
      using sok by (simp add: server_ok_def)
    show ?thesis
    proof (rule choose_tuner_ok [OF inv, of env "uint onid" "uint ch" 0])
      assume c: "choose_tuner env (uint onid) (uint ch) 0 (tuners st) = Inr (None, tuners st, [])"
        and busy: "\<forall>i < length (tuners st).
          getChannelByNumber_tuners (tuners st ! i) (uint onid) (uint ch) = None \<or> 0 < refs ss i"
      have "session_addNew env rnd st onid ch (Some d) = Inr (0, st\<lparr>sessions := ss\<rparr>, [], [])"
        using OK None c unfolding session_addNew_def by (simp add: ss_if)
      moreover have "0 < refcnt t" if "t \<in> set (tuners st)" "carries t (onid, ch)" for t
        using that inv busy by (auto simp: in_set_conv_nth carries_def tuner_inv_def)
      ultimately show ?thesis using fresh sok by auto
    next
      fix j p ts' calls
      assume c: "choose_tuner env (uint onid) (uint ch) 0 (tuners st) =
          Inr (Some (0 + j, p, refs ss j = 0), ts', calls)"
        and j: "j < length (tuners st)"
          "getChannelByNumber_tuners (tuners st ! j) (uint onid) (uint ch) = Some p"
        and ts': "map frequency_ll ts' = map frequency_ll (tuners st)"
          "\<forall>i < length (tuners st). tuner_inv (ts' ! i) (bump (refs ss) j i)"
      obtain chan s where chan: "channel_at (ts' ! j) p = Inr chan"
        and s: "s = (new_session rnd)\<lparr>s_tuner := j, s_channel := p, s_onid := onid, s_channel_id := ch,
          pmt_program := service_id chan, destination_ll := [d]\<rparr>"
        and ok: "server_ok (st\<lparr>tuners := ts', sessions := ss @ [s]\<rparr>)"
        by (rule addNew_starts [OF sok fresh j ts'])
      have "session_addNew env rnd st onid ch (Some d) = Inr (sessionID s,
          st\<lparr>tuners := ts', sessions := ss @ [s]\<rparr>, calls,
          (if refs ss j = 0 then [sessionID s] else []) @ [sessionID s])"
        unfolding s using OK None c chan unfolding session_addNew_def by (simp add: ss_if Let_def)
      moreover have "refs ss j = 0 \<longleftrightarrow> refcnt (tuners st ! j) = 0"
        using inv j(1) by (auto simp: tuner_inv_def)
      moreover have "channel_key s = (onid, ch)" "sessionID s = drop_bit 4 rnd"
        "destination_ll s = [d]" "s_tuner s = j"
        by (simp_all add: s channel_key_def new_session_def)
      moreover have "j < length (tuners st)" by (rule j(1))
      moreover have "carries (tuners st ! j) (onid, ch)" using j(2) by (simp add: carries_def)
      ultimately show ?thesis using fresh ok
        by (intro exI [of _ "sessionID s"] exI [of _ calls]
            exI [of _ "st\<lparr>tuners := ts', sessions := ss @ [s]\<rparr>"]
            exI [of _ "(if refs ss j = 0 then [sessionID s] else []) @ [sessionID s]"]) simp
    qed
  qed
qed

text \<open>
  C5. A request for a channel some tuner carries never faults on a sound server. It joins the
  session that serves the channel already, or starts one on the first tuner that carries the
  channel and is free or already on its frequency, or is refused when every tuner that
  carries it is in use. In each case the server stays sound: the count of each tuner is the
  number of sessions that use it, a tuner is busy exactly when it is used, and no channel has
  two sessions. For a session on a tuner that was free two destination threads are started.
\<close>

theorem session_addNew_ok:
  fixes d :: destination_t
  assumes "server_ok st" and "\<exists>t \<in> set (tuners st). carries t (onid, ch)"
  defines "ss \<equiv> after_live d (sessions st)"
  shows "\<exists>rc st' calls threads.
    session_addNew env rnd st onid ch (Some d) = Inr (rc, st', calls, threads) \<and> server_ok st'
    \<and> ((\<exists>k < length ss. channel_key (ss ! k) = (onid, ch) \<and> rc = sessionID (ss ! k)
           \<and> sessions st' = ss[k := append_dest d (ss ! k)] \<and> tuners st' = tuners st
           \<and> threads = [])
       \<or> (onid, ch) \<notin> channel_key ` set ss \<and> rc = 0 \<and> sessions st' = ss \<and> tuners st' = tuners st
           \<and> (\<forall>t \<in> set (tuners st). carries t (onid, ch) \<longrightarrow> 0 < refcnt t)
       \<or> (onid, ch) \<notin> channel_key ` set ss \<and> (\<exists>s. sessions st' = ss @ [s]
           \<and> channel_key s = (onid, ch) \<and> destination_ll s = [d] \<and> sessionID s = drop_bit 4 rnd
           \<and> rc = sessionID s \<and> s_tuner s < length (tuners st)
           \<and> carries (tuners st ! s_tuner s) (onid, ch)
           \<and> threads = (if refcnt (tuners st ! s_tuner s) = 0 then [rc, rc] else [rc])))"
  using addNew_result [OF assms(1,2), of env rnd d] unfolding assms(3) .

definition one_server :: server where
  "one_server = \<lparr>tuners = [one_tuner], sessions = [], g_write_time = 0\<rparr>"

lemma one_server_ok: "server_ok one_server"
  by (simp add: one_server_def server_ok_def tuner_inv_def tunable_def)
    (simp add: one_tuner_def one_freq_def is_dvbt_def is_dvbs_def)

lemma one_server_carries: "\<exists>t \<in> set (tuners one_server). carries t (0, 4)"
  by (simp add: one_server_def carries_def getChannelByNumber_tuners_def one_tuner_def one_freq_def
      new_channel_def matches16_def dvb_frequency_base_t.defs)

lemma session_addNew_ok_witness:
  "\<exists>rc st' calls threads.
     session_addNew quiet_env 64 one_server 0 4 (Some small_dest) = Inr (rc, st', calls, threads)
     \<and> server_ok st' \<and> map destination_ll (sessions st') = [[small_dest]] \<and> threads = [4, 4]"
proof -
  have "refcnt one_tuner = 0" by (simp add: one_tuner_def)
  moreover have "drop_bit 4 (64 :: u64) = 4" by (simp add: drop_bit_eq_div)
  moreover have "after_live small_dest (sessions one_server) = []" "tuners one_server = [one_tuner]"
    by (simp_all add: after_live_def small_dest_def one_server_def)
  ultimately show ?thesis
    using session_addNew_ok [OF one_server_ok one_server_carries, of quiet_env 64 small_dest]
      one_server_carries
    by auto
qed

text \<open>
  C15. Stopping removes exactly the session with the given number from a sound server, releases
  its tuner, which becomes idle when no session is left on it, and closes its destinations;
  without such a session nothing changes and the result is -1. The server stays sound.
\<close>

theorem session_stop_ok:
  assumes "server_ok st"
  shows "case find_index (\<lambda>s. sessionID s = x) (sessions st) of
      None \<Rightarrow> session_stop x st = Inr (-1, st, [], [])
    | Some k \<Rightarrow>
        (let s = sessions st ! k; rest = take k (sessions st) @ drop (Suc k) (sessions st) in
         \<exists>st' calls. session_stop x st = Inr (0, st', calls, destination_close_all (destination_ll s))
           \<and> server_ok st' \<and> sessions st' = rest \<and> sessionID s = x
           \<and> refcnt (tuners st' ! s_tuner s) = refcnt (tuners st ! s_tuner s) - 1
           \<and> (refs rest (s_tuner s) = 0 \<longrightarrow> currentState (tuners st' ! s_tuner s) = st_idle))"
proof (cases "find_index (\<lambda>s. sessionID s = x) (sessions st)")
  case None
  then show ?thesis by (simp add: session_stop_def)
next
  case (Some k)
  let ?s = "sessions st ! k" and ?rest = "take k (sessions st) @ drop (Suc k) (sessions st)"
  obtain t1 calls where r: "session_stop x st = Inr (0,
      st\<lparr>tuners := (tuners st)[s_tuner ?s := t1], sessions := ?rest\<rparr>,
      calls, destination_close_all (destination_ll ?s))"
    "tuner_inv t1 (refs ?rest (s_tuner ?s))"
    "refs ?rest (s_tuner ?s) = 0 \<longrightarrow> currentState t1 = st_idle"
    using session_stop_split [OF assms Some] by (elim exE conjE) (rule that)
  note fk = find_index_split [OF Some]
  have "sess_ok (tuners st) ?s" using assms fk(1) by (simp add: server_ok_def)
  then have j: "s_tuner ?s < length (tuners st)" by (simp add: sess_ok_def)
  have "refs (sessions st) (s_tuner ?s) = Suc (refs ?rest (s_tuner ?s))" by (subst fk(3)) simp
  moreover have "refcnt (tuners st ! s_tuner ?s) = int (refs (sessions st) (s_tuner ?s))"
    using assms j by (simp add: server_ok_def tuner_inv_def)
  moreover have "refcnt t1 = int (refs ?rest (s_tuner ?s))" using r(2) by (simp add: tuner_inv_def)
  ultimately have "refcnt t1 = refcnt (tuners st ! s_tuner ?s) - 1" by simp
  with r session_stop_keeps [OF assms Some r(1)] Some fk(2) j show ?thesis
    by (simp add: Let_def del: refs_simps)
qed

text \<open>A server with one session, on its only tuner.\<close>

definition busy_tuner :: dvb_device_t where
  "busy_tuner = one_tuner\<lparr>refcnt := 1, currentState := st_busy\<rparr>"

definition one_session :: session_service_t where
  "one_session = (new_session 64)\<lparr>s_channel_id := 4\<rparr>"

definition busy_server :: server where
  "busy_server = \<lparr>tuners = [busy_tuner], sessions = [one_session], g_write_time = 0\<rparr>"

lemma one_session_id: "sessionID one_session = 4"
  by (simp add: one_session_def new_session_def drop_bit_eq_div)

lemma busy_server_ok: "server_ok busy_server"
proof -
  have t: "tuner_inv busy_tuner 1"
    using one_server_ok
    by (simp add: one_server_def server_ok_def tuner_inv_def busy_tuner_def tunable_def tables_ok_def)
  have "\<exists>c. channel_at busy_tuner (0, 0) = Inr c"
    by (simp add: channel_at_def busy_tuner_def one_tuner_def one_freq_def dvb_frequency_base_t.defs)
  moreover have "pl_ok one_session" "sbuf_ok one_session"
    using new_session_ok(1,2) [of 64] by (simp_all add: one_session_def pl_ok_def sess_pids_def sbuf_ok_def)
  ultimately have "sess_ok [busy_tuner] one_session"
    by (simp add: sess_ok_def one_session_def new_session_def)
  moreover have "s_tuner one_session = 0" by (simp add: one_session_def new_session_def)
  ultimately show ?thesis using t by (simp add: server_ok_def busy_server_def)
qed

lemma session_stop_ok_witness:
  "\<exists>st' calls. session_stop 4 busy_server = Inr (0, st', calls, []) \<and> server_ok st'
     \<and> sessions st' = [] \<and> currentState (tuners st' ! 0) = st_idle"
proof -
  have "find_index (\<lambda>s. sessionID s = 4) (sessions busy_server) = Some 0"
    by (simp add: busy_server_def one_session_id)
  moreover have "sessions busy_server ! 0 = one_session" "s_tuner one_session = 0"
    "destination_ll one_session = []" "sessions busy_server = [one_session]"
    by (simp_all add: busy_server_def one_session_def new_session_def)
  ultimately show ?thesis using session_stop_ok [OF busy_server_ok, of 4]
    by (auto simp: Let_def)
qed

text \<open>
  C27. A packet from a tuner reaches exactly the sessions that are on that tuner and want its
  PID: it is appended to their buffers, or takes the place of all that waits there when it does
  not fit; the others are untouched. That never faults on a sound server as long as the program
  map tables completed by the packet leave each session at most 32 PIDs; the server stays
  sound and no session changes its tuner, channel or destinations.
\<close>

theorem session_write_delivers:
  assumes "server_ok st" and "v < length (tuners st)" and "length data < SESSION_BUFFER"
    and "\<forall>s \<in> set (sessions st). room dec pmt_of s"
  shows "\<exists>st' calls. session_write env dec pmt_of pid data v st = Inr (st', calls) \<and> server_ok st'
    \<and> list_all2 (delivered (tuners st) (logicalNumber (tuners st ! v)) pid data)
        (sessions st) (sessions st')
    \<and> map identity (sessions st') = map identity (sessions st)"
  by (rule session_write_ok [OF assms])

lemma one_session_buffer: "bufferPtr one_session = 0" "sbuf_pending one_session = []"
    "sess_pids one_session = []" "s_tuner one_session = 0" "s_channel one_session = (0, 0)"
    "destination_ll one_session = []"
  by (simp_all add: one_session_def new_session_def sbuf_pending_def sess_pids_def)

lemma session_write_delivers_witness:
  "\<exists>st' calls. session_write quiet_env (\<lambda>_. None) (\<lambda>_. None) 0 (replicate 188 71) 0 busy_server
      = Inr (st', calls) \<and> map sbuf_pending (sessions st') = [replicate 188 71]"
proof -
  have w: "wants [busy_tuner] (logicalNumber busy_tuner) 0 one_session"
    using busy_server_ok
    by (auto simp: wants_def server_ok_def busy_server_def sess_ok_def one_session_buffer
        session_isPidMine_def)
  have "\<exists>st' calls. session_write quiet_env (\<lambda>_. None) (\<lambda>_. None) 0 (replicate 188 71) 0 busy_server
      = Inr (st', calls) \<and> server_ok st'
    \<and> list_all2 (delivered (tuners busy_server) (logicalNumber (tuners busy_server ! 0)) 0
         (replicate 188 71)) (sessions busy_server) (sessions st')
    \<and> map identity (sessions st') = map identity (sessions busy_server)"
    by (rule session_write_delivers [OF busy_server_ok])
      (simp_all add: busy_server_def room_def SESSION_BUFFER_def)
  with w show ?thesis
    by (auto simp: busy_server_def list_all2_Cons1 delivered_def one_session_buffer
        SESSION_BUFFER_def)
qed

text \<open>
  C26. A pass of the session thread ends exactly the sessions that have no destination left, in
  one go and without a fault on a sound server, and keeps the others in order; the server stays
  sound, so the tuner of the last session that ends becomes free.
\<close>

theorem session_thread_reaps:
  assumes "server_ok st"
  shows "\<exists>ts calls. session_thread_pass now (tuners st) (sessions st) =
      Inr (ts, map (update_bandwidth now) (filter (\<lambda>s. destination_ll s \<noteq> []) (sessions st)), calls)
    \<and> server_ok (st\<lparr>tuners := ts,
        sessions := map (update_bandwidth now) (filter (\<lambda>s. destination_ll s \<noteq> []) (sessions st))\<rparr>)"
  by (rule thread_pass_server [OF assms])

lemma session_thread_reaps_witness:
  "\<exists>ts calls. session_thread_pass (5, 0) [busy_tuner] [one_session] = Inr (ts, [], calls)
    \<and> server_ok \<lparr>tuners = ts, sessions = [], g_write_time = 0\<rparr>"
  using session_thread_reaps [OF busy_server_ok, of "(5, 0)"]
  by (simp add: busy_server_def one_session_buffer)

text \<open>
  The bandwidth the session thread records is not bytes per second: more than a second after
  the last sample it is 0, and between 501 and 1000 milliseconds after it is the bare number of
  bytes since then.
\<close>

theorem update_bandwidth_value:
  assumes "ms = time_diff_us (snap_time s) now div 1000" and "500 < ms"
  shows "currentBandwidth (update_bandwidth now s) =
      (if 1000 < ms then 0 else word_of_int (sint (outbytes_total s)) - totalCount s)"
proof -
  have "1000 div ms = (if 1000 < ms then 0 else 1)"
  proof (cases "1000 < ms")
    case True
    then have "unat (1000 :: u64) < unat ms" by (simp only: word_less_nat_alt)
    then show ?thesis using True by (simp add: word_arith_nat_div)
  next
    case False
    have "unat ms \<le> unat (1000 :: u64)" using False by (simp only: not_less word_le_nat_alt)
    moreover have "unat (500 :: u64) < unat ms" using assms(2) by (simp only: word_less_nat_alt)
    ultimately have "1000 div unat ms = 1" by (simp add: div_nat_eqI)
    then show ?thesis using False by (simp add: word_arith_nat_div)
  qed
  with assms show ?thesis by (simp add: update_bandwidth_def Let_def)
qed

lemma update_bandwidth_value_witness:
  "currentBandwidth (update_bandwidth (5, 0) (one_session\<lparr>outbytes_total := 940000\<rparr>)) = 0"
proof -
  have "time_diff_us (snap_time (one_session\<lparr>outbytes_total := 940000\<rparr>)) (5, 0) div 1000 = 5000"
    by (simp add: time_diff_us_def one_session_def new_session_def)
  from update_bandwidth_value [OF this [symmetric]] show ?thesis by simp
qed

end
