(* ===== verification/Database.thy ===== *)
theory Database
  imports Frequencies Destination
begin

text \<open>
  The programme guide database of \<^verbatim>\<open>src/DVB/database.c\<close>. The SQL engine is external: a
  \<open>sqlite\<close> record of what its calls answer on a database of type \<open>'db\<close>. A statement is a value
  of \<open>sql\<close>; \<open>sql_text\<close> is the text the code prints into its array of 512 characters, and the
  texts bound to its parameters stay beside it.
\<close>

section \<open>Statements\<close>

datatype sql =
    Create_channels
  | Create_events
  | Select_event int u16 u16
  | Insert_event u16 u16 int int "string \<times> string \<times> string"
  | Select_channel u64 u16 u16
  | Insert_channel u64 u16 u16 string
  | Drop_bookmarks
  | Create_bookmarks
  | Fill_bookmarks

definition show_u16 :: "u16 \<Rightarrow> string" where
  "show_u16 w = show_nat (unat w)"

definition show_u64 :: "u64 \<Rightarrow> string" where
  "show_u64 w = show_nat (unat w)"

fun sql_text :: "sql \<Rightarrow> string" where
  "sql_text Create_channels =
     ''CREATE TABLE IF NOT EXISTS CHANNELS_DVB (id INTEGER PRIMARY KEY AUTOINCREMENT, serial NUMERIC ,onid NUMERIC, chid NUMERIC, name TEXT);''"
| "sql_text Create_events =
     ''CREATE TABLE IF NOT EXISTS EVENTS (id INTEGER PRIMARY KEY AUTOINCREMENT, onid INTEGER, chid INTEGER, language TEXT,start_time INTEGER, duration INTEGER, event_name TEXT,event_desc TEXT);''"
| "sql_text (Select_event start onid chid) =
     ''select id from EVENTS where start_time='' @ show_int start @ '' and onid='' @ show_u16 onid
     @ '' and chid='' @ show_u16 chid @ '';''"
| "sql_text (Insert_event onid chid start duration bound) =
     ''insert or replace into EVENTS (onid,chid,language,start_time,duration,event_name,event_desc) values(''
     @ show_u16 onid @ '','' @ show_u16 chid @ '',?,'' @ show_int start @ '','' @ show_int duration
     @ '',?,?);''"
| "sql_text (Select_channel sn onid chid) =
     ''select id from CHANNELS_DVB where serial='' @ show_u64 sn @ '' and onid='' @ show_u16 onid
     @ '' and chid='' @ show_u16 chid @ '';''"
| "sql_text (Insert_channel sn onid chid name) =
     ''insert or replace into CHANNELS_DVB (serial,onid,chid,name) values('' @ show_u64 sn
     @ '','' @ show_u16 onid @ '','' @ show_u16 chid @ '',?);''"
| "sql_text Drop_bookmarks = ''drop table bookmarks;''"
| "sql_text Create_bookmarks =
     ''create table bookmarks (ID INTEGER PRIMARY KEY AUTOINCREMENT , CHANNEL_NUM INTEGER , NAME TEXT) ;''"
| "sql_text Fill_bookmarks =
     ''insert into bookmarks (NAME) select  distinct NAME from channels_dvb;''"

text \<open>
  \<open>s_prepare\<close> is the result of preparing, 0 for success; \<open>s_first\<close> what the first column of
  the first row reads as, 0 without a row; \<open>s_run\<close> the database after the statement.
\<close>

record 'db sqlite =
  s_open :: int
  s_prepare :: "'db \<Rightarrow> sql \<Rightarrow> int"
  s_first :: "'db \<Rightarrow> sql \<Rightarrow> int"
  s_run :: "'db \<Rightarrow> sql \<Rightarrow> 'db"

text \<open>The text of a statement is printed before it is used.\<close>

definition with_text :: "sql \<Rightarrow> 'a \<Rightarrow> 'a res" where
  "with_text q r = bind_res (sprint 512 (sql_text q)) (\<lambda>_. Inr r)"

section \<open>Operations\<close>

text \<open>
  Opening never gives a negative result, so the handle is kept even when it failed. The
  handle is \<open>None\<close> for the null pointer.
\<close>

definition database_init :: "'db sqlite \<Rightarrow> 'db \<Rightarrow> 'db option res" where
  "database_init sq db =
     (if s_open sq < 0 then Inr None
      else
        bind_res (with_text Create_channels (s_run sq db Create_channels)) (\<lambda>db1.
        bind_res (with_text Create_events (s_run sq db1 Create_events)) (\<lambda>db2. Inr (Some db2))))"

type_synonym event_row = "u16 \<times> u16 \<times> int \<times> int \<times> string \<times> string \<times> string"

definition database_addevent :: "'db sqlite \<Rightarrow> 'db \<Rightarrow> event_row \<Rightarrow> 'db res" where
  "database_addevent sq db row =
     (let (onid, chid, start, duration, name, desc, lang) = row;
          sel = Select_event start onid chid;
          ins = Insert_event onid chid start duration (take 3 lang, name, desc) in
      bind_res (with_text sel ()) (\<lambda>_.
      if s_prepare sq db sel \<noteq> 0 then Inr db
      else if s_first sq db sel = 0 then with_text ins (s_run sq db ins)
      else Inr db))"

definition database_addchannel :: "'db sqlite \<Rightarrow> 'db option \<Rightarrow> channel_row \<Rightarrow> 'db option res" where
  "database_addchannel sq h row =
     (case h of
        None \<Rightarrow> Inr None
      | Some db \<Rightarrow>
          (let (sn, onid, chid, name) = row;
               sel = Select_channel sn (word_of_int onid) (word_of_int chid);
               ins = Insert_channel sn (word_of_int onid) (word_of_int chid) name in
           bind_res (with_text sel ()) (\<lambda>_.
           if s_prepare sq db sel \<noteq> 0 then Inr h
           else if s_first sq db sel = 0 then with_text ins (Some (s_run sq db ins))
           else Inr h)))"

definition database_createBookmarks :: "'db sqlite \<Rightarrow> 'db \<Rightarrow> 'db" where
  "database_createBookmarks sq db =
     s_run sq (s_run sq (s_run sq db Drop_bookmarks) Create_bookmarks) Fill_bookmarks"

fun add_events :: "'db sqlite \<Rightarrow> 'db \<Rightarrow> event_row list \<Rightarrow> 'db res" where
  "add_events sq db [] = Inr db"
| "add_events sq db (r # rs) = bind_res (database_addevent sq db r) (\<lambda>db'. add_events sq db' rs)"

section \<open>The texts fit\<close>

lemma show_nat_bits:
  assumes "n < 2 ^ k" "2 ^ k \<le> (10 :: nat) ^ d" "0 < d"
  shows "length (show_nat n) \<le> d"
  using show_nat_length [of n d] assms by simp

lemma show_u16_length: "length (show_u16 w) \<le> 5"
proof -
  have "unat w < 2 ^ 16" using unsigned_less [of w, where ?'a = nat] by simp
  then show ?thesis unfolding show_u16_def by (rule show_nat_bits) simp_all
qed

lemma show_u64_length: "length (show_u64 w) \<le> 20"
proof -
  have "unat w < 2 ^ 64" using unsigned_less [of w, where ?'a = nat] by simp
  then show ?thesis unfolding show_u64_def by (rule show_nat_bits) simp_all
qed

lemma show_int_length:
  assumes "- (2 ^ 31) \<le> i" "i < 2 ^ 31"
  shows "length (show_int i) \<le> 11"
proof -
  have "length (show_nat n) \<le> 10" if "n < 2 ^ 32" for n
    using that by (rule show_nat_bits) simp_all
  then have "length (show_nat (nat i)) \<le> 10" "length (show_nat (nat (- i))) \<le> 10"
    using assms by simp_all
  then show ?thesis by (simp add: show_int_def)
qed

definition int32 :: "int \<Rightarrow> bool" where
  "int32 i \<longleftrightarrow> - (2 ^ 31) \<le> i \<and> i < 2 ^ 31"

fun sql_ok :: "sql \<Rightarrow> bool" where
  "sql_ok (Select_event start _ _) = int32 start"
| "sql_ok (Insert_event _ _ start duration _) = (int32 start \<and> int32 duration)"
| "sql_ok _ = True"

lemma sql_text_length: "sql_ok q \<Longrightarrow> length (sql_text q) < 512"
proof (cases q)
  case (Select_event start onid chid)
  assume "sql_ok q"
  then show ?thesis
    using Select_event show_u16_length [of onid] show_u16_length [of chid] show_int_length [of start]
    by (simp add: int32_def)
next
  case (Insert_event onid chid start duration bound)
  assume "sql_ok q"
  then show ?thesis
    using Insert_event show_u16_length [of onid] show_u16_length [of chid] show_int_length [of start]
      show_int_length [of duration]
    by (simp add: int32_def)
next
  case (Select_channel sn onid chid)
  then show ?thesis
    using show_u16_length [of onid] show_u16_length [of chid] show_u64_length [of sn] by simp
next
  case (Insert_channel sn onid chid name)
  then show ?thesis
    using show_u16_length [of onid] show_u16_length [of chid] show_u64_length [of sn] by simp
qed simp_all

lemma with_text_ok [simp]: "sql_ok q \<Longrightarrow> with_text q r = Inr r"
  using sql_text_length by (simp add: with_text_def sprint_def)

section \<open>What is stored\<close>

definition event_key :: "event_row \<Rightarrow> int \<times> u16 \<times> u16" where
  "event_key row = (case row of (onid, chid, start, _) \<Rightarrow> (start, onid, chid))"

definition event_ok :: "event_row \<Rightarrow> bool" where
  "event_ok row \<longleftrightarrow> (case row of (_, _, start, duration, _) \<Rightarrow> int32 start \<and> int32 duration)"

definition has_event :: "'db sqlite \<Rightarrow> 'db \<Rightarrow> int \<times> u16 \<times> u16 \<Rightarrow> bool" where
  "has_event sq db k \<longleftrightarrow> (case k of (start, onid, chid) \<Rightarrow> s_first sq db (Select_event start onid chid) \<noteq> 0)"

text \<open>
  The documented behaviour of the engine: preparing succeeds, and after inserting an event the
  query for its key finds a row, the others what they found before.
\<close>

definition engine_ok :: "'db sqlite \<Rightarrow> bool" where
  "engine_ok sq \<longleftrightarrow> (\<forall>db q. s_prepare sq db q = 0)
     \<and> (\<forall>db onid chid start duration bound k.
          has_event sq (s_run sq db (Insert_event onid chid start duration bound)) k
          \<longleftrightarrow> k = (start, onid, chid) \<or> has_event sq db k)"

definition event_insert :: "event_row \<Rightarrow> sql" where
  "event_insert row = (case row of (onid, chid, start, duration, name, desc, lang) \<Rightarrow>
     Insert_event onid chid start duration (take 3 lang, name, desc))"

lemma addevent_eq:
  assumes "engine_ok sq" "event_ok row"
  shows "database_addevent sq db row =
    Inr (if has_event sq db (event_key row) then db else s_run sq db (event_insert row))"
proof -
  obtain onid chid start duration name desc lang
    where "row = (onid, chid, start, duration, name, desc, lang)" by (metis prod_cases7)
  with assms show ?thesis
    by (simp add: database_addevent_def event_key_def event_ok_def has_event_def engine_ok_def
        event_insert_def)
qed

lemma has_after_insert:
  assumes "engine_ok sq"
  shows "has_event sq (s_run sq db (event_insert row)) k \<longleftrightarrow> k = event_key row \<or> has_event sq db k"
proof -
  obtain onid chid start duration name desc lang
    where "row = (onid, chid, start, duration, name, desc, lang)" by (metis prod_cases7)
  moreover have "has_event sq (s_run sq db (Insert_event onid chid start duration bound)) k
      \<longleftrightarrow> k = (start, onid, chid) \<or> has_event sq db k" for bound
    using assms unfolding engine_ok_def by blast
  ultimately show ?thesis by (simp add: event_insert_def event_key_def)
qed

section \<open>Properties\<close>

text \<open>The first events of their keys, among those with a new key.\<close>

definition first_events :: "(int \<times> u16 \<times> u16 \<Rightarrow> bool) \<Rightarrow> event_row list \<Rightarrow> event_row list" where
  "first_events old rows =
     map (nth rows) (filter (\<lambda>i. \<not> old (event_key (rows ! i))
        \<and> (\<forall>j < i. event_key (rows ! j) \<noteq> event_key (rows ! i))) [0..<length rows])"

lemma first_events_snoc:
  "first_events old (rows @ [r]) = first_events old rows @
     (if old (event_key r) \<or> event_key r \<in> event_key ` set rows then [] else [r])"
proof -
  have new: "(\<forall>j < length rows. event_key (rows ! j) \<noteq> event_key r)
      \<longleftrightarrow> event_key r \<notin> event_key ` set rows"
  proof -
    have "event_key ` set rows = {event_key (rows ! j) | j. j < length rows}"
      by (auto simp: set_conv_nth)
    then show ?thesis by (simp del: split_paired_All split_paired_Ex) metis
  qed
  let ?P = "\<lambda>xs i. \<not> old (event_key (xs ! i)) \<and> (\<forall>j < i. event_key (xs ! j) \<noteq> event_key (xs ! i))"
  have "filter (?P (rows @ [r])) [0..<length rows] = filter (?P rows) [0..<length rows]"
    by (rule filter_cong) (auto simp: nth_append)
  moreover have "map (nth (rows @ [r])) (filter (?P rows) [0..<length rows])
      = map (nth rows) (filter (?P rows) [0..<length rows])"
    by (rule map_cong) (auto simp: nth_append)
  ultimately show ?thesis using new by (auto simp: first_events_def nth_append)
qed

lemma add_events_append:
  "add_events sq db (xs @ ys) = bind_res (add_events sq db xs) (\<lambda>d. add_events sq d ys)"
  by (induction xs arbitrary: db) (simp_all add: bind_res_def split: sum.split)

text \<open>
  Storing a list of events runs one insertion for each new key (start time, network,
  service), that of its first event; an event whose key is there already, stored before or
  earlier in the list, is ignored, so a changed name or text never gets in. The texts of the
  statements fit their arrays.
\<close>

theorem add_events_first_wins:
  assumes "engine_ok sq" and "\<forall>r \<in> set rows. event_ok r"
  shows "\<exists>db'. add_events sq db rows = Inr db'
    \<and> db' = foldl (\<lambda>d r. s_run sq d (event_insert r)) db (first_events (has_event sq db) rows)
    \<and> (\<forall>k. has_event sq db' k \<longleftrightarrow> has_event sq db k \<or> k \<in> event_key ` set rows)"
  using assms(2)
proof (induction rows rule: rev_induct)
  case Nil
  then show ?case by (simp add: first_events_def)
next
  case (snoc r rows)
  then obtain d where d: "add_events sq db rows = Inr d"
    "d = foldl (\<lambda>d r. s_run sq d (event_insert r)) db (first_events (has_event sq db) rows)"
    "\<forall>k. has_event sq d k \<longleftrightarrow> has_event sq db k \<or> k \<in> event_key ` set rows" by auto
  let ?d = "if has_event sq d (event_key r) then d else s_run sq d (event_insert r)"
  have "add_events sq db (rows @ [r]) = Inr ?d"
    using d(1) addevent_eq [OF assms(1), of r d] snoc.prems by (simp add: add_events_append)
  moreover have "?d = foldl (\<lambda>d r. s_run sq d (event_insert r)) db
      (first_events (has_event sq db) (rows @ [r]))"
    using d(2) d(3) [rule_format, of "event_key r"] by (simp add: first_events_snoc)
  moreover have "has_event sq ?d k \<longleftrightarrow> has_event sq db k \<or> k \<in> event_key ` set (rows @ [r])" for k
    using d(3) [rule_format, of k] d(3) [rule_format, of "event_key r"]
      has_after_insert [OF assms(1), of d r k]
    by (cases "k = event_key r") auto
  ultimately show ?case by blast
qed

text \<open>An engine that keeps the statements it has run.\<close>

definition log_engine :: "sql list sqlite" where
  "log_engine = \<lparr>s_open = 0, s_prepare = \<lambda>_ _. 0,
     s_first = (\<lambda>db q. case q of
        Select_event start onid chid \<Rightarrow>
          if \<exists>r \<in> set db. case r of Insert_event o' c' s' _ _ \<Rightarrow> (s', o', c') = (start, onid, chid)
                              | _ \<Rightarrow> False
          then 1 else 0
      | _ \<Rightarrow> 0),
     s_run = \<lambda>db q. db @ [q]\<rparr>"

lemma log_engine_ok: "engine_ok log_engine"
  by (auto simp: engine_ok_def log_engine_def has_event_def split: prod.splits)

lemma add_events_first_wins_witness:
  "add_events log_engine [] [(2, 7, 1000, 0, ''News'', [], ''eng''), (2, 7, 1000, 0, ''Film'', [], ''eng'')]
    = Inr [Insert_event 2 7 1000 0 (''eng'', ''News'', [])]"
proof -
  let ?rows = "[(2, 7, 1000, 0, ''News'', [], ''eng''), (2, 7, 1000, 0, ''Film'', [], ''eng'')]"
  have "first_events (has_event log_engine []) ?rows = [(2, 7, 1000, 0, ''News'', [], ''eng'')]"
    by (simp add: first_events_def upt_rec event_key_def has_event_def log_engine_def)
  moreover have "\<forall>r \<in> set ?rows. event_ok r" by (simp add: event_ok_def int32_def)
  ultimately show ?thesis
    using add_events_first_wins [OF log_engine_ok, of ?rows "[]"]
    by (simp add: event_insert_def log_engine_def)
qed

end
