(* ===== verification/Psi.thy ===== *)
theory Psi
  imports Session EpgTime Database
begin

text \<open>
  The section callbacks of \<^verbatim>\<open>src/DVB/dvbhardware.c\<close>: what the server does with the tables the
  external decoder completes (PAT, CAT, NIT, SDT, EIT), and which decoders it attaches to the
  sub-tables it sees. The decoding of a descriptor's contents is external too, a \<open>psi_decoders\<close>
  record of functions whose results have the fields of the decoder's structures.
\<close>

section \<open>Decoded tables\<close>

type_synonym pat_program = "u16 \<times> u16"        \<comment> \<open>\<^verbatim>\<open>i_number\<close>, \<^verbatim>\<open>i_pid\<close>\<close>

record service_dr =
  sd_type :: byte
  sd_provider :: "char list"
  sd_name :: "char list"

record short_event_dr =
  se_name :: "char list"
  se_text :: "char list"

record sat_deliv_dr =
  sat_frequency :: u32
  sat_symbol_rate :: u32
  sat_polarization :: byte
  sat_modulation :: byte

record psi_decoders =
  dec_ca :: "descriptor \<Rightarrow> (u16 \<times> u16) option"
  dec_service :: "descriptor \<Rightarrow> service_dr option"
  dec_event :: "descriptor \<Rightarrow> short_event_dr option"
  dec_sat :: "descriptor \<Rightarrow> sat_deliv_dr option"
  bcd8 :: "u32 \<Rightarrow> u32"

record sdt_service =
  sv_id :: u16
  sv_running :: byte
  sv_free_ca :: bool
  sv_descriptors :: "descriptor list"

record sdt =
  sdt_network :: u16
  sdt_services :: "sdt_service list"

record eit_event =
  ev_start :: u64
  ev_descriptors :: "descriptor list"

record eit =
  eit_extension :: u16
  eit_network :: u16
  eit_events :: "eit_event list"

record nit =
  nit_descriptors :: "descriptor list"
  nit_ts :: "descriptor list list"

section \<open>Attaching decoders\<close>

datatype attach = Attach_NIT byte u16 | Attach_SDT byte u16 | Attach_EIT byte u16

definition process_subtable_pid10 :: "byte \<Rightarrow> u16 \<Rightarrow> attach option" where
  "process_subtable_pid10 table_id ext =
     (if table_id = 0x40 \<or> table_id = 0x41 then Some (Attach_NIT table_id ext) else None)"

definition process_subtable_pid11 :: "byte \<Rightarrow> u16 \<Rightarrow> attach option" where
  "process_subtable_pid11 table_id ext =
     (if table_id = 0x42 then Some (Attach_SDT table_id ext) else None)"

definition process_subtable_pid12 :: "byte \<Rightarrow> u16 \<Rightarrow> attach option" where
  "process_subtable_pid12 table_id ext =
     (if table_id = 0x4E then Some (Attach_EIT table_id ext) else None)"

section \<open>PAT and CAT\<close>

fun process_pat :: "pat_program list \<Rightarrow> dvb_device_t \<Rightarrow> dvb_device_t res" where
  "process_pat [] tuner = Inr tuner"
| "process_pat (p # ps) tuner =
     bind_res (channel_addPAT tuner (uint (fst p)) (uint (snd p))) (\<lambda>t. process_pat ps t)"

text \<open>What is printed.\<close>

fun DumpDescriptors_cat :: "psi_decoders \<Rightarrow> descriptor list \<Rightarrow> string list" where
  "DumpDescriptors_cat dec [] = []"
| "DumpDescriptors_cat dec (d # ds) =
     (''CAT 0x'' @ hex_pad False 2 (unat (d_tag d)) @ CRLF)
     # (case (if d_tag d = 0x09 then dec_ca dec d else None) of
          None \<Rightarrow> []
        | Some (pid, system) \<Rightarrow>
            [''CAID 0x'' @ hex_pad True 4 (unat system) @ '' on PID (0x'' @ hex_pad True 4 (unat pid)
             @ '')'' @ [NL]])
     @ DumpDescriptors_cat dec ds"

section \<open>NIT\<close>

text \<open>The network name is copied into an array of 257 characters and not used.\<close>

definition network_name :: "descriptor \<Rightarrow> unit res" where
  "network_name d = (if d_tag d = 0x40 \<and> 257 \<le> length (d_data d) then Inl Overrun else Inr ())"

fun network_names :: "descriptor list \<Rightarrow> unit res" where
  "network_names [] = Inr ()"
| "network_names (d # ds) = bind_res (network_name d) (\<lambda>_. network_names ds)"

definition nit_descriptor :: "psi_decoders \<Rightarrow> descriptor \<Rightarrow> dvb_device_t \<Rightarrow> dvb_device_t res" where
  "nit_descriptor dec d tuner =
     (case (if d_tag d = 0x43 then dec_sat dec d else None) of
        None \<Rightarrow> Inr tuner
      | Some s \<Rightarrow>
          addSatelliteFrequency tuner (bcd8 dec (sat_frequency s) * 10)
            (bcd8 dec (sat_symbol_rate s) * 10) (uint (sat_polarization s)) (uint (sat_modulation s)))"

fun nit_loop :: "psi_decoders \<Rightarrow> descriptor list \<Rightarrow> dvb_device_t \<Rightarrow> dvb_device_t res" where
  "nit_loop dec [] tuner = Inr tuner"
| "nit_loop dec (d # ds) tuner = bind_res (nit_descriptor dec d tuner) (\<lambda>t. nit_loop dec ds t)"

definition process_nit :: "psi_decoders \<Rightarrow> nit \<Rightarrow> dvb_device_t \<Rightarrow> dvb_device_t res" where
  "process_nit dec n tuner =
     bind_res (network_names (nit_descriptors n)) (\<lambda>_. nit_loop dec (concat (nit_ts n)) tuner)"

section \<open>SDT\<close>

text \<open>
  A name copied into a cleared array of \<open>n\<close> characters and read as a string: a longer one
  overruns the array, and one that fills it has no end.
\<close>

definition name_of :: "nat \<Rightarrow> char list \<Rightarrow> string res" where
  "name_of n bytes =
     (if n < length bytes then Inl Overrun
      else array_str (bytes @ replicate (n - length bytes) NUL))"

fun DumpDescriptors_sdt ::
  "psi_decoders \<Rightarrow> descriptor list \<Rightarrow> sdt_service \<Rightarrow> u16 \<Rightarrow> dvb_device_t \<times> channel_row list
   \<Rightarrow> (dvb_device_t \<times> channel_row list) res" where
  "DumpDescriptors_sdt dec [] sv onid x = Inr x"
| "DumpDescriptors_sdt dec (d # ds) sv onid x =
     (case (if d_tag d = 0x48 then dec_service dec d else None) of
        None \<Rightarrow> DumpDescriptors_sdt dec ds sv onid x
      | Some sd \<Rightarrow>
          bind_res (name_of 128 (sd_name sd)) (\<lambda>nm.
          bind_res (name_of 128 (sd_provider sd)) (\<lambda>pr.
          bind_res (channel_addSDT_Info2 (fst x) (uint (sv_id sv)) nm (Some pr)
                     (uint (sd_type sd)) (uint (sv_running sv)) (uint onid)
                     (if sv_free_ca sv then 1 else 0)) (\<lambda>(t, row).
            DumpDescriptors_sdt dec ds sv onid
              (t, snd x @ (case row of None \<Rightarrow> [] | Some r \<Rightarrow> [r]))))))"

fun sdt_loop ::
  "psi_decoders \<Rightarrow> u16 \<Rightarrow> sdt_service list \<Rightarrow> dvb_device_t \<times> channel_row list
   \<Rightarrow> (dvb_device_t \<times> channel_row list) res" where
  "sdt_loop dec onid [] x = Inr x"
| "sdt_loop dec onid (sv # svs) x =
     bind_res (DumpDescriptors_sdt dec (sv_descriptors sv) sv onid x) (\<lambda>y. sdt_loop dec onid svs y)"

definition process_sdt ::
  "psi_decoders \<Rightarrow> sdt \<Rightarrow> dvb_device_t \<Rightarrow> (dvb_device_t \<times> channel_row list) res" where
  "process_sdt dec s tuner = sdt_loop dec (sdt_network s) (sdt_services s) (tuner, [])"

section \<open>EIT\<close>

text \<open>
  The rows for the database. The start goes through \<^verbatim>\<open>unsigned long\<close> into an \<^verbatim>\<open>int\<close>; the
  duration is 0. What the decoder returns is used without a test for \<^verbatim>\<open>NULL\<close>.
\<close>

definition eit_descriptor ::
  "psi_decoders \<Rightarrow> u16 \<Rightarrow> u16 \<Rightarrow> int \<Rightarrow> descriptor \<Rightarrow> event_row list res" where
  "eit_descriptor dec onid channel_id start d =
     (if d_tag d \<noteq> 0x4D then Inr []
      else
        case dec_event dec d of
          None \<Rightarrow> Inl NullPointer
        | Some e \<Rightarrow>
            bind_res (name_of 64 (se_name e)) (\<lambda>nm.
            bind_res (name_of 256 (se_text e)) (\<lambda>txt'.
              Inr [(onid, channel_id, sint (word_of_int start :: u32), 0, nm, txt', ''eng'')])))"

fun eit_descriptors ::
  "psi_decoders \<Rightarrow> u16 \<Rightarrow> u16 \<Rightarrow> int \<Rightarrow> descriptor list \<Rightarrow> event_row list res" where
  "eit_descriptors dec onid channel_id start [] = Inr []"
| "eit_descriptors dec onid channel_id start (d # ds) =
     bind_res (eit_descriptor dec onid channel_id start d) (\<lambda>r.
     bind_res (eit_descriptors dec onid channel_id start ds) (\<lambda>rs. Inr (r @ rs)))"

fun eit_rows :: "psi_decoders \<Rightarrow> u16 \<Rightarrow> u16 \<Rightarrow> eit_event list \<Rightarrow> event_row list res" where
  "eit_rows dec onid channel_id [] = Inr []"
| "eit_rows dec onid channel_id (e # es) =
     bind_res (eit_descriptors dec onid channel_id (EITConvertStartTime (ev_start e))
                 (ev_descriptors e)) (\<lambda>r.
     bind_res (eit_rows dec onid channel_id es) (\<lambda>rs. Inr (r @ rs)))"

definition process_eit :: "psi_decoders \<Rightarrow> 'db sqlite \<Rightarrow> eit \<Rightarrow> 'db \<Rightarrow> 'db res" where
  "process_eit dec sq p db =
     bind_res (eit_rows dec (eit_network p) (eit_extension p) (eit_events p)) (\<lambda>rows.
       add_events sq db rows)"

section \<open>How the tables change\<close>

abbreviation ll_at :: "dvb_device_t \<Rightarrow> nat \<Rightarrow> channels_dvb_t list" where
  "ll_at t j \<equiv> channels_ll (base_of (frequency_ll t ! j))"

text \<open>Nothing changes but the channel lists, and those keep their positions.\<close>

definition grown :: "dvb_device_t \<Rightarrow> dvb_device_t \<Rightarrow> bool" where
  "grown t t' \<longleftrightarrow> t' = t\<lparr>frequency_ll := frequency_ll t'\<rparr>
     \<and> map (map_channels (\<lambda>_. [])) (frequency_ll t') = map (map_channels (\<lambda>_. [])) (frequency_ll t)
     \<and> (\<forall>i < length (frequency_ll t). length (ll_at t i) \<le> length (ll_at t' i))"

lemma grown_length: "grown t t' \<Longrightarrow> length (frequency_ll t') = length (frequency_ll t)"
  unfolding grown_def using map_eq_imp_length_eq by blast

lemma grown_refl: "grown t t"
  by (simp add: grown_def)

lemma grown_update: "grown t t' \<Longrightarrow> \<exists>f. t' = t\<lparr>frequency_ll := f\<rparr>"
  unfolding grown_def by blast

lemma grown_trans:
  assumes "grown t t'" "grown t' t''"
  shows "grown t t''"
proof -
  obtain f where f: "t' = t\<lparr>frequency_ll := f\<rparr>" using grown_update [OF assms(1)] by blast
  obtain g where g: "t'' = t'\<lparr>frequency_ll := g\<rparr>" using grown_update [OF assms(2)] by blast
  have "t'' = t\<lparr>frequency_ll := frequency_ll t''\<rparr>" using f g by simp
  moreover have "length (ll_at t i) \<le> length (ll_at t'' i)" if "i < length (frequency_ll t)" for i
  proof -
    have "length (ll_at t i) \<le> length (ll_at t' i)" using assms(1) that by (simp add: grown_def)
    also have "\<dots> \<le> length (ll_at t'' i)"
      using assms that grown_length [OF assms(1)] by (simp add: grown_def)
    finally show ?thesis .
  qed
  moreover have "map (map_channels (\<lambda>_. [])) (frequency_ll t'')
      = map (map_channels (\<lambda>_. [])) (frequency_ll t)"
    using assms unfolding grown_def by argo
  ultimately show ?thesis unfolding grown_def by blast
qed

lemma map_channels_erase [simp]: "map_channels (\<lambda>_. []) (map_channels g f) = map_channels (\<lambda>_. []) f"
  by (cases f) simp_all

lemma grown_set_channels:
  assumes "i < length (frequency_ll t)" "length (ll_at t i) \<le> length cs"
  shows "grown t (set_channels t i cs)"
proof -
  have "map (map_channels (\<lambda>_. [])) ((frequency_ll t)[i := map_channels (\<lambda>_. cs) (frequency_ll t ! i)])
      = map (map_channels (\<lambda>_. [])) (frequency_ll t)"
    using assms(1) by (simp add: map_update list_update_same_conv)
  with assms show ?thesis by (simp add: grown_def set_channels_def nth_list_update)
qed

lemma curr_at:
  assumes "tables_ok t" "curr_frequency t = Some i"
  shows "i < length (frequency_ll t)" "curr_channels t = Inr (i, ll_at t i)"
  using assms by (simp_all add: tables_ok_def curr_channels_def)

section \<open>PAT\<close>

definition add_program :: "channels_dvb_t list \<Rightarrow> pat_program \<Rightarrow> channels_dvb_t list" where
  "add_program ll p =
     (if fst p = 0 \<or> fst p \<in> service_id ` set ll then ll
      else ll @ [new_channel (uint (fst p)) (uint (snd p))])"

lemma addPAT_program:
  assumes "tables_ok t" "curr_frequency t = Some i" "last_sequence t = sequence_no t"
  shows "\<exists>t'. channel_addPAT t (uint (fst p)) (uint (snd p)) = Inr t' \<and> tables_ok t' \<and> grown t t'
    \<and> ll_at t' i = add_program (ll_at t i) p \<and> (\<forall>j. j \<noteq> i \<longrightarrow> ll_at t' j = ll_at t j)
    \<and> (add_program (ll_at t i) p = ll_at t i \<longrightarrow> t' = t)"
proof -
  note c = curr_at [OF assms(1,2)]
  have id: "is_id w (uint (fst p)) \<longleftrightarrow> w = fst p" for w :: u16
    by (simp add: is_id_def)
  show ?thesis
  proof (cases "fst p = 0 \<or> fst p \<in> service_id ` set (ll_at t i)")
    case True
    then have "channel_addPAT t (uint (fst p)) (uint (snd p)) = Inr t"
      using c(2) assms(3) by (auto simp: channel_addPAT_def id)
    with True assms(1) show ?thesis by (auto simp: add_program_def grown_refl)
  next
    case False
    let ?ll = "ll_at t i @ [new_channel (uint (fst p)) (uint (snd p))]"
    have "channel_addPAT t (uint (fst p)) (uint (snd p)) = Inr (set_channels t i ?ll)"
      using c(2) assms(3) False by (auto simp: channel_addPAT_def id image_iff unsigned_eq_0_iff)
    moreover have "channels_ok ?ll"
      using curr_channels_ok(1) [OF assms(1) c(2)] False
      by (auto simp: channels_ok_def new_channel_def name_ok_def last_replicate)
    then have "tables_ok (set_channels t i ?ll)" by (rule set_channels_ok [OF assms(1)])
    moreover have "grown t (set_channels t i ?ll)" by (rule grown_set_channels [OF c(1)]) simp
    ultimately show ?thesis using c(1) False
      by (auto simp: add_program_def set_channels_def)
  qed
qed

lemma grown_same:
  assumes "grown t t'"
  shows "curr_frequency t' = curr_frequency t" "last_sequence t' = last_sequence t"
    "sequence_no t' = sequence_no t"
proof -
  obtain f where "t' = t\<lparr>frequency_ll := f\<rparr>" using grown_update [OF assms] by blast
  then show "curr_frequency t' = curr_frequency t" "last_sequence t' = last_sequence t"
    "sequence_no t' = sequence_no t" by simp_all
qed

lemma process_pat_adds:
  assumes "tables_ok t" "curr_frequency t = Some i" "last_sequence t = sequence_no t"
  shows "\<exists>t'. process_pat ps t = Inr t' \<and> tables_ok t' \<and> grown t t'
    \<and> ll_at t' i = foldl add_program (ll_at t i) ps \<and> (\<forall>j. j \<noteq> i \<longrightarrow> ll_at t' j = ll_at t j)
    \<and> ((\<forall>p \<in> set ps. fst p = 0 \<or> fst p \<in> service_id ` set (ll_at t i)) \<longrightarrow> t' = t)"
  using assms
proof (induction ps arbitrary: t)
  case Nil
  then show ?case by (simp add: grown_refl)
next
  case (Cons p ps)
  obtain t1 where t1: "channel_addPAT t (uint (fst p)) (uint (snd p)) = Inr t1" "tables_ok t1"
    "grown t t1" "ll_at t1 i = add_program (ll_at t i) p" "\<forall>j. j \<noteq> i \<longrightarrow> ll_at t1 j = ll_at t j"
    "add_program (ll_at t i) p = ll_at t i \<longrightarrow> t1 = t"
    using addPAT_program [OF Cons.prems, of p] by (elim exE conjE) (rule that)
  have "curr_frequency t1 = Some i" "last_sequence t1 = sequence_no t1"
    using grown_same [OF t1(3)] Cons.prems by simp_all
  from Cons.IH [OF t1(2) this] obtain t' where t': "process_pat ps t1 = Inr t'" "tables_ok t'"
    "grown t1 t'" "ll_at t' i = foldl add_program (ll_at t1 i) ps"
    "\<forall>j. j \<noteq> i \<longrightarrow> ll_at t' j = ll_at t1 j"
    "(\<forall>p \<in> set ps. fst p = 0 \<or> fst p \<in> service_id ` set (ll_at t1 i)) \<longrightarrow> t' = t1"
    by (elim exE conjE) (rule that)
  have "t' = t" if all: "\<forall>p \<in> set (p # ps). fst p = 0 \<or> fst p \<in> service_id ` set (ll_at t i)"
  proof -
    have "t1 = t" using all t1(6) by (simp add: add_program_def)
    with all t'(6) show ?thesis by simp
  qed
  with t1 t' grown_trans [OF t1(3) t'(3)] show ?case by (intro exI [of _ t']) simp
qed

lemma add_program_ids:
  "service_id ` set ll \<subseteq> service_id ` set (add_program ll q)"
  "fst q = 0 \<or> fst q \<in> service_id ` set (add_program ll q)"
  by (auto simp: add_program_def new_channel_def)

lemma foldl_add_program_ids:
  "service_id ` set ll \<subseteq> service_id ` set (foldl add_program ll ps)"
proof (induction ps arbitrary: ll)
  case (Cons q ps)
  from add_program_ids(1) Cons.IH [of "add_program ll q"] show ?case
    unfolding foldl_Cons by (rule subset_trans)
qed simp

lemma foldl_add_program_in:
  "p \<in> set ps \<Longrightarrow> fst p = 0 \<or> fst p \<in> service_id ` set (foldl add_program ll ps)"
proof (induction ps arbitrary: ll)
  case (Cons q ps)
  show ?case
  proof (cases "p = q")
    case True
    then show ?thesis using add_program_ids(2) [of q ll]
        foldl_add_program_ids [of "add_program ll q" ps] by auto
  next
    case False
    then show ?thesis using Cons.IH [of "add_program ll q"] Cons.prems by simp
  qed
qed simp

section \<open>Names that fit\<close>

text \<open>A name of at most \<open>n\<close> characters that has its end within them.\<close>

definition name_fits :: "nat \<Rightarrow> char list \<Rightarrow> bool" where
  "name_fits n xs \<longleftrightarrow> length xs \<le> n \<and> (length xs = n \<longrightarrow> NUL \<in> set xs)"

lemma cstr_of_pad: "cstr_of (xs @ NUL # ys) = cstr_of (xs @ [NUL])"
  by (induction xs) (simp_all add: cstr_of_def)

lemma name_of_iff:
  "name_of n xs = (if name_fits n xs then Inr (cstr_of (xs @ [NUL])) else Inl Overrun)"
proof (cases "length xs < n")
  case True
  then obtain k where k: "n - length xs = Suc k" by (metis Suc_diff_Suc)
  have "name_of n xs = Inr (cstr_of (xs @ NUL # replicate k NUL))"
    using True k by (simp add: name_of_def array_str_def)
  also have "cstr_of (xs @ NUL # replicate k NUL) = cstr_of (xs @ [NUL])" by (rule cstr_of_pad)
  finally show ?thesis using True by (simp add: name_fits_def)
next
  case False
  have "cstr_of (xs @ [NUL]) = cstr_of xs" if "NUL \<in> set xs"
    using that by (auto simp: cstr_of_def takeWhile_append1)
  with False show ?thesis by (auto simp: name_of_def array_str_def name_fits_def)
qed

section \<open>SDT\<close>

definition sdt_fits :: "psi_decoders \<Rightarrow> sdt \<Rightarrow> bool" where
  "sdt_fits dec s \<longleftrightarrow> (\<forall>sv \<in> set (sdt_services s). \<forall>d \<in> set (sv_descriptors sv).
     \<forall>sd. d_tag d = 0x48 \<longrightarrow> dec_service dec d = Some sd
       \<longrightarrow> name_fits 128 (sd_name sd) \<and> name_fits 128 (sd_provider sd))"

definition stays :: "dvb_device_t \<Rightarrow> dvb_device_t \<Rightarrow> bool" where
  "stays t t' \<longleftrightarrow> grown t t' \<and> tables_ok t' \<and> curr_frequency t' \<noteq> None"

lemma stays_trans: "stays t t' \<Longrightarrow> stays t' t'' \<Longrightarrow> stays t t''"
  unfolding stays_def using grown_trans by blast

lemma addSDT_Info2_stays:
  assumes "tables_ok t" "curr_frequency t = Some i"
  shows "\<exists>t' row. channel_addSDT_Info2 t ch nm pr ty run onid ca = Inr (t', row) \<and> stays t t'"
proof -
  note c = curr_at [OF assms]
  let ?f = "\<lambda>c. c\<lparr>channelName := c_strncpy 127 (channelName c) nm,
        providerName := (case pr of None \<Rightarrow> providerName c
          | Some p \<Rightarrow> c_strncpy 127 (providerName c) p),
        running_status := run, service_type := ty, ch_onid := word_of_int onid, ca_mode := ca\<rparr>"
  let ?cs = "update_first (\<lambda>c. is_id (service_id c) ch) ?f (ll_at t i)"
  show ?thesis
  proof (cases "last_sequence t = sequence_no t")
    case True
    have "channels_ok ?cs"
      by (rule channels_ok_update [OF curr_channels_ok(1) [OF assms(1) c(2)]])
        (auto intro: strncpy_name_ok split: option.split)
    then have "tables_ok (set_channels t i ?cs)" by (rule set_channels_ok [OF assms(1)])
    moreover have "length ?cs = length (ll_at t i)"
      using map_update_first [of "\<lambda>_. ()" ?f "\<lambda>c. is_id (service_id c) ch" "ll_at t i"]
        map_eq_imp_length_eq by blast
    then have "grown t (set_channels t i ?cs)" using grown_set_channels [OF c(1)] by simp
    ultimately have "stays t (set_channels t i ?cs)"
      using assms(2) by (simp add: stays_def set_channels_def)
    with c(2) True show ?thesis by (simp add: channel_addSDT_Info2_def)
  next
    case False
    with c(2) assms show ?thesis by (simp add: channel_addSDT_Info2_def stays_def grown_refl)
  qed
qed

lemma sdt_descriptors_stays:
  assumes "stays t0 (fst x)"
    and "\<forall>d \<in> set ds. \<forall>sd. d_tag d = 0x48 \<longrightarrow> dec_service dec d = Some sd
       \<longrightarrow> name_fits 128 (sd_name sd) \<and> name_fits 128 (sd_provider sd)"
  shows "\<exists>y. DumpDescriptors_sdt dec ds sv onid x = Inr y \<and> stays t0 (fst y)"
  using assms
proof (induction ds arbitrary: x)
  case (Cons d ds)
  show ?case
  proof (cases "if d_tag d = 0x48 then dec_service dec d else None")
    case None
    with Cons show ?thesis by simp
  next
    case (Some sd)
    then have "name_fits 128 (sd_name sd)" "name_fits 128 (sd_provider sd)"
      using Cons.prems(2) by (auto split: if_splits)
    then obtain nm pr where n: "name_of 128 (sd_name sd) = Inr nm" "name_of 128 (sd_provider sd) = Inr pr"
      by (simp add: name_of_iff)
    obtain i where "tables_ok (fst x)" "curr_frequency (fst x) = Some i"
      using Cons.prems(1) by (auto simp: stays_def)
    from addSDT_Info2_stays [OF this] obtain t' row where
      r: "channel_addSDT_Info2 (fst x) (uint (sv_id sv)) nm (Some pr) (uint (sd_type sd))
            (uint (sv_running sv)) (uint onid) (if sv_free_ca sv then 1 else 0) = Inr (t', row)"
      "stays (fst x) t'" by blast
    have "stays t0 t'" using stays_trans [OF Cons.prems(1) r(2)] .
    with Cons.IH [of "(t', snd x @ (case row of None \<Rightarrow> [] | Some r \<Rightarrow> [r]))"] Cons.prems(2) Some n r(1)
    show ?thesis by simp
  qed
qed simp

lemma sdt_loop_stays:
  assumes "stays t0 (fst x)"
    and "\<forall>sv \<in> set svs. \<forall>d \<in> set (sv_descriptors sv). \<forall>sd. d_tag d = 0x48 \<longrightarrow>
       dec_service dec d = Some sd \<longrightarrow> name_fits 128 (sd_name sd) \<and> name_fits 128 (sd_provider sd)"
  shows "\<exists>y. sdt_loop dec onid svs x = Inr y \<and> stays t0 (fst y)"
  using assms
proof (induction svs arbitrary: x)
  case (Cons sv svs)
  obtain y where y: "DumpDescriptors_sdt dec (sv_descriptors sv) sv onid x = Inr y" "stays t0 (fst y)"
    using sdt_descriptors_stays [OF Cons.prems(1), of "sv_descriptors sv" dec sv onid] Cons.prems(2)
    by auto
  with Cons.IH [of y] Cons.prems(2) show ?case by simp
qed simp

lemma process_sdt_stays:
  assumes "tables_ok t" "curr_frequency t \<noteq> None" "sdt_fits dec s"
  shows "\<exists>t' rows. process_sdt dec s t = Inr (t', rows) \<and> stays t t'"
proof -
  have "stays t (fst (t, []))" using assms by (simp add: stays_def grown_refl)
  from sdt_loop_stays [OF this, of "sdt_services s" dec "sdt_network s"] assms(3)
  show ?thesis by (auto simp: process_sdt_def sdt_fits_def)
qed

lemma process_pat_stays:
  assumes "tables_ok t" "curr_frequency t \<noteq> None"
  shows "\<exists>t'. process_pat ps t = Inr t' \<and> stays t t'"
proof -
  obtain i where i: "curr_frequency t = Some i" using assms(2) by auto
  show ?thesis
  proof (cases "last_sequence t = sequence_no t")
    case True
    from process_pat_adds [OF assms(1) i True, of ps] obtain t' where
      "process_pat ps t = Inr t'" "tables_ok t'" "grown t t'" by (elim exE conjE) (rule that)
    moreover from this have "curr_frequency t' = Some i" using grown_same(1) i by simp
    ultimately show ?thesis by (simp add: stays_def)
  next
    case False
    have "process_pat ps t = Inr t"
      using curr_at(2) [OF assms(1) i] False
      by (induction ps) (simp_all add: channel_addPAT_def)
    then show ?thesis using assms by (simp add: stays_def grown_refl)
  qed
qed

section \<open>EIT\<close>

text \<open>Which descriptors give a row that fits the arrays, and the row.\<close>

definition event_fits :: "psi_decoders \<Rightarrow> descriptor \<Rightarrow> bool" where
  "event_fits dec d \<longleftrightarrow> d_tag d = 0x4D \<longrightarrow>
     (case dec_event dec d of None \<Rightarrow> False
      | Some e \<Rightarrow> name_fits 64 (se_name e) \<and> name_fits 256 (se_text e))"

definition start_of :: "eit_event \<Rightarrow> int" where
  "start_of e = sint (word_of_int (EITConvertStartTime (ev_start e)) :: u32)"

definition event_row_of :: "psi_decoders \<Rightarrow> eit \<Rightarrow> eit_event \<Rightarrow> descriptor \<Rightarrow> event_row" where
  "event_row_of dec p e d =
     (let s = the (dec_event dec d) in
      (eit_network p, eit_extension p, start_of e, 0,
       cstr_of (se_name s @ [NUL]), cstr_of (se_text s @ [NUL]), ''eng''))"

definition event_table :: "psi_decoders \<Rightarrow> eit \<Rightarrow> event_row list" where
  "event_table dec p =
     concat (map (\<lambda>e. map (event_row_of dec p e) (filter (\<lambda>d. d_tag d = 0x4D) (ev_descriptors e)))
               (eit_events p))"

definition eit_fits :: "psi_decoders \<Rightarrow> eit \<Rightarrow> bool" where
  "eit_fits dec p \<longleftrightarrow> (\<forall>e \<in> set (eit_events p). \<forall>d \<in> set (ev_descriptors e). event_fits dec d)"

lemma eit_descriptor_iff:
  "eit_descriptor dec (eit_network p) (eit_extension p) (EITConvertStartTime (ev_start e)) d = Inr r
   \<longleftrightarrow> event_fits dec d \<and> r = (if d_tag d = 0x4D then [event_row_of dec p e d] else [])"
  by (auto simp: eit_descriptor_def event_fits_def event_row_of_def start_of_def name_of_iff
      split: option.splits)

lemma eit_descriptors_iff:
  "eit_descriptors dec (eit_network p) (eit_extension p) (EITConvertStartTime (ev_start e)) ds = Inr r
   \<longleftrightarrow> (\<forall>d \<in> set ds. event_fits dec d)
     \<and> r = map (event_row_of dec p e) (filter (\<lambda>d. d_tag d = 0x4D) ds)"
proof (induction ds arbitrary: r)
  case (Cons d ds)
  have "eit_descriptors dec (eit_network p) (eit_extension p) (EITConvertStartTime (ev_start e))
      (d # ds) = Inr r \<longleftrightarrow>
    (\<exists>a b. eit_descriptor dec (eit_network p) (eit_extension p) (EITConvertStartTime (ev_start e)) d
        = Inr a
      \<and> eit_descriptors dec (eit_network p) (eit_extension p) (EITConvertStartTime (ev_start e)) ds
        = Inr b \<and> r = a @ b)"
    by (auto simp: bind_res_def split: sum.splits)
  then show ?case unfolding eit_descriptor_iff Cons.IH by auto
qed auto

lemma eit_rows_iff:
  "eit_rows dec (eit_network p) (eit_extension p) es = Inr r
   \<longleftrightarrow> (\<forall>e \<in> set es. \<forall>d \<in> set (ev_descriptors e). event_fits dec d)
     \<and> r = concat (map (\<lambda>e. map (event_row_of dec p e)
                             (filter (\<lambda>d. d_tag d = 0x4D) (ev_descriptors e))) es)"
proof (induction es arbitrary: r)
  case (Cons e es)
  have "eit_rows dec (eit_network p) (eit_extension p) (e # es) = Inr r \<longleftrightarrow>
    (\<exists>a b. eit_descriptors dec (eit_network p) (eit_extension p) (EITConvertStartTime (ev_start e))
          (ev_descriptors e) = Inr a
      \<and> eit_rows dec (eit_network p) (eit_extension p) es = Inr b \<and> r = a @ b)"
    by (auto simp: bind_res_def split: sum.splits)
  then show ?case unfolding eit_descriptors_iff Cons.IH by auto
qed auto

lemma event_table_ok: "r \<in> set (event_table dec p) \<Longrightarrow> event_ok r"
proof -
  have "int32 (sint w)" for w :: u32
    using sint_range_size [of w] by (simp add: int32_def word_size)
  then show "r \<in> set (event_table dec p) \<Longrightarrow> event_ok r"
    by (auto simp: event_table_def event_row_of_def start_of_def event_ok_def int32_def Let_def)
qed

section \<open>Properties\<close>

text \<open>
  C10. A program association table on a tuner that stays on its frequency: the programs with a
  number other than 0 that are not listed yet are appended to the channels of that frequency,
  in the order of the table, the first entry of a number winning; the positions of all
  channels stay, the tables stay well formed, and the same table a second time changes nothing.
\<close>

theorem process_pat_correct:
  assumes "tables_ok t" and "curr_frequency t = Some i" and "last_sequence t = sequence_no t"
  shows "\<exists>t'. process_pat ps t = Inr t' \<and> tables_ok t' \<and> grown t t'
    \<and> ll_at t' i = foldl add_program (ll_at t i) ps
    \<and> (\<forall>j. j \<noteq> i \<longrightarrow> ll_at t' j = ll_at t j)
    \<and> process_pat ps t' = Inr t'"
proof -
  obtain t' where t': "process_pat ps t = Inr t'" "tables_ok t'" "grown t t'"
    "ll_at t' i = foldl add_program (ll_at t i) ps" "\<forall>j. j \<noteq> i \<longrightarrow> ll_at t' j = ll_at t j"
    using process_pat_adds [OF assms, of ps] by (elim exE conjE) (rule that)
  have s: "curr_frequency t' = Some i" "last_sequence t' = sequence_no t'"
    using grown_same [OF t'(3)] assms(2,3) by simp_all
  obtain t'' where t'': "process_pat ps t' = Inr t''"
    "(\<forall>p \<in> set ps. fst p = 0 \<or> fst p \<in> service_id ` set (ll_at t' i)) \<longrightarrow> t'' = t'"
    using process_pat_adds [OF t'(2) s, of ps] by (elim exE conjE) (rule that)
  have "t'' = t'" using t''(2) foldl_add_program_in t'(4) by simp
  with t' t''(1) show ?thesis by (intro exI [of _ t']) simp
qed

lemma process_pat_correct_witness:
  "\<exists>t'. process_pat [(0, 16), (4, 300), (5, 258), (5, 259)] one_tuner = Inr t'
    \<and> map (\<lambda>c. (service_id c, pmt_pid c)) (ll_at t' 0) = [(4, 257), (5, 258)]
    \<and> process_pat [(0, 16), (4, 300), (5, 258), (5, 259)] t' = Inr t'"
proof -
  have "curr_frequency one_tuner = Some 0" "last_sequence one_tuner = sequence_no one_tuner"
    "ll_at one_tuner 0 = [new_channel 4 257]"
    by (simp_all add: one_tuner_def one_freq_def dvb_frequency_base_t.defs)
  with process_pat_correct [OF one_tuner_ok this(1,2), of "[(0, 16), (4, 300), (5, 258), (5, 259)]"]
  show ?thesis by (auto simp: add_program_def new_channel_def)
qed

text \<open>
  C20. An event table is stored exactly when every short event descriptor in it decodes to a name
  and a text that fit the arrays of 64 and 256 characters with an end; otherwise an array is
  overrun or the null pointer read. Stored, it adds to the database one row for each new key
  (start time, network, service), that of the first descriptor with it; the rows there before
  stay as they are, so an update of the guide never gets in.
\<close>

theorem process_eit_correct:
  assumes "engine_ok sq"
  shows "(isl (process_eit dec sq p db) \<longleftrightarrow> \<not> eit_fits dec p)
    \<and> (eit_fits dec p \<longrightarrow>
        process_eit dec sq p db =
          Inr (foldl (\<lambda>d r. s_run sq d (event_insert r)) db
                 (first_events (has_event sq db) (event_table dec p)))
        \<and> (\<forall>k. has_event sq (projr (process_eit dec sq p db)) k
             \<longleftrightarrow> has_event sq db k \<or> k \<in> event_key ` set (event_table dec p)))"
proof -
  have stored: "\<exists>db'. process_eit dec sq p db = Inr db'
    \<and> db' = foldl (\<lambda>d r. s_run sq d (event_insert r)) db
       (first_events (has_event sq db) (event_table dec p))
    \<and> (\<forall>k. has_event sq db' k \<longleftrightarrow> has_event sq db k \<or> k \<in> event_key ` set (event_table dec p))"
    if "eit_fits dec p"
  proof -
    have "eit_rows dec (eit_network p) (eit_extension p) (eit_events p) = Inr (event_table dec p)"
      using that unfolding eit_rows_iff by (simp add: eit_fits_def event_table_def)
    then have "process_eit dec sq p db = add_events sq db (event_table dec p)"
      by (simp add: process_eit_def)
    then show ?thesis
      using add_events_first_wins [OF assms, of "event_table dec p" db] event_table_ok by simp
  qed
  have "isl (process_eit dec sq p db)" if "\<not> eit_fits dec p"
    using that eit_rows_iff [of dec p "eit_events p"]
    by (cases "eit_rows dec (eit_network p) (eit_extension p) (eit_events p)")
      (auto simp: eit_fits_def process_eit_def)
  with stored show ?thesis by (cases "eit_fits dec p") (force, blast)
qed

definition text_decoders :: psi_decoders where
  "text_decoders = \<lparr>dec_ca = \<lambda>_. None, dec_service = \<lambda>_. None,
     dec_event = \<lambda>d. Some \<lparr>se_name = replicate (length (d_data d)) CHR ''a'', se_text = []\<rparr>, dec_sat = \<lambda>_. None, bcd8 = \<lambda>w. w\<rparr>"

definition one_event :: "nat \<Rightarrow> eit" where
  "one_event n = \<lparr>eit_extension = 7, eit_network = 2,
     eit_events = [\<lparr>ev_start = 0, ev_descriptors =
        [\<lparr>d_tag = 0x4D, d_data = replicate n 0\<rparr>]\<rparr>]\<rparr>"

lemma process_eit_correct_witness:
  "isl (process_eit text_decoders log_engine (one_event 64) [])
   \<and> process_eit text_decoders log_engine (one_event 3) []
     = Inr [event_insert (2, 7, start_of (hd (eit_events (one_event 3))), 0, ''aaa'', [], ''eng'')]"
proof
  have "\<not> eit_fits text_decoders (one_event 64)"
    by (simp add: eit_fits_def one_event_def event_fits_def name_fits_def text_decoders_def)
  then show "isl (process_eit text_decoders log_engine (one_event 64) [])"
    using process_eit_correct [OF log_engine_ok] by blast
  have "eit_fits text_decoders (one_event 3)"
    by (simp add: eit_fits_def one_event_def event_fits_def name_fits_def text_decoders_def)
  moreover have "event_table text_decoders (one_event 3)
      = [(2, 7, start_of (hd (eit_events (one_event 3))), 0, ''aaa'', [], ''eng'')]"
    by (simp add: event_table_def one_event_def event_row_of_def text_decoders_def cstr_of_def
        numeral_3_eq_3)
  ultimately show "process_eit text_decoders log_engine (one_event 3) []
     = Inr [event_insert (2, 7, start_of (hd (eit_events (one_event 3))), 0, ''aaa'', [], ''eng'')]"
    using process_eit_correct [OF log_engine_ok, of text_decoders "one_event 3" "[]"]
    by (simp add: first_events_def upt_rec has_event_def log_engine_def event_key_def)
qed

end
