(* ===== verification/System.thy ===== *)
theory System
  imports Steps Psi
begin

text \<open>
  The server as a whole: the tuners with the place their hardware threads have reached, and the
  sessions. Its steps are the critical sections of the threads of the program, in any order: a
  request from a client, a stop, a pass of the session thread, the parts of a pass of a hardware
  thread (reading, the tables the decoder completes, one packet for the sessions, the status
  with the scan) and a pass of the destination thread of the \<open>k\<close>-th session. A thread that is left
  over from a session that has ended uses the memory of the session, which is freed: a pass for a
  session that does not exist faults.
\<close>

section \<open>State and steps\<close>

record world =
  w_dvb :: dvb_env
  w_ca :: ca_decoder
  w_psi :: psi_decoders
  w_net :: net_env
  w_stack :: "byte list"

record system =
  sys_server :: server
  sys_scan :: "(int \<times> int) list"

datatype event =
    Request u64 u16 u16 destination_t
  | Stop u64
  | Reap timeval
  | Read nat "byte list option"
  | Packet "u64 \<Rightarrow> pmt option" u16 "byte list" nat
  | Pat nat "pat_program list"
  | Sdt nat sdt
  | Pass nat hw_input
  | Drain nat int bool

abbreviation put_server :: "system \<Rightarrow> server \<Rightarrow> system" where
  "put_server sy st \<equiv> sy\<lparr>sys_server := st\<rparr>"

abbreviation put_tuner :: "system \<Rightarrow> nat \<Rightarrow> dvb_device_t \<Rightarrow> system" where
  "put_tuner sy i t \<equiv> sy\<lparr>sys_server := (sys_server sy)\<lparr>tuners := (tuners (sys_server sy))[i := t]\<rparr>\<rparr>"

definition hw_of :: "system \<Rightarrow> nat \<Rightarrow> hw_state" where
  "hw_of sy i = \<lparr>hw_tuner = tuners (sys_server sy) ! i, hw_id = fst (sys_scan sy ! i),
                 hw_cnt = snd (sys_scan sy ! i)\<rparr>"

fun run_event :: "world \<Rightarrow> event \<Rightarrow> system \<Rightarrow> system option res" where
  "run_event w (Request rnd onid ch d) sy =
     bind_res (session_addNew (w_dvb w) rnd (sys_server sy) onid ch (Some d)) (\<lambda>(_, st, _).
       Inr (Some (put_server sy st)))"
| "run_event w (Stop sid) sy =
     bind_res (session_stop sid (sys_server sy)) (\<lambda>(_, st, _). Inr (Some (put_server sy st)))"
| "run_event w (Reap now) sy =
     bind_res (session_thread_pass now (tuners (sys_server sy)) (sessions (sys_server sy)))
       (\<lambda>(ts, ss, _). Inr (Some (put_server sy ((sys_server sy)\<lparr>tuners := ts, sessions := ss\<rparr>))))"
| "run_event w (Read i data) sy =
     bind_res (tuner_at (tuners (sys_server sy)) i) (\<lambda>t.
       Inr (Some (put_tuner sy i (fst (dvb_read_data (w_stack w) t data)))))"
| "run_event w (Packet pmt_of pid data v) sy =
     bind_res (session_write (w_dvb w) (w_ca w) pmt_of pid data v (sys_server sy)) (\<lambda>(st, _).
       Inr (Some (put_server sy st)))"
| "run_event w (Pat i ps) sy =
     bind_res (tuner_at (tuners (sys_server sy)) i) (\<lambda>t.
     bind_res (process_pat ps t) (\<lambda>t1. Inr (Some (put_tuner sy i t1))))"
| "run_event w (Sdt i s) sy =
     bind_res (tuner_at (tuners (sys_server sy)) i) (\<lambda>t.
     bind_res (process_sdt (w_psi w) s t) (\<lambda>(t1, _). Inr (Some (put_tuner sy i t1))))"
| "run_event w (Pass i inp) sy =
     bind_res (tuner_at (tuners (sys_server sy)) i) (\<lambda>_.
     bind_res (hw_step (w_dvb w) (w_stack w) (hw_of sy i) (inp\<lparr>i_poll := False\<rparr>)) (\<lambda>(h, _).
       Inr (Some ((put_tuner sy i (hw_tuner h))
                  \<lparr>sys_scan := (sys_scan sy)[i := (hw_id h, hw_cnt h)]\<rparr>))))"
| "run_event w (Drain k wt due) sy =
     (if length (sessions (sys_server sy)) \<le> k then Inl BadPointer
      else
        bind_res (destination_thread_pass (w_net w) wt due (sessions (sys_server sy) ! k)) (\<lambda>r.
          Inr (map_option (\<lambda>(s, _). put_server sy
                 ((sys_server sy)\<lparr>sessions := (sessions (sys_server sy))[k := s]\<rparr>)) r)))"

text \<open>A pass of a hardware thread that has data is a reading followed by a pass without.\<close>

lemma hw_step_read:
  assumes "i_poll inp" "dvb_read_data stack (hw_tuner h) (i_data inp) = (t, out)"
  shows "hw_step env stack h inp =
    bind_res (hw_step env stack (h\<lparr>hw_tuner := t\<rparr>) (inp\<lparr>i_poll := False\<rparr>)) (\<lambda>(h', calls, _).
      Inr (h', calls, out))"
  using assms
  by (cases h) (simp add: hw_step_def Let_def bind_res_def split: sum.split)

section \<open>What may happen\<close>

definition has_device :: "system \<Rightarrow> nat \<Rightarrow> bool" where
  "has_device sy i \<longleftrightarrow> i < length (tuners (sys_server sy))
     \<and> (let ty = dvbType (tuners (sys_server sy) ! i) in is_dvbt ty \<or> is_dvbs ty)"

text \<open>
  The environment's side: destinations come as \<^verbatim>\<open>destination_create\<close> makes them, sockets and
  files take at most what they are given, packets and tables come from tuners with a device, a packet is smaller
  than a session's buffer, the names of a service table end within their arrays and a program
  map leaves the session at most 32 PIDs. A destination thread gets to run only while its session lives:
  nothing in the code sees to that, and HeapSystem has the thread that runs on.
\<close>

fun allowed :: "world \<Rightarrow> event \<Rightarrow> system \<Rightarrow> bool" where
  "allowed w (Request rnd onid ch d) sy = dest_ready d"
| "allowed w (Stop sid) sy = True"
| "allowed w (Reap now) sy = True"
| "allowed w (Read i data) sy = (i < length (tuners (sys_server sy)))"
| "allowed w (Packet pmt_of pid data v) sy =
     (v < length (tuners (sys_server sy)) \<and> length data < SESSION_BUFFER
      \<and> (\<forall>s \<in> set (sessions (sys_server sy)). room (w_ca w) pmt_of s))"
| "allowed w (Pat i ps) sy = has_device sy i"
| "allowed w (Sdt i s) sy = (has_device sy i \<and> sdt_fits (w_psi w) s)"
| "allowed w (Pass i inp) sy = (i < length (tuners (sys_server sy)))"
| "allowed w (Drain k wt due) sy = (k < length (sessions (sys_server sy)) \<and> net_ok (w_net w))"

definition system_ok :: "system \<Rightarrow> bool" where
  "system_ok sy \<longleftrightarrow> server_ok (sys_server sy)
     \<and> (\<forall>s \<in> set (sessions (sys_server sy)). \<forall>d \<in> set (destination_ll s). dest_ready d)"

section \<open>One tuner changes\<close>

lemma map_channels_kind:
  "(\<exists>x. map_channels g f = FreqT x) \<longleftrightarrow> (\<exists>x. f = FreqT x)"
  "(\<exists>x. map_channels g f = FreqS x \<and> s_fec x \<noteq> None) \<longleftrightarrow> (\<exists>x. f = FreqS x \<and> s_fec x \<noteq> None)"
  by (cases f; simp)+

lemma grown_tunable:
  assumes "grown t t'" "curr_frequency t' \<noteq> None" "tunable t"
  shows "tunable t'"
proof -
  have e: "map (map_channels (\<lambda>_. [])) (frequency_ll t') = map (map_channels (\<lambda>_. [])) (frequency_ll t)"
    using assms(1) by (simp add: grown_def)
  obtain f where "t' = t\<lparr>frequency_ll := f\<rparr>" using grown_update [OF assms(1)] by blast
  then have d: "dvbType t' = dvbType t" by simp
  have all: "(\<forall>f \<in> set (frequency_ll t'). P f) \<longleftrightarrow> (\<forall>f \<in> set (frequency_ll t). P f)"
    if "\<And>f. P (map_channels (\<lambda>_. []) f) = P f" for P
  proof -
    have "(\<forall>f \<in> set fs. P f) \<longleftrightarrow> (\<forall>f \<in> set (map (map_channels (\<lambda>_. [])) fs). P f)" for fs
      using that by simp
    then show ?thesis using e by metis
  qed
  have k: "(\<forall>f \<in> set (frequency_ll t'). \<exists>x. f = FreqT x) \<longleftrightarrow> (\<forall>f \<in> set (frequency_ll t). \<exists>x. f = FreqT x)"
    by (rule all) (rule map_channels_kind(1))
  have k2: "(\<forall>f \<in> set (frequency_ll t'). \<exists>x. f = FreqS x \<and> s_fec x \<noteq> None)
      \<longleftrightarrow> (\<forall>f \<in> set (frequency_ll t). \<exists>x. f = FreqS x \<and> s_fec x \<noteq> None)"
    by (rule all) (rule map_channels_kind(2))
  show ?thesis using assms(2,3) unfolding tunable_def d k k2 by blast
qed

lemma grown_channel:
  assumes "grown t t'" "channel_at t p = Inr c"
  shows "\<exists>c. channel_at t' p = Inr c"
proof -
  have "fst p < length (frequency_ll t) \<and> snd p < length (ll_at t (fst p))"
    using assms(2) by (cases p) (simp add: channel_at_def split: if_splits option.splits)
  moreover from this have "length (ll_at t (fst p)) \<le> length (ll_at t' (fst p))"
    using assms(1) by (simp add: grown_def)
  ultimately show ?thesis using grown_length [OF assms(1)]
    by (cases p) (simp add: channel_at_def)
qed

text \<open>\<open>xs\<close> are the sessions that count for their tuners.\<close>

definition counted :: "dvb_device_t list \<Rightarrow> session_service_t list \<Rightarrow> bool" where
  "counted ts xs \<longleftrightarrow> (\<forall>i < length ts. tuner_inv (ts ! i) (refs xs i)) \<and> (\<forall>s \<in> set xs. sess_ok ts s)"

lemma counted_server: "server_ok st \<longleftrightarrow> counted (tuners st) (sessions st) \<and> distinct (map channel_key (sessions st))"
  by (auto simp: server_ok_def counted_def)

text \<open>Replacing a tuner by one with the same users, whose channels are still there.\<close>

lemma counted_put:
  assumes "counted ts xs" "i < length ts"
    and "\<And>n. tuner_inv (ts ! i) n \<Longrightarrow> tuner_inv t n"
    and "\<And>p c. channel_at (ts ! i) p = Inr c \<Longrightarrow> \<exists>c. channel_at t p = Inr c"
  shows "counted (ts[i := t]) xs"
proof -
  have "tuner_inv (ts[i := t] ! j) (refs xs j)" if "j < length ts" for j
    using that assms(1,3) by (cases "j = i") (simp_all add: counted_def)
  moreover have "sess_ok (ts[i := t]) s" if "s \<in> set xs" for s
  proof -
    have ok: "sess_ok ts s" using that assms(1) by (simp add: counted_def)
    then obtain c where c: "channel_at (ts ! s_tuner s) (s_channel s) = Inr c"
      by (auto simp: sess_ok_def)
    have "\<exists>c. channel_at (ts[i := t] ! s_tuner s) (s_channel s) = Inr c"
      using assms(2) assms(4) [of "s_channel s"] c by (cases "s_tuner s = i") auto
    with ok show ?thesis by (simp add: sess_ok_def)
  qed
  ultimately show ?thesis by (simp add: counted_def)
qed

lemma put_tuner_ok:
  assumes "server_ok st" "i < length (tuners st)"
    and "\<And>n. tuner_inv (tuners st ! i) n \<Longrightarrow> tuner_inv t n"
    and "\<And>p c. channel_at (tuners st ! i) p = Inr c \<Longrightarrow> \<exists>c. channel_at t p = Inr c"
  shows "server_ok (st\<lparr>tuners := (tuners st)[i := t]\<rparr>)"
  using counted_put [OF _ assms(2-4)] assms(1) by (simp add: counted_server)

lemma counted_stays:
  assumes "counted ts xs" "i < length ts" "stays (ts ! i) t"
  shows "counted (ts[i := t]) xs"
proof (rule counted_put [OF assms(1,2)])
  have g: "grown (ts ! i) t" "tables_ok t" "curr_frequency t \<noteq> None"
    using assms(3) by (simp_all add: stays_def)
  obtain f where f: "t = (ts ! i)\<lparr>frequency_ll := f\<rparr>" using grown_update [OF g(1)] by blast
  show "tuner_inv t n" if "tuner_inv (ts ! i) n" for n
    using that g(2) grown_tunable [OF g(1,3)] f unfolding tuner_inv_def
    by (metis dvb_device_t.ext_inject dvb_device_t.surjective dvb_device_t.update_convs(10))
  show "\<exists>c. channel_at t p = Inr c" if "channel_at (ts ! i) p = Inr c" for p c
    using grown_channel [OF g(1) that] .
qed

lemma stays_put_tuner:
  assumes "server_ok st" "i < length (tuners st)" "stays (tuners st ! i) t"
  shows "server_ok (st\<lparr>tuners := (tuners st)[i := t]\<rparr>)"
  using counted_stays [OF _ assms(2,3)] assms(1) by (simp add: counted_server)

lemma read_data_update:
  "\<exists>x. fst (dvb_read_data stack t data) = t\<lparr>last_sequence := x\<rparr>"
proof (cases "last_sequence t = sequence_no t")
  case True
  then have "fst (dvb_read_data stack t data) = t"
    by (simp add: dvb_read_data_def split: option.split)
  then show ?thesis by (intro exI [of _ "last_sequence t"]) simp
next
  case False
  then have "fst (dvb_read_data stack t data) = t\<lparr>last_sequence := sequence_no t\<rparr>"
    by (simp add: dvb_read_data_def Let_def split: option.split)
  then show ?thesis ..
qed

lemma tuner_inv_updates [simp]:
  "tuner_inv (t\<lparr>last_sequence := x\<rparr>) n = tuner_inv t n"
  "tuner_inv (t\<lparr>lastStat := y, lastber := z\<rparr>) n = tuner_inv t n"
  by (simp_all add: tuner_inv_def tables_ok_def tunable_def)

text \<open>The scan of an idle tuner never faults, and its list stays as it is.\<close>

lemma scan_next_ok:
  assumes "tuner_inv (hw_tuner h) n"
  shows "\<exists>h' calls. scan_next env h = Inr (h', calls) \<and> tuner_inv (hw_tuner h') n
    \<and> frequency_ll (hw_tuner h') = frequency_ll (hw_tuner h)"
proof -
  let ?t = "hw_tuner h"
  have t: "tables_ok ?t" "tunable ?t" using assms by (simp_all add: tuner_inv_def)
  have tuned: "tuner_inv t1 n"
    if "tables_ok t1" "tunable t1" "refcnt t1 = refcnt ?t" "currentState t1 = currentState ?t" for t1
    using that assms by (simp add: tuner_inv_def)
  have more: "tuner_inv t2 n \<and> frequency_ll t2 = frequency_ll t1"
    if "(if b then add_pids env psi_pids t1 else (t1, [])) = (t2, c)" "tuner_inv t1 n" for b t1 t2 c
    using that add_pids_only_pids [of env psi_pids t1 t2 c] by (auto split: if_splits)
  consider (T) "is_dvbt (dvbType ?t)" "currentState ?t = st_idle"
    | (S) "\<not> is_dvbt (dvbType ?t)" "is_dvbs (dvbType ?t)" "currentState ?t = st_idle"
    | (N) "\<not> (is_dvbt (dvbType ?t) \<and> currentState ?t = st_idle)"
      "\<not> (is_dvbs (dvbType ?t) \<and> currentState ?t = st_idle)"
    by blast
  then show ?thesis
  proof cases
    case T
    show ?thesis
    proof (cases "getInitialTuning_dvbt ?t (hw_id h)")
      case None
      with T assms show ?thesis by (simp add: scan_next_def Let_def)
    next
      case (Some i)
      then have "i < length (frequency_ll ?t)"
        by (auto simp: getInitialTuning_dvbt_def nth_frequency_eq split: if_splits)
      then obtain rc t1 c1 where r: "dvbt_tune env ?t (Some i) = Inr (rc, t1, c1)" "tuner_inv t1 n"
        "frequency_ll t1 = frequency_ll ?t"
        using tune_any_ok [OF t, of i env] T tuned by (auto simp: tune_any_def)
      obtain t2 c2 where 2: "(if currentState t1 = st_idle then add_pids env psi_pids t1
          else (t1, [])) = (t2, c2)" by force
      from more [OF 2 r(2)] r T Some 2 show ?thesis by (simp add: scan_next_def Let_def)
    qed
  next
    case S
    show ?thesis
    proof (cases "getInitialTuning_dvbs ?t (hw_id h)")
      case None
      with S assms show ?thesis by (simp add: scan_next_def Let_def)
    next
      case (Some i)
      then have "i < length (frequency_ll ?t)"
        by (auto simp: getInitialTuning_dvbs_def nth_frequency_eq split: if_splits)
      then obtain rc t1 c1 where r: "dvbs_tune env ?t (Some i) = Inr (rc, t1, c1)" "tuner_inv t1 n"
        "frequency_ll t1 = frequency_ll ?t"
        using tune_any_ok [OF t, of i env] S tuned by (auto simp: tune_any_def)
      obtain t2 c2 where 2: "(if currentState t1 = st_idle then add_pids env psi_pids t1
          else (t1, [])) = (t2, c2)" by force
      from more [OF 2 r(2)] r S Some 2 show ?thesis by (simp add: scan_next_def Let_def)
    qed
  next
    case N
    then have "scan_next env h = Inr (h\<lparr>hw_cnt := 0\<rparr>, [])" by (auto simp: scan_next_def Let_def)
    with assms show ?thesis by simp
  qed
qed

lemma hw_step_ok:
  assumes "tuner_inv (hw_tuner h) n" "\<not> i_poll inp"
  shows "\<exists>h' calls out. hw_step env stack h inp = Inr (h', calls, out)
    \<and> tuner_inv (hw_tuner h') n \<and> frequency_ll (hw_tuner h') = frequency_ll (hw_tuner h)"
proof (cases "i_due inp")
  case False
  with assms show ?thesis by (simp add: hw_step_def)
next
  case True
  let ?t = "(hw_tuner h)\<lparr>lastStat := uint (dvb_readstatus (hw_tuner h) (i_stat inp)),
                 lastber := dvb_readBer (hw_tuner h) (i_ber inp)\<rparr>"
  let ?c = "hw_cnt h + 1"
  let ?c2 = "if lastStat ?t < 0x1F \<and> ?c > 10 then 25 else ?c"
  let ?h = "h\<lparr>hw_tuner := ?t, hw_cnt := ?c2\<rparr>"
  have e: "hw_step env stack h inp =
      (if ?c2 \<ge> 25 then bind_res (scan_next env ?h) (\<lambda>(st2, calls). Inr (st2, calls, []))
       else Inr (?h, [], []))"
    using assms(2) True by (simp add: hw_step_def Let_def)
  have i: "tuner_inv (hw_tuner ?h) n" using assms(1) by simp
  show ?thesis
  proof (cases "?c2 \<ge> 25")
    case True
    obtain h' calls where "scan_next env ?h = Inr (h', calls)" "tuner_inv (hw_tuner h') n"
      "frequency_ll (hw_tuner h') = frequency_ll (hw_tuner ?h)"
      using scan_next_ok [OF i, of env] by blast
    with True show ?thesis unfolding e by simp
  next
    case False
    with i show ?thesis unfolding e by simp
  qed
qed

section \<open>Every step keeps the server sound\<close>

text \<open>What a tuner is set to, and when a step leaves it so where a session uses the tuner.\<close>

definition tuning :: "dvb_device_t \<Rightarrow> nat option \<times> u32 \<times> fe_params_u \<times> u32" where
  "tuning t = (curr_frequency t, fe_frequency t, fe_params t, sequence_no t)"

definition steady :: "server \<Rightarrow> server \<Rightarrow> bool" where
  "steady st st' \<longleftrightarrow> (\<forall>i < length (tuners st). 0 < refs (sessions st) i
     \<longrightarrow> tuning (tuners st' ! i) = tuning (tuners st ! i))"

lemma tuning_pids [simp]: "tuning (t\<lparr>pids := x\<rparr>) = tuning t"
  "tuning (t\<lparr>refcnt := n\<rparr>) = tuning t" "tuning (t\<lparr>currentState := c\<rparr>) = tuning t"
  "tuning (t\<lparr>frequency_ll := f\<rparr>) = tuning t" "tuning (t\<lparr>last_sequence := q\<rparr>) = tuning t"
  by (simp_all add: tuning_def)

lemma steady_map:
  assumes "map tuning (tuners st') = map tuning (tuners st)"
  shows "steady st st'"
proof -
  have "length (tuners st') = length (tuners st)" using assms by (rule map_eq_imp_length_eq)
  with assms show ?thesis unfolding steady_def by (metis nth_map)
qed

lemma steady_same: "tuners st' = tuners st \<Longrightarrow> steady st st'"
  by (simp add: steady_def)

lemma release_tuning: "release_tuner t s = Inr (t', calls) \<Longrightarrow> tuning t' = tuning t"
proof -
  assume r: "release_tuner t s = Inr (t', calls)"
  have "tuning (fst (remove_pids t ps)) = tuning t" for ps
    using remove_pids_keeps [of t ps] tuning_pids(1) by metis
  then have k: "remove_pids t ps = (t1, c) \<Longrightarrow> tuning t1 = tuning t" for ps t1 c
    by (metis fst_conv)
  show ?thesis using r
    by (auto simp: release_tuner_def bind_res_Inr Let_def k
        simp del: remove_pids.simps split: if_splits prod.splits)
qed

lemma session_stop_tuning:
  assumes "session_stop sid st = Inr (rc, st', calls, fds)"
  shows "map tuning (tuners st') = map tuning (tuners st)"
proof (cases "find_index (\<lambda>s. sessionID s = sid) (sessions st)")
  case None
  with assms show ?thesis by (simp add: session_stop_def)
next
  case (Some k)
  let ?j = "s_tuner (sessions st ! k)"
  obtain t1 where "release_tuner (tuners st ! ?j) (sessions st ! k) = Inr (t1, calls)"
    "tuners st' = (tuners st)[?j := t1]"
    using assms Some
    by (auto simp: session_stop_def Let_def bind_res_Inr tuner_at_def split: if_splits)
  then show ?thesis using release_tuning by (metis map_update_same)
qed

lemma thread_pass_tuning:
  "session_thread_pass now ts ss = Inr (ts', ss', calls) \<Longrightarrow> map tuning ts' = map tuning ts"
proof (induction ss arbitrary: ts ts' ss' calls)
  case (Cons s ss)
  show ?case
  proof (cases "destination_ll s = []")
    case True
    then obtain t1 c1 ss2 c2 where r: "s_tuner s < length ts"
      "release_tuner (ts ! s_tuner s) s = Inr (t1, c1)"
      "session_thread_pass now (ts[s_tuner s := t1]) ss = Inr (ts', ss2, c2)"
      using Cons.prems by (auto simp: bind_res_Inr tuner_at_def split: if_splits)
    have "map tuning (ts[s_tuner s := t1]) = map tuning ts"
      by (rule map_update_same) (rule release_tuning [OF r(2)])
    with Cons.IH [OF r(3)] show ?thesis by simp
  next
    case False
    then show ?thesis using Cons by (auto simp: bind_res_Inr)
  qed
qed simp

lemma process_pmt_tuning:
  "session_packet env dec pmt_of pid data v (t, s) = Inr ((t', s'), calls) \<Longrightarrow> pl_ok s
   \<Longrightarrow> tuning t' = tuning t"
proof -
  assume r: "session_packet env dec pmt_of pid data v (t, s) = Inr ((t', s'), calls)" and "pl_ok s"
  have "same_but_pids (t, s) (t1, s1)" if "process_pmt env dec p ((t, s), []) = Inr ((t1, s1), c)"
    for p t1 s1 c
    using process_pmt_added [of "((t, s), [])" dec p env] that \<open>pl_ok s\<close>
    by (auto simp: pids_added_def Let_def split: if_splits)
  then have "process_pmt env dec p ((t, s), []) = Inr ((t1, s1), c) \<Longrightarrow> tuning t1 = tuning t"
    for p t1 s1 c
    using same_but_pids_frame(1) [of t s t1 s1] by fastforce
  with r show ?thesis
    by (auto simp: session_packet_def bind_res_Inr split: if_splits option.splits)
qed

lemma choose_tuner_tuning:
  assumes "choose_tuner env on ch k ts = Inr (r, ts', calls)"
  shows "\<forall>i < length ts. refcnt (ts ! i) \<noteq> 0 \<longrightarrow> tuning (ts' ! i) = tuning (ts ! i)"
  using assms
proof (induction ts arbitrary: k r ts' calls)
  case (Cons t ts)
  have next_one: ?case
    if n: "bind_res (choose_tuner env on ch (Suc k) ts) (\<lambda>(r, ts', calls). Inr (r, t # ts', calls))
        = Inr (r, ts', calls)"
  proof -
    obtain ts2 where "choose_tuner env on ch (Suc k) ts = Inr (r, ts2, calls)" "ts' = t # ts2"
      using n by (auto simp: bind_res_Inr)
    with Cons.IH show ?thesis by (auto simp: All_less_Suc2)
  qed
  have here: ?case if "ts' = t1 # ts" "refcnt t \<noteq> 0 \<longrightarrow> tuning t1 = tuning t" for t1
    using that by (simp add: All_less_Suc2)
  show ?case
  proof (cases "channel_getFrequencyForTuner t on ch")
    case None
    with Cons.prems next_one show ?thesis by (simp add: Let_def)
  next
    case (Some fi)
    show ?thesis
    proof (cases "getChannelByNumber_tuners t on ch")
      case None
      with Some Cons.prems next_one show ?thesis by (simp add: Let_def)
    next
      case chan: (Some p)
      obtain c where c: "channel_at t p = Inr c"
        using Cons.prems Some chan by (auto simp: Let_def bind_res_Inr)
      show ?thesis
      proof (cases "refcnt t = 0")
        case True
        then obtain t1 where "ts' = t1 # ts"
          using Cons.prems Some chan c
          by (auto simp: Let_def bind_res_Inr split_beta simp del: add_pids.simps)
        with True here show ?thesis by blast
      next
        case False
        obtain rc where rc: "share_result t fi = Inr rc"
          using Cons.prems Some chan c False by (auto simp: Let_def bind_res_Inr)
        obtain z t1 c1 where
          a: "AddPID_to_Demux (e_filter env) (t\<lparr>refcnt := refcnt t + 1\<rparr>) (pmt_pid c) = (z, t1, c1)"
          by (metis prod_cases3)
        have "tuning t1 = tuning t" using AddPID_only_pids [OF a] by auto
        with Cons.prems Some chan c False rc a here next_one show ?thesis
          by (cases "rc \<ge> 0") (auto simp: Let_def)
      qed
    qed
  qed
qed simp


lemma addNew_steady:
  assumes "server_ok st" "session_addNew env rnd st onid ch (Some d) = Inr (rc, st', calls, threads)"
  shows "steady st st'"
proof -
  obtain ss where ss: "(if destination_type d = dest_live \<or> destination_type d = dest_live2
      then session_stop_type (destination_type d) (sessions st) else sessions st) = ss" by blast
  have "tuners st' = tuners st \<or>
      (\<exists>r calls. choose_tuner env (uint onid) (uint ch) 0 (tuners st) = Inr (r, tuners st', calls))"
  proof (cases "channel_OK (tuners st) (uint onid) (uint ch) 0 = -1")
    case True
    with assms(2) show ?thesis by (simp add: session_addNew_def)
  next
    case OK: False
    show ?thesis
    proof (cases "find_index (\<lambda>s. s_onid s = onid \<and> s_channel_id s = ch) ss")
      case (Some k)
      with OK assms(2) show ?thesis unfolding session_addNew_def by (auto simp: ss)
    next
      case None
      obtain r ts c where c: "choose_tuner env (uint onid) (uint ch) 0 (tuners st) = Inr (r, ts, c)"
        using assms(2) OK None unfolding session_addNew_def
        by (cases "choose_tuner env (uint onid) (uint ch) 0 (tuners st)") (auto simp: ss)
      have "tuners st' = ts"
        using assms(2) OK None c unfolding session_addNew_def
        by (cases r) (auto simp: ss bind_res_Inr Let_def)
      with c show ?thesis by blast
    qed
  qed
  moreover have "refcnt (tuners st ! i) \<noteq> 0" if "i < length (tuners st)" "0 < refs (sessions st) i" for i
    using that assms(1) by (simp add: server_ok_def tuner_inv_def)
  ultimately show ?thesis using choose_tuner_tuning by (fastforce simp: steady_def)
qed


text \<open>The destinations of the sessions, and what a step may leave of them.\<close>

definition dests :: "session_service_t list \<Rightarrow> destination_t set" where
  "dests ss = (\<Union>s \<in> set ss. set (destination_ll s))"

lemma system_ok_dests:
  "system_ok sy \<longleftrightarrow> server_ok (sys_server sy) \<and> Ball (dests (sessions (sys_server sy))) dest_ready"
  by (auto simp: system_ok_def dests_def)

definition good_step :: "system \<Rightarrow> system option res \<Rightarrow> bool" where
  "good_step sy r \<longleftrightarrow> (\<exists>o'. r = Inr o' \<and> (\<forall>sy'. o' = Some sy' \<longrightarrow>
     system_ok sy' \<and> steady (sys_server sy) (sys_server sy')))"

lemma good_stepI:
  assumes "r = Inr (Some (put_server sy st))" "server_ok st"
    and "Ball (dests (sessions st)) dest_ready" "steady (sys_server sy) st"
  shows "good_step sy r"
  using assms by (simp add: good_step_def system_ok_dests)

lemma dests_live: "dests (after_live d ss) \<subseteq> dests ss"
proof -
  have "set (destination_close_type ds ty) \<subseteq> set ds" for ds ty
    by (induction ds) auto
  then show ?thesis by (auto simp: dests_def after_live_def session_stop_type_def dest!: subsetD)
qed

text \<open>A request, whether some tuner carries the channel or not.\<close>

lemma addNew_refused:
  assumes "server_ok st" "\<not> (\<exists>t \<in> set (tuners st). carries t (onid, ch))"
  shows "\<exists>st'. session_addNew env rnd st onid ch (Some d) = Inr (0, st', [], [])
    \<and> tuners st' = tuners st \<and> (st' = st \<or> st' = st\<lparr>sessions := after_live d (sessions st)\<rparr>)"
proof (cases "tuners st = []")
  case True
  then have "sessions st = []"
    using assms(1) by (cases "sessions st") (auto simp: server_ok_def sess_ok_def)
  then have "after_live d (sessions st) = []" "session_stop_type ty (sessions st) = []" for ty
    by (simp_all add: after_live_def session_stop_type_def)
  with True show ?thesis by (simp add: session_addNew_def after_live_def)
next
  case False
  have "channel_OK (tuners st) (uint onid) (uint ch) 0 = -1"
    using channel_OK_iff [OF False] assms(2) by blast
  then show ?thesis by (simp add: session_addNew_def)
qed

lemma addNew_total:
  assumes "server_ok st"
  obtains rc st' calls threads where
    "session_addNew env rnd st onid ch (Some d) = Inr (rc, st', calls, threads)"
    "server_ok st'" "dests (sessions st') \<subseteq> insert d (dests (sessions st))" "steady st st'"
proof -
  let ?ss = "after_live d (sessions st)"
  have live: "dests ?ss \<subseteq> dests (sessions st)" by (rule dests_live)
  show thesis
  proof (cases "\<exists>t \<in> set (tuners st). carries t (onid, ch)")
    case True
    from addNew_result [OF assms True, of env rnd d] obtain rc st' calls threads where
      r: "session_addNew env rnd st onid ch (Some d) = Inr (rc, st', calls, threads)"
        "server_ok st'"
      and c: "(\<exists>k < length ?ss. sessions st' = ?ss[k := append_dest d (?ss ! k)])
         \<or> sessions st' = ?ss \<or> (\<exists>s. sessions st' = ?ss @ [s] \<and> destination_ll s = [d])"
      by blast
    have "dests (sessions st') \<subseteq> insert d (dests ?ss)"
      using c
    proof (elim disjE exE conjE)
      fix k assume k: "k < length ?ss" "sessions st' = ?ss[k := append_dest d (?ss ! k)]"
      have "set (sessions st') \<subseteq> insert (append_dest d (?ss ! k)) (set ?ss)"
        unfolding k(2) by (rule set_update_subset_insert)
      moreover have "?ss ! k \<in> set ?ss" using k(1) by simp
      ultimately show ?thesis by (auto simp: dests_def append_dest_def)
    qed (auto simp: dests_def)
    with r live show ?thesis using addNew_steady [OF assms r(1)] by (intro that) auto
  next
    case False
    from addNew_refused [OF assms False, of env rnd d] obtain st' where
      r: "session_addNew env rnd st onid ch (Some d) = Inr (0, st', [], [])" "tuners st' = tuners st"
        "st' = st \<or> st' = st\<lparr>sessions := ?ss\<rparr>" by blast
    have "server_ok st'" using r(3) assms after_live_ok [OF assms] by auto
    moreover have "dests (sessions st') \<subseteq> insert d (dests (sessions st))" using r(3) live by auto
    ultimately show ?thesis using r(1) steady_same [OF r(2)] by (intro that)
  qed
qed

lemma request_step:
  assumes "system_ok sy" "dest_ready d"
  shows "good_step sy (run_event w (Request rnd onid ch d) sy)"
proof -
  have ok: "server_ok (sys_server sy)" and rd: "Ball (dests (sessions (sys_server sy))) dest_ready"
    using assms(1) by (simp_all add: system_ok_dests)
  obtain rc st' calls threads where
    "session_addNew (w_dvb w) rnd (sys_server sy) onid ch (Some d) = Inr (rc, st', calls, threads)"
    "server_ok st'" "dests (sessions st') \<subseteq> insert d (dests (sessions (sys_server sy)))"
    "steady (sys_server sy) st'"
    by (rule addNew_total [OF ok])
  with rd assms(2) show ?thesis by (intro good_stepI [where st = st']) auto
qed

lemma stop_step:
  assumes "system_ok sy"
  shows "good_step sy (run_event w (Stop sid) sy)"
proof -
  let ?st = "sys_server sy"
  have ok: "server_ok ?st" and rd: "Ball (dests (sessions ?st)) dest_ready"
    using assms by (simp_all add: system_ok_dests)
  show ?thesis
  proof (cases "find_index (\<lambda>s. sessionID s = sid) (sessions ?st)")
    case None
    then have "session_stop sid ?st = Inr (-1, ?st, [], [])" by (simp add: session_stop_def)
    with ok rd show ?thesis by (intro good_stepI [where st = ?st]) (simp_all add: steady_same)
  next
    case (Some k)
    let ?s = "sessions ?st ! k"
    obtain t1 calls where
      r: "session_stop sid ?st = Inr (0, ?st\<lparr>tuners := (tuners ?st)[s_tuner ?s := t1],
          sessions := take k (sessions ?st) @ drop (Suc k) (sessions ?st)\<rparr>,
          calls, destination_close_all (destination_ll ?s))"
      using session_stop_split [OF ok Some] by blast
    let ?st' = "?st\<lparr>tuners := (tuners ?st)[s_tuner ?s := t1],
        sessions := take k (sessions ?st) @ drop (Suc k) (sessions ?st)\<rparr>"
    have "map tuning (tuners ?st') = map tuning (tuners ?st)" by (rule session_stop_tuning [OF r])
    then have "steady ?st ?st'" by (rule steady_map)
    moreover have "set (take k (sessions ?st) @ drop (Suc k) (sessions ?st)) \<subseteq> set (sessions ?st)"
      using set_take_subset set_drop_subset by fastforce
    then have "Ball (dests (sessions ?st')) dest_ready" using rd by (auto simp: dests_def)
    ultimately show ?thesis using r session_stop_keeps [OF ok Some r]
      by (intro good_stepI [where st = ?st']) simp_all
  qed
qed

lemma reap_step:
  assumes "system_ok sy"
  shows "good_step sy (run_event w (Reap now) sy)"
proof -
  let ?st = "sys_server sy"
  let ?ss = "map (update_bandwidth now) (filter (\<lambda>s. destination_ll s \<noteq> []) (sessions ?st))"
  have ok: "server_ok ?st" and rd: "Ball (dests (sessions ?st)) dest_ready"
    using assms by (simp_all add: system_ok_dests)
  from thread_pass_server [OF ok, of now] obtain ts calls where
    r: "session_thread_pass now (tuners ?st) (sessions ?st) = Inr (ts, ?ss, calls)"
    "server_ok (?st\<lparr>tuners := ts, sessions := ?ss\<rparr>)" by blast
  have "steady ?st (?st\<lparr>tuners := ts, sessions := ?ss\<rparr>)"
    using thread_pass_tuning [OF r(1)] by (intro steady_map) simp
  moreover have "Ball (dests ?ss) dest_ready" using rd by (auto simp: dests_def)
  ultimately show ?thesis using r by (intro good_stepI [where st = "?st\<lparr>tuners := ts, sessions := ?ss\<rparr>"]) simp_all
qed

lemma hw_step_params:
  assumes "hw_step env stack h inp = Inr (h', calls, out)" "currentState (hw_tuner h) \<noteq> st_idle"
  shows "fe_params (hw_tuner h') = fe_params (hw_tuner h)"
proof -
  obtain t out1 where 1: "(if i_poll inp then dvb_read_data stack (hw_tuner h) (i_data inp)
      else (hw_tuner h, [])) = (t, out1)" by force
  then have "t = hw_tuner h \<or> (\<exists>x. t = (hw_tuner h)\<lparr>last_sequence := x\<rparr>)"
    using read_data_update [of stack "hw_tuner h" "i_data inp"] by (auto split: if_splits)
  then have "currentState t \<noteq> st_idle" "fe_params t = fe_params (hw_tuner h)" using assms(2) by auto
  with assms(1) 1 show ?thesis
    by (auto simp: hw_step_def scan_next_def Let_def bind_res_Inr split: if_splits)
qed

text \<open>A step that changes one tuner and no session.\<close>

lemma tuner_step:
  assumes "system_ok sy" "i < length (tuners (sys_server sy))"
    and "server_ok ((sys_server sy)\<lparr>tuners := (tuners (sys_server sy))[i := t]\<rparr>)"
    and "0 < refs (sessions (sys_server sy)) i \<Longrightarrow> tuning t = tuning (tuners (sys_server sy) ! i)"
    and "r = Inr (Some ((put_tuner sy i t)\<lparr>sys_scan := x\<rparr>))"
  shows "good_step sy r"
proof -
  let ?st = "(sys_server sy)\<lparr>tuners := (tuners (sys_server sy))[i := t]\<rparr>"
  have "steady (sys_server sy) ?st"
    using assms(2,4) by (auto simp: steady_def nth_list_update)
  with assms show ?thesis by (simp add: good_step_def system_ok_dests)
qed

lemma same_scan: "put_tuner sy i t = (put_tuner sy i t)\<lparr>sys_scan := sys_scan sy\<rparr>"
  by simp

lemma stays_step:
  assumes "system_ok sy" "i < length (tuners (sys_server sy))"
    and "stays (tuners (sys_server sy) ! i) t" and "r = Inr (Some (put_tuner sy i t))"
  shows "good_step sy r"
proof (rule tuner_step [OF assms(1,2)])
  have ok: "server_ok (sys_server sy)" using assms(1) by (simp add: system_ok_def)
  show "server_ok ((sys_server sy)\<lparr>tuners := (tuners (sys_server sy))[i := t]\<rparr>)"
    by (rule stays_put_tuner [OF ok assms(2,3)])
  obtain f where "t = (tuners (sys_server sy) ! i)\<lparr>frequency_ll := f\<rparr>"
    using assms(3) grown_update unfolding stays_def by blast
  then show "tuning t = tuning (tuners (sys_server sy) ! i)" by simp
  show "r = Inr (Some ((put_tuner sy i t)\<lparr>sys_scan := sys_scan sy\<rparr>))" using assms(4) by simp
qed

lemma device_tables:
  assumes "system_ok sy" "has_device sy i"
  shows "tables_ok (tuners (sys_server sy) ! i)" "curr_frequency (tuners (sys_server sy) ! i) \<noteq> None"
    "i < length (tuners (sys_server sy))"
  using assms by (auto simp: system_ok_def server_ok_def has_device_def Let_def tuner_inv_def tunable_def)

lemma pat_step:
  assumes "system_ok sy" "has_device sy i"
  shows "good_step sy (run_event w (Pat i ps) sy)"
proof -
  note d = device_tables [OF assms]
  from process_pat_stays [OF d(1,2), of ps] obtain t where
    t: "process_pat ps (tuners (sys_server sy) ! i) = Inr t" "stays (tuners (sys_server sy) ! i) t"
    by blast
  show ?thesis by (rule stays_step [OF assms(1) d(3) t(2)]) (simp add: tuner_at_def d(3) t(1))
qed

lemma sdt_step:
  assumes "system_ok sy" "has_device sy i" "sdt_fits (w_psi w) s"
  shows "good_step sy (run_event w (Sdt i s) sy)"
proof -
  note d = device_tables [OF assms(1,2)]
  from process_sdt_stays [OF d(1,2) assms(3)] obtain t rows where
    t: "process_sdt (w_psi w) s (tuners (sys_server sy) ! i) = Inr (t, rows)"
    "stays (tuners (sys_server sy) ! i) t" by blast
  show ?thesis by (rule stays_step [OF assms(1) d(3) t(2)]) (simp add: tuner_at_def d(3) t(1))
qed

lemma read_step:
  assumes "system_ok sy" "i < length (tuners (sys_server sy))"
  shows "good_step sy (run_event w (Read i data) sy)"
proof -
  let ?t = "tuners (sys_server sy) ! i"
  obtain x where x: "fst (dvb_read_data (w_stack w) ?t data) = ?t\<lparr>last_sequence := x\<rparr>"
    using read_data_update by blast
  have ok: "server_ok (sys_server sy)" using assms(1) by (simp add: system_ok_def)
  show ?thesis
  proof (rule tuner_step [OF assms])
    show "server_ok ((sys_server sy)\<lparr>tuners := (tuners (sys_server sy))[i := ?t\<lparr>last_sequence := x\<rparr>]\<rparr>)"
      by (rule put_tuner_ok [OF ok assms(2)]) (simp_all add: channel_at_def split: if_splits)
    show "tuning (?t\<lparr>last_sequence := x\<rparr>) = tuning ?t" by simp
    show "run_event w (Read i data) sy =
        Inr (Some ((put_tuner sy i (?t\<lparr>last_sequence := x\<rparr>))\<lparr>sys_scan := sys_scan sy\<rparr>))"
      using assms(2) by (simp add: tuner_at_def x)
  qed
qed

lemma pass_step:
  assumes "system_ok sy" "i < length (tuners (sys_server sy))"
  shows "good_step sy (run_event w (Pass i inp) sy)"
proof -
  let ?st = "sys_server sy" and ?h = "hw_of sy i" and ?inp = "inp\<lparr>i_poll := False\<rparr>"
  have ok: "server_ok ?st" using assms(1) by (simp add: system_ok_def)
  then have "tuner_inv (hw_tuner ?h) (refs (sessions ?st) i)"
    using assms(2) by (simp add: server_ok_def hw_of_def)
  from hw_step_ok [OF this, of ?inp "w_dvb w" "w_stack w"] obtain h calls out where
    h: "hw_step (w_dvb w) (w_stack w) ?h ?inp = Inr (h, calls, out)"
      "tuner_inv (hw_tuner h) (refs (sessions ?st) i)"
      "frequency_ll (hw_tuner h) = frequency_ll (tuners ?st ! i)"
    by (auto simp: hw_of_def)
  show ?thesis
  proof (rule tuner_step [OF assms])
    have refc: "tuner_inv (hw_tuner h) n" if "tuner_inv (tuners ?st ! i) n" for n
    proof -
      have "tuner_inv (tuners ?st ! i) (refs (sessions ?st) i)"
        using ok assms(2) by (simp add: server_ok_def)
      with that have "n = refs (sessions ?st) i" by (simp add: tuner_inv_def)
      with h(2) show ?thesis by simp
    qed
    show "server_ok (?st\<lparr>tuners := (tuners ?st)[i := hw_tuner h]\<rparr>)"
      by (rule put_tuner_ok [OF ok assms(2) refc]) (simp_all add: channel_at_cong [OF h(3)])
    show "tuning (hw_tuner h) = tuning (tuners ?st ! i)" if "0 < refs (sessions ?st) i"
    proof -
      have "currentState (hw_tuner ?h) \<noteq> st_idle"
        using that ok assms(2) by (auto simp: server_ok_def tuner_inv_def hw_of_def)
      from hw_step_busy [OF h(1) this] hw_step_params [OF h(1) this]
      show ?thesis by (simp add: tuning_def hw_of_def)
    qed
    show "run_event w (Pass i inp) sy =
        Inr (Some ((put_tuner sy i (hw_tuner h))\<lparr>sys_scan := (sys_scan sy)[i := (hw_id h, hw_cnt h)]\<rparr>))"
      using assms(2) h(1) by (simp add: tuner_at_def)
  qed
qed

lemma write_sessions_tuning:
  assumes "write_sessions env dec pmt_of pid data v ts ss = Inr (ts', ss', calls)"
    and "\<forall>s \<in> set ss. pl_ok s"
  shows "map tuning ts' = map tuning ts"
  using assms
proof (induction ss arbitrary: ts ss' calls)
  case (Cons s ss)
  obtain t1 s1 c1 ss2 c2 where r: "s_tuner s < length ts"
    "session_packet env dec pmt_of pid data v (ts ! s_tuner s, s) = Inr ((t1, s1), c1)"
    "write_sessions env dec pmt_of pid data v (ts[s_tuner s := t1]) ss = Inr (ts', ss2, c2)"
    using Cons.prems(1) by (auto simp: bind_res_Inr tuner_at_def split: if_splits)
  have "map tuning (ts[s_tuner s := t1]) = map tuning ts"
    by (rule map_update_same) (rule process_pmt_tuning [OF r(2)], use Cons.prems(2) in simp)
  with Cons.IH [OF r(3)] Cons.prems(2) show ?case by simp
qed simp

lemma session_write_tuning:
  assumes "server_ok st" "session_write env dec pmt_of pid data v st = Inr (st', calls)"
  shows "map tuning (tuners st') = map tuning (tuners st)"
proof -
  have "\<forall>s \<in> set (sessions st). pl_ok s" using assms(1) by (simp add: server_ok_def sess_ok_def)
  moreover obtain u ss c where
    "write_sessions env dec pmt_of pid data u (tuners st) (sessions st) = Inr (tuners st', ss, c)"
    using assms(2) by (auto simp: session_write_def bind_res_Inr)
  ultimately show ?thesis using write_sessions_tuning by blast
qed

lemma packet_step:
  assumes "system_ok sy" "v < length (tuners (sys_server sy))" "length data < SESSION_BUFFER"
    and "\<forall>s \<in> set (sessions (sys_server sy)). room (w_ca w) pmt_of s"
  shows "good_step sy (run_event w (Packet pmt_of pid data v) sy)"
proof -
  let ?st = "sys_server sy"
  have ok: "server_ok ?st" and rd: "Ball (dests (sessions ?st)) dest_ready"
    using assms(1) by (simp_all add: system_ok_dests)
  from session_write_ok [OF ok assms(2-4), of "w_dvb w" pid] obtain st' calls where
    r: "session_write (w_dvb w) (w_ca w) pmt_of pid data v ?st = Inr (st', calls)" "server_ok st'"
    "map identity (sessions st') = map identity (sessions ?st)" by blast
  have "map destination_ll ss = map (\<lambda>x. snd (snd (snd (snd x)))) (map identity ss)" for ss
    by (simp add: identity_def comp_def)
  then have "map destination_ll (sessions st') = map destination_ll (sessions ?st)"
    using r(3) by metis
  moreover have "dests ss = (\<Union>ds \<in> set (map destination_ll ss). set ds)" for ss
    by (simp add: dests_def)
  ultimately have "dests (sessions st') = dests (sessions ?st)" by metis
  then have "Ball (dests (sessions st')) dest_ready" using rd by simp
  moreover have "steady ?st st'" by (rule steady_map) (rule session_write_tuning [OF ok r(1)])
  ultimately show ?thesis using r by (intro good_stepI [where st = st']) simp_all
qed

text \<open>A session whose destinations are replaced by sound ones, its buffer perhaps emptied.\<close>

lemma new_dests_ok:
  assumes ok: "system_ok sy" and k: "k < length (sessions (sys_server sy))"
    and s': "s' = (sessions (sys_server sy) ! k)\<lparr>bufferPtr := n, destination_ll := ds\<rparr>"
    and n: "n \<le> bufferPtr (sessions (sys_server sy) ! k)" and ds: "\<forall>d \<in> set ds. dest_ready d"
  shows "system_ok (put_server sy ((sys_server sy)\<lparr>sessions := (sessions (sys_server sy))[k := s']\<rparr>))"
proof -
  let ?st = "sys_server sy" and ?s = "sessions (sys_server sy) ! k"
  have sv: "server_ok ?st" and rd: "Ball (dests (sessions ?st)) dest_ready"
    using ok by (simp_all add: system_ok_dests)
  have "sbuf_ok ?s" "sess_ok (tuners ?st) ?s"
    using sv k by (simp_all add: server_ok_def sess_ok_def)
  then have "sess_ok (tuners ?st) s'"
    using s' n by (simp add: sess_ok_def pl_ok_def sess_pids_def sbuf_ok_def)
  then have "\<forall>s \<in> set ((sessions ?st)[k := s']). sess_ok (tuners ?st) s"
    using sv set_update_subset_insert [of "sessions ?st" k s'] by (auto simp: server_ok_def)
  moreover have "map channel_key ((sessions ?st)[k := s']) = map channel_key (sessions ?st)"
    by (rule map_update_same) (simp add: s' channel_key_def)
  moreover have "refs ((sessions ?st)[k := s']) i = refs (sessions ?st) i" for i
    by (rule refs_cong, rule map_update_same) (simp add: s')
  ultimately have "server_ok (?st\<lparr>sessions := (sessions ?st)[k := s']\<rparr>)"
    using sv by (simp add: server_ok_def)
  moreover have "dests ((sessions ?st)[k := s']) \<subseteq> dests (sessions ?st) \<union> set ds"
    using set_update_subset_insert [of "sessions ?st" k s'] s' by (auto simp: dests_def)
  then have "Ball (dests ((sessions ?st)[k := s'])) dest_ready" using rd ds by blast
  ultimately show ?thesis by (simp add: system_ok_dests)
qed

lemma drain_step:
  assumes "system_ok sy" "net_ok (w_net w)" "k < length (sessions (sys_server sy))"
  shows "good_step sy (run_event w (Drain k wt due) sy)"
proof -
  note True = assms(3)
  let ?st = "sys_server sy" and ?s = "sessions (sys_server sy) ! k"
  have ok: "server_ok ?st" and rd: "Ball (dests (sessions ?st)) dest_ready"
    using assms(1) by (simp_all add: system_ok_dests)
  have s: "sbuf_ok ?s" using ok True by (simp add: server_ok_def sess_ok_def)
  have "\<forall>d \<in> set (destination_ll ?s). dest_ready d" using rd True by (auto simp: dests_def)
  from destination_process_ready [OF this assms(2), of wt due "take (bufferPtr ?s) (s_buffer ?s)"]
  obtain r where r: "destination_process (w_net w) wt due (destination_ll ?s)
      (take (bufferPtr ?s) (s_buffer ?s)) = Inr r"
    "\<And>ds outs. r = Some (ds, outs) \<Longrightarrow> \<forall>d \<in> set ds. dest_ready d" by blast
  have pass: "destination_thread_pass (w_net w) wt due ?s =
      Inr (map_option (\<lambda>(ds, outs). (?s\<lparr>bufferPtr := 0, destination_ll := ds\<rparr>, outs)) r)"
    using s r(1) by (simp add: destination_thread_pass_def session_drain_def sbuf_ok_def)
  show ?thesis
  proof (cases r)
    case None
    with True pass show ?thesis by (simp add: good_step_def)
  next
    case (Some x)
    obtain ds outs where x: "x = (ds, outs)" by force
    let ?s' = "?s\<lparr>bufferPtr := 0, destination_ll := ds\<rparr>"
    have "run_event w (Drain k wt due) sy =
        Inr (Some (put_server sy (?st\<lparr>sessions := (sessions ?st)[k := ?s']\<rparr>)))"
      using True pass Some x by simp
    moreover have "system_ok (put_server sy (?st\<lparr>sessions := (sessions ?st)[k := ?s']\<rparr>))"
      by (rule new_dests_ok [OF assms(1) True refl]) (use r(2) Some x in auto)
    ultimately show ?thesis by (simp add: good_step_def steady_def)
  qed
qed

lemma event_step:
  assumes "system_ok sy" "allowed w e sy"
  shows "good_step sy (run_event w e sy)"
proof (cases e)
  case (Request rnd onid ch d)
  then show ?thesis using request_step assms by simp
next
  case (Packet pmt_of pid data v)
  then show ?thesis using packet_step [OF assms(1), of v data w pmt_of pid] assms(2) by simp
next
  case (Sdt i s)
  then show ?thesis using sdt_step [OF assms(1), of i w s] assms(2) by simp
next
  case (Drain k wt due)
  then show ?thesis using drain_step [OF assms(1), of w k wt due] assms(2) by (simp del: run_event.simps)
qed (use assms in \<open>simp_all add: stop_step reap_step read_step pat_step pass_step
      del: run_event.simps\<close>)

interpretation sys: guarded_machine "run_event w" "allowed w" system_ok for w
proof
  show "\<exists>r. run_event w e s = Inr r" if "system_ok s" "allowed w e s" for w s e
    using event_step [OF that] by (auto simp: good_step_def)
  show "system_ok s'" if "system_ok s" "allowed w e s" "run_event w e s = Inr (Some s')" for w s e s'
    using event_step [OF that(1,2)] that(3) by (auto simp: good_step_def)
qed

text \<open>The same machine as long as some session uses tuner \<open>i\<close>.\<close>

definition used :: "nat \<Rightarrow> system \<Rightarrow> bool" where
  "used i sy \<longleftrightarrow> i < length (tuners (sys_server sy)) \<and> 0 < refs (sessions (sys_server sy)) i"

interpretation used_sys: guarded_machine "run_event w" "\<lambda>e sy. allowed w e sy \<and> used i sy" system_ok
  for w i
  by unfold_locales (auto intro: sys.no_fault sys.keeps)

section \<open>Properties\<close>

text \<open>
  C1. From a sound state every sequence of allowed events leads to a sound state (each tuner counts
  its sessions and is busy exactly when it has one, its tables are well formed and tunable, sessions
  refer to channels that exist, no channel has two sessions, buffers and PID lists are in bounds,
  destinations are ready), and no allowed event dereferences a bad pointer or overruns an array
  there, in whatever order the threads get to run. Allowed (\<open>allowed\<close>) are requests for destinations
  whose URL has what its transport needs, every stop and every pass of the session thread, and of tuners
  that exist readings, passes of the hardware thread and tables whose names fit; packets smaller than a
  session's buffer that leave a session at most 32 PIDs; and passes of the destination threads of sessions that
  exist, to sockets and files that take at most what they are given. A destination thread that runs on
  after its session has ended is not allowed: it follows a dangling pointer.
\<close>

theorem server_never_faults:
  assumes "runs (run_event w) (allowed w) sy0 es sy" and "system_ok sy0"
  shows "system_ok sy \<and> (\<forall>e. \<not> allowed w e sy \<or> \<not> isl (run_event w e sy))"
  using sys.reachable_inv [OF assms] sys.reachable_no_fault [OF assms] by fastforce

text \<open>
  C3. As long as some session uses a tuner, nothing that happens retunes it: its frequency, the
  parameters of its frontend and its sequence number stay what they were, through requests for
  other channels, tables, scans of the hardware thread and the ends of other sessions.
\<close>

theorem used_tuner_keeps_tuning:
  assumes "runs (run_event w) (\<lambda>e sy. allowed w e sy \<and> used i sy) sy0 es sy"
    and "system_ok sy0"
  shows "tuning (tuners (sys_server sy) ! i) = tuning (tuners (sys_server sy0) ! i)"
proof (rule used_sys.reachable_keeps [OF assms])
  fix s e s'
  assume "system_ok s" "allowed w e s \<and> used i s" "run_event w e s = Inr (Some s')"
  with event_step [of s w e] show "tuning (tuners (sys_server s') ! i) = tuning (tuners (sys_server s) ! i)"
    by (auto simp: good_step_def steady_def used_def)
qed

definition quiet_world :: world where
  "quiet_world = \<lparr>w_dvb = quiet_env, w_ca = \<lambda>_. None, w_psi = text_decoders,
     w_net = \<lparr>n_socket = 3, n_send = int, n_open = \<lambda>_. 4, n_write = int\<rparr>, w_stack = []\<rparr>"

definition one_system :: system where
  "one_system = \<lparr>sys_server = one_server, sys_scan = [(0, 24)]\<rparr>"

definition busy_system :: system where
  "busy_system = \<lparr>sys_server = busy_server, sys_scan = [(0, 24)]\<rparr>"

lemma one_system_ok: "system_ok one_system" "system_ok busy_system"
  using one_server_ok busy_server_ok
  by (simp_all add: system_ok_def one_system_def busy_system_def one_server_def busy_server_def
      one_session_def new_session_def)

lemma server_never_faults_witness:
  "\<exists>sy. runs (run_event quiet_world) (allowed quiet_world) one_system [Request 64 0 4 small_dest] sy
     \<and> system_ok sy \<and> \<not> isl (run_event quiet_world (Stop 4) sy)"
proof -
  obtain rc st' calls threads where
    "session_addNew quiet_env 64 one_server 0 4 (Some small_dest) = Inr (rc, st', calls, threads)"
    using addNew_result [OF one_server_ok one_server_carries, of quiet_env 64 small_dest]
    by (elim exE conjE) (rule that)
  then have "run_event quiet_world (Request 64 0 4 small_dest) one_system
      = Inr (Some (put_server one_system st'))"
    by (simp add: quiet_world_def one_system_def)
  moreover have "allowed quiet_world (Request 64 0 4 small_dest) one_system"
    using small_dest_ok by (simp add: dest_ready_def)
  ultimately have r: "runs (run_event quiet_world) (allowed quiet_world) one_system
      [Request 64 0 4 small_dest] (put_server one_system st')"
    by (intro runs_one) simp_all
  have "allowed quiet_world (Stop 4) (put_server one_system st')" by simp
  with server_never_faults [OF r one_system_ok(1)] r show ?thesis by blast
qed

lemma used_tuner_keeps_tuning_witness:
  "\<exists>sy. runs (run_event quiet_world) (\<lambda>e sy. allowed quiet_world e sy \<and> used 0 sy) busy_system
        [Pass 0 \<lparr>i_poll = False, i_data = None, i_due = True, i_ber = Some 0, i_stat = Some 0\<rparr>] sy
     \<and> tuning (tuners (sys_server sy) ! 0) = tuning busy_tuner"
proof -
  let ?e = "Pass 0 \<lparr>i_poll = False, i_data = None, i_due = True, i_ber = Some 0, i_stat = Some 0\<rparr>"
  have "tuners (sys_server busy_system) = [busy_tuner]" "used 0 busy_system"
    by (simp_all add: busy_system_def busy_server_def used_def one_session_def new_session_def)
  moreover have "currentState busy_tuner \<noteq> st_idle" by (simp add: busy_tuner_def)
  then obtain sy where "run_event quiet_world ?e busy_system = Inr (Some sy)"
    using calculation
    by (simp add: tuner_at_def hw_step_def scan_next_def hw_of_def busy_system_def Let_def)
  ultimately have r: "runs (run_event quiet_world) (\<lambda>e sy. allowed quiet_world e sy \<and> used 0 sy)
      busy_system [?e] sy"
    by (intro runs_one) simp_all
  from used_tuner_keeps_tuning [OF r one_system_ok(2)] r
  show ?thesis by (auto simp: busy_system_def busy_server_def)
qed

end
