(* ===== verification/Commands.thy ===== *)
theory Commands
  imports SocketServer System
begin

text \<open>
  The console's commands: those of \<^verbatim>\<open>src/DVB/session.c\<close>, \<^verbatim>\<open>src/DVB/destination.c\<close> and
  \<^verbatim>\<open>src/DVB/dvbhardware.c\<close>, as handlers that act on the server, the table the three modules
  register them in, and the proof that no console input breaks the server's invariant.
\<close>

section \<open>What the handlers use\<close>

text \<open>The devices, the allocator of the URL parser, and the random numbers.\<close>

record cmd_env =
  ce_dvb :: dvb_env
  ce_mem :: "nat \<Rightarrow> bool"
  ce_rnd :: u64
  ce_destid :: u16

definition ERR_COUNT :: string where
  "ERR_COUNT = ''ERROR - Parameter count incorrect'' @ CRLF"

definition ERR_START :: string where
  "ERR_START = ''ERROR - Failed to start session'' @ CRLF"

text \<open>
  \<^verbatim>\<open>send(fd, ERROR2, strlen(ERROR), 0)\<close>: the length of another string. What follows the text in
  memory is sent too, the two zeros the literal ends with.
\<close>

definition sent_as :: "string \<Rightarrow> string \<Rightarrow> string" where
  "sent_as s t = take (length t) (s @ [NUL, NUL])"

section \<open>Sessions\<close>

definition count_tuners :: "dvb_device_t list \<Rightarrow> int \<Rightarrow> int \<Rightarrow> nat" where
  "count_tuners ts onid ch = length (filter (\<lambda>t. channel_isProgramValid t onid ch \<ge> 0) ts)"

definition int_arg :: "string \<Rightarrow> int" where
  "int_arg t = to_int32 (uint (convertoUint64 t))"

definition session_telnetCheckChannel :: "server handler" where
  "session_telnetCheckChannel line st =
     (case tokenize 5 line CHR '' '' of
        [_, a, b] \<Rightarrow>
          bind_res (sprint 128 (''ONID 0x'' @ hex_pad False 4 (nat (int_arg a mod 2 ^ 32))
              @ '' ChannelID 0x'' @ hex_pad True 4 (nat (int_arg b mod 2 ^ 32))
              @ '' can be serviced by '' @ show_nat (count_tuners (tuners st) (int_arg a) (int_arg b))
              @ '' tuners'' @ CRLF)) (\<lambda>s. Inr (st, 0, [LFCR, s]))
      | _ \<Rightarrow> Inr (st, 0, [LFCR, ERR_COUNT]))"

definition start_report :: "u64 \<Rightarrow> string list \<Rightarrow> string list" where
  "start_report rc out =
     LFCR # out @ [if rc > 0 then ''Session 0x'' @ hex_pad False 16 (unat rc) @ '' started'' @ [NL]
                   else sent_as ERR_START ERR_COUNT]"

definition session_telnetStartSession :: "cmd_env \<Rightarrow> server handler" where
  "session_telnetStartSession env line st =
     (case tokenize 5 line CHR '' '' of
        [_, a, b] \<Rightarrow>
          bind_res (session_addNew (ce_dvb env) (ce_rnd env) st (word_of_int (int_arg a))
                      (word_of_int (int_arg b)) None) (\<lambda>(rc, st1, _, _).
            Inr (st1, 0, start_report rc []))
      | _ \<Rightarrow> Inr (st, 0, start_report 0 [ERR_COUNT]))"

definition session_telnetStartSessionURL :: "cmd_env \<Rightarrow> server handler" where
  "session_telnetStartSessionURL env line st =
     (case tokenize 5 line CHR '' '' of
        [_, a, b, url] \<Rightarrow>
          bind_res (destination_create (ce_mem env) (ce_destid env) url) (\<lambda>d.
            case d of
              None \<Rightarrow> Inr (st, 0, start_report 0 [''ERROR - Not a valild URL'' @ CRLF])
            | Some dest \<Rightarrow>
                bind_res (session_addNew (ce_dvb env) (ce_rnd env) st (word_of_int (int_arg a))
                            (word_of_int (int_arg b)) (Some dest)) (\<lambda>(rc, st1, _, _).
                  Inr (st1, 0, start_report rc [])))
      | _ \<Rightarrow> Inr (st, 0, start_report 0 [ERR_COUNT]))"

definition telnet_session_setwrite :: "server handler" where
  "telnet_session_setwrite line st =
     (case tokenize 2 line CHR '' '' of
        [_, a] \<Rightarrow>
          Inr (st\<lparr>g_write_time := c_atoi a\<rparr>, 0,
               [CRLF @ ''Setting Write time to '' @ show_int (c_atoi a) @ '' (0=BUCKET)'' @ CRLF])
      | _ \<Rightarrow> Inr (st, 0, []))"

text \<open>Without exactly one argument the result \<^verbatim>\<open>rc\<close> is tested before anything was stored in it.\<close>

definition session_telnetStopSession :: "server handler" where
  "session_telnetStopSession line st =
     (case tokenize 5 line CHR '' '' of
        [_, a] \<Rightarrow>
          bind_res (session_stop (convertoUint64 a) st) (\<lambda>(rc, st1, _, _).
            Inr (st1, 0, [LFCR, if rc = 0 then ''Session stopped'' @ [NL]
                                else sent_as ERR_START ERR_COUNT]))
      | _ \<Rightarrow> Inl Uninitialised)"

fun session_pid_lines :: "(u16 \<times> byte) list \<Rightarrow> string list res" where
  "session_pid_lines [] = Inr []"
| "session_pid_lines ((p, ty) # ps) =
     bind_res (sprint 256 ([TAB] @ ''pid:0x'' @ hex_pad False 4 (unat p) @ '' Type:'' @ GetTypeName ty
       @ CRLF)) (\<lambda>s. bind_res (session_pid_lines ps) (\<lambda>r. Inr (s # r)))"

fun session_lines :: "dvb_device_t list \<Rightarrow> session_service_t list \<Rightarrow> string list res" where
  "session_lines ts [] = Inr []"
| "session_lines ts (s # ss) =
     bind_res (tuner_at ts (s_tuner s)) (\<lambda>t.
     bind_res (channel_at t (s_channel s)) (\<lambda>c.
     bind_res (array_str (channelName c)) (\<lambda>name.
     bind_res (sprint 256
       (CRLF @ ''Session id:0x'' @ hex_pad False 16 (unat (sessionID s)) @ [TAB] @ ''Tuner #''
        @ show_nat (unat (logicalNumber t)) @ '' (BW:'' @ show_nat (unat (currentBandwidth s) div 1000)
        @ '' KBps)'' @ CRLF @ [TAB] @ ''Channel : '' @ name
        @ '' (onid:0x'' @ hex_pad False 4 (unat (s_onid s))
        @ '' chid:0x'' @ hex_pad False 4 (unat (s_channel_id s))
        @ '' pmt:0x'' @ hex_pad False 4 (unat (pmt_pid c))
        @ '' caid:0x'' @ hex_pad False 4 (unat (s_caid s)) @ '')'' @ CRLF
        @ [TAB] @ ''Clients : '' @ show_nat (length (destination_ll s)) @ CRLF)) (\<lambda>head.
     if length (pidList s) < pidCnt s then Inl Overrun
     else
       bind_res (session_pid_lines (take (pidCnt s) (pidList s))) (\<lambda>pl.
       bind_res (session_lines ts ss) (\<lambda>rest. Inr (head # pl @ [LFCR] @ rest)))))))"

definition telnet_session_print :: "server handler" where
  "telnet_session_print line st =
     bind_res (session_lines (tuners st) (sessions st)) (\<lambda>out. Inr (st, 0, out))"

section \<open>Destinations\<close>

fun destination_lines :: "dvb_device_t list \<Rightarrow> session_service_t list \<Rightarrow> string list res" where
  "destination_lines ts [] = Inr []"
| "destination_lines ts (s # ss) =
     bind_res (tuner_at ts (s_tuner s)) (\<lambda>t.
     bind_res (channel_at t (s_channel s)) (\<lambda>c.
     bind_res (array_str (channelName c)) (\<lambda>name.
     bind_res (sprint 256 (CRLF @ ''Channel : '' @ name @ ''  (0x''
       @ hex_pad False 16 (unat (sessionID s)) @ '')'' @ CRLF)) (\<lambda>head.
     bind_res (destination_print (destination_ll s)) (\<lambda>ds.
     bind_res (destination_lines ts ss) (\<lambda>rest. Inr (head # ds @ rest)))))))"

definition destination_show :: "server handler" where
  "destination_show line st =
     bind_res (destination_lines (tuners st) (sessions st)) (\<lambda>out. Inr (st, 0, out))"

section \<open>Tuners\<close>

definition device_line :: "nat \<Rightarrow> dvb_device_t \<Rightarrow> string res" where
  "device_line loop d =
     bind_res (array_str (frontendDevice d)) (\<lambda>fe.
     bind_res (array_str (dvrDevice d)) (\<lambda>dvr.
     bind_res (array_str (demuxDevice d)) (\<lambda>dmx.
       sprint 256 (''Device '' @ show_nat loop @ CRLF @ [TAB] @ ''Tuner:'' @ fe
         @ '' (0x'' @ hex_pad False 2 (nat (lastStat d mod 2 ^ 32)) @ '')'' @ CRLF
         @ [TAB] @ ''DVR  :'' @ dvr @ CRLF @ [TAB] @ ''Demux:'' @ dmx @ CRLF))))"

text \<open>For each device with a frontend: its line and what \<open>detail\<close> prints of it.\<close>

fun each_device ::
  "(dvb_device_t \<Rightarrow> string list res) \<Rightarrow> nat \<Rightarrow> dvb_device_t list \<Rightarrow> string list res" where
  "each_device detail loop [] = Inr []"
| "each_device detail loop (d # ds) =
     bind_res (array_str (frontendDevice d)) (\<lambda>fe.
     bind_res (if fe = [] then Inr []
               else bind_res (device_line loop d) (\<lambda>l. bind_res (detail d) (\<lambda>ls. Inr (l # ls)))) (\<lambda>out.
     bind_res (each_device detail (Suc loop) ds) (\<lambda>rest. Inr (out @ rest))))"

definition dvb_telnetDVBDevices :: "server handler" where
  "dvb_telnetDVBDevices line st =
     bind_res (each_device (\<lambda>_. Inr []) 0 (tuners st)) (\<lambda>out. Inr (st, 0, LFCR # out))"

text \<open>\<^verbatim>\<open>%lu\<close> of a \<^verbatim>\<open>long\<close>.\<close>

definition show_ulong :: "int \<Rightarrow> string" where
  "show_ulong n = show_nat (nat (n mod 2 ^ 64))"

text \<open>
  Every entry is read as a DVB-T one. In a satellite entry the place of the modulation holds
  the two high bytes of the symbol rate, and memory nothing was stored in behind them.
\<close>

fun modulation_as_dvbt :: "dvb_frequency \<Rightarrow> string res" where
  "modulation_as_dvbt (FreqT f) = array_str (t_modulation f)"
| "modulation_as_dvbt (FreqS f) =
     (let b6 = nat (symbolrate f div 2 ^ 48 mod 256); b7 = nat (symbolrate f div 2 ^ 56 mod 256) in
      if b6 = 0 then Inr [] else if b7 = 0 then Inr [char_of b6] else Inl Uninitialised)"

definition frequency_line :: "string \<Rightarrow> string \<Rightarrow> dvb_frequency \<Rightarrow> string res" where
  "frequency_line extra modulation f =
     (let b = base_of f in
      bind_res (sprint 256 (''ID '' @ show_int (freq_id b) @ [TAB] @ show_ulong (frequency b)
        @ ''Mhz'' @ extra @ [TAB] @ modulation @ [TAB] @ ''('' @ show_nat (length (channels_ll b))
        @ '' services)'' @ CRLF)) (\<lambda>l. Inr (cstr_of l)))"

fun frequency_lines :: "dvb_frequency list \<Rightarrow> string list res" where
  "frequency_lines [] = Inr []"
| "frequency_lines (f # fs) =
     bind_res (modulation_as_dvbt f) (\<lambda>m.
     bind_res (frequency_line [] m f) (\<lambda>l.
     bind_res (frequency_lines fs) (\<lambda>r. Inr (l # r))))"

definition dvb_telnetShowTunerFrequency :: "server handler" where
  "dvb_telnetShowTunerFrequency line st =
     bind_res (each_device (\<lambda>d. frequency_lines (frequency_ll d)) 0 (tuners st)) (\<lambda>out.
       Inr (st, 0, LFCR # out))"

definition short_name :: "string \<Rightarrow> string" where
  "short_name n = (if length n > 15 then take 13 n @ ''..'' else n)"

text \<open>\<open>mode\<close> is 1 for the free channels, 2 for the encrypted ones, 0 for all.\<close>

fun dvb_telnetPrintChannelList :: "nat \<Rightarrow> channels_dvb_t list \<Rightarrow> string list res" where
  "dvb_telnetPrintChannelList mode [] = Inr []"
| "dvb_telnetPrintChannelList mode (c # cs) =
     bind_res (array_str (channelName c)) (\<lambda>name.
     bind_res (dvb_telnetPrintChannelList mode cs) (\<lambda>rest.
       let n = short_name name;
           l = [TAB] @ hex_pad False 4 (unat (ch_onid c)) @ '':'' @ hex_pad False 4 (unat (service_id c))
               @ '' : '' @ n @ replicate (15 - length n) CHR '' ''
               @ '' pmt:'' @ hex_pad False 4 (unat (pmt_pid c)) @ [TAB] @ ''CA:'' @ show_int (ca_mode c)
               @ '':Running:'' @ show_int (running_status c)
               @ '' Type:0x'' @ hex_pad True 2 (nat (service_type c mod 2 ^ 32)) @ CRLF in
       Inr (if mode > 0 \<and> \<not> (mode = 1 \<and> ca_mode c = 0) \<and> \<not> (mode = 2 \<and> ca_mode c = 1)
            then rest else l # rest)))"

fun channel_lines :: "nat \<Rightarrow> dvb_frequency list \<Rightarrow> string list res" where
  "channel_lines mode [] = Inr []"
| "channel_lines mode (f # fs) =
     bind_res (case f of
         FreqT t \<Rightarrow> bind_res (array_str (t_modulation t)) (\<lambda>m. frequency_line [] m f)
       | FreqS s \<Rightarrow> bind_res (array_str (s_modulation s)) (\<lambda>m.
                     frequency_line ('' '' @ [s_polarity s]) m f)) (\<lambda>l.
     bind_res (dvb_telnetPrintChannelList mode (channels_ll (base_of f))) (\<lambda>cs.
     bind_res (channel_lines mode fs) (\<lambda>r. Inr (l # cs @ r))))"

definition dvb_telnetShowTunerChannels :: "server handler" where
  "dvb_telnetShowTunerChannels line st =
     (let mode = (case tokenize 2 line CHR '' '' of
                    [_, m] \<Rightarrow> (if mem_eq 3 m ''enc'' then 2 else if mem_eq 3 m ''fta'' then 1 else 0)
                  | _ \<Rightarrow> (0 :: nat)) in
      bind_res (each_device (\<lambda>d. if is_dvbt (dvbType d) \<or> is_dvbs (dvbType d)
                                 then channel_lines mode (frequency_ll d) else Inr []) 0 (tuners st))
        (\<lambda>out. Inr (st, 0, LFCR # out)))"

section \<open>The table\<close>

text \<open>In the order of \<^verbatim>\<open>main\<close>; \<open>junk k\<close> is what the memory of the \<open>k\<close>-th entry held before.\<close>

definition sessions_init ::
  "cmd_env \<Rightarrow> (nat \<Rightarrow> char list) \<Rightarrow> server telnet_command list \<Rightarrow> server telnet_command list" where
  "sessions_init env junk cmds =
     telnet_addcommand telnet_session_setwrite ''session.set.writetime'' ''Set Write timer'' (junk 5)
    (telnet_addcommand telnet_session_print ''session.show'' ''Show running sessions'' (junk 4)
    (telnet_addcommand session_telnetStopSession ''session.stop'' ''Stop a session'' (junk 3)
    (telnet_addcommand (session_telnetStartSessionURL env) ''session.start.url''
       ''Start an output session for ONID CHANID URL'' (junk 2)
    (telnet_addcommand (session_telnetStartSession env) ''session.start''
       ''Start a session for ONID CHANID'' (junk 1)
    (telnet_addcommand session_telnetCheckChannel ''session.check''
       ''Check to see if a ONID CHANID is present'' (junk 0) cmds)))))"

definition destination_init ::
  "(nat \<Rightarrow> char list) \<Rightarrow> server telnet_command list \<Rightarrow> server telnet_command list" where
  "destination_init junk cmds =
     telnet_addcommand destination_show ''destination.show'' ''show current destinations being served''
       (junk 6) cmds"

definition dvb_init ::
  "(nat \<Rightarrow> char list) \<Rightarrow> server telnet_command list \<Rightarrow> server telnet_command list" where
  "dvb_init junk cmds =
     telnet_addcommand dvb_telnetShowTunerChannels ''dvb.showchannels'' ''Shows all channels'' (junk 9)
    (telnet_addcommand dvb_telnetShowTunerFrequency ''dvb.showfreq''
       ''Shows all valid frequencies for tuner'' (junk 8)
    (telnet_addcommand dvb_telnetDVBDevices ''dvb.showdevice'' ''Shows all DVB devices'' (junk 7) cmds))"

definition main_commands :: "cmd_env \<Rightarrow> (nat \<Rightarrow> char list) \<Rightarrow> server telnet_command list" where
  "main_commands env junk = dvb_init junk (destination_init junk (sessions_init env junk []))"

text \<open>The write time at the start.\<close>

definition initial_write_time :: "bool \<Rightarrow> dictionary option \<Rightarrow> int res" where
  "initial_write_time sc ini =
     bind_res (iniparser_getstring sc ini (Some ''global:file_write_time'') Null) (\<lambda>p.
       Inr (case p of Str s \<Rightarrow> c_atoi s | _ \<Rightarrow> 0))"

section \<open>No command breaks the server\<close>

lemma session_stop_ok_any:
  assumes "server_ok st" "session_stop x st = Inr (rc, st', calls, fds)"
  shows "server_ok st'"
proof (cases "find_index (\<lambda>s. sessionID s = x) (sessions st)")
  case None
  with assms show ?thesis by (simp add: session_stop_def)
next
  case (Some k)
  with assms show ?thesis using session_stop_keeps by blast
qed

lemma addNew_keeps:
  assumes "server_ok st" "session_addNew env rnd st onid ch (Some d) = Inr (rc, st', calls, threads)"
  shows "server_ok st'"
  by (rule addNew_total [OF assms(1), of env rnd onid ch d]) (use assms(2) in simp)

text \<open>The handlers that only print return the server as it is.\<close>

definition prints_only :: "server handler \<Rightarrow> bool" where
  "prints_only h \<longleftrightarrow> (\<forall>line st st' rv out. h line st = Inr (st', rv, out) \<longrightarrow> st' = st)"

lemma prints_only_handlers:
  "prints_only session_telnetCheckChannel" "prints_only telnet_session_print"
  "prints_only destination_show" "prints_only dvb_telnetDVBDevices"
  "prints_only dvb_telnetShowTunerFrequency" "prints_only dvb_telnetShowTunerChannels"
  by (auto simp: prints_only_def session_telnetCheckChannel_def telnet_session_print_def
      destination_show_def dvb_telnetDVBDevices_def dvb_telnetShowTunerFrequency_def
      dvb_telnetShowTunerChannels_def Let_def bind_res_Inr split: list.splits)

definition keeps_server :: "server handler \<Rightarrow> bool" where
  "keeps_server h \<longleftrightarrow>
     (\<forall>line st st' rv out. server_ok st \<longrightarrow> h line st = Inr (st', rv, out) \<longrightarrow> server_ok st')"

lemma prints_only_keeps: "prints_only h \<Longrightarrow> keeps_server h"
  unfolding prints_only_def keeps_server_def by blast

lemma session_handlers_keep:
  "keeps_server (session_telnetStartSession env)" "keeps_server (session_telnetStartSessionURL env)"
  "keeps_server telnet_session_setwrite" "keeps_server session_telnetStopSession"
proof -
  show "keeps_server (session_telnetStartSession env)"
    by (auto simp: keeps_server_def session_telnetStartSession_def session_addNew_def split: list.splits)
  show "keeps_server (session_telnetStartSessionURL env)"
    using addNew_keeps
    by (fastforce simp: keeps_server_def session_telnetStartSessionURL_def bind_res_Inr
        split: list.splits option.splits)
  show "keeps_server telnet_session_setwrite"
    by (auto simp: keeps_server_def telnet_session_setwrite_def server_ok_def split: list.splits)
  show "keeps_server session_telnetStopSession"
    using session_stop_ok_any
    by (fastforce simp: keeps_server_def session_telnetStopSession_def bind_res_Inr split: list.splits)
qed

lemmas handlers_keep = session_handlers_keep prints_only_handlers [THEN prints_only_keeps]

definition main_console :: "cmd_env \<Rightarrow> (nat \<Rightarrow> char list) \<Rightarrow> string option \<Rightarrow> server console" where
  "main_console env junk users = \<lparr>con_commands = main_commands env junk, con_users = users\<rparr>"

lemma main_funcs:
  "map c_func (main_commands env junk) =
     [session_telnetCheckChannel, session_telnetStartSession env, session_telnetStartSessionURL env,
      session_telnetStopSession, telnet_session_print, telnet_session_setwrite, destination_show,
      dvb_telnetDVBDevices, dvb_telnetShowTunerFrequency, dvb_telnetShowTunerChannels]"
  by (simp add: main_commands_def dvb_init_def destination_init_def sessions_init_def
      telnet_addcommand_def)

interpretation main_handlers: command_handlers "main_console env junk users" server_ok
  for env junk users
proof
  fix c s line s' rv out
  assume c: "c \<in> set (con_commands (main_console env junk users))"
    and s: "server_ok s" "c_func c line s = Inr (s', rv, out)"
  have "c_func c \<in> set (map c_func (main_commands env junk))"
    using c by (auto simp: main_console_def)
  then have "keeps_server (c_func c)" unfolding main_funcs using handlers_keep by auto
  with s show "server_ok s'" unfolding keeps_server_def by blast
qed

interpretation main_server: connection_server "telnet_calls (main_console env junk users)" "known server_ok"
  for env junk users
  by (rule telnet_serves [OF main_handlers.command_handlers_axioms])

section \<open>Which command a name runs\<close>

definition entry_is :: "'s telnet_command \<Rightarrow> string \<times> 's handler \<Rightarrow> bool" where
  "entry_is c nh \<longleftrightarrow> command_text c = Inr (fst nh) \<and> c_func c = snd nh"

definition reply :: "int \<Rightarrow> string" where
  "reply rv = (if rv = -1 then CRLF @ ''ERR'' else CRLF @ ''OK'' @ CRLF)"

lemma dispatch_loop_named:
  assumes "list_all2 entry_is cs nhs" "distinct (map fst nhs)"
  shows "dispatch_loop cs (Some t) line rv s =
    (case map_of nhs t of
       None \<Rightarrow> Inr (s, rv, [])
     | Some h \<Rightarrow> bind_res (h line s) (\<lambda>(s1, rv1, out). Inr (s1, rv1, out @ [reply rv1])))"
  using assms
proof (induction arbitrary: rv s rule: list_all2_induct)
  case (Cons c cs nh nhs)
  obtain n h where nh: "nh = (n, h)" by force
  have c: "command_text c = Inr n" "c_func c = h" using Cons.hyps(1) nh by (simp_all add: entry_is_def)
  have d: "distinct (map fst nhs)" "n \<notin> fst ` set nhs" using Cons.prems nh by simp_all
  show ?case
  proof (cases "n = t")
    case True
    then have "map_of nhs t = None" using d(2) by (simp add: map_of_eq_None_iff)
    with Cons.IH [OF d(1)] have rest: "dispatch_loop cs (Some t) line rv s = Inr (s, rv, [])" for rv s
      by simp
    from True c nh rest show ?thesis
      by (auto simp: reply_def bind_res_def split: sum.split)
  next
    case False
    with Cons.IH [OF d(1)] c nh show ?thesis by simp
  qed
qed simp

definition main_names :: "cmd_env \<Rightarrow> (string \<times> server handler) list" where
  "main_names env =
     [(''session.check'', session_telnetCheckChannel),
      (''session.start'', session_telnetStartSession env),
      (''session.start.url'', session_telnetStartSessionURL env),
      (''session.stop'', session_telnetStopSession),
      (''session.show'', telnet_session_print),
      (''session.set.writetim'', telnet_session_setwrite),
      (''destination.show'', destination_show),
      (''dvb.showdevice'', dvb_telnetDVBDevices),
      (''dvb.showfreq'', dvb_telnetShowTunerFrequency),
      (''dvb.showchannels'', dvb_telnetShowTunerChannels)]"

text \<open>The memory an entry is given was all zeros, as fresh memory is.\<close>

definition fresh_memory :: "(nat \<Rightarrow> char list) \<Rightarrow> bool" where
  "fresh_memory junk \<longleftrightarrow> (\<forall>k. junk k = replicate 288 NUL)"

lemma main_entries:
  assumes "fresh_memory junk"
  shows "list_all2 entry_is (main_commands env junk) (main_names env)"
proof -
  have short: "entry_is \<lparr>c_func = h, c_name = c_strncpy 20 j n, c_tail = t\<rparr> (n, h)"
    if "no_nul n" "length n < 20" for n j t and h :: "server handler"
    using command_text_added [OF that] by (simp add: entry_is_def)
  have long: "entry_is \<lparr>c_func = h, c_name = c_strncpy 20 (take 20 (junk k)) ''session.set.writetime'',
      c_tail = take 4 (drop 20 (junk k)) @ t\<rparr> (''session.set.writetim'', h)"
    for k t and h :: "server handler"
  proof -
    have j: "junk k = replicate 288 NUL" using assms by (simp add: fresh_memory_def)
    have "cstr_of (''session.set.writetim'' @ NUL # (replicate 3 NUL @ t)) = ''session.set.writetim''"
      by (rule cstr_of_append_NUL) simp
    moreover have e: "c_strncpy 20 (take 20 (junk k)) ''session.set.writetime''
        @ take 4 (drop 20 (junk k)) @ t
        = ''session.set.writetim'' @ NUL # (replicate 3 NUL @ t)"
      unfolding j by (simp add: c_strncpy_def numeral_eq_Suc)
    ultimately show ?thesis
      by (simp only: entry_is_def command_text_def telnet_command.select_convs fst_conv snd_conv e) simp
  qed
  show ?thesis
    unfolding main_commands_def main_names_def dvb_init_def destination_init_def sessions_init_def
      telnet_addcommand_def append_Nil append_Cons
    by (intro list.rel_intros) (auto intro: short long)
qed

text \<open>
  A line on the console runs the command its first word names, with the whole line, and no
  other; a word that names none does nothing. The table answers to every name the modules
  registered except the longest: \<^verbatim>\<open>session.set.writetime\<close> fills the array of 20 characters
  without its last letter, so it only answers to \<^verbatim>\<open>session.set.writetim\<close> when the memory
  behind the array happens to be zero.
\<close>

theorem commands_by_name:
  assumes "fresh_memory junk" and "tokenize 2 line CHR '' '' = t # ts"
  shows "telnet_dispatchCommand (main_console env junk users) line st =
    (case map_of (main_names env) t of
       None \<Rightarrow> Inr (st, 1, [])
     | Some h \<Rightarrow> bind_res (h line st) (\<lambda>(st1, rv, out). Inr (st1, rv, out @ [reply rv])))"
proof -
  have "distinct (map fst (main_names env))" by (simp add: main_names_def)
  from dispatch_loop_named [OF main_entries [OF assms(1)] this] assms(2) show ?thesis
    by (simp add: telnet_dispatchCommand_def main_console_def)
qed

section \<open>Lines that do not fault\<close>


















section \<open>Properties\<close>

definition quiet_cmd :: cmd_env where
  "quiet_cmd = \<lparr>ce_dvb = quiet_env, ce_mem = \<lambda>_. True, ce_rnd = 64, ce_destid = 7\<rparr>"

lemma commands_by_name_witness:
  "telnet_dispatchCommand (main_console quiet_cmd (\<lambda>_. replicate 288 NUL) None)
     ''session.set.writetime 9'' one_server = Inr (one_server, 1, [])
   \<and> (\<exists>st' out. telnet_dispatchCommand (main_console quiet_cmd (\<lambda>_. replicate 288 NUL) None)
        ''session.set.writetim 9'' one_server = Inr (st', 0, out) \<and> g_write_time st' = 9)"
proof
  have f: "fresh_memory (\<lambda>_. replicate 288 NUL)" by (simp add: fresh_memory_def)
  have t: "tokenize 2 ''session.set.writetime 9'' CHR '' '' = [''session.set.writetime'', ''9'']"
    "tokenize 2 ''session.set.writetim 9'' CHR '' '' = [''session.set.writetim'', ''9'']"
    by code_simp+
  show "telnet_dispatchCommand (main_console quiet_cmd (\<lambda>_. replicate 288 NUL) None)
     ''session.set.writetime 9'' one_server = Inr (one_server, 1, [])"
    using commands_by_name [OF f t(1), of quiet_cmd None one_server] by (simp add: main_names_def)
  have "c_atoi ''9'' = 9" by code_simp
  then show "\<exists>st' out. telnet_dispatchCommand (main_console quiet_cmd (\<lambda>_. replicate 288 NUL) None)
        ''session.set.writetim 9'' one_server = Inr (st', 0, out) \<and> g_write_time st' = 9"
    using commands_by_name [OF f t(2), of quiet_cmd None one_server] t(2)
    by (simp add: main_names_def telnet_session_setwrite_def)
qed





text \<open>
  Showing the sessions overruns the array of 256 characters as soon as one of them serves a
  channel whose name has 126 characters or more, as a service table may give it (up to 127).
\<close>

theorem session_show_overrun:
  assumes "s \<in> set (sessions st)" and "server_ok st"
    and "channel_at (tuners st ! s_tuner s) (s_channel s) = Inr c"
    and "array_str (channelName c) = Inr name" and "126 \<le> length name"
  shows "isl (telnet_session_print line st)"
proof -
  have hex: "w \<le> length (hex_pad u w n)" for u w n by (simp add: hex_pad_def Let_def)
  have nat1: "1 \<le> length (show_nat n)" for n by (subst show_nat.simps) simp
  have len: "\<not> length (CRLF @ ''Session id:0x'' @ hex_pad False 16 a @ [TAB] @ ''Tuner #''
        @ show_nat b @ '' (BW:'' @ show_nat d @ '' KBps)'' @ CRLF @ [TAB] @ ''Channel : '' @ name
        @ '' (onid:0x'' @ hex_pad False 4 e @ '' chid:0x'' @ hex_pad False 4 f
        @ '' pmt:0x'' @ hex_pad False 4 g @ '' caid:0x'' @ hex_pad False 4 h @ '')'' @ CRLF
        @ [TAB] @ ''Clients : '' @ show_nat i @ CRLF) < 256" for a b d e f g h i
    using hex [of 16 False a] hex [of 4 False e] hex [of 4 False f] hex [of 4 False g]
      hex [of 4 False h] nat1 [of b] nat1 [of d] nat1 [of i] assms(5)
    by (simp add: CRLF_def)
  have "isl (session_lines (tuners st) ss)"
    if "s \<in> set ss" "\<forall>x \<in> set ss. sess_ok (tuners st) x" for ss
    using that
  proof (induction ss)
    case (Cons x ss)
    have j: "s_tuner x < length (tuners st)" using Cons.prems(2) by (simp add: sess_ok_def)
    show ?case
    proof (cases "x = s")
      case True
      with j assms(3,4) len show ?thesis by (simp add: tuner_at_def sprint_def)
    next
      case False
      then have "isl (session_lines (tuners st) ss)" using Cons by simp
      then obtain e where "session_lines (tuners st) ss = Inl e" by (auto simp: isl_def)
      then show ?thesis by (auto simp: bind_res_def split: sum.split)
    qed
  qed simp
  then have "isl (session_lines (tuners st) (sessions st))"
    using assms(1,2) by (simp add: server_ok_def)
  then obtain e where "session_lines (tuners st) (sessions st) = Inl e" by (auto simp: isl_def)
  then show ?thesis by (simp add: telnet_session_print_def)
qed

definition long_name :: "char list" where
  "long_name = replicate 127 CHR ''a''"

definition long_tuner :: dvb_device_t where
  "long_tuner = busy_tuner\<lparr>frequency_ll :=
     [map_channels (map (\<lambda>c. c\<lparr>channelName := long_name @ [NUL]\<rparr>)) one_freq]\<rparr>"

definition long_server :: server where
  "long_server = \<lparr>tuners = [long_tuner], sessions = [one_session], g_write_time = 0\<rparr>"

lemma long_server_ok: "server_ok long_server"
proof -
  have "tables_ok long_tuner" "tunable long_tuner"
    by (simp_all add: long_tuner_def busy_tuner_def one_tuner_def one_freq_def tables_ok_def
        channels_ok_def new_channel_def name_ok_def long_name_def last_replicate tunable_def
        is_dvbt_def is_dvbs_def)
  then have "tuner_inv long_tuner 1"
    by (simp add: tuner_inv_def long_tuner_def busy_tuner_def)
  moreover have "pl_ok one_session" "sbuf_ok one_session"
    using new_session_ok(1,2) [of 64] by (simp_all add: one_session_def pl_ok_def sess_pids_def sbuf_ok_def)
  then have "sess_ok [long_tuner] one_session"
    by (simp add: sess_ok_def one_session_def new_session_def channel_at_def long_tuner_def one_freq_def)
  moreover have "s_tuner one_session = 0" by (simp add: one_session_def new_session_def)
  ultimately show ?thesis by (simp add: server_ok_def long_server_def)
qed

lemma session_show_overrun_witness: "isl (telnet_session_print [] long_server)"
proof (rule session_show_overrun [of one_session])
  show "one_session \<in> set (sessions long_server)" by (simp add: long_server_def)
  show "server_ok long_server" by (rule long_server_ok)
  show "channel_at (tuners long_server ! s_tuner one_session) (s_channel one_session)
      = Inr ((new_channel 4 257)\<lparr>channelName := long_name @ [NUL]\<rparr>)"
    by (simp add: long_server_def one_session_def new_session_def channel_at_def long_tuner_def
        one_freq_def)
  show "array_str (channelName ((new_channel 4 257)\<lparr>channelName := long_name @ [NUL]\<rparr>)) = Inr long_name"
    using cstr_of_append_NUL [of long_name "[]"]
    by (simp add: array_str_def long_name_def no_nul_def)
  show "126 \<le> length long_name" by (simp add: long_name_def)
qed

end
