(* ===== verification/Web.thy ===== *)
theory Web
  imports Commands
begin

text \<open>
  The web interface of \<^verbatim>\<open>src/DVB/webserv.c\<close>: what a request to the embedded HTTP server does.
  The HTTP library is external; the calls to it are a list. A response is what it will send.
\<close>

section \<open>Requests and responses\<close>

datatype response =
    PAGE
  | LIVE_PAGE
  | Stream_of u16      \<comment> \<open>\<open>stream_buffer_reader\<close> on the destination with this number\<close>
  | File_of string     \<comment> \<open>\<open>file_reader\<close> on the open file\<close>

datatype mhd_call = Queue nat response | Destroy response

text \<open>What the file system and the library answer.\<close>

record web_env =
  we_stat :: "string \<Rightarrow> bool"
  we_open :: "string \<Rightarrow> bool"
  we_response :: "response \<Rightarrow> bool"
  we_cmd :: cmd_env

text \<open>The server after a request, the calls, and the files left open that nothing will close.\<close>

record web_result =
  wr_server :: server
  wr_calls :: "mhd_call list"
  wr_leaked :: "string list"
  wr_yes :: bool

section \<open>Readers\<close>

definition file_reader :: "byte list \<Rightarrow> nat \<Rightarrow> nat \<Rightarrow> byte list" where
  "file_reader content pos maximum = take maximum (drop pos content)"

definition stream_buffer_reader :: "destination_t \<Rightarrow> nat \<Rightarrow> (byte list \<times> destination_t) res" where
  "stream_buffer_reader dest maximum = destination_getDatafromBuffer dest maximum"

definition free_stream_callback :: "destination_t \<Rightarrow> destination_t" where
  "free_stream_callback dest = dest\<lparr>expired := True\<rparr>"

text \<open>
  The end of a file response closes the file. The library is started with \<open>ahc_echo\<close>; the start
  reports whether there is a daemon, which is kept for the stop. \<open>get_ip\<close> prints the address of
  either family, as \<open>ntop\<close> shows it.
\<close>

definition free_callback :: "string list \<Rightarrow> string \<Rightarrow> string list" where
  "free_callback opened file = remove1 file opened"

definition main_web_start :: "(int \<Rightarrow> 'daemon option) \<Rightarrow> int \<Rightarrow> int \<times> 'daemon option" where
  "main_web_start start_daemon web_port =
     (let httpd = start_daemon web_port in (if httpd = None then -1 else 0, httpd))"

definition main_web_stop :: "('daemon \<Rightarrow> 's \<Rightarrow> 's) \<Rightarrow> 'daemon \<Rightarrow> 's \<Rightarrow> int \<times> 's" where
  "main_web_stop stop_daemon d s = (0, stop_daemon d s)"

definition get_ip :: "(nat \<Rightarrow> string) \<Rightarrow> u16 \<Rightarrow> string" where
  "get_ip ntop sa_family =
     (if sa_family = 2 \<or> sa_family = 10 then ntop (unat sa_family) @ '' '' else [])"

definition command_to_number :: "string \<Rightarrow> int" where
  "command_to_number command =
     (if mem_eq 6 command ''stream'' then 1
      else if mem_eq 5 command ''live2'' then 3
      else if mem_eq 5 command ''live'' then 2
      else 0)"

section \<open>A request\<close>

definition answer :: "nat \<Rightarrow> response \<Rightarrow> mhd_call list" where
  "answer status r = [Queue status r, Destroy r]"

definition stream_url :: "int \<Rightarrow> string" where
  "stream_url n =
     (if n = 1 then ''http://localhost/stream/content''
      else if n = 2 then ''live://localhost/live/content''
      else ''live://localhost/live2/content'')"

text \<open>The commands: a session for the channel, its destination fed by this connection.\<close>

definition serve_channel ::
  "web_env \<Rightarrow> int \<Rightarrow> string \<Rightarrow> string \<Rightarrow> string list \<Rightarrow> server \<Rightarrow> web_result res" where
  "serve_channel env n a b leaked st =
     bind_res (destination_create (ce_mem (we_cmd env)) (ce_destid (we_cmd env)) (stream_url n)) (\<lambda>d.
       case d of
         None \<Rightarrow> Inr \<lparr>wr_server = st, wr_calls = answer 404 PAGE, wr_leaked = leaked, wr_yes = True\<rparr>
       | Some dest \<Rightarrow>
           bind_res (session_addNew (ce_dvb (we_cmd env)) (ce_rnd (we_cmd env)) st
                       (word_of_int (int_arg a)) (word_of_int (int_arg b)) (Some dest))
             (\<lambda>(session, st1, _, _).
               if session = 0 then
                 Inr \<lparr>wr_server = st1, wr_calls = answer 404 PAGE, wr_leaked = leaked, wr_yes = True\<rparr>
               else if n \<noteq> 1 then
                 Inr \<lparr>wr_server = st1, wr_calls = answer 200 LIVE_PAGE, wr_leaked = leaked,
                      wr_yes = True\<rparr>
               else if we_response env (Stream_of (destid dest)) then
                 Inr \<lparr>wr_server = st1, wr_calls = answer 200 (Stream_of (destid dest)),
                      wr_leaked = leaked, wr_yes = True\<rparr>
               else if leaked = [] then Inl NullPointer
               else Inr \<lparr>wr_server = st1, wr_calls = [], wr_leaked = [], wr_yes = False\<rparr>))"

text \<open>
  \<open>first\<close> is the first of the two calls the library makes for a request. The name is the URL
  without its first character, copied into an array of 255 of which 254 are written. Without a
  second part the response is queued and destroyed twice.
\<close>

definition ahc_echo ::
  "web_env \<Rightarrow> bool \<Rightarrow> string \<Rightarrow> string \<Rightarrow> server \<Rightarrow> web_result res" where
  "ahc_echo env first_call method url st =
     (if method \<noteq> ''GET'' then
        Inr \<lparr>wr_server = st, wr_calls = [], wr_leaked = [], wr_yes = False\<rparr>
      else if first_call then
        Inr \<lparr>wr_server = st, wr_calls = [], wr_leaked = [], wr_yes = True\<rparr>
      else
        case url of
          [] \<Rightarrow> Inl Overrun
        | _ # name \<Rightarrow>
            let opened = (if we_stat env name \<and> we_open env name then [name] else []);
                tokens = tokenize 10 name CHR ''/'' in
            if 254 \<le> length name then Inl Uninitialised
            else if length tokens \<le> 1 then
              Inr \<lparr>wr_server = st, wr_calls = answer 404 PAGE @ answer 200 PAGE,
                   wr_leaked = opened, wr_yes = True\<rparr>
            else
              let n = command_to_number (tokens ! 0) in
              if n \<noteq> 0 \<and> 3 \<le> length tokens then
                serve_channel env n (tokens ! 1) (tokens ! 2) opened st
              else if opened = [] then
                Inr \<lparr>wr_server = st, wr_calls = answer 404 PAGE, wr_leaked = [], wr_yes = True\<rparr>
              else if we_response env (File_of name) then
                Inr \<lparr>wr_server = st, wr_calls = answer 200 (File_of name), wr_leaked = [],
                     wr_yes = True\<rparr>
              else Inr \<lparr>wr_server = st, wr_calls = [], wr_leaked = [], wr_yes = False\<rparr>)"

section \<open>The destinations of web clients\<close>

lemma stream_dest:
  assumes "n = 1 \<or> n = 2 \<or> n = 3"
  shows "\<exists>d. destination_create (\<lambda>_. True) rnd (stream_url n) = Inr (Some d) \<and> dest_ready d
    \<and> destid d = rnd
    \<and> destination_type d = (if n = 1 then dest_http else if n = 2 then dest_live else dest_live2)"
proof -
  have p: "parse_url (\<lambda>_. True) ''http://localhost/stream/content'' =
      Some \<lparr>scheme = ''http'', host = ''localhost'', port = None, path = Some ''stream/content'',
        query = None, fragment = None, username = None, password = None\<rparr>"
    "parse_url (\<lambda>_. True) ''live://localhost/live/content'' =
      Some \<lparr>scheme = ''live'', host = ''localhost'', port = None, path = Some ''live/content'',
        query = None, fragment = None, username = None, password = None\<rparr>"
    "parse_url (\<lambda>_. True) ''live://localhost/live2/content'' =
      Some \<lparr>scheme = ''live'', host = ''localhost'', port = None, path = Some ''live2/content'',
        query = None, fragment = None, username = None, password = None\<rparr>"
    by code_simp+
  have m: "\<not> mem_eq 5 ''live/content'' ''live2''" "mem_eq 5 ''live2/content'' ''live2''"
    by (simp_all add: mem_eq_def)
  from assms show ?thesis
    by (elim disjE)
      (simp_all add: stream_url_def destination_create_def p m transport_def dest_ready_def
        buf_ok_def url_ok_def)
qed

lemma serve_channel_result:
  assumes "server_ok st" "ce_mem (we_cmd env) = (\<lambda>_. True)" "n = 1 \<or> n = 2 \<or> n = 3"
    and "we_response env (Stream_of (ce_destid (we_cmd env)))"
  shows "\<exists>r d. serve_channel env n a b leaked st = Inr r \<and> server_ok (wr_server r) \<and> dest_ready d
    \<and> dests (sessions (wr_server r)) \<subseteq> insert d (dests (sessions st)) \<and> wr_leaked r = leaked
    \<and> (wr_calls r = answer 404 PAGE
       \<or> wr_calls r = answer 200 (if n = 1 then Stream_of (ce_destid (we_cmd env)) else LIVE_PAGE))"
proof -
  obtain d where d: "destination_create (\<lambda>_. True) (ce_destid (we_cmd env)) (stream_url n) = Inr (Some d)"
    "dest_ready d" "destid d = ce_destid (we_cmd env)"
    using stream_dest [OF assms(3)] by blast
  obtain rc st' calls threads where
    r: "session_addNew (ce_dvb (we_cmd env)) (ce_rnd (we_cmd env)) st (word_of_int (int_arg a))
        (word_of_int (int_arg b)) (Some d) = Inr (rc, st', calls, threads)"
      "server_ok st'" "dests (sessions st') \<subseteq> insert d (dests (sessions st))"
    using addNew_total [OF assms(1)] by metis
  with d assms(2,4) show ?thesis by (cases "rc = 0") (auto simp: serve_channel_def)
qed

lemma ahc_echo_result:
  assumes "server_ok st" and "ce_mem (we_cmd env) = (\<lambda>_. True)" and "\<And>r. we_response env r"
    and "url \<noteq> []" and "length url < 255"
  shows "\<exists>r d. ahc_echo env first_call method url st = Inr r \<and> server_ok (wr_server r)
    \<and> dest_ready d \<and> dests (sessions (wr_server r)) \<subseteq> insert d (dests (sessions st))"
proof -
  obtain c name where url: "url = c # name" using assms(4) by (cases url) auto
  have len: "\<not> 254 \<le> length name" using assms(5) url by simp
  obtain d where d: "dest_ready d" using stream_dest [of 1] by blast
  let ?tokens = "tokenize 10 name CHR ''/''"
  have num: "command_to_number (?tokens ! 0) \<in> {0, 1, 2, 3}" by (simp add: command_to_number_def)
  show ?thesis
  proof (cases "method = ''GET'' \<and> \<not> first_call \<and> \<not> length ?tokens \<le> 1
      \<and> command_to_number (?tokens ! 0) \<noteq> 0 \<and> 3 \<le> length ?tokens")
    case True
    let ?n = "command_to_number (?tokens ! 0)"
    let ?opened = "if we_stat env name \<and> we_open env name then [name] else []"
    have "?n = 1 \<or> ?n = 2 \<or> ?n = 3" using num True by simp
    from serve_channel_result [OF assms(1,2) this assms(3), of "?tokens ! 1" "?tokens ! 2" ?opened]
    obtain r d where "serve_channel env ?n (?tokens ! 1) (?tokens ! 2) ?opened st = Inr r"
      "server_ok (wr_server r)" "dest_ready d"
      "dests (sessions (wr_server r)) \<subseteq> insert d (dests (sessions st))"
      by (elim exE conjE) (rule that)
    moreover have "ahc_echo env first_call method url st
        = serve_channel env ?n (?tokens ! 1) (?tokens ! 2) ?opened st"
      using True len unfolding ahc_echo_def url by (simp only: Let_def list.case if_False if_True) simp
    ultimately show ?thesis by (intro exI [of _ r] exI [of _ d]) simp
  next
    case False
    then have "\<exists>r. ahc_echo env first_call method url st = Inr r \<and> wr_server r = st"
      using len by (auto simp: ahc_echo_def url Let_def assms(3))
    then obtain r where "ahc_echo env first_call method url st = Inr r" "wr_server r = st" by blast
    with assms(1) d show ?thesis by (intro exI [of _ r] exI [of _ d]) auto
  qed
qed

section \<open>Properties\<close>

text \<open>
  C21. A request over HTTP leaves the server sound and its destinations ready, whatever the method
  and the URL, as long as the URL is shorter than 255 characters and memory does not run out:
  it never faults in the handler, and at most one destination, fed by this connection, is added.
\<close>

theorem web_request_keeps_server:
  assumes "server_ok st" and "ce_mem (we_cmd env) = (\<lambda>_. True)" and "\<And>r. we_response env r"
    and "url \<noteq> []" and "length url < 255"
  shows "\<exists>r d. ahc_echo env first_call method url st = Inr r \<and> server_ok (wr_server r)
    \<and> dest_ready d \<and> dests (sessions (wr_server r)) \<subseteq> insert d (dests (sessions st))"
  by (rule ahc_echo_result [OF assms])

text \<open>
  Any file the process can read is served to anybody: the name is the URL without its first
  slash, so a second slash makes it absolute, and no part of it is checked. Files named without
  a directory are not served but stay open for ever, and their response is destroyed twice
  while the connection still holds it.
\<close>

theorem web_serves_any_file:
  assumes "we_stat env name" and "we_open env name" and "we_response env (File_of name)"
    and "length name < 254" and "tokens = tokenize 10 name CHR ''/''"
    and "length tokens < 3 \<or> command_to_number (hd tokens) = 0"
  shows "ahc_echo env False ''GET'' (CHR ''/'' # name) st =
    Inr (if 2 \<le> length tokens
         then \<lparr>wr_server = st, wr_calls = answer 200 (File_of name), wr_leaked = [], wr_yes = True\<rparr>
         else \<lparr>wr_server = st, wr_calls = answer 404 PAGE @ answer 200 PAGE, wr_leaked = [name],
               wr_yes = True\<rparr>)"
proof (cases "2 \<le> length tokens")
  case True
  then have "hd tokens = tokens ! 0" by (cases tokens) auto
  with True assms show ?thesis by (auto simp: ahc_echo_def Let_def)
next
  case False
  with assms show ?thesis by (simp add: ahc_echo_def Let_def)
qed

definition open_web :: web_env where
  "open_web = \<lparr>we_stat = \<lambda>_. True, we_open = \<lambda>_. True, we_response = \<lambda>_. True, we_cmd = quiet_cmd\<rparr>"

lemma web_request_keeps_server_witness:
  "\<exists>r d. ahc_echo open_web False ''GET'' ''/stream/0/4'' one_server = Inr r \<and> server_ok (wr_server r)
    \<and> dest_ready d \<and> dests (sessions (wr_server r)) \<subseteq> insert d (dests (sessions one_server))"
  by (rule web_request_keeps_server [OF one_server_ok]) (simp_all add: open_web_def quiet_cmd_def)

lemma web_serves_any_file_witness:
  "ahc_echo open_web False ''GET'' ''//etc/shadow'' one_server =
     Inr \<lparr>wr_server = one_server, wr_calls = answer 200 (File_of ''/etc/shadow''), wr_leaked = [],
          wr_yes = True\<rparr>"
proof -
  have t: "[''etc'', ''shadow''] = tokenize 10 ''/etc/shadow'' CHR ''/''" by code_simp
  show ?thesis
    using web_serves_any_file [of open_web "''/etc/shadow''", OF _ _ _ _ t, of one_server]
    by (simp add: open_web_def)
qed

end
