(* ===== verification/Program.thy ===== *)
theory Program
  imports Web
begin

text \<open>
  The running program: the threads of the server, the passes of the telnet server's loop and the
  requests of web clients, in any order, on one state. What the console is about is the server
  itself, so the state is that of the loop with the places of the hardware threads beside it.
\<close>

section \<open>State and events\<close>

record main_state =
  m_socket :: "(telnet_user list \<times> server) socket_state"
  m_scan :: "(int \<times> int) list"

definition m_system :: "main_state \<Rightarrow> system" where
  "m_system m = \<lparr>sys_server = snd (sk_data (m_socket m)), sys_scan = m_scan m\<rparr>"

definition with_system :: "main_state \<Rightarrow> system \<Rightarrow> main_state" where
  "with_system m sy =
     m\<lparr>m_socket := (m_socket m)\<lparr>sk_data := (fst (sk_data (m_socket m)), sys_server sy)\<rparr>,
       m_scan := sys_scan sy\<rparr>"

datatype main_event =
    Thread event
  | Console cmd_env "(int \<times> sock_input) list"
  | Http web_env bool string string

text \<open>\<open>junk\<close> is the memory the command table was allocated in, \<open>users\<close> the user file.\<close>

fun run_main ::
  "world \<Rightarrow> (nat \<Rightarrow> char list) \<Rightarrow> string option \<Rightarrow> main_event \<Rightarrow> main_state \<Rightarrow> main_state option res"
where
  "run_main w junk users (Thread e) m =
     bind_res (run_event w e (m_system m)) (\<lambda>r. Inr (map_option (with_system m) r))"
| "run_main w junk users (Console env rs) m =
     bind_res (telnet_run (main_console env junk users) rs (m_socket m)) (\<lambda>r.
       Inr (map_option (\<lambda>sk. m\<lparr>m_socket := sk\<rparr>) r))"
| "run_main w junk users (Http env first_call verb url) m =
     bind_res (ahc_echo env first_call verb url (sys_server (m_system m))) (\<lambda>r.
       Inr (Some (with_system m ((m_system m)\<lparr>sys_server := wr_server r\<rparr>))))"

definition m_dests :: "main_state \<Rightarrow> destination_t set" where
  "m_dests m = dests (sessions (sys_server (m_system m)))"

text \<open>
  The threads' side is that of the server alone. The console may be sent anything, what faults, as
  \<^verbatim>\<open>session.stop\<close> without an argument does, included, except a URL for a new destination that lacks what
  its transport needs. Web requests are of bounded length and memory does not run out.
\<close>

fun main_allowed ::
  "world \<Rightarrow> (nat \<Rightarrow> char list) \<Rightarrow> string option \<Rightarrow> main_event \<Rightarrow> main_state \<Rightarrow> bool" where
  "main_allowed w junk users (Thread e) m = allowed w e (m_system m)"
| "main_allowed w junk users (Console env rs) m =
     (case run_main w junk users (Console env rs) m of
        Inr (Some m') \<Rightarrow> (\<forall>d \<in> m_dests m' - m_dests m. dest_ready d)
      | _ \<Rightarrow> True)"
| "main_allowed w junk users (Http env first_call verb url) m =
     (ce_mem (we_cmd env) = (\<lambda>_. True) \<and> (\<forall>r. we_response env r) \<and> url \<noteq> [] \<and> length url < 255)"

section \<open>The invariant\<close>

definition main_ok :: "main_state \<Rightarrow> bool" where
  "main_ok m \<longleftrightarrow> system_ok (m_system m)
     \<and> known server_ok (sk_master (m_socket m) - {sk_listener (m_socket m)}) (sk_data (m_socket m))"

lemma m_system_simps [simp]:
  "sys_server (m_system m) = snd (sk_data (m_socket m))"
  "sys_scan (m_system m) = m_scan m"
  "m_system (with_system m sy) = sy"
  by (simp_all add: m_system_def with_system_def)

lemma with_system_ok:
  assumes "main_ok m" "system_ok sy"
  shows "main_ok (with_system m sy)"
proof -
  obtain us s where d: "sk_data (m_socket m) = (us, s)" by force
  have "server_ok (sys_server sy)" using assms(2) by (simp add: system_ok_def)
  moreover have "known server_ok (sk_master (m_socket m) - {sk_listener (m_socket m)}) (us, s)"
    using assms(1) d by (simp add: main_ok_def)
  ultimately have "known server_ok (sk_master (m_socket (with_system m sy))
      - {sk_listener (m_socket (with_system m sy))}) (sk_data (m_socket (with_system m sy)))"
    using d by (simp add: with_system_def known_def)
  with assms(2) show ?thesis by (simp add: main_ok_def)
qed

lemma console_step:
  assumes "main_ok m" "main_allowed w junk users (Console env rs) m"
    and "run_main w junk users (Console env rs) m = Inr (Some m')"
  shows "main_ok m'"
proof -
  obtain sk c where sk: "socket_pass (telnet_calls (main_console env junk users)) rs (m_socket m) = Inr (sk, c)"
    "m' = m\<lparr>m_socket := sk\<rparr>"
    using assms(3) by (auto simp: telnet_run_def bind_res_Inr)
  have "known server_ok (sk_master sk - {sk_listener sk}) (sk_data sk)"
    by (rule main_server.pass_ok [OF _ sk(1)]) (use assms(1) in \<open>simp add: main_ok_def\<close>)
  moreover have "\<forall>d \<in> m_dests m' - m_dests m. dest_ready d" using assms(2,3) by simp
  moreover have "\<forall>d \<in> m_dests m. dest_ready d"
    using assms(1) by (simp add: main_ok_def m_dests_def system_ok_dests)
  ultimately show ?thesis
    using sk(2) by (auto simp: main_ok_def system_ok_dests m_dests_def known_def)
qed

lemma http_step:
  assumes "main_ok m" "main_allowed w junk users (Http env first_call verb url) m"
  shows "\<exists>m'. run_main w junk users (Http env first_call verb url) m = Inr (Some m') \<and> main_ok m'"
proof -
  let ?st = "snd (sk_data (m_socket m))"
  have ok: "server_ok ?st" "Ball (dests (sessions ?st)) dest_ready"
    using assms(1) by (simp_all add: main_ok_def system_ok_dests)
  obtain r d where r: "ahc_echo env first_call verb url ?st = Inr r" "server_ok (wr_server r)"
    "dest_ready d" "dests (sessions (wr_server r)) \<subseteq> insert d (dests (sessions ?st))"
    using ahc_echo_result [OF ok(1), of env url first_call verb] assms(2) by auto
  have "system_ok ((m_system m)\<lparr>sys_server := wr_server r\<rparr>)"
    using r ok(2) by (auto simp: system_ok_dests)
  from with_system_ok [OF assms(1) this] r(1) show ?thesis by simp
qed

text \<open>The threads and the web server fault nowhere; a pass of the console's loop may.\<close>

definition is_console :: "main_event \<Rightarrow> bool" where
  "is_console e \<longleftrightarrow> (case e of Console _ _ \<Rightarrow> True | _ \<Rightarrow> False)"

lemma main_no_fault:
  assumes "main_ok m" "main_allowed w junk users e m" "\<not> is_console e"
  shows "\<exists>r. run_main w junk users e m = Inr r"
proof (cases e)
  case (Thread ev)
  have "system_ok (m_system m)" using assms(1) by (simp add: main_ok_def)
  with Thread assms(2) sys.no_fault [of "m_system m" w ev] show ?thesis by auto
next
  case (Console env rs)
  with assms(3) show ?thesis by (simp add: is_console_def)
next
  case (Http env fc verb url)
  with assms http_step show ?thesis by blast
qed

interpretation prog: invariant_machine "run_main w junk users" "main_allowed w junk users" main_ok
  for w junk users
proof
  fix m e m'
  assume m: "main_ok m" "main_allowed w junk users e m" and r: "run_main w junk users e m = Inr (Some m')"
  have sy: "system_ok (m_system m)" using m(1) by (simp add: main_ok_def)
  show "main_ok m'"
  proof (cases e)
    case (Thread ev)
    then obtain sy' where "run_event w ev (m_system m) = Inr (Some sy')" "m' = with_system m sy'"
      using r by (auto simp: bind_res_Inr)
    with sys.keeps [OF sy] with_system_ok [OF m(1)] m(2) Thread show ?thesis by simp
  next
    case (Console env rs)
    with console_step m r show ?thesis by blast
  next
    case (Http env fc verb url)
    then obtain m1 where "run_main w junk users e m = Inr (Some m1)" "main_ok m1"
      using http_step m by blast
    with r show ?thesis by simp
  qed
qed

end
