(* ===== verification/Startup.thy ===== *)
theory Startup
  imports Program Database
begin

text \<open>
  The start of the program, \<^verbatim>\<open>src/DVB/main.c\<close> with \<^verbatim>\<open>src/DVB/configuration.c\<close>: the options, the
  order the modules are started in, and the proof that what they leave is a sound server.
\<close>

section \<open>Options\<close>

text \<open>
  What \<^verbatim>\<open>getopt\<close> returns in turn: \<open>Some\<close> the argument of \<^verbatim>\<open>-c\<close>, or \<open>None\<close> for anything else. The
  name is copied into an array of 100 characters; the result is \<open>None\<close> after \<^verbatim>\<open>abort\<close>.
\<close>

fun getGlobalConfigFile :: "string option list \<Rightarrow> string option \<Rightarrow> string option res" where
  "getGlobalConfigFile [] cvalue = Inr (Some (case cvalue of None \<Rightarrow> ''config.ini'' | Some c \<Rightarrow> c))"
| "getGlobalConfigFile (None # opts) cvalue = Inr None"
| "getGlobalConfigFile (Some c # opts) cvalue =
     bind_res (sprint 100 c) (\<lambda>c'. getGlobalConfigFile opts (Some c'))"

text \<open>Random bytes, when the device opens; else what was there stays.\<close>

definition getRandomCharacters :: "int \<Rightarrow> byte list \<Rightarrow> byte list \<Rightarrow> nat \<Rightarrow> byte list" where
  "getRandomCharacters rhandle data outChar len =
     (if rhandle > 0 then take len data @ drop (length (take len data)) outChar else outChar)"

section \<open>The order of the start\<close>

record 'db main_env =
  me_sc :: bool
  me_long :: nat
  me_options :: "string option list"
  me_ini :: "string \<Rightarrow> dictionary option"
  me_sqlite :: "'db sqlite"
  me_db :: 'db
  me_cmd :: cmd_env
  me_junk :: "nat \<Rightarrow> char list"
  me_file :: "string \<Rightarrow> string option"
  me_thread :: "nat \<Rightarrow> bool"

text \<open>The globals, which start as zeros.\<close>

definition zero_device :: dvb_device_t where
  "zero_device = \<lparr>logicalNumber = 0, uid = 0, sequence_no = 0, last_sequence = 0,
     frontendDevice = replicate 32 NUL, demuxDevice = replicate 32 NUL,
     dvrDevice = replicate 32 NUL, initialTuning = replicate 256 NUL, serial = 0,
     frequency_ll = [], curr_frequency = None, dvbType = Some dvb_cable,
     frontendHandle = 0, dvrHandle = 0, pids = replicate 32 \<lparr>pl_pid = 0, demuxHandle = 0\<rparr>,
     lastStat = 0, lastber = 0, currentState = st_none, refcnt = 0, fe_frequency = 0,
     fe_params = Unset\<rparr>"

record 'db program =
  p_config :: string
  p_db :: "'db option"
  p_telnet :: telnet_data
  p_socket :: "(telnet_user list \<times> server) socket_server_t"
  p_commands :: "server telnet_command list"
  p_system :: system

text \<open>Each device with a frontend gets a hardware thread, which starts idle.\<close>

definition dvb_start_hardware_thread :: "bool \<Rightarrow> dvb_device_t \<Rightarrow> dvb_device_t" where
  "dvb_start_hardware_thread created tuner =
     (if created then hw_tuner (hw_start tuner) else tuner\<lparr>currentState := st_failed\<rparr>)"

fun hw_threads :: "(nat \<Rightarrow> bool) \<Rightarrow> nat \<Rightarrow> dvb_device_t list \<Rightarrow> dvb_device_t list" where
  "hw_threads created loop [] = []"
| "hw_threads created loop (d # ds) =
     (if cstr_of (frontendDevice d) = [] then d
      else dvb_start_hardware_thread (created loop) d) # hw_threads created (Suc loop) ds"

definition main_start :: "'db main_env \<Rightarrow> 'db program option res" where
  "main_start m =
     bind_res (getGlobalConfigFile (me_options m) None) (\<lambda>conf.
       case conf of
         None \<Rightarrow> Inr None
       | Some config \<Rightarrow>
           (let ini = me_ini m config; sc = me_sc m in
            bind_res (database_init (me_sqlite m) (me_db m)) (\<lambda>db.
            bind_res (telnet_init sc ini \<lparr>telnetFilename = replicate 100 NUL,
                        telnetDatabase = replicate 100 NUL\<rparr>) (\<lambda>td.
            bind_res (initial_write_time sc ini) (\<lambda>wt.
            let cmds = destination_init (me_junk m) (sessions_init (me_cmd m) (me_junk m) []) in
            bind_res (array_str (telnetFilename td)) (\<lambda>users.
            bind_res (startTelnetServer sc (me_long m) ini
                        \<lparr>con_commands = dvb_init (me_junk m) cmds, con_users = me_file m users\<rparr>)
              (\<lambda>sock.
            bind_res (dvb_getTunerConfigs sc ini (ce_dvb (me_cmd m))
                        (replicate MAX_DVB_DEVICES zero_device)) (\<lambda>(ts, _).
              Inr (Some \<lparr>p_config = config, p_db = db, p_telnet = td, p_socket = sock,
                   p_commands = dvb_init (me_junk m) cmds,
                   p_system = \<lparr>sys_server = \<lparr>tuners = hw_threads (me_thread m) 0 ts, sessions = [],
                                             g_write_time = wt\<rparr>,
                               sys_scan = replicate (length ts) (0, 0)\<rparr>\<rparr>)))))))))"

section \<open>Devices are started sound\<close>

text \<open>Before the start: nothing in use, no frequencies, nothing tuned.\<close>

definition unstarted :: "dvb_device_t \<Rightarrow> bool" where
  "unstarted t \<longleftrightarrow> refcnt t = 0 \<and> currentState t = st_none \<and> frequency_ll t = []
     \<and> curr_frequency t = None \<and> fe_frequency t = 0 \<and> \<not> is_dvbt (dvbType t) \<and> \<not> is_dvbs (dvbType t)"

text \<open>The entries of a tuning file that fit a tuner's type, none at frequency 0.\<close>

definition fits_type :: "dvb_types option \<Rightarrow> dvb_frequency list \<Rightarrow> bool" where
  "fits_type ty ll \<longleftrightarrow> (\<forall>f \<in> set ll. channels_ll (base_of f) = []
     \<and> (is_dvbt ty \<longrightarrow> (\<exists>x. f = FreqT x)) \<and> (is_dvbs ty \<longrightarrow> (\<exists>x. f = FreqS x \<and> s_fec x \<noteq> None)))"

definition no_zero :: "dvb_device_t \<Rightarrow> bool" where
  "no_zero t \<longleftrightarrow> (\<forall>f \<in> set (frequency_ll t). (word_of_int (frequency (base_of f)) :: u32) \<noteq> 0)"

lemma append_unless_fits:
  assumes "append_unless cmp ll new = Inr ll'" "fits_type ty ll" "fits_type ty [new]"
  shows "fits_type ty ll'"
proof -
  have "ll' = ll \<or> (\<exists>i. ll' = ll @ [set_id i new])"
    using assms(1) by (auto simp: append_unless_def bind_res_Inr split: if_splits)
  moreover have "fits_type ty [set_id i new]" for i
    using assms(3) by (cases new) (auto simp: fits_type_def)
  ultimately show ?thesis using assms(2) by (auto simp: fits_type_def)
qed

lemma add_line_fits:
  assumes "add_line ty ll line = Inr ll'" "fits_type ty ll"
  shows "fits_type ty ll'"
proof -
  have n: "\<not> (is_dvbt ty \<and> is_dvbs ty)" by (auto simp: is_dvbt_def is_dvbs_def)
  show ?thesis
  proof (cases "ll' = ll")
    case True
    with assms(2) show ?thesis by simp
  next
    case False
    then obtain cmp new where "append_unless cmp ll new = Inr ll'" "fits_type ty [new]"
      using assms(1) n
      by (auto simp: add_line_def addInitialData_dvbt_def addInitialData_dvbs_def Let_def
          bind_res_Inr fits_type_def split: if_splits)
    then show ?thesis using append_unless_fits assms(2) by blast
  qed
qed

lemma load_lines_fits:
  "load_lines ty content ll = Inr ll' \<Longrightarrow> fits_type ty ll \<Longrightarrow> fits_type ty ll'"
proof (induction ty content ll rule: load_lines.induct)
  case (1 ty content ll)
  show ?case
  proof (cases "content = []")
    case True
    with 1 show ?thesis by (simp add: load_lines.simps)
  next
    case False
    then obtain l1 where l: "add_line ty ll (cstr_of (fst (fgets 128 content))) = Inr l1"
      "load_lines ty (snd (fgets 128 content)) l1 = Inr ll'"
      using 1(2) by (subst (asm) load_lines.simps) (auto simp: bind_res_Inr)
    show ?thesis by (rule 1(1) [OF False l(2)]) (rule add_line_fits [OF l(1) 1(3)])
  qed
qed

lemma tune_sets:
  assumes "fe_frequency t = 0" "no_zero t"
  shows "dvbt_tune env t p = Inr (z, t', c) \<Longrightarrow> curr_frequency t' \<noteq> None"
    "dvbs_tune env t p = Inr (z, t', c) \<Longrightarrow> curr_frequency t' \<noteq> None"
proof -
  have nz: "(word_of_int (frequency (base_of f)) :: u32) \<noteq> 0" if "get_freq t p = Inr (i, f)" for i f
    using get_freq_Inr [OF that] assms(2) nth_mem unfolding no_zero_def by metis
  show "curr_frequency t' \<noteq> None" if r: "dvbt_tune env t p = Inr (z, t', c)"
  proof -
    obtain i f where g: "get_freq t p = Inr (i, f)" using r unfolding dvbt_tune_def bind_res_Inr by auto
    obtain ss stops where cl: "clear_slots (pids t) = (ss, stops)" by force
    from r nz [OF g] show ?thesis
      by (cases f) (auto simp: dvbt_tune_def g assms(1) cl Let_def)
  qed
  show "curr_frequency t' \<noteq> None" if r: "dvbs_tune env t p = Inr (z, t', c)"
  proof -
    obtain i f where g: "get_freq t p = Inr (i, f)" using r unfolding dvbs_tune_def bind_res_Inr by auto
    obtain ss stops where cl: "clear_slots (pids t) = (ss, stops)" by force
    from r nz [OF g] show ?thesis
      by (cases f) (auto simp: dvbs_tune_def g assms(1) cl Let_def case_prod_beta split: option.splits)
  qed
qed

lemma initDVBDevice_keeps:
  assumes "initDVBDevice env t = Inr (h, t', c)"
  shows "refcnt t' = refcnt t" "currentState t' = currentState t"
    "frequency_ll t' = frequency_ll t" "curr_frequency t' = curr_frequency t"
    "fe_frequency t' = fe_frequency t"
proof -
  obtain fe dvr where "array_str (frontendDevice t) = Inr fe" "array_str (dvrDevice t) = Inr dvr"
    using assms unfolding initDVBDevice_def bind_res_Inr by (elim exE conjE) (rule that)
  then have "refcnt t' = refcnt t \<and> currentState t' = currentState t
      \<and> frequency_ll t' = frequency_ll t \<and> curr_frequency t' = curr_frequency t
      \<and> fe_frequency t' = fe_frequency t"
    using assms by (cases "e_open env 0 dvr < 0"; cases "0 < e_open env 0 fe")
      (auto simp: initDVBDevice_def Let_def)
  then show "refcnt t' = refcnt t" "currentState t' = currentState t"
    "frequency_ll t' = frequency_ll t" "curr_frequency t' = curr_frequency t"
    "fe_frequency t' = fe_frequency t"
    by blast+
qed

lemma fits_tables:
  assumes "fits_type (dvbType t) (frequency_ll t)" "curr_frequency t = None"
  shows "tables_ok t"
  using assms by (auto simp: fits_type_def tables_ok_def channels_ok_def)

lemma loaded_fits:
  assumes "loadInitialFile t content = Inr t'" "frequency_ll t = []"
  obtains ll where "t' = t\<lparr>frequency_ll := ll\<rparr>" "fits_type (dvbType t) ll"
proof (cases content)
  case None
  with assms that [of "[]"] show ?thesis by (simp add: loadInitialFile_def fits_type_def)
next
  case (Some s)
  with assms obtain ll where ll: "load_lines (dvbType t) s [] = Inr ll" "t' = t\<lparr>frequency_ll := ll\<rparr>"
    by (auto simp: loadInitialFile_def bind_res_Inr)
  from load_lines_fits [OF ll(1)] that [OF ll(2)] show ?thesis by (simp add: fits_type_def)
qed

lemma tunable_cong:
  "dvbType t' = dvbType t \<Longrightarrow> frequency_ll t' = frequency_ll t \<Longrightarrow> curr_frequency t' = curr_frequency t
   \<Longrightarrow> tunable t' = tunable t"
  by (simp add: tunable_def)

lemma start_device_ok:
  assumes "start_device env d = Inr (d', c)" "unstarted d" "no_zero d'"
  shows "tuner_inv (if cstr_of (frontendDevice d') = [] then d'
      else dvb_start_hardware_thread created d') 0"
proof -
  have "tables_ok d' \<and> tunable d' \<and> refcnt d' = 0 \<and> currentState d' = st_none"
  proof (cases "d' = d")
    case True
    with assms(2) show ?thesis by (auto simp: unstarted_def tables_ok_def tunable_def)
  next
    case False
    obtain fe where "array_str (frontendDevice d) = Inr fe" "fe \<noteq> []"
      using assms(1) False by (auto simp: start_device_def bind_res_Inr split: if_splits)
    with assms(1) obtain sn h d1 c1 content d2 z d3 c3 c4 where
      1: "initDVBDevice env (d\<lparr>serial := sn\<rparr>) = Inr (h, d1, c1)"
      and 2: "loadInitialFile d1 content = Inr d2"
      and 3: "(if is_dvbt (dvbType d2) then dvbt_tune env d2 (getInitialTuning_dvbt d2 0)
           else if is_dvbs (dvbType d2) then dvbs_tune env d2 (getInitialTuning_dvbs d2 0)
           else Inr (0, d2, [])) = Inr (z, d3, c3)"
      and 4: "add_pids env psi_pids d3 = (d', c4)"
      unfolding start_device_def by (simp add: bind_res_Inr split_beta del: add_pids.simps)
        (elim exE conjE, auto simp: prod_eq_iff)
    note k1 = initDVBDevice_keeps [OF 1]
    have s: "frequency_ll d1 = []" "curr_frequency d1 = None" "fe_frequency d1 = 0" "refcnt d1 = 0"
      "currentState d1 = st_none"
      using k1 assms(2) by (simp_all add: unstarted_def)
    obtain ll where ll: "d2 = d1\<lparr>frequency_ll := ll\<rparr>" "fits_type (dvbType d1) ll"
      by (rule loaded_fits [OF 2 s(1)])
    have t2: "tables_ok d2" using ll s fits_tables by simp
    obtain x where d': "d' = d3\<lparr>pids := x\<rparr>" using add_pids_only_pids [OF 4] by blast
    consider (T) "dvbt_tune env d2 (getInitialTuning_dvbt d2 0) = Inr (z, d3, c3)"
      | (S) "dvbs_tune env d2 (getInitialTuning_dvbs d2 0) = Inr (z, d3, c3)"
      | (N) "d3 = d2" "\<not> is_dvbt (dvbType d2)" "\<not> is_dvbs (dvbType d2)"
      using 3 by (auto split: if_splits)
    then have k: "frequency_ll d3 = frequency_ll d2 \<and> currentState d3 = currentState d2
        \<and> dvbType d3 = dvbType d2 \<and> refcnt d3 = refcnt d2 \<and> tables_ok d3
        \<and> (is_dvbt (dvbType d3) \<or> is_dvbs (dvbType d3) \<longrightarrow> curr_frequency d3 \<noteq> None)"
    proof cases
      case T
      note k = dvbt_tune_keeps [OF T]
      have "no_zero d2" using assms(3) d' k(1) by (simp add: no_zero_def)
      from tune_sets(1) [OF _ this T] ll s k k(6) [OF t2] show ?thesis by simp
    next
      case S
      note k = dvbs_tune_keeps [OF S]
      have "no_zero d2" using assms(3) d' k(1) by (simp add: no_zero_def)
      from tune_sets(2) [OF _ this S] ll s k k(6) [OF t2] show ?thesis by simp
    qed (simp add: t2)
    moreover have "tunable d3" using k ll by (auto simp: tunable_def fits_type_def)
    moreover have "tables_ok d' = tables_ok d3" unfolding d' by (rule tables_ok_cong) simp_all
    moreover have "tunable d' = tunable d3" unfolding d' by (rule tunable_cong) simp_all
    ultimately show ?thesis using d' ll s by simp
  qed
  then show ?thesis
    using tables_ok_cong [of "dvb_start_hardware_thread created d'" d']
      tunable_cong [of "dvb_start_hardware_thread created d'" d']
    by (auto simp: tuner_inv_def dvb_start_hardware_thread_def hw_start_def)
qed

lemma start_all_ok:
  "start_all env ds = Inr (ts, cs) \<Longrightarrow> \<forall>d \<in> set ds. unstarted d \<Longrightarrow> \<forall>t \<in> set ts. no_zero t
   \<Longrightarrow> \<forall>t \<in> set (hw_threads created k ts). tuner_inv t 0"
proof (induction ds arbitrary: ts cs k)
  case (Cons d ds)
  then obtain d' c ds' cs' where 1: "start_device env d = Inr (d', c)"
    "start_all env ds = Inr (ds', cs')" "ts = d' # ds'"
    by (auto simp: bind_res_Inr)
  from start_device_ok [OF 1(1)] Cons.IH [OF 1(2)] Cons.prems(2,3) 1(3)
  show ?case by simp
qed simp

lemma no_zero_threads:
  "(\<forall>t \<in> set (hw_threads created k ts). no_zero t) \<longleftrightarrow> (\<forall>t \<in> set ts. no_zero t)"
  by (induction ts arbitrary: k)
    (auto simp: no_zero_def dvb_start_hardware_thread_def hw_start_def)

lemma config_device_unstarted:
  assumes "config_device sc ini env k d = Inr d'" "unstarted d"
  shows "unstarted d'"
proof -
  obtain a b c i x p where "d' = d\<lparr>frontendDevice := a, dvrDevice := b, demuxDevice := c,
      initialTuning := i, logicalNumber := x, refcnt := 0, currentState := st_none,
      sequence_no := 0, frequency_ll := [], pids := p\<rparr>"
    using assms(1) unfolding config_device_def bind_res_Inr sum.inject
    by (elim exE conjE) (rule that, erule sym)
  with assms(2) show ?thesis by (simp add: unstarted_def)
qed

lemma config_all_unstarted:
  "config_all sc ini env k ds = Inr ds' \<Longrightarrow> \<forall>d \<in> set ds. unstarted d \<Longrightarrow> \<forall>d \<in> set ds'. unstarted d"
proof (induction ds arbitrary: k ds')
  case (Cons d ds)
  then obtain d1 ds1 where 1: "config_device sc ini env k d = Inr d1"
    "config_all sc ini env (Suc k) ds = Inr ds1" "ds' = d1 # ds1"
    by (auto simp: bind_res_Inr)
  from config_device_unstarted [OF 1(1)] Cons.IH [OF 1(2)] Cons.prems(2) 1(3) show ?case by simp
qed simp

lemma configured_ok:
  assumes "dvb_getTunerConfigs sc ini env ds = Inr (ts, cs)" "\<forall>d \<in> set ds. unstarted d"
    "\<forall>t \<in> set (hw_threads created k ts). no_zero t"
  shows "\<forall>t \<in> set (hw_threads created k ts). tuner_inv t 0"
proof -
  obtain ds' where r: "start_all env ds' = Inr (ts, cs)"
      "(case ini of None \<Rightarrow> Inr ds | Some _ \<Rightarrow> config_all sc ini env 0 ds) = Inr ds'"
    using assms(1) unfolding dvb_getTunerConfigs_def bind_res_Inr by blast
  have "\<forall>d \<in> set ds'. unstarted d"
    using r(2) assms(2) config_all_unstarted [of sc ini env 0 ds ds'] by (cases ini) simp_all
  moreover have "\<forall>t \<in> set ts. no_zero t" using assms(3) no_zero_threads by blast
  ultimately show ?thesis using start_all_ok [OF r(1)] by blast
qed

section \<open>The program after its start\<close>

text \<open>What the threads, the console with listener \<open>l\<close> and the web server start from.\<close>

definition main_begin :: "int \<Rightarrow> 'db program \<Rightarrow> main_state" where
  "main_begin l p = \<lparr>m_socket = telnet_start l (sys_server (p_system p)), m_scan = sys_scan (p_system p)\<rparr>"

lemma main_begin_ok:
  assumes "main_start m = Inr (Some p)"
    and "\<forall>t \<in> set (tuners (sys_server (p_system p))). no_zero t"
  shows "main_ok (main_begin l p)" "sessions (sys_server (p_system p)) = []"
proof -
  obtain ini ts cs where 1: "dvb_getTunerConfigs (me_sc m) ini (ce_dvb (me_cmd m))
      (replicate MAX_DVB_DEVICES zero_device) = Inr (ts, cs)"
    and p: "tuners (sys_server (p_system p)) = hw_threads (me_thread m) 0 ts"
      "sessions (sys_server (p_system p)) = []"
    using assms(1) by (auto simp: main_start_def bind_res_Inr Let_def split: option.splits prod.splits)
  have "\<forall>d \<in> set (replicate MAX_DVB_DEVICES zero_device). unstarted d"
    by (simp add: unstarted_def zero_device_def is_dvbt_def is_dvbs_def)
  from configured_ok [OF 1 this] assms(2) p
  have "\<forall>t \<in> set (tuners (sys_server (p_system p))). tuner_inv t 0" by simp
  with p have "system_ok (p_system p)" by (auto simp: system_ok_def server_ok_def)
  moreover have "m_system (main_begin l p) = p_system p"
    by (simp add: m_system_def main_begin_def telnet_start_def)
  ultimately show "main_ok (main_begin l p)" "sessions (sys_server (p_system p)) = []"
    using p(2) by (simp_all add: main_ok_def main_begin_def telnet_start_def known_def system_ok_def)
qed

section \<open>Properties\<close>

text \<open>
  C4. When the start gets through and no frequency of a tuning file is zero (a tuner asked for
  the frequency 0 it starts with is not tuned and keeps a null pointer), the program it leaves is
  sound and stays so, in whatever order the passes of the threads, the passes of the console's loop
  and the web requests come: every tuner counts its sessions and is busy exactly when it has one,
  buffers and tables are in bounds, no channel has two sessions, and every open console connection
  has exactly one user. Threads and web requests do not fault then, within what \<open>main_allowed\<close> asks
  of them: what \<open>allowed\<close> does of the threads, and memory and bounded URLs for the web. A pass of the
  console's loop may fault; such a pass ends the run. When it does not, any new destinations must have
  what their transports need.
\<close>

theorem main_starts_sound:
  assumes "main_start m = Inr (Some p)"
    and "\<forall>t \<in> set (tuners (sys_server (p_system p))). no_zero t"
    and "runs (run_main w junk users) (main_allowed w junk users) (main_begin l p) es m'"
  shows "system_ok (m_system m') \<and> distinct (map tu_fd (fst (sk_data (m_socket m'))))
    \<and> sk_master (m_socket m') - {sk_listener (m_socket m')} \<subseteq> tu_fd ` set (fst (sk_data (m_socket m')))
    \<and> (\<forall>e. is_console e \<or> \<not> main_allowed w junk users e m' \<or> \<not> isl (run_main w junk users e m'))"
proof -
  note ok = main_begin_ok(1) [OF assms(1,2), of l]
  have "main_ok m'" by (rule prog.reachable_inv [OF assms(3) ok])
  moreover from this have "\<not> isl (run_main w junk users e m')"
    if "main_allowed w junk users e m'" "\<not> is_console e" for e
    using main_no_fault [OF _ that] by auto
  ultimately show ?thesis by (auto simp: main_ok_def known_def)
qed

text \<open>
  A configuration with one satellite tuner, whose thread is started and which is tuned to the one
  frequency of its file. The tuner then receives a table with programme 4.
\<close>

definition example_items :: "ini_item list" where
  "example_items = [Section ''telnet'', Entry ''userlist'' ''users'', Section ''tuner_0'',
     Entry ''frontend'' ''/dev/fe0'', Entry ''dvr'' ''/dev/dvr0'', Entry ''demux'' ''/dev/demux0'',
     Entry ''initialtuning'' ''sat'']"

definition example_ini :: "string \<Rightarrow> dictionary option" where
  "example_ini name =
     (case iniparser_load True no_fail (Some (render example_items)) of Some (Inr d) \<Rightarrow> d | _ \<Rightarrow> None)"

definition sat_env :: dvb_env where
  "sat_env = quiet_env\<lparr>e_file := \<lambda>_. Some (concat (map sat_line [(11720000, CHR ''H'', 29500000, ''3/4'')]))\<rparr>"

definition example_main :: "sql list main_env" where
  "example_main = \<lparr>me_sc = True, me_long = 64, me_options = [Some ''dvb.ini''], me_ini = example_ini,
     me_sqlite = log_engine, me_db = [], me_cmd = quiet_cmd\<lparr>ce_dvb := sat_env\<rparr>, me_junk = \<lambda>_. [],
     me_file = \<lambda>_. Some (''ann:pw'' @ [NL]), me_thread = \<lambda>_. True\<rparr>"

definition blank :: "dvb_device_t \<Rightarrow> bool" where
  "blank d \<longleftrightarrow> frontendDevice d = replicate 32 NUL \<and> frequency_ll d = []"

lemma config_blank:
  assumes "\<And>f. f \<in> {''frontend'', ''dvr'', ''demux'', ''initialtuning''}
      \<Longrightarrow> iniparser_getstring sc ini (Some (''tuner_'' @ show_nat k @ '':'' @ f)) Null = Inr Null"
  shows "\<exists>d. config_device sc ini env k zero_device = Inr d \<and> blank d"
proof -
  have "config_string sc ini k f n dst = Inr dst"
    if "f \<in> {''frontend'', ''dvr'', ''demux'', ''initialtuning''}" for f n dst
    using assms [OF that] by (simp add: config_string_def)
  then show ?thesis by (simp add: config_device_def array_str_def zero_device_def blank_def)
qed

lemma start_blanks: "\<forall>d \<in> set ds. blank d \<Longrightarrow> start_all env ds = Inr (ds, [])"
  by (induction ds) (simp_all add: start_device_def blank_def array_str_def cstr_of_def)

lemma config_blanks:
  assumes "\<forall>j \<in> set ks. \<forall>f \<in> {''frontend'', ''dvr'', ''demux'', ''initialtuning''}.
      iniparser_getstring sc ini (Some (''tuner_'' @ show_nat j @ '':'' @ f)) Null = Inr Null"
    and "ks = [k..<k + n]"
  shows "\<exists>ds. config_all sc ini env k (replicate n zero_device) = Inr ds \<and> (\<forall>d \<in> set ds. blank d)"
  using assms
proof (induction n arbitrary: k ks)
  case (Suc n)
  have ks: "ks = k # [Suc k..<Suc k + n]" using Suc.prems(2) by (simp add: upt_rec)
  obtain d where "config_device sc ini env k zero_device = Inr d" "blank d"
    using config_blank [of sc ini k env] Suc.prems(1) ks by fastforce
  moreover obtain ds where "config_all sc ini env (Suc k) (replicate n zero_device) = Inr ds"
    "\<forall>d \<in> set ds. blank d"
    using Suc.IH [of "[Suc k..<Suc k + n]" "Suc k"] Suc.prems(1) ks by auto
  ultimately show ?case by simp
qed simp

lemma example_lookup:
  "\<exists>d. example_ini name = Some d \<and> (\<forall>key def. iniparser_getstring True (Some d) (Some key) def
     = Inr (case map_of (rev (meaning [] example_items)) (strlwc key) of None \<Rightarrow> def | Some v \<Rightarrow> ptr_of v))"
proof -
  have "\<forall>i \<in> set example_items. item_ok i" by code_simp
  from load_render [OF this, of True] show ?thesis
    by (auto simp: example_ini_def iniparser_getstring_def)
qed

lemma example_keys:
  "\<forall>j \<in> set [1..<8]. \<forall>f \<in> {''frontend'', ''dvr'', ''demux'', ''initialtuning''}.
     map_of (rev (meaning [] example_items)) (strlwc (''tuner_'' @ show_nat j @ '':'' @ f)) = None"
  by code_simp

text \<open>The first device as it is configured, and as it is started.\<close>

definition as_configured :: "dvb_device_t \<Rightarrow> bool" where
  "as_configured d \<longleftrightarrow> array_str (frontendDevice d) = Inr ''/dev/fe0'' \<and> array_str (dvrDevice d) = Inr ''/dev/dvr0''
     \<and> array_str (initialTuning d) = Inr ''sat'' \<and> fe_frequency d = 0 \<and> refcnt d = 0
     \<and> frequency_ll d = [] \<and> sequence_no d = 0"

definition as_started :: "dvb_device_t \<Rightarrow> bool" where
  "as_started d \<longleftrightarrow> array_str (frontendDevice d) = Inr ''/dev/fe0'' \<and> refcnt d = 0 \<and> is_dvbs (dvbType d)
     \<and> curr_frequency d = Some 0
     \<and> frequency_ll d = [set_id 0 (sat_freq (11720000, CHR ''H'', 29500000, ''3/4''))]"

lemma example_configured:
  assumes "example_ini name = Some d"
    and "\<And>key def. iniparser_getstring True (Some d) (Some key) def
      = Inr (case map_of (rev (meaning [] example_items)) (strlwc key) of None \<Rightarrow> def | Some v \<Rightarrow> ptr_of v)"
  shows "\<exists>t ts. config_all True (Some d) env 0 (replicate MAX_DVB_DEVICES zero_device) = Inr (t # ts)
     \<and> as_configured t \<and> (\<forall>t \<in> set ts. blank t)"
proof -
  let ?key = "\<lambda>f. map_of (rev (meaning [] example_items)) (strlwc (''tuner_'' @ show_nat 0 @ '':'' @ f))"
  have k: "?key ''frontend'' = Some (Some ''/dev/fe0'')" "?key ''dvr'' = Some (Some ''/dev/dvr0'')"
    "?key ''demux'' = Some (Some ''/dev/demux0'')" "?key ''initialtuning'' = Some (Some ''sat'')"
    by code_simp+
  have c: "config_string True (Some d) 0 f n dst = Inr (c_strncpy n dst x)" if "?key f = Some (Some x)" for f n dst x
    using that by (simp add: config_string_def assms(2) ptr_of_def)
  have a: "array_str (c_strncpy n dst x) = Inr x" if "no_nul x" and n: "length x < n" for n dst x
  proof -
    obtain m where "n - length x = Suc m" using n by (metis Suc_diff_Suc)
    with that have "takeWhile (\<lambda>c. c \<noteq> NUL) (x @ replicate (n - length x) NUL @ drop n dst) = x"
      by (subst takeWhile_append2) (auto simp: no_nul_def)
    with n show ?thesis by (simp add: array_str_def c_strncpy_def cstr_of_def)
  qed
  have "\<exists>t. config_device True (Some d) env 0 zero_device = Inr t \<and> as_configured t"
    by (simp add: config_device_def c [OF k(1)] c [OF k(2)] c [OF k(3)] c [OF k(4)] a no_nul_def
        as_configured_def zero_device_def)
  then obtain t where t: "config_device True (Some d) env 0 zero_device = Inr t" "as_configured t" by blast
  have "\<forall>j \<in> set [1..<8]. \<forall>f \<in> {''frontend'', ''dvr'', ''demux'', ''initialtuning''}.
      iniparser_getstring True (Some d) (Some (''tuner_'' @ show_nat j @ '':'' @ f)) Null = Inr Null"
    using example_keys by (simp add: assms(2) del: upt_rec_numeral)
  from config_blanks [OF this, of 1 7 env] obtain ts where
    "config_all True (Some d) env (Suc 0) (replicate 7 zero_device) = Inr ts" "\<forall>t \<in> set ts. blank t" by auto
  moreover have "replicate MAX_DVB_DEVICES zero_device = zero_device # replicate 7 zero_device"
    by (simp add: MAX_DVB_DEVICES_def numeral_eq_Suc)
  ultimately show ?thesis using t by simp
qed

lemma example_device:
  assumes "as_configured d"
  shows "\<exists>d' c. start_device sat_env d = Inr (d', c) \<and> as_started d'"
proof -
  let ?e = "(11720000, CHR ''H'', 29500000, ''3/4'') :: sat_entry"
  have ok: "\<forall>e \<in> set [?e]. sat_ok e" by (simp add: NL_def no_nul_def)
  have "load_lines (Some dvb_s2) (concat (map sat_line [?e])) [] = Inr (foldl sat_add [] [?e])"
    by (rule conjunct1 [OF load_sat_lines]) (use ok in \<open>simp_all add: is_dvbs_def freqs_ok_def\<close>)
  then have l: "load_lines (Some dvb_s2) (sat_line ?e) [] = Inr [set_id 0 (sat_freq ?e)]"
    by (simp add: sat_add_def)
  obtain sn where sn: "getDVB_Serial (e_sysfs sat_env) ''/dev/fe0'' = Inr sn"
  proof -
    have "\<not> isl (getDVB_Serial (\<lambda>_. None) ''/dev/fe0'')" by code_simp
    then show ?thesis
      by (cases "getDVB_Serial (\<lambda>_. None) ''/dev/fe0''") (simp_all add: that sat_env_def quiet_env_def)
  qed
  obtain d1 where 1: "initDVBDevice sat_env (d\<lparr>serial := sn\<rparr>) = Inr (3, d1, [])"
    "d1 = d\<lparr>serial := sn, dvrHandle := 3, dvbType := Some dvb_s2, frontendHandle := 3\<rparr>"
    using assms by (simp add: initDVBDevice_def as_configured_def sat_env_def quiet_env_def)
  let ?d2 = "d1\<lparr>frequency_ll := [set_id 0 (sat_freq ?e)]\<rparr>"
  have 2: "loadInitialFile d1 (e_file sat_env ''sat'') = Inr ?d2"
    using l assms by (simp add: loadInitialFile_def sat_env_def 1(2) as_configured_def)
  obtain ss stops where cl: "clear_slots (pids d) = (ss, stops)" by force
  obtain z d3 c3 where 3: "dvbs_tune sat_env ?d2 (Some 0) = Inr (z, d3, c3)"
    "frontendDevice d3 = frontendDevice d" "refcnt d3 = refcnt d" "dvbType d3 = Some dvb_s2"
    "curr_frequency d3 = Some 0" "frequency_ll d3 = frequency_ll ?d2"
    using assms by (auto simp: dvbs_tune_def get_freq_def cl 1(2) as_configured_def Let_def case_prod_beta)
  obtain d4 c4 where 4: "add_pids sat_env psi_pids d3 = (d4, c4)" by force
  obtain x where "d4 = d3\<lparr>pids := x\<rparr>" using add_pids_only_pids [OF 4] by blast
  with 3 assms have "as_started d4" by (simp add: as_started_def as_configured_def is_dvbs_def)
  moreover have "start_device sat_env d = Inr (d4, c3 @ c4)"
    using assms 1 2 3(1) 4 sn
    by (simp add: start_device_def as_configured_def is_dvbs_def is_dvbt_def getInitialTuning_dvbs_def)
  ultimately show ?thesis by blast
qed

lemma example_starts:
  "\<exists>p t ts. main_start example_main = Inr (Some p) \<and> tuners (sys_server (p_system p)) = t # ts
     \<and> sessions (sys_server (p_system p)) = []
     \<and> as_started (t\<lparr>currentState := st_idle\<rparr>) \<and> currentState t = st_idle \<and> (\<forall>t \<in> set ts. blank t)"
proof -
  obtain d where d: "example_ini ''dvb.ini'' = Some d"
    and look: "\<And>key def. iniparser_getstring True (Some d) (Some key) def
      = Inr (case map_of (rev (meaning [] example_items)) (strlwc key) of None \<Rightarrow> def | Some v \<Rightarrow> ptr_of v)"
    using example_lookup by blast
  let ?m = "map_of (rev (meaning [] example_items))"
  have k: "?m (strlwc ''global:file_write_time'') = None" "?m (strlwc ''telnet:userlist'') = Some (Some ''users'')"
    "?m (strlwc ''telnet:database'') = None" "?m (strlwc ''telnet:port'') = None"
    by code_simp+
  obtain t ts where c: "config_all True (Some d) sat_env 0 (replicate MAX_DVB_DEVICES zero_device) = Inr (t # ts)"
    "as_configured t" "\<forall>t \<in> set ts. blank t"
    using example_configured [OF d look] by blast
  obtain t' c1 where t': "start_device sat_env t = Inr (t', c1)" "as_started t'"
    using example_device [OF c(2)] by blast
  have ts: "dvb_getTunerConfigs True (Some d) sat_env (replicate MAX_DVB_DEVICES zero_device) = Inr (t' # ts, c1)"
    using c t'(1) start_blanks [OF c(3), of sat_env] by (simp add: dvb_getTunerConfigs_def)
  have hw: "hw_threads (\<lambda>_. True) (Suc 0) ts = ts"
  proof -
    have "\<forall>t \<in> set ts. blank t \<Longrightarrow> hw_threads f k ts = ts" for f k ts
      by (induction ts arbitrary: k) (simp_all add: blank_def cstr_of_def)
    with c(3) show ?thesis by blast
  qed
  have tn: "\<exists>td. telnet_init True (Some d) \<lparr>telnetFilename = replicate 100 NUL,
       telnetDatabase = replicate 100 NUL\<rparr> = Inr td \<and> (\<exists>f. array_str (telnetFilename td) = Inr f)"
    by (simp add: telnet_init_def look k ptr_of_def array_str_def c_strncpy_def)
  have sock: "startTelnetServer True 64 (Some d) con = Inr ((telnet_calls con)\<lparr>ss_port := 9000\<rparr>)" for con :: "server console"
    by (simp add: startTelnetServer_def iniparser_getint_def look k)
  have cfg: "sprint 100 ''dvb.ini'' = Inr ''dvb.ini''" by (simp add: sprint_def)
  have "\<not> isl (database_init log_engine [])" by code_simp
  then have db: "\<exists>db. database_init log_engine [] = Inr db"
    by (cases "database_init log_engine []") simp_all
  have wt: "initial_write_time True (Some d) = Inr 0" by (simp add: initial_write_time_def look k)
  have "cstr_of (frontendDevice t') \<noteq> []" using t'(2) by (auto simp: as_started_def array_str_def split: if_splits)
  with db tn ts hw t'(2) c(3) show ?thesis
    by (auto simp: main_start_def Let_def sock example_main_def cfg d wt quiet_cmd_def dvb_start_hardware_thread_def hw_start_def
        as_started_def)
qed

text \<open>
  The tuner's thread reads, a programme table comes in, somebody connects to the console and somebody
  asks for programme 4 on the web: the tuner serves a session then.
\<close>

definition example_events :: "main_event list" where
  "example_events = [Thread (Read 0 None), Thread (Pat 0 [(4, 257)]),
     Console quiet_cmd [(3, Accepted (Some (5, ''10.0.0.9'')))], Http open_web False ''GET'' ''/stream/0/4'']"

lemma example_tables:
  assumes "tuners (sys_server sy) = t # ts" "as_started t"
  shows "\<exists>sy1 sy2 t2. run_event quiet_world (Read 0 None) sy = Inr (Some sy1)
     \<and> allowed quiet_world (Pat 0 [(4, 257)]) sy1
     \<and> run_event quiet_world (Pat 0 [(4, 257)]) sy1 = Inr (Some sy2)
     \<and> tuners (sys_server sy2) = t2 # ts \<and> refcnt t2 = 0 \<and> carries t2 (0, 4)
     \<and> sessions (sys_server sy2) = sessions (sys_server sy)"
proof -
  let ?t1 = "t\<lparr>last_sequence := sequence_no t\<rparr>"
  have f: "frequency_ll t = [set_id 0 (sat_freq (11720000, CHR ''H'', 29500000, ''3/4''))]"
    "curr_frequency t = Some 0" "refcnt t = 0" "is_dvbs (dvbType t)"
    using assms(2) by (simp_all add: as_started_def)
  have "run_event quiet_world (Read 0 None) sy = Inr (Some (put_tuner sy 0 ?t1))"
    using assms(1) by (simp add: tuner_at_def dvb_read_data_def)
  moreover have "allowed quiet_world (Pat 0 [(4, 257)]) (put_tuner sy 0 ?t1)"
    using assms(1) f(4) by (simp add: has_device_def Let_def)
  moreover obtain t2 where "process_pat [(4, 257)] ?t1 = Inr t2" "refcnt t2 = 0" "carries t2 (0, 4)"
    using f by (simp add: channel_addPAT_def curr_channels_def set_channels_def carries_def
        getChannelByNumber_tuners_def new_channel_def matches16_def)
  ultimately show ?thesis using assms(1) by (simp add: tuner_at_def)
qed

lemma example_request:
  assumes "server_ok st" "t \<in> set (tuners st)" "carries t (0, 4)" "refcnt t = 0" "sessions st = []"
  shows "\<exists>r s. ahc_echo open_web False ''GET'' ''/stream/0/4'' st = Inr r
    \<and> sessions (wr_server r) = [s] \<and> channel_key s = (0, 4)"
proof -
  obtain d where d: "destination_create (\<lambda>_. True) 7 (stream_url 1) = Inr (Some d)" "destination_type d = dest_http"
    using stream_dest [of 1] by auto
  have live: "after_live d (sessions st) = []" using d(2) assms(5) by (simp add: after_live_def)
  have c: "\<exists>t \<in> set (tuners st). carries t (0, 4)" using assms(2,3) by blast
  obtain rc st' calls threads s where a: "session_addNew quiet_env 64 st 0 4 (Some d) = Inr (rc, st', calls, threads)"
    "sessions st' = [s]" "channel_key s = (0, 4)" "rc = drop_bit 4 64"
    using addNew_result [OF assms(1) c, of quiet_env 64 d] assms(2-4) unfolding live by auto
  have t: "tokenize 10 ''stream/0/4'' CHR ''/'' = [''stream'', ''0'', ''4'']" "command_to_number ''stream'' = 1"
    "int_arg ''0'' = 0" "int_arg ''4'' = 4"
    by code_simp+
  have "rc \<noteq> 0" using a(4) by (simp add: drop_bit_eq_div)
  then show ?thesis
    using a d by (simp add: ahc_echo_def t serve_channel_def open_web_def quiet_cmd_def)
qed

lemma main_starts_sound_witness:
  "\<exists>p m' s. main_start example_main = Inr (Some p)
    \<and> runs (run_main quiet_world (\<lambda>_. []) None) (main_allowed quiet_world (\<lambda>_. []) None)
        (main_begin 3 p) example_events m'
    \<and> sessions (sys_server (m_system m')) = [s] \<and> channel_key s = (0, 4)
    \<and> map tu_fd (fst (sk_data (m_socket m'))) = [5] \<and> system_ok (m_system m')"
proof -
  let ?run = "run_main quiet_world (\<lambda>_. []) None" and ?al = "main_allowed quiet_world (\<lambda>_. []) None"
  let ?rs = "[(3, Accepted (Some (5, ''10.0.0.9'')))]" and ?con = "main_console quiet_cmd (\<lambda>_. []) None"
  obtain p t ts where p: "main_start example_main = Inr (Some p)" "tuners (sys_server (p_system p)) = t # ts"
    "sessions (sys_server (p_system p)) = []" "as_started t" "\<forall>t \<in> set ts. blank t"
    using example_starts by (auto simp: as_started_def)
  have nz: "\<forall>t \<in> set (tuners (sys_server (p_system p))). no_zero t"
    using p(2,4,5) by (auto simp: no_zero_def as_started_def blank_def)
  let ?m0 = "main_begin 3 p"
  have m0: "m_system ?m0 = p_system p" by (simp add: m_system_def main_begin_def telnet_start_def)
  obtain sy1 sy2 t2 where sy: "run_event quiet_world (Read 0 None) (p_system p) = Inr (Some sy1)"
    "allowed quiet_world (Pat 0 [(4, 257)]) sy1" "run_event quiet_world (Pat 0 [(4, 257)]) sy1 = Inr (Some sy2)"
    "tuners (sys_server sy2) = t2 # ts" "refcnt t2 = 0" "carries t2 (0, 4)" "sessions (sys_server sy2) = []"
    using example_tables [OF p(2,4)] p(3) by auto
  let ?m1 = "with_system ?m0 sy1"
  let ?m2 = "with_system ?m1 sy2"
  let ?sk = "\<lparr>sk_listener = 3, sk_master = {5, 3}, sk_fdmax = 5, sk_data = ([new_user 5 ''10.0.0.9''], sys_server sy2)\<rparr>"
  let ?m3 = "?m2\<lparr>m_socket := ?sk\<rparr>"
  have r1: "?run (Thread (Read 0 None)) ?m0 = Inr (Some ?m1)" "?al (Thread (Read 0 None)) ?m0"
    using sy(1) p(2) m0 by (simp_all del: run_event.simps)
  have r2: "?run (Thread (Pat 0 [(4, 257)])) ?m1 = Inr (Some ?m2)" "?al (Thread (Pat 0 [(4, 257)])) ?m1"
    using sy(2,3) by (simp_all del: run_event.simps allowed.simps)
  have "telnet_run ?con ?rs (m_socket ?m2) = Inr (Some ?sk)"
    by (simp add: main_begin_def with_system_def telnet_run_def telnet_start_def socket_ready_def new_connection_def
        telnet_calls_def telnet_onconnect_def FD_SET_Handle_def FD_SETSIZE_def sprint_def)
  then have r3: "?run (Console quiet_cmd ?rs) ?m2 = Inr (Some ?m3)" "?al (Console quiet_cmd ?rs) ?m2"
    by (simp_all add: m_dests_def)
  have c1: "runs ?run ?al ?m0 [Thread (Read 0 None)] ?m1" by (rule runs_one) (fact r1)+
  have c2: "runs ?run ?al ?m0 ([Thread (Read 0 None)] @ [Thread (Pat 0 [(4, 257)])]) ?m2"
    by (rule runs.event) (fact c1 r2)+
  have c3: "runs ?run ?al ?m0 (([Thread (Read 0 None)] @ [Thread (Pat 0 [(4, 257)])]) @ [Console quiet_cmd ?rs]) ?m3"
    by (rule runs.event) (fact c2 r3)+
  have "runs ?run ?al ?m0 [Thread (Read 0 None), Thread (Pat 0 [(4, 257)]), Console quiet_cmd ?rs] ?m3"
    using c3 by simp
  note runs3 = this
  have "system_ok (m_system ?m3)" using main_starts_sound [OF p(1) nz runs3] by blast
  then have "server_ok (sys_server sy2)" by (simp add: system_ok_def)
  from example_request [OF this _ sy(6,5,7)] sy(4) obtain r s where
    h: "ahc_echo open_web False ''GET'' ''/stream/0/4'' (sys_server sy2) = Inr r"
      "sessions (wr_server r) = [s]" "channel_key s = (0, 4)" by auto
  let ?h = "Http open_web False ''GET'' ''/stream/0/4''"
  let ?m4 = "with_system ?m3 ((m_system ?m3)\<lparr>sys_server := wr_server r\<rparr>)"
  have r4: "?run ?h ?m3 = Inr (Some ?m4)" "?al ?h ?m3"
    using h(1) by (simp_all add: open_web_def quiet_cmd_def)
  have r: "runs ?run ?al ?m0 example_events ?m4"
  proof -
    have "runs ?run ?al ?m0 ([Thread (Read 0 None), Thread (Pat 0 [(4, 257)]), Console quiet_cmd ?rs] @ [?h]) ?m4"
      by (rule runs.event) (fact runs3 r4)+
    then show ?thesis by (simp add: example_events_def)
  qed
  have "map tu_fd (fst (sk_data (m_socket ?m4))) = [5]" by (simp add: with_system_def new_user_def)
  with main_starts_sound [OF p(1) nz r] p(1) r h(2,3) show ?thesis by (intro exI [of _ p] exI [of _ ?m4]) auto
qed

end
