(* ===== verification/Blocks.thy ===== *)
theory Blocks
  imports Session
begin

text \<open>
  The memory the program allocates: blocks at addresses, what each kind of block holds, \<^verbatim>\<open>malloc\<close>
  and \<^verbatim>\<open>free\<close>, and a small separation logic to say which blocks somebody owns. An assertion is a
  set of memories; the product of two describes a memory that splits into two disjoint ones, and
  makes assertions a commutative monoid, so that \<open>ac_simps\<close> and products over lists apply. What an
  operation does to the blocks it owns is stated beside an arbitrary rest, which it leaves alone:
  a rest that is left unchanged says at once that nothing is leaked and nothing else freed.
\<close>

section \<open>Assertions\<close>

typedef 'b assn = "{P :: (nat \<rightharpoonup> 'b) set. \<forall>m \<in> P. finite (dom m)}"
  morphisms models Assn
  by (rule exI [of _ "{}"]) simp

setup_lifting type_definition_assn

lift_definition sat :: "(nat \<rightharpoonup> 'b) \<Rightarrow> 'b assn \<Rightarrow> bool" is "\<lambda>m P. m \<in> P" .

lemma sat_finite: "sat m P \<Longrightarrow> finite (dom m)"
  by transfer blast

lemma assn_eqI: "(\<And>m. sat m P \<longleftrightarrow> sat m Q) \<Longrightarrow> P = Q"
  by transfer blast

instantiation assn :: (type) comm_monoid_mult
begin

lift_definition one_assn :: "'a assn" is "{Map.empty}"
  by simp

lift_definition times_assn :: "'a assn \<Rightarrow> 'a assn \<Rightarrow> 'a assn" is
  "\<lambda>P Q. {m1 ++ m2 | m1 m2. m1 \<in> P \<and> m2 \<in> Q \<and> dom m1 \<inter> dom m2 = {}}"
  by auto

instance
proof
  fix P Q R :: "'a assn"
  show "P * Q = Q * P"
    by transfer (blast intro: map_add_comm)
  show "1 * P = P"
    by transfer auto
  show "P * Q * R = P * (Q * R)"
  proof (transfer, intro set_eqI iffI)
    fix P Q R :: "(nat \<rightharpoonup> 'a) set" and m
    assume "m \<in> {m1 ++ m2 |m1 m2. m1 \<in> {m1 ++ m2 |m1 m2. m1 \<in> P \<and> m2 \<in> Q \<and> dom m1 \<inter> dom m2 = {}}
      \<and> m2 \<in> R \<and> dom m1 \<inter> dom m2 = {}}"
    then obtain a b c where *: "m = (a ++ b) ++ c" "a \<in> P" "b \<in> Q" "c \<in> R"
      "dom a \<inter> dom b = {}" "(dom b \<union> dom a) \<inter> dom c = {}" by auto
    then have "m = a ++ (b ++ c)" "dom b \<inter> dom c = {}" "dom a \<inter> dom (b ++ c) = {}"
      by auto
    with *(2,3,4) show "m \<in> {m1 ++ m2 |m1 m2. m1 \<in> P \<and> m2 \<in> {m1 ++ m2 |m1 m2. m1 \<in> Q \<and> m2 \<in> R
      \<and> dom m1 \<inter> dom m2 = {}} \<and> dom m1 \<inter> dom m2 = {}}" by blast
  next
    fix P Q R :: "(nat \<rightharpoonup> 'a) set" and m
    assume "m \<in> {m1 ++ m2 |m1 m2. m1 \<in> P \<and> m2 \<in> {m1 ++ m2 |m1 m2. m1 \<in> Q \<and> m2 \<in> R
      \<and> dom m1 \<inter> dom m2 = {}} \<and> dom m1 \<inter> dom m2 = {}}"
    then obtain a b c where *: "m = a ++ (b ++ c)" "a \<in> P" "b \<in> Q" "c \<in> R"
      "dom b \<inter> dom c = {}" "dom a \<inter> (dom c \<union> dom b) = {}"
      by (auto simp del: map_add_assoc)
    then have "m = (a ++ b) ++ c" "dom a \<inter> dom b = {}" "dom (a ++ b) \<inter> dom c = {}"
      by auto
    with *(2,3,4) show "m \<in> {m1 ++ m2 |m1 m2. m1 \<in> {m1 ++ m2 |m1 m2. m1 \<in> P \<and> m2 \<in> Q
      \<and> dom m1 \<inter> dom m2 = {}} \<and> m2 \<in> R \<and> dom m1 \<inter> dom m2 = {}}" by blast
  qed
qed

end

lemma sat_times:
  "sat m (P * Q) \<longleftrightarrow> (\<exists>m1 m2. m = m1 ++ m2 \<and> sat m1 P \<and> sat m2 Q \<and> dom m1 \<inter> dom m2 = {})"
  by transfer blast

text \<open>A fact without a block, a choice, one block, and exactly one memory.\<close>

lift_definition only_if :: "bool \<Rightarrow> 'b assn" is "\<lambda>b. if b then {Map.empty} else {}"
  by (auto split: if_splits)

lift_definition exist :: "('x \<Rightarrow> 'b assn) \<Rightarrow> 'b assn" is "\<lambda>f. \<Union>x. f x"
  by blast

lift_definition cell :: "nat \<Rightarrow> 'b \<Rightarrow> 'b assn" is
  "\<lambda>a b. if a = 0 then {} else {[a \<mapsto> b]}"
  by (auto split: if_splits)

lift_definition exactly :: "(nat \<rightharpoonup> 'b) \<Rightarrow> 'b assn" is
  "\<lambda>m. if finite (dom m) then {m} else {}"
  by (auto split: if_splits)

lemma sat_exactly [simp]: "sat m (exactly m0) \<longleftrightarrow> m = m0 \<and> finite (dom m0)"
  by transfer auto

lemma sat_exist [simp]: "sat m (exist f) \<longleftrightarrow> (\<exists>x. sat m (f x))"
  by transfer blast

lemma exist_times: "exist f * Q = exist (\<lambda>x. f x * Q)" "Q * exist f = exist (\<lambda>x. Q * f x)"
proof -
  show "exist f * Q = exist (\<lambda>x. f x * Q)" by transfer blast
  then show "Q * exist f = exist (\<lambda>x. Q * f x)" by (simp add: mult.commute)
qed

lemma sat_exist_times [simp]:
  "sat m (exist f * Q) \<longleftrightarrow> (\<exists>x. sat m (f x * Q))"
  by (simp add: exist_times)

lemma only_if_True [simp]: "only_if True = 1"
  by transfer simp

lemma sat_only_if_times [simp]: "sat m (only_if b * Q) \<longleftrightarrow> b \<and> sat m Q"
  by (cases b) (simp, transfer, simp)

lemma sat_only_if [simp]: "sat m (only_if b) \<longleftrightarrow> b \<and> m = Map.empty"
  by transfer simp

text \<open>Owning a block and a rest, in terms of the memory itself.\<close>

lemma sat_one_cell: "sat m (cell a b) \<longleftrightarrow> a \<noteq> 0 \<and> m = [a \<mapsto> b]"
  by transfer auto

lemma sat_cell [simp]:
  "sat m (cell a b * Q) \<longleftrightarrow> a \<noteq> 0 \<and> m a = Some b \<and> sat (m(a := None)) Q"
proof (intro iffI conjI)
  assume "sat m (cell a b * Q)"
  then obtain m2 where *: "a \<noteq> 0" "m = [a \<mapsto> b] ++ m2" "sat m2 Q" "a \<notin> dom m2"
    by (auto simp: sat_times sat_one_cell)
  then show "a \<noteq> 0" "m a = Some b" by (auto simp: map_add_def domIff)
  have "m(a := None) = m2" using * by (auto simp: fun_eq_iff map_add_def domIff split: option.splits)
  then show "sat (m(a := None)) Q" using *(3) by simp
next
  assume *: "a \<noteq> 0 \<and> m a = Some b \<and> sat (m(a := None)) Q"
  have "m = [a \<mapsto> b] ++ m(a := None)"
    using * by (auto simp: fun_eq_iff map_add_def split: option.splits)
  moreover have "dom [a \<mapsto> b] \<inter> dom (m(a := None)) = {}" by auto
  ultimately show "sat m (cell a b * Q)"
    using * unfolding sat_times sat_one_cell by blast
qed

text \<open>What is beside a part can be named exactly, and has none of its blocks.\<close>

lemma sat_exact:
  assumes "sat m (P * Q)"
  obtains m2 where "sat m (P * exactly m2)" "sat m2 Q" "m2 \<subseteq>\<^sub>m m"
proof -
  obtain m1 m2 where *: "m = m1 ++ m2" "sat m1 P" "sat m2 Q" "dom m1 \<inter> dom m2 = {}"
    using assms by (auto simp: sat_times)
  then have "sat m (P * exactly m2)" using sat_finite [OF *(3)] by (auto simp: sat_times)
  moreover have "m2 \<subseteq>\<^sub>m m" using *(1) by (simp add: map_le_def map_add_dom_app_simps)
  ultimately show thesis using that *(3) by blast
qed

lemma exactly_apart:
  assumes "sat m (cell a b * (P * exactly m2))"
  shows "m2 a = None"
proof -
  have "sat (m(a := None)) (P * exactly m2)" using assms by simp
  then obtain m1 where "m(a := None) = m1 ++ m2" by (auto simp: sat_times)
  then have "(m1 ++ m2) a = None" by (metis fun_upd_same)
  then show ?thesis by simp
qed

lemma prod_list_nth:
  assumes "k < length xs"
  shows "prod_list (map f xs) = (f (xs ! k) * prod_list (map f (take k xs @ drop (Suc k) xs)) :: 'b assn)"
    and "prod_list (map f (xs[k := x])) = (f x * prod_list (map f (take k xs @ drop (Suc k) xs)) :: 'b assn)"
proof -
  show "prod_list (map f xs) = f (xs ! k) * prod_list (map f (take k xs @ drop (Suc k) xs))"
    by (subst id_take_nth_drop [OF assms]) (simp add: ac_simps)
  show "prod_list (map f (xs[k := x])) = f x * prod_list (map f (take k xs @ drop (Suc k) xs))"
    by (subst upd_conv_take_nth_drop [OF assms]) (simp add: ac_simps)
qed

lemma prod_list_update:
  "i < length xs \<Longrightarrow> prod_list (xs[i := y]) * xs ! i = prod_list xs * (y :: 'b assn)"
  by (induction xs arbitrary: i) (auto simp: ac_simps split: nat.splits)

section \<open>The blocks of the program\<close>

text \<open>
  What a block holds: the pointers to other blocks and the fields that decide about them. The
  texts of a URL, the structures \<^verbatim>\<open>parsed_url\<close>, \<^verbatim>\<open>destination_t\<close>, \<^verbatim>\<open>buffer_t\<close>, \<^verbatim>\<open>session_service_t\<close>
  and \<^verbatim>\<open>linked_list\<close>, and the buffer of a destination. A list is given by its data pointers, which the
  theory of linked lists justifies. The null pointer is 0.
\<close>

type_synonym ptr = nat

record url_ptrs =
  p_scheme :: ptr
  p_host :: ptr
  p_port :: ptr
  p_path :: ptr
  p_query :: ptr
  p_fragment :: ptr
  p_username :: ptr
  p_password :: ptr

record dest_ptrs =
  dp_type :: dest_type
  dp_size :: nat
  dp_expired :: bool
  dp_buffer :: ptr
  dp_url :: ptr

record sess_ptrs =
  sp_id :: u64
  sp_onid :: u16
  sp_channel_id :: u16
  sp_running :: bool              \<comment> \<open>\<^verbatim>\<open>state == 1\<close>\<close>
  sp_buffer :: ptr
  sp_dests :: ptr

datatype block =
    Chars string
  | Url_Block url_ptrs
  | Bytes nat
  | Dest_Block dest_ptrs
  | Queue_Block ptr               \<comment> \<open>the session the buffer belongs to\<close>
  | Session_Block sess_ptrs
  | List_Block "ptr list"

type_synonym mem = "ptr \<rightharpoonup> block"

section \<open>The allocator\<close>

text \<open>
  Which requests succeed, by their size alone (two requests of one size cannot differ, as those of a real
  allocator may), and where the block is put; \<^verbatim>\<open>free\<close> of the null pointer does nothing. The sizes of the structures are those of the x86-64 ABI.
\<close>

record allocator =
  al_ok :: "nat \<Rightarrow> bool"
  al_addr :: "mem \<Rightarrow> ptr"

definition malloc :: "allocator \<Rightarrow> nat \<Rightarrow> block \<Rightarrow> mem \<Rightarrow> ptr \<times> mem" where
  "malloc al n b m =
     (if al_ok al n then (al_addr al m, m(al_addr al m \<mapsto> b)) else (0, m))"

definition free :: "ptr \<Rightarrow> mem \<Rightarrow> mem res" where
  "free a m =
     (if a = 0 then Inr m
      else case m a of None \<Rightarrow> Inl BadPointer | Some _ \<Rightarrow> Inr (m(a := None)))"

definition malloc_ok :: "allocator \<Rightarrow> bool" where
  "malloc_ok al \<longleftrightarrow> (\<forall>m. finite (dom m) \<longrightarrow> al_addr al m \<noteq> 0 \<and> m (al_addr al m) = None)"

definition SIZEOF_URL :: nat where "SIZEOF_URL = 64"
definition SIZEOF_DEST :: nat where "SIZEOF_DEST = 1152"
definition SIZEOF_QUEUE :: nat where "SIZEOF_QUEUE = 1048648"
definition SIZEOF_SESSION :: nat where "SIZEOF_SESSION = 248"
definition SIZEOF_LIST :: nat where "SIZEOF_LIST = 80"

text \<open>Following a pointer to a block of a kind.\<close>

definition load :: "mem \<Rightarrow> ptr \<Rightarrow> block res" where
  "load m a =
     (if a = 0 then Inl NullPointer
      else case m a of None \<Rightarrow> Inl BadPointer | Some b \<Rightarrow> Inr b)"

definition load_url :: "mem \<Rightarrow> ptr \<Rightarrow> url_ptrs res" where
  "load_url m a = bind_res (load m a) (\<lambda>b. case b of Url_Block c \<Rightarrow> Inr c | _ \<Rightarrow> Inl BadPointer)"

definition load_dest :: "mem \<Rightarrow> ptr \<Rightarrow> dest_ptrs res" where
  "load_dest m a = bind_res (load m a) (\<lambda>b. case b of Dest_Block c \<Rightarrow> Inr c | _ \<Rightarrow> Inl BadPointer)"

definition load_queue :: "mem \<Rightarrow> ptr \<Rightarrow> ptr res" where
  "load_queue m a = bind_res (load m a) (\<lambda>b. case b of Queue_Block c \<Rightarrow> Inr c | _ \<Rightarrow> Inl BadPointer)"

definition load_session :: "mem \<Rightarrow> ptr \<Rightarrow> sess_ptrs res" where
  "load_session m a =
     bind_res (load m a) (\<lambda>b. case b of Session_Block c \<Rightarrow> Inr c | _ \<Rightarrow> Inl BadPointer)"

definition load_list :: "mem \<Rightarrow> ptr \<Rightarrow> ptr list res" where
  "load_list m a = bind_res (load m a) (\<lambda>b. case b of List_Block c \<Rightarrow> Inr c | _ \<Rightarrow> Inl BadPointer)"

named_theorems load_defs "readers of the kinds of blocks"

declare load_def [load_defs] load_url_def [load_defs] load_dest_def [load_defs]
  load_queue_def [load_defs] load_session_def [load_defs] load_list_def [load_defs]

text \<open>A block that is owned can be read, freed and replaced, and a fresh one is added.\<close>

lemma load_simps [simp]:
  "m a = Some (Url_Block u) \<Longrightarrow> a \<noteq> 0 \<Longrightarrow> load_url m a = Inr u"
  "m a = Some (Dest_Block d) \<Longrightarrow> a \<noteq> 0 \<Longrightarrow> load_dest m a = Inr d"
  "m a = Some (Queue_Block s) \<Longrightarrow> a \<noteq> 0 \<Longrightarrow> load_queue m a = Inr s"
  "m a = Some (Session_Block s') \<Longrightarrow> a \<noteq> 0 \<Longrightarrow> load_session m a = Inr s'"
  "m a = Some (List_Block l) \<Longrightarrow> a \<noteq> 0 \<Longrightarrow> load_list m a = Inr l"
  "m a = Some b \<Longrightarrow> a \<noteq> 0 \<Longrightarrow> load m a = Inr b"
  by (simp_all add: load_defs)

lemma free_cell:
  assumes "sat m (cell a b * F)"
  shows "free a m = Inr (m(a := None)) \<and> sat (m(a := None)) F"
  using assms by (simp add: free_def)

lemma store_cell:
  assumes "sat m (cell a b * F)"
  shows "sat (m(a \<mapsto> b')) (cell a b' * F)"
  using assms by simp

lemma malloc_cell:
  assumes "malloc_ok al" "al_ok al n" "sat m F"
  shows "\<exists>a m'. malloc al n b m = (a, m') \<and> a \<noteq> 0 \<and> sat m' (cell a b * F)"
proof -
  have "al_addr al m \<noteq> 0" "m (al_addr al m) = None"
    using assms(1) sat_finite [OF assms(3)] by (auto simp: malloc_ok_def)
  moreover from this have "m(al_addr al m := None) = m" by auto
  ultimately show ?thesis using assms(2,3) by (simp add: malloc_def)
qed

text \<open>An allocator: one past the highest address in use.\<close>

definition bump_allocator :: "(nat \<Rightarrow> bool) \<Rightarrow> allocator" where
  "bump_allocator ok = \<lparr>al_ok = ok, al_addr = (\<lambda>m. Suc (Max (insert 0 (dom m))))\<rparr>"

lemma al_ok_bump [simp]: "al_ok (bump_allocator ok) = ok"
  by (simp add: bump_allocator_def)

lemma bump_allocator_ok [simp]: "malloc_ok (bump_allocator ok)"
proof -
  have "m (Suc (Max (insert 0 (dom m)))) = None" if "finite (dom m)" for m :: mem
  proof (rule ccontr)
    assume "m (Suc (Max (insert 0 (dom m)))) \<noteq> None"
    then have "Suc (Max (insert 0 (dom m))) \<le> Max (insert 0 (dom m))"
      using that by (intro Max_ge) auto
    then show False by simp
  qed
  then show ?thesis by (simp add: malloc_ok_def bump_allocator_def)
qed

end
