(* ===== verification/Ownership.thy ===== *)
theory Ownership
  imports Blocks
begin

text \<open>
  The URLs and destinations of \<^verbatim>\<open>src/DVB/utils.c\<close> and \<^verbatim>\<open>src/DVB/destination.c\<close> once more, now with
  the blocks they allocate and free. \<open>parse_url\<close> is given stage by stage as before, and every stage
  that fails frees what was built; the theorems say that it computes the same URL as the pure parser,
  that a URL that is refused leaves nothing behind, and that destroying a destination gives back
  exactly what creating it took.
\<close>

section \<open>Parsing into allocated blocks\<close>

text \<open>
  A step works on the memory and may fail, with the memory as it is then. \<open>p\<close> is the structure
  that is filled.
\<close>

type_synonym 'a build = "mem \<Rightarrow> ('a option \<times> mem) res"

definition keep :: "'a \<Rightarrow> 'a build" where
  "keep x m = Inr (Some x, m)"

definition give_up :: "'a build" where
  "give_up m = Inr (None, m)"

definition and_then :: "'a build \<Rightarrow> ('a \<Rightarrow> 'b build) \<Rightarrow> 'b build" where
  "and_then f g m =
     bind_res (f m) (\<lambda>(r, m'). case r of None \<Rightarrow> Inr (None, m') | Some x \<Rightarrow> g x m')"

text \<open>A part is copied: allocated, stored in its field, and checked.\<close>

definition copy_part ::
  "allocator \<Rightarrow> ptr \<Rightarrow> (ptr \<Rightarrow> url_ptrs \<Rightarrow> url_ptrs) \<Rightarrow> string \<Rightarrow> unit build" where
  "copy_part al p put s m =
     (case malloc al (length s + 1) (Chars s) m of
        (a, m1) \<Rightarrow>
          bind_res (load_url m1 p) (\<lambda>c.
            if a = 0 then Inr (None, m1(p \<mapsto> Url_Block (put a c)))
            else Inr (Some (), m1(p \<mapsto> Url_Block (put a c)))))"

definition put_scheme :: "ptr \<Rightarrow> url_ptrs \<Rightarrow> url_ptrs" where "put_scheme a c = c\<lparr>p_scheme := a\<rparr>"
definition put_host :: "ptr \<Rightarrow> url_ptrs \<Rightarrow> url_ptrs" where "put_host a c = c\<lparr>p_host := a\<rparr>"
definition put_port :: "ptr \<Rightarrow> url_ptrs \<Rightarrow> url_ptrs" where "put_port a c = c\<lparr>p_port := a\<rparr>"
definition put_path :: "ptr \<Rightarrow> url_ptrs \<Rightarrow> url_ptrs" where "put_path a c = c\<lparr>p_path := a\<rparr>"
definition put_query :: "ptr \<Rightarrow> url_ptrs \<Rightarrow> url_ptrs" where "put_query a c = c\<lparr>p_query := a\<rparr>"
definition put_fragment :: "ptr \<Rightarrow> url_ptrs \<Rightarrow> url_ptrs" where
  "put_fragment a c = c\<lparr>p_fragment := a\<rparr>"
definition put_username :: "ptr \<Rightarrow> url_ptrs \<Rightarrow> url_ptrs" where
  "put_username a c = c\<lparr>p_username := a\<rparr>"
definition put_password :: "ptr \<Rightarrow> url_ptrs \<Rightarrow> url_ptrs" where
  "put_password a c = c\<lparr>p_password := a\<rparr>"

definition build_scheme :: "allocator \<Rightarrow> ptr \<Rightarrow> string \<Rightarrow> string build" where
  "build_scheme al p curstr =
     (if CHR '':'' \<notin> set curstr then give_up
      else
        let s = takeWhile (\<lambda>c. c \<noteq> CHR '':'') curstr in
        if \<not> list_all is_scheme_char s then give_up
        else and_then (copy_part al p put_scheme (map c_tolower s))
               (\<lambda>_. keep (drop (length s + 1) curstr)))"

definition of_option :: "'a option \<Rightarrow> 'a build" where
  "of_option x = (case x of None \<Rightarrow> give_up | Some y \<Rightarrow> keep y)"

definition build_password :: "allocator \<Rightarrow> ptr \<Rightarrow> string \<Rightarrow> string build" where
  "build_password al p curstr =
     (if curstr \<noteq> [] \<and> hd curstr = CHR '':'' then
        let pass = takeWhile (\<lambda>c. c \<noteq> CHR ''@'') (tl curstr) in
        and_then (copy_part al p put_password pass)
          (\<lambda>_. of_option (skip_at (drop (length pass) (tl curstr))))
      else of_option (skip_at curstr))"

definition build_userinfo :: "allocator \<Rightarrow> ptr \<Rightarrow> string \<Rightarrow> string build" where
  "build_userinfo al p curstr =
     (if userpass_flag curstr then
        let user = takeWhile (\<lambda>c. c \<noteq> CHR '':'' \<and> c \<noteq> CHR ''@'') curstr in
        and_then (copy_part al p put_username user)
          (\<lambda>_. build_password al p (drop (length user) curstr))
      else keep curstr)"

definition build_host :: "allocator \<Rightarrow> ptr \<Rightarrow> string \<Rightarrow> string build" where
  "build_host al p curstr =
     (let bracket_flag = (curstr \<noteq> [] \<and> hd curstr = CHR ''['');
          h = host_span bracket_flag curstr in
      and_then (copy_part al p put_host h)
        (\<lambda>_. if h = [] then give_up else keep (drop (length h) curstr)))"

definition build_port :: "allocator \<Rightarrow> ptr \<Rightarrow> string \<Rightarrow> string build" where
  "build_port al p curstr =
     (if curstr \<noteq> [] \<and> hd curstr = CHR '':'' then
        let s = takeWhile (\<lambda>c. c \<noteq> CHR ''/'') (tl curstr) in
        and_then (copy_part al p put_port s) (\<lambda>_. keep (drop (length s) (tl curstr)))
      else keep curstr)"

definition build_query :: "allocator \<Rightarrow> ptr \<Rightarrow> string \<Rightarrow> string build" where
  "build_query al p curstr =
     (if curstr \<noteq> [] \<and> hd curstr = CHR ''?'' then
        let q = takeWhile (\<lambda>c. c \<noteq> CHR ''#'') (tl curstr) in
        and_then (copy_part al p put_query q) (\<lambda>_. keep (drop (length q) (tl curstr)))
      else keep curstr)"

definition build_fragment :: "allocator \<Rightarrow> ptr \<Rightarrow> string \<Rightarrow> unit build" where
  "build_fragment al p curstr =
     (if curstr \<noteq> [] \<and> hd curstr = CHR ''#'' then copy_part al p put_fragment (tl curstr)
      else keep ())"

definition build_path :: "allocator \<Rightarrow> ptr \<Rightarrow> string \<Rightarrow> unit build" where
  "build_path al p curstr =
     (case curstr of
        [] \<Rightarrow> keep ()
      | c # cs \<Rightarrow>
          if c \<noteq> CHR ''/'' then give_up
          else
            let s = takeWhile (\<lambda>c. c \<noteq> CHR ''#'' \<and> c \<noteq> CHR ''?'') cs in
            and_then (copy_part al p put_path s) (\<lambda>_.
            and_then (build_query al p (drop (length s) cs)) (build_fragment al p)))"

text \<open>The parts that are there, and then the structure, are freed.\<close>

definition url_fields :: "url_ptrs \<Rightarrow> ptr list" where
  "url_fields c = [p_scheme c, p_host c, p_port c, p_path c, p_query c, p_fragment c,
     p_username c, p_password c]"

fun free_parts :: "ptr list \<Rightarrow> mem \<Rightarrow> mem res" where
  "free_parts [] m = Inr m"
| "free_parts (a # as) m =
     bind_res (if a \<noteq> 0 then free a m else Inr m) (free_parts as)"

definition parsed_url_free :: "ptr \<Rightarrow> mem \<Rightarrow> mem res" where
  "parsed_url_free p m =
     (if p \<noteq> 0 then
        bind_res (load_url m p) (\<lambda>c. bind_res (free_parts (url_fields c) m) (free p))
      else Inr m)"

definition empty_url :: url_ptrs where
  "empty_url = \<lparr>p_scheme = 0, p_host = 0, p_port = 0, p_path = 0, p_query = 0, p_fragment = 0,
     p_username = 0, p_password = 0\<rparr>"

definition build_url :: "allocator \<Rightarrow> string \<Rightarrow> mem \<Rightarrow> (ptr \<times> mem) res" where
  "build_url al url m =
     (case malloc al SIZEOF_URL (Url_Block empty_url) m of
        (p, m1) \<Rightarrow>
          if p = 0 then Inr (0, m1)
          else
            bind_res
              (and_then (build_scheme al p url) (\<lambda>rest.
               and_then (of_option (eat_slashes 2 rest)) (\<lambda>rest.
               and_then (build_userinfo al p rest) (\<lambda>rest.
               and_then (build_host al p rest) (\<lambda>rest.
               and_then (build_port al p rest) (build_path al p))))) m1)
              (\<lambda>(r, m2). case r of
                 None \<Rightarrow> bind_res (parsed_url_free p m2) (\<lambda>m3. Inr (0, m3))
               | Some _ \<Rightarrow> Inr (p, m2)))"

section \<open>What a URL owns\<close>

text \<open>Its structure and the parts it has; \<open>ts\<close> are their texts, field by field.\<close>

definition part_at :: "ptr \<Rightarrow> string option \<Rightarrow> block assn" where
  "part_at a t = (case t of None \<Rightarrow> only_if (a = 0) | Some s \<Rightarrow> cell a (Chars s))"

definition parts_at :: "ptr list \<Rightarrow> string option list \<Rightarrow> block assn" where
  "parts_at as ts = prod_list (map2 part_at as ts)"

definition texts_at :: "ptr \<Rightarrow> string option list \<Rightarrow> block assn" where
  "texts_at p ts = exist (\<lambda>c. cell p (Url_Block c) * parts_at (url_fields c) ts)"

definition url_texts :: "parsed_url \<Rightarrow> string option list" where
  "url_texts u = [Some (scheme u), Some (host u), port u, path u, query u, fragment u,
     username u, password u]"

definition url_at :: "ptr \<Rightarrow> parsed_url \<Rightarrow> block assn" where
  "url_at p u = texts_at p (url_texts u)"

lemma parts_at_simps [simp]:
  "parts_at [] [] = 1"
  "parts_at (a # as) (t # ts) = part_at a t * parts_at as ts"
  by (simp_all add: parts_at_def)

lemma length_url_fields [simp]: "length (url_fields c) = 8"
  by (simp add: url_fields_def)

lemma length_url_texts [simp]: "length (url_texts u) = 8"
  by (simp add: url_texts_def)

lemma free_parts_at:
  assumes "length as = length ts" "sat m (parts_at as ts * F)"
  shows "\<exists>m'. free_parts as m = Inr m' \<and> sat m' F"
  using assms
proof (induction as ts arbitrary: m rule: list_induct2)
  case (Cons a as t ts)
  show ?case
  proof (cases t)
    case (Some s)
    with Cons.prems have "sat m (cell a (Chars s) * (parts_at as ts * F))"
      by (simp add: part_at_def mult.assoc)
    then show ?thesis using Cons.IH [of "m(a := None)"] free_cell [of m a] by fastforce
  next
    case None
    with Cons show ?thesis by (simp add: part_at_def mult.assoc)
  qed
qed simp

lemma texts_at_free:
  assumes "sat m (texts_at p ts * F)" "length ts = 8"
  shows "\<exists>m'. parsed_url_free p m = Inr m' \<and> sat m' F"
proof -
  obtain c where c: "sat m (cell p (Url_Block c) * (parts_at (url_fields c) ts * F))"
    using assms(1) by (auto simp: texts_at_def mult.assoc)
  then have l: "load_url m p = Inr c" "p \<noteq> 0" by auto
  have "sat m (parts_at (url_fields c) ts * (cell p (Url_Block c) * F))"
    using c by (simp only: ac_simps)
  then obtain m1 where "free_parts (url_fields c) m = Inr m1" "sat m1 (cell p (Url_Block c) * F)"
    using free_parts_at assms(2) by (metis length_url_fields)
  then show ?thesis using l free_cell [of m1 p "Url_Block c" F]
    by (auto simp: parsed_url_free_def)
qed

section \<open>Parsing computes the URL and owns it\<close>

lemma put_fields:
  "url_fields (put_scheme a c) = (url_fields c)[0 := a]"
  "url_fields (put_host a c) = (url_fields c)[1 := a]"
  "url_fields (put_port a c) = (url_fields c)[2 := a]"
  "url_fields (put_path a c) = (url_fields c)[3 := a]"
  "url_fields (put_query a c) = (url_fields c)[4 := a]"
  "url_fields (put_fragment a c) = (url_fields c)[5 := a]"
  "url_fields (put_username a c) = (url_fields c)[6 := a]"
  "url_fields (put_password a c) = (url_fields c)[7 := a]"
  by (simp_all add: url_fields_def put_scheme_def put_host_def put_port_def put_path_def
      put_query_def put_fragment_def put_username_def put_password_def numeral_nat)

lemma parts_at_update:
  assumes "length as = length ts" "i < length ts"
  shows "parts_at (as[i := a]) (ts[i := t]) * part_at (as ! i) (ts ! i)
    = parts_at as ts * part_at a t"
  using prod_list_update [of i "map2 part_at as ts" "part_at a t"] assms
  by (simp add: parts_at_def zip_update map_update)

lemma copy_part_at:
  assumes al: "malloc_ok al" and m: "sat m (texts_at p ts * F)"
    and ts: "length ts = 8" "i < 8" "ts ! i = None"
    and put: "\<And>a c. url_fields (put a c) = (url_fields c)[i := a]"
  shows "\<exists>m'. copy_part al p put s m = Inr (if al_ok al (length s + 1) then Some () else None, m')
    \<and> sat m' (texts_at p (if al_ok al (length s + 1) then ts[i := Some s] else ts) * F)"
proof -
  obtain c where c: "sat m (cell p (Url_Block c) * (parts_at (url_fields c) ts * F))"
    using m by (auto simp: texts_at_def mult.assoc)
  let ?as = "url_fields c"
  have up: "parts_at (?as[i := a]) (ts[i := t]) * part_at (?as ! i) None
      = parts_at ?as ts * part_at a t" for a t
    using parts_at_update [of ?as ts i a t] ts by simp
  have nul: "?as ! i = 0"
  proof (rule ccontr)
    assume "?as ! i \<noteq> 0"
    moreover have "ts[i := None] = ts" using ts(3) by (metis list_update_id)
    ultimately have "parts_at ?as ts = only_if False * parts_at (?as[i := 0]) ts"
      using up [of 0 None] by (simp add: part_at_def mult.commute)
    then show False using c by (simp add: mult.assoc)
  qed
  show ?thesis
  proof (cases "al_ok al (length s + 1)")
    case True
    obtain a m1 where a: "malloc al (length s + 1) (Chars s) m = (a, m1)" "a \<noteq> 0"
      "sat m1 (cell a (Chars s) * (cell p (Url_Block c) * (parts_at ?as ts * F)))"
      using malloc_cell [OF al True c] by blast
    then have m1: "sat m1 (cell p (Url_Block c) * (parts_at (?as[i := a]) (ts[i := Some s]) * F))"
      using up [of a "Some s"] nul by (simp add: part_at_def ac_simps)
    then have "sat (m1(p \<mapsto> Url_Block (put a c)))
        (cell p (Url_Block (put a c)) * (parts_at (url_fields (put a c)) (ts[i := Some s]) * F))"
      unfolding put by (rule store_cell)
    then have "sat (m1(p \<mapsto> Url_Block (put a c))) (texts_at p (ts[i := Some s]) * F)"
      by (auto simp: texts_at_def mult.assoc)
    moreover have "load_url m1 p = Inr c" using m1 by simp
    ultimately show ?thesis using True a by (simp add: copy_part_def)
  next
    case False
    then have "malloc al (length s + 1) (Chars s) m = (0, m)" by (simp add: malloc_def)
    moreover have "sat (m(p \<mapsto> Url_Block (put 0 c)))
        (cell p (Url_Block (put 0 c)) * (parts_at (url_fields (put 0 c)) ts * F))"
      unfolding put using store_cell [OF c] nul by (metis list_update_id)
    then have "sat (m(p \<mapsto> Url_Block (put 0 c))) (texts_at p ts * F)"
      by (auto simp: texts_at_def mult.assoc)
    ultimately show ?thesis using False c by (simp add: copy_part_def)
  qed
qed

text \<open>
  What a stage must do: fail, with some of the parts in place, where the pure stage fails, and
  otherwise return what it returns with the texts in place.
\<close>

definition builds ::
  "('a option \<times> mem) res \<Rightarrow> ptr \<Rightarrow> block assn \<Rightarrow> ('a \<times> string option list) option \<Rightarrow> bool" where
  "builds r p F e =
     (case e of
        None \<Rightarrow> \<exists>m' ts. r = Inr (None, m') \<and> length ts = 8 \<and> sat m' (texts_at p ts * F)
      | Some (x, ts) \<Rightarrow> \<exists>m'. r = Inr (Some x, m') \<and> length ts = 8 \<and> sat m' (texts_at p ts * F))"

lemma builds_keep:
  "sat m (texts_at p ts * F) \<Longrightarrow> length ts = 8 \<Longrightarrow> builds (keep x m) p F (Some (x, ts))"
  by (simp add: builds_def keep_def)

lemma builds_give_up:
  "sat m (texts_at p ts * F) \<Longrightarrow> length ts = 8 \<Longrightarrow> builds (give_up m) p F None"
  by (auto simp: builds_def give_up_def)

lemma builds_of_option:
  assumes "sat m (texts_at p ts * F)" "length ts = 8"
  shows "builds (of_option x m) p F (map_option (\<lambda>y. (y, ts)) x)"
  using builds_keep [OF assms] builds_give_up [OF assms] by (cases x) (simp_all add: of_option_def)

lemma builds_then:
  assumes "builds (f m) p F e1" "e1 = None \<Longrightarrow> e2 = None"
    and "\<And>x ts m'. e1 = Some (x, ts) \<Longrightarrow> length ts = 8 \<Longrightarrow> sat m' (texts_at p ts * F)
      \<Longrightarrow> builds (g x m') p F e2"
  shows "builds (and_then f g m) p F e2"
proof (cases e1)
  case None
  with assms(1,2) show ?thesis by (auto simp: builds_def and_then_def)
next
  case (Some y)
  obtain x ts where y: "y = (x, ts)" by force
  with assms(1) Some obtain m' where m': "f m = Inr (Some x, m')" "length ts = 8"
    "sat m' (texts_at p ts * F)" by (auto simp: builds_def)
  with assms(3) Some y show ?thesis by (simp add: and_then_def)
qed

lemma builds_copy:
  assumes "malloc_ok al" "sat m (texts_at p ts * F)" "length ts = 8" "i < 8" "ts ! i = None"
    and "\<And>a c. url_fields (put a c) = (url_fields c)[i := a]"
  shows "builds (copy_part al p put s m) p F
    (if al_ok al (length s + 1) then Some ((), ts[i := Some s]) else None)"
proof -
  obtain m' where "copy_part al p put s m = Inr (if al_ok al (length s + 1) then Some () else None, m')"
    "sat m' (texts_at p (if al_ok al (length s + 1) then ts[i := Some s] else ts) * F)"
    using copy_part_at [OF assms, of s] by blast
  then show ?thesis using assms(3) by (auto simp: builds_def)
qed

lemma builds_copy_then:
  assumes "malloc_ok al" "sat m (texts_at p ts * F)" "length ts = 8" "i < 8" "ts ! i = None"
    and "\<And>a c. url_fields (put a c) = (url_fields c)[i := a]"
    and "\<not> al_ok al (length s + 1) \<Longrightarrow> e = None"
    and "\<And>m'. al_ok al (length s + 1) \<Longrightarrow> sat m' (texts_at p (ts[i := Some s]) * F)
      \<Longrightarrow> builds (g () m') p F e"
  shows "builds (and_then (copy_part al p put s) g m) p F e"
proof (rule builds_then)
  show "builds (copy_part al p put s m) p F
      (if al_ok al (length s + 1) then Some ((), ts[i := Some s]) else None)"
    by (rule builds_copy) (use assms(1-6) in auto)
qed (use assms(7,8) in \<open>auto split: if_splits\<close>)

lemma builds_whole:
  assumes "malloc_ok al" "sat m (texts_at p ts * F)" "length ts = 8" "i < 8" "ts ! i = None"
    and "\<And>a c. url_fields (put a c) = (url_fields c)[i := a]"
    and "e = (if al_ok al (length s + 1) then Some ((), ts[i := Some s]) else None)"
  shows "builds (copy_part al p put s m) p F e"
  using builds_copy [where s = s, OF assms(1-6)] assms(7) by simp

lemma build_scheme_at:
  assumes "malloc_ok al" "sat m (texts_at p (replicate 8 None) * F)"
  shows "builds (build_scheme al p s m) p F
    (map_option (\<lambda>(x, rest). (rest, Some x # replicate 7 None)) (parse_scheme (al_ok al) s))"
proof (cases "CHR '':'' \<in> set s \<and> list_all is_scheme_char (takeWhile (\<lambda>c. c \<noteq> CHR '':'') s)")
  case True
  then have "build_scheme al p s m = and_then (copy_part al p put_scheme
      (map c_tolower (takeWhile (\<lambda>c. c \<noteq> CHR '':'') s)))
      (\<lambda>_. keep (drop (length (takeWhile (\<lambda>c. c \<noteq> CHR '':'') s) + 1) s)) m"
    by (simp add: build_scheme_def Let_def)
  with True show ?thesis
    by (auto simp: parse_scheme_def Let_def put_fields numeral_nat
        intro!: builds_copy_then [OF assms, where i = 0] builds_keep)
next
  case False
  then show ?thesis using builds_give_up [OF assms(2)]
    by (auto simp: build_scheme_def parse_scheme_def Let_def)
qed

definition password_of ::
  "(nat \<Rightarrow> bool) \<Rightarrow> string \<Rightarrow> (string option \<times> string) option" where
  "password_of ok rest =
     (if rest \<noteq> [] \<and> hd rest = CHR '':'' then
        let pass = takeWhile (\<lambda>c. c \<noteq> CHR ''@'') (tl rest) in
        if \<not> ok (length pass + 1) then None
        else map_option (\<lambda>r. (Some pass, r)) (skip_at (drop (length pass) (tl rest)))
      else map_option (\<lambda>r. (None, r)) (skip_at rest))"

lemma parse_userinfo_password:
  "parse_userinfo ok s =
     (if userpass_flag s then
        let user = takeWhile (\<lambda>c. c \<noteq> CHR '':'' \<and> c \<noteq> CHR ''@'') s in
        if \<not> ok (length user + 1) then None
        else map_option (\<lambda>(pw, r). (Some user, pw, r)) (password_of ok (drop (length user) s))
      else Some (None, None, s))"
  unfolding parse_userinfo_def password_of_def Let_def
  by (simp add: option.map_comp comp_def del: drop_eq_Nil)

lemma build_password_at:
  assumes "malloc_ok al"
    "sat m (texts_at p [Some sch, None, None, None, None, None, us, None] * F)"
  shows "builds (build_password al p s m) p F
    (map_option (\<lambda>(pw, rest). (rest, [Some sch, None, None, None, None, None, us, pw]))
      (password_of (al_ok al) s))"
proof (cases "s \<noteq> [] \<and> hd s = CHR '':''")
  case True
  show ?thesis unfolding build_password_def password_of_def Let_def if_P [OF True]
    by (rule builds_copy_then [OF assms, where i = 7])
      (auto simp: put_fields numeral_nat option.map_comp comp_def intro!: builds_of_option)
next
  case False
  show ?thesis unfolding build_password_def password_of_def Let_def if_not_P [OF False]
    using builds_of_option [OF assms(2)] by (simp add: option.map_comp comp_def)
qed

lemma build_userinfo_at:
  assumes "malloc_ok al" "sat m (texts_at p (Some sch # replicate 7 None) * F)"
  shows "builds (build_userinfo al p s m) p F
    (map_option (\<lambda>(us, pw, rest). (rest, [Some sch, None, None, None, None, None, us, pw]))
      (parse_userinfo (al_ok al) s))"
proof (cases "userpass_flag s")
  case True
  show ?thesis unfolding build_userinfo_def parse_userinfo_password Let_def if_P [OF True]
    by (rule builds_copy_then [OF assms, where i = 6])
      (auto simp: put_fields numeral_nat option.map_comp comp_def split_def
        dest!: build_password_at [OF assms(1), where
          s = "drop (length (takeWhile (\<lambda>c. c \<noteq> CHR '':'' \<and> c \<noteq> CHR ''@'') s)) s"])
next
  case False
  then show ?thesis using builds_keep [OF assms(2)]
    by (simp add: build_userinfo_def parse_userinfo_def numeral_nat)
qed

lemma build_host_at:
  assumes "malloc_ok al" "sat m (texts_at p [Some sch, None, None, None, None, None, us, pw] * F)"
  shows "builds (build_host al p s m) p F
    (map_option (\<lambda>(h, rest). (rest, [Some sch, Some h, None, None, None, None, us, pw]))
      (parse_host (al_ok al) s))"
  unfolding build_host_def parse_host_def Let_def
  by (rule builds_copy_then [OF assms, where i = 1])
    (auto simp: put_fields numeral_nat intro!: builds_keep builds_give_up)

lemma build_port_at:
  assumes "malloc_ok al" "sat m (texts_at p [Some sch, Some h, None, None, None, None, us, pw] * F)"
  shows "builds (build_port al p s m) p F
    (map_option (\<lambda>(x, rest). (rest, [Some sch, Some h, x, None, None, None, us, pw]))
      (parse_port (al_ok al) s))"
proof (cases "s \<noteq> [] \<and> hd s = CHR '':''")
  case True
  show ?thesis unfolding build_port_def parse_port_def Let_def if_P [OF True]
    by (rule builds_copy_then [OF assms, where i = 2])
      (auto simp: put_fields numeral_nat intro!: builds_keep)
next
  case False
  show ?thesis unfolding build_port_def parse_port_def Let_def if_not_P [OF False]
    using builds_keep [OF assms(2)] by simp
qed

lemma build_query_at:
  assumes "malloc_ok al"
    "sat m (texts_at p [Some sch, Some h, x, Some pt, None, None, us, pw] * F)"
  shows "builds (build_query al p s m) p F
    (map_option (\<lambda>(q, rest). (rest, [Some sch, Some h, x, Some pt, q, None, us, pw]))
      (parse_query (al_ok al) s))"
proof (cases "s \<noteq> [] \<and> hd s = CHR ''?''")
  case True
  show ?thesis unfolding build_query_def parse_query_def Let_def if_P [OF True]
    by (rule builds_copy_then [OF assms, where i = 4])
      (auto simp: put_fields numeral_nat intro!: builds_keep)
next
  case False
  show ?thesis unfolding build_query_def parse_query_def Let_def if_not_P [OF False]
    using builds_keep [OF assms(2)] by simp
qed

lemma build_fragment_at:
  assumes "malloc_ok al"
    "sat m (texts_at p [Some sch, Some h, x, Some pt, q, None, us, pw] * F)"
  shows "builds (build_fragment al p s m) p F
    (map_option (\<lambda>f. ((), [Some sch, Some h, x, Some pt, q, f, us, pw]))
      (parse_fragment (al_ok al) s))"
proof (cases "s \<noteq> [] \<and> hd s = CHR ''#''")
  case True
  show ?thesis unfolding build_fragment_def parse_fragment_def if_P [OF True]
    by (rule builds_whole [OF assms, where i = 5]) (simp_all add: put_fields numeral_nat)
next
  case False
  show ?thesis unfolding build_fragment_def parse_fragment_def if_not_P [OF False]
    using builds_keep [OF assms(2)] by simp
qed

lemma build_path_at:
  assumes "malloc_ok al" "sat m (texts_at p [Some sch, Some h, x, None, None, None, us, pw] * F)"
  shows "builds (build_path al p s m) p F
    (map_option (\<lambda>(pt, q, f). ((), [Some sch, Some h, x, pt, q, f, us, pw]))
      (parse_path (al_ok al) s))"
proof (cases s)
  case Nil
  then show ?thesis using builds_keep [OF assms(2)] by (simp add: build_path_def parse_path_def)
next
  case (Cons c cs)
  show ?thesis
  proof (cases "c = CHR ''/''")
    case False
    then show ?thesis using builds_give_up [OF assms(2)] Cons
      by (simp add: build_path_def parse_path_def)
  next
    case True
    define pt where "pt = takeWhile (\<lambda>c. c \<noteq> CHR ''#'' \<and> c \<noteq> CHR ''?'') cs"
    have rest: "builds (and_then (build_query al p r) (build_fragment al p) m') p F
        (map_option (\<lambda>(q, f). ((), [Some sch, Some h, x, Some pt, q, f, us, pw]))
          (Option.bind (parse_query (al_ok al) r)
            (\<lambda>(q, rest). map_option (\<lambda>f. (q, f)) (parse_fragment (al_ok al) rest))))"
      if m': "sat m' (texts_at p [Some sch, Some h, x, Some pt, None, None, us, pw] * F)" for m' r
    proof (rule builds_then, rule build_query_at [OF assms(1) m'])
      fix z ts m2
      assume "map_option (\<lambda>(q, rest). (rest, [Some sch, Some h, x, Some pt, q, None, us, pw]))
          (parse_query (al_ok al) r) = Some (z, ts)"
        and m2: "sat m2 (texts_at p ts * F)"
      then obtain q where q: "parse_query (al_ok al) r = Some (q, z)"
        "ts = [Some sch, Some h, x, Some pt, q, None, us, pw]" by auto
      show "builds (build_fragment al p z m2) p F
          (map_option (\<lambda>(q, f). ((), [Some sch, Some h, x, Some pt, q, f, us, pw]))
            (Option.bind (parse_query (al_ok al) r)
              (\<lambda>(q, rest). map_option (\<lambda>f. (q, f)) (parse_fragment (al_ok al) rest))))"
        using build_fragment_at [OF assms(1) m2 [unfolded q(2)]]
        by (simp add: q(1) option.map_comp comp_def)
    qed simp
    define r where "r = drop (length pt) cs"
    have b: "build_path al p s m = and_then (copy_part al p put_path pt)
        (\<lambda>_. and_then (build_query al p r) (build_fragment al p)) m"
      using Cons True by (simp add: build_path_def Let_def pt_def r_def)
    have "parse_path (al_ok al) s = (if \<not> al_ok al (length pt + 1) then None
        else Option.bind (parse_query (al_ok al) r)
          (\<lambda>(q, rest). map_option (\<lambda>f. (Some pt, q, f)) (parse_fragment (al_ok al) rest)))"
      using Cons True by (simp add: parse_path_def Let_def pt_def r_def)
    also have "Option.bind (parse_query (al_ok al) r)
          (\<lambda>(q, rest). map_option (\<lambda>f. (Some pt, q, f)) (parse_fragment (al_ok al) rest))
        = map_option (\<lambda>(q, f). (Some pt, q, f)) (Option.bind (parse_query (al_ok al) r)
          (\<lambda>(q, rest). map_option (\<lambda>f. (q, f)) (parse_fragment (al_ok al) rest)))"
      by (cases "parse_query (al_ok al) r") (auto simp: option.map_comp comp_def)
    finally have q: "parse_path (al_ok al) s = (if \<not> al_ok al (length pt + 1) then None
        else map_option (\<lambda>(q, f). (Some pt, q, f)) (Option.bind (parse_query (al_ok al) r)
          (\<lambda>(q, rest). map_option (\<lambda>f. (q, f)) (parse_fragment (al_ok al) rest))))" .
    show ?thesis unfolding b q
      by (rule builds_copy_then [OF assms, where i = 3])
        (use rest [of _ r] in \<open>auto simp: put_fields numeral_nat option.map_comp comp_def split_def\<close>)
  qed
qed

lemma builds_bind:
  assumes "builds (f m) p F (map_option (\<lambda>x. (val x, txt x)) X)"
    and "\<And>x m'. X = Some x \<Longrightarrow> sat m' (texts_at p (txt x) * F) \<Longrightarrow> builds (g (val x) m') p F (e x)"
  shows "builds (and_then f g m) p F (Option.bind X e)"
  by (rule builds_then, rule assms(1)) (use assms(2) in auto)

lemma build_stages:
  assumes "malloc_ok al" "sat m (texts_at p (replicate 8 None) * F)" "al_ok al 64"
  shows "builds
     (and_then (build_scheme al p url) (\<lambda>rest.
      and_then (of_option (eat_slashes 2 rest)) (\<lambda>rest.
      and_then (build_userinfo al p rest) (\<lambda>rest.
      and_then (build_host al p rest) (\<lambda>rest.
      and_then (build_port al p rest) (build_path al p))))) m) p F
     (map_option (\<lambda>u. ((), url_texts u)) (parse_url (al_ok al) url))"
proof -
  have push: "map_option f (Option.bind X g) = Option.bind X (\<lambda>x. map_option f (g x))"
    for f :: "parsed_url \<Rightarrow> unit \<times> string option list" and X :: "'z option" and g
    by (cases X) simp_all
  show ?thesis
    using assms(3) unfolding parse_url_def
    apply (simp add: push split_def option.map_comp comp_def)
    apply (rule builds_bind)
     apply (rule build_scheme_at [OF assms(1,2), unfolded split_def])
    apply (rule builds_bind)
     apply (rule builds_of_option, assumption, simp)
    apply (rule builds_bind)
     apply (rule build_userinfo_at [OF assms(1), unfolded split_def], assumption)
    apply (rule builds_bind)
     apply (rule build_host_at [OF assms(1), unfolded split_def], assumption)
    apply (rule builds_bind)
     apply (rule build_port_at [OF assms(1), unfolded split_def], assumption)
    subgoal for x _ r _ us _ h _ pr m5
      using build_path_at [OF assms(1), where m = m5 and s = "snd pr" and p = p and F = F]
      by (simp add: url_texts_def split_def)
    done
qed

text \<open>
  Where the pure parser finds a URL, the structure returned owns it, and where it finds none
  everything that was allocated has been freed.
\<close>

lemma build_url_at:
  assumes "malloc_ok al" "sat m F"
  shows "case parse_url (al_ok al) url of
      None \<Rightarrow> \<exists>m'. build_url al url m = Inr (0, m') \<and> sat m' F
    | Some u \<Rightarrow> \<exists>p m'. build_url al url m = Inr (p, m') \<and> p \<noteq> 0 \<and> sat m' (url_at p u * F)"
proof (cases "al_ok al 64")
  case False
  then show ?thesis using assms by (simp add: parse_url_def build_url_def malloc_def SIZEOF_URL_def)
next
  case True
  obtain p m1 where p: "malloc al SIZEOF_URL (Url_Block empty_url) m = (p, m1)" "p \<noteq> 0"
    "sat m1 (cell p (Url_Block empty_url) * F)"
    using malloc_cell [OF assms(1) _ assms(2)] True by (metis SIZEOF_URL_def)
  have m1: "sat m1 (texts_at p (replicate 8 None) * F)"
    using p(3) by (auto simp: texts_at_def url_fields_def empty_url_def part_at_def numeral_nat
        intro!: exI [of _ empty_url])
  note b = build_stages [OF assms(1) m1 True, where url = url]
  show ?thesis
  proof (cases "parse_url (al_ok al) url")
    case (Some u)
    with b show ?thesis using p by (auto simp: builds_def build_url_def url_at_def)
  next
    case None
    then obtain m2 ts where m2: "(and_then (build_scheme al p url) (\<lambda>rest.
        and_then (of_option (eat_slashes 2 rest)) (\<lambda>rest.
        and_then (build_userinfo al p rest) (\<lambda>rest.
        and_then (build_host al p rest) (\<lambda>rest.
        and_then (build_port al p rest) (build_path al p))))) m1) = Inr (None, m2)"
      "sat m2 (texts_at p ts * F)" "length ts = 8"
      using b by (auto simp: builds_def)
    obtain m3 where "parsed_url_free p m2 = Inr m3" "sat m3 F"
      using texts_at_free m2(2,3) by blast
    with m2(1) None p show ?thesis by (simp add: build_url_def)
  qed
qed

section \<open>Destinations\<close>

definition load_text :: "mem \<Rightarrow> ptr \<Rightarrow> string res" where
  "load_text m a = bind_res (load m a) (\<lambda>b. case b of Chars s \<Rightarrow> Inr s | _ \<Rightarrow> Inl BadPointer)"

definition update_dest :: "ptr \<Rightarrow> (dest_ptrs \<Rightarrow> dest_ptrs) \<Rightarrow> mem \<Rightarrow> mem res" where
  "update_dest a f m = bind_res (load_dest m a) (\<lambda>c. Inr (m(a \<mapsto> Dest_Block (f c))))"

definition empty_dest :: dest_ptrs where
  "empty_dest = \<lparr>dp_type = dest_none, dp_size = 0, dp_expired = False, dp_buffer = 0, dp_url = 0\<rparr>"

text \<open>The buffer of a file comes from \<^verbatim>\<open>memalign\<close>, and from \<^verbatim>\<open>malloc\<close> when that fails.\<close>

definition alloc_buffer :: "allocator \<Rightarrow> dest_type \<Rightarrow> nat \<Rightarrow> mem \<Rightarrow> ptr \<times> mem" where
  "alloc_buffer al ty sz m =
     (if ty = dest_file then
        case malloc al sz (Bytes sz) m of
          (b, m1) \<Rightarrow> if b = 0 then malloc al sz (Bytes sz) m1 else (b, m1)
      else malloc al sz (Bytes sz) m)"

definition live_type :: "mem \<Rightarrow> ptr \<Rightarrow> dest_type \<Rightarrow> dest_type res" where
  "live_type m p ty =
     (if ty = dest_live then
        bind_res (load_url m p) (\<lambda>u.
        bind_res (load_text m (p_path u)) (\<lambda>s.
          Inr (if mem_eq 5 s ''live2'' then dest_live2 else dest_live)))
      else Inr ty)"

text \<open>The part of \<^verbatim>\<open>destination_create\<close> after the URL was parsed.\<close>

definition fill_dest :: "allocator \<Rightarrow> ptr \<Rightarrow> ptr \<Rightarrow> mem \<Rightarrow> (ptr \<times> mem) res" where
  "fill_dest al d p m =
     bind_res (load_url m p) (\<lambda>u.
     if p_scheme u = 0 then bind_res (free d m) (\<lambda>m3. Inr (0, m3))
     else
     bind_res (load_text m (p_scheme u)) (\<lambda>sch.
       let (ty, sz) = transport sch; (b, m1) = alloc_buffer al ty sz m in
       bind_res (live_type m1 p ty) (\<lambda>ty'.
       bind_res (update_dest d (\<lambda>c. c\<lparr>dp_type := ty', dp_size := sz, dp_buffer := b\<rparr>) m1) (\<lambda>m2.
         if sz = 0 then bind_res (free d m2) (\<lambda>m3. Inr (0, m3)) else Inr (d, m2)))))"

definition new_dest :: "allocator \<Rightarrow> string \<Rightarrow> mem \<Rightarrow> (ptr \<times> mem) res" where
  "new_dest al inURL m =
     (let (d, m1) = malloc al SIZEOF_DEST (Dest_Block empty_dest) m in
      if d = 0 then Inl NullPointer
      else if 1023 \<le> length inURL then Inl Uninitialised
      else
        bind_res (build_url al inURL m1) (\<lambda>(p, m2).
        bind_res (update_dest d (\<lambda>c. c\<lparr>dp_url := p\<rparr>) m2) (\<lambda>m3.
          if p = 0 then bind_res (free d m3) (\<lambda>m4. Inr (0, m4)) else fill_dest al d p m3)))"

definition destination_destroy :: "ptr \<Rightarrow> mem \<Rightarrow> mem res" where
  "destination_destroy d m =
     bind_res (load_dest m d) (\<lambda>c.
     bind_res (parsed_url_free (dp_url c) m) (\<lambda>m1.
     bind_res (free (dp_buffer c) m1) (free d)))"

text \<open>
  What is known of a destination beside its blocks: where it is and what its fields say. It owns
  its structure, its buffer and its URL.
\<close>

record dest_view =
  v_addr :: ptr
  v_type :: dest_type
  v_size :: nat
  v_url :: parsed_url
  v_expired :: bool

definition dest_at :: "dest_view \<Rightarrow> block assn" where
  "dest_at v = exist (\<lambda>(b, p).
     cell (v_addr v) (Dest_Block \<lparr>dp_type = v_type v, dp_size = v_size v, dp_expired = v_expired v,
       dp_buffer = b, dp_url = p\<rparr>) * (cell b (Bytes (v_size v)) * url_at p (v_url v)))"

definition shows_dest :: "dest_view \<Rightarrow> destination_t \<Rightarrow> bool" where
  "shows_dest v d \<longleftrightarrow> v_type v = destination_type d \<and> v_size v = bufferSize d
     \<and> v_url v = durl d \<and> v_expired v = expired d"

text \<open>What a URL of an unknown transport leaves behind: itself and a buffer of no bytes.\<close>

definition url_leak :: "parsed_url \<Rightarrow> block assn" where
  "url_leak u = exist (\<lambda>(p, b). url_at p u * cell b (Bytes 0))"

definition roomy :: "allocator \<Rightarrow> bool" where
  "roomy al \<longleftrightarrow> malloc_ok al \<and> (\<forall>n \<in> {SIZEOF_DEST, SIZEOF_QUEUE, SIZEOF_SESSION, SIZEOF_LIST,
     0, 1024, 1024 * 1024, 1024 * 1024 * 2}. al_ok al n)"

lemma roomyD:
  assumes "roomy al"
  shows "malloc_ok al" "al_ok al SIZEOF_DEST" "al_ok al SIZEOF_QUEUE" "al_ok al SIZEOF_SESSION"
    "al_ok al SIZEOF_LIST" "al_ok al (snd (transport s))"
  using assms by (auto simp: roomy_def transport_def)

lemma bump_roomy [simp]: "roomy (bump_allocator (\<lambda>_. True))"
  by (simp add: roomy_def)

lemma dest_atE:
  assumes "sat m (dest_at v * F)"
  obtains b p where "load_dest m (v_addr v) = Inr \<lparr>dp_type = v_type v, dp_size = v_size v,
       dp_expired = v_expired v, dp_buffer = b, dp_url = p\<rparr>"
    "sat m (cell (v_addr v) (Dest_Block \<lparr>dp_type = v_type v, dp_size = v_size v,
       dp_expired = v_expired v, dp_buffer = b, dp_url = p\<rparr>) * (cell b (Bytes (v_size v))
         * (url_at p (v_url v) * F)))"
  using assms by (auto simp: dest_at_def mult.assoc)

lemma dest_atI:
  assumes "sat m (cell (v_addr v) (Dest_Block \<lparr>dp_type = v_type v, dp_size = v_size v,
       dp_expired = v_expired v, dp_buffer = b, dp_url = p\<rparr>) * (cell b (Bytes (v_size v))
         * (url_at p (v_url v) * F)))"
  shows "sat m (dest_at v * F)"
  unfolding dest_at_def sat_exist_times
  by (rule exI [of _ "(b, p)"]) (use assms in \<open>simp only: split mult.assoc\<close>)

lemma destination_destroy_at:
  assumes "sat m (dest_at v * F)"
  shows "\<exists>m'. destination_destroy (v_addr v) m = Inr m' \<and> sat m' F"
proof -
  obtain b p where l: "load_dest m (v_addr v) = Inr \<lparr>dp_type = v_type v, dp_size = v_size v,
       dp_expired = v_expired v, dp_buffer = b, dp_url = p\<rparr>"
    and s: "sat m (cell (v_addr v) (Dest_Block \<lparr>dp_type = v_type v, dp_size = v_size v,
       dp_expired = v_expired v, dp_buffer = b, dp_url = p\<rparr>) * (cell b (Bytes (v_size v))
         * (url_at p (v_url v) * F)))"
    (is "sat m (?d * (?b * (?u * F)))")
    using assms by (rule dest_atE)
  have "sat m (texts_at p (url_texts (v_url v)) * (?b * (?d * F)))"
    using s by (simp only: url_at_def ac_simps)
  then obtain m1 where m1: "parsed_url_free p m = Inr m1" "sat m1 (?b * (?d * F))"
    using texts_at_free by (metis length_url_texts)
  note m2 = free_cell [OF m1(2)]
  note m3 = free_cell [OF conjunct2 [OF m2]]
  show ?thesis using l m1(1) m2 m3 by (simp add: destination_destroy_def)
qed

lemma alloc_buffer_at:
  assumes "malloc_ok al" "al_ok al sz" "sat m F"
  shows "\<exists>b m'. alloc_buffer al ty sz m = (b, m') \<and> sat m' (cell b (Bytes sz) * F)"
proof -
  obtain b m' where "malloc al sz (Bytes sz) m = (b, m')" "b \<noteq> 0" "sat m' (cell b (Bytes sz) * F)"
    using malloc_cell [OF assms] by blast
  then show ?thesis by (simp add: alloc_buffer_def)
qed

lemma update_dest_at:
  assumes "sat m (cell d (Dest_Block c) * F)"
  shows "\<exists>m'. update_dest d f m = Inr m' \<and> sat m' (cell d (Dest_Block (f c)) * F)"
  using assms by (simp add: update_dest_def)

lemma url_atE:
  assumes "sat m (url_at p u * F)"
  obtains c where "load_url m p = Inr c" "load_text m (p_scheme c) = Inr (scheme u)"
    "p_path c = 0 \<longleftrightarrow> path u = None" "path u \<noteq> None \<longrightarrow> load_text m (p_path c) = Inr (the (path u))"
proof -
  obtain c where c: "sat m (cell p (Url_Block c) * (parts_at (url_fields c) (url_texts u) * F))"
    using assms by (auto simp: url_at_def texts_at_def mult.assoc)
  let ?R = "part_at (p_host c) (Some (host u)) * (part_at (p_port c) (port u)
    * (part_at (p_query c) (query u) * (part_at (p_fragment c) (fragment u)
    * (part_at (p_username c) (username u) * (part_at (p_password c) (password u) * F)))))"
  from c have l: "load_url m p = Inr c" by simp
  from c have "sat m (part_at (p_scheme c) (Some (scheme u)) *
      (part_at (p_path c) (path u) * (cell p (Url_Block c) * ?R)))"
    by (simp only: url_fields_def url_texts_def parts_at_simps mult_1_left mult_1_right ac_simps)
  then have s: "load_text m (p_scheme c) = Inr (scheme u)"
    by (simp add: part_at_def load_text_def load_def)
  from c have "sat m (part_at (p_path c) (path u) *
      (part_at (p_scheme c) (Some (scheme u)) * (cell p (Url_Block c) * ?R)))"
    by (simp only: url_fields_def url_texts_def parts_at_simps mult_1_left mult_1_right ac_simps)
  then have q: "p_path c = 0 \<longleftrightarrow> path u = None" "path u \<noteq> None \<longrightarrow> load_text m (p_path c) = Inr (the (path u))"
    by (auto simp: part_at_def load_text_def load_def split: option.splits)
  show thesis by (rule that [OF l s q])
qed

text \<open>Filling in the rest of the destination, with the results of the pure definition.\<close>

lemma fill_dest_at:
  assumes al: "roomy al" and m: "sat m (cell d (Dest_Block \<lparr>dp_type = dest_none, dp_size = 0,
      dp_expired = False, dp_buffer = 0, dp_url = p\<rparr>) * (url_at p u * F))"
  shows "case transport (scheme u) of (ty, sz) \<Rightarrow>
     if ty = dest_live \<and> path u = None then fill_dest al d p m = Inl NullPointer
     else if sz = 0 then \<exists>m'. fill_dest al d p m = Inr (0, m') \<and> sat m' (url_leak u * F)
     else \<exists>m'. fill_dest al d p m = Inr (d, m') \<and> sat m' (dest_at \<lparr>v_addr = d,
       v_type = (if ty = dest_live \<and> mem_eq 5 (the (path u)) ''live2'' then dest_live2 else ty),
       v_size = sz, v_url = u, v_expired = False\<rparr> * F)"
proof -
  obtain ty sz where t: "transport (scheme u) = (ty, sz)" by force
  let ?c = "\<lparr>dp_type = dest_none, dp_size = 0, dp_expired = False, dp_buffer = 0, dp_url = p\<rparr>"
  have mu: "sat m (url_at p u * (cell d (Dest_Block ?c) * F))" using m by (simp only: ac_simps)
  obtain c where c: "load_url m p = Inr c" "load_text m (p_scheme c) = Inr (scheme u)"
    "p_path c = 0 \<longleftrightarrow> path u = None" "path u \<noteq> None \<longrightarrow> load_text m (p_path c) = Inr (the (path u))"
    using mu by (rule url_atE)
  have sch: "p_scheme c \<noteq> 0" using c(2) by (auto simp: load_text_def load_def split: if_splits)
  obtain b m1 where b: "alloc_buffer al ty sz m = (b, m1)"
    "sat m1 (cell b (Bytes sz) * (url_at p u * (cell d (Dest_Block ?c) * F)))"
    using alloc_buffer_at [OF roomyD(1) [OF al] _ mu] roomyD(6) [OF al, of "scheme u"] t by force
  have m1: "sat m1 (url_at p u * (cell b (Bytes sz) * (cell d (Dest_Block ?c) * F)))"
    using b(2) by (simp only: ac_simps)
  obtain c1 where c1: "load_url m1 p = Inr c1" "load_text m1 (p_scheme c1) = Inr (scheme u)"
    "p_path c1 = 0 \<longleftrightarrow> path u = None" "path u \<noteq> None \<longrightarrow> load_text m1 (p_path c1) = Inr (the (path u))"
    using m1 by (rule url_atE)
  let ?ty = "if ty = dest_live \<and> mem_eq 5 (the (path u)) ''live2'' then dest_live2 else ty"
  have ty: "live_type m1 p ty = (if ty = dest_live \<and> path u = None then Inl NullPointer else Inr ?ty)"
    using c1 by (auto simp: live_type_def load_text_def load_def)
  have "sat m1 (cell d (Dest_Block ?c) * (cell b (Bytes sz) * (url_at p u * F)))"
    using b(2) by (simp only: ac_simps)
  then obtain m2 where m2: "update_dest d (\<lambda>c. c\<lparr>dp_type := ?ty, dp_size := sz, dp_buffer := b\<rparr>) m1
      = Inr m2" "sat m2 (cell d (Dest_Block (?c\<lparr>dp_type := ?ty, dp_size := sz, dp_buffer := b\<rparr>))
        * (cell b (Bytes sz) * (url_at p u * F)))"
    using update_dest_at by blast
  show ?thesis
  proof (cases "sz = 0")
    case True
    have "sat (m2(d := None)) (cell b (Bytes 0) * (url_at p u * F))"
      and "free d m2 = Inr (m2(d := None))"
      using free_cell [OF m2(2)] True by simp_all
    then have "sat (m2(d := None)) (url_leak u * F)" "free d m2 = Inr (m2(d := None))"
      unfolding url_leak_def sat_exist_times
      by (auto simp: ac_simps simp del: sat_cell intro!: exI [of _ "(p, b)"])
    moreover have "ty = dest_none" using t True by (auto simp: transport_def split: if_splits)
    ultimately show ?thesis using True b(1) ty m2(1) by (simp add: fill_dest_def c(1,2) sch t)
  next
    case False
    have "sat m2 (dest_at \<lparr>v_addr = d, v_type = ?ty, v_size = sz, v_url = u, v_expired = False\<rparr> * F)"
      by (rule dest_atI [of _ _ b p]) (use m2(2) in simp)
    moreover have "fill_dest al d p m = (if ty = dest_live \<and> path u = None then Inl NullPointer
        else Inr (d, m2))"
      using False ty m2(1) by (simp add: fill_dest_def c(1,2) sch t b(1) del: if_split)
    ultimately show ?thesis using False by (simp add: t)
  qed
qed

text \<open>
  Creating a destination: what is returned is what the pure definition returns, and it owns its
  blocks. A URL that cannot be parsed leaves nothing behind, an unknown transport its URL.
\<close>

lemma dest_viewI:
  assumes "0 < d"
    "sat m (dest_at \<lparr>v_addr = d, v_type = t, v_size = n, v_url = u, v_expired = False\<rparr> * F)"
  shows "\<exists>v. d = v_addr v \<and> 0 < v_addr v \<and> v_type v = t \<and> v_size v = n \<and> v_url v = u
    \<and> \<not> v_expired v \<and> sat m (dest_at v * F)"
  by (rule exI [of _ "\<lparr>v_addr = d, v_type = t, v_size = n, v_url = u, v_expired = False\<rparr>"])
    (use assms in simp)

lemma new_dest_at:
  assumes al: "roomy al" and m: "sat m F"
  shows "case destination_create (al_ok al) rnd inURL of
      Inl e \<Rightarrow> new_dest al inURL m = Inl e
    | Inr None \<Rightarrow> \<exists>m'. new_dest al inURL m = Inr (0, m')
        \<and> (case parse_url (al_ok al) inURL of None \<Rightarrow> sat m' F | Some u \<Rightarrow> sat m' (url_leak u * F))
    | Inr (Some d) \<Rightarrow> \<exists>v m'. new_dest al inURL m = Inr (v_addr v, m') \<and> v_addr v \<noteq> 0
        \<and> shows_dest v d \<and> sat m' (dest_at v * F)"
proof (cases "1023 \<le> length inURL")
  case True
  obtain d m1 where d: "malloc al SIZEOF_DEST (Dest_Block empty_dest) m = (d, m1)" "d \<noteq> 0"
    using malloc_cell [OF roomyD(1,2) [OF al] m] by blast
  then show ?thesis using True by (simp add: destination_create_def new_dest_def)
next
  case False
  obtain d m1 where d: "malloc al SIZEOF_DEST (Dest_Block empty_dest) m = (d, m1)" "d \<noteq> 0"
    "sat m1 (cell d (Dest_Block empty_dest) * F)"
    using malloc_cell [OF roomyD(1,2) [OF al] m] by blast
  note u = build_url_at [OF roomyD(1) [OF al] d(3), of inURL]
  show ?thesis
  proof (cases "parse_url (al_ok al) inURL")
    case None
    with u obtain m2 where m2: "build_url al inURL m1 = Inr (0, m2)"
      "sat m2 (cell d (Dest_Block empty_dest) * F)" by auto
    obtain m3 where m3: "update_dest d (\<lambda>c. c\<lparr>dp_url := 0\<rparr>) m2 = Inr m3"
      "sat m3 (cell d (Dest_Block (empty_dest\<lparr>dp_url := 0\<rparr>)) * F)"
      using update_dest_at [OF m2(2)] by blast
    show ?thesis using False None d(1,2) m2(1) m3(1) free_cell [OF m3(2)]
      by (simp add: destination_create_def new_dest_def)
  next
    case (Some v)
    with u obtain p m2 where m2: "build_url al inURL m1 = Inr (p, m2)" "p \<noteq> 0"
      "sat m2 (url_at p v * (cell d (Dest_Block empty_dest) * F))" by auto
    then have "sat m2 (cell d (Dest_Block empty_dest) * (url_at p v * F))"
      by (simp only: ac_simps)
    then obtain m3 where m3: "update_dest d (\<lambda>c. c\<lparr>dp_url := p\<rparr>) m2 = Inr m3"
      "sat m3 (cell d (Dest_Block (empty_dest\<lparr>dp_url := p\<rparr>)) * (url_at p v * F))"
      using update_dest_at by blast
    have run: "new_dest al inURL m = fill_dest al d p m3"
      using False d m2(1,2) m3(1) by (simp add: new_dest_def)
    obtain ty sz where t: "transport (scheme v) = (ty, sz)" by force
    show ?thesis unfolding run
      using fill_dest_at [OF al, of m3 d p v F] m3(2) t False Some d(2)
      by (auto simp: destination_create_def empty_dest_def Let_def shows_dest_def
          intro: dest_viewI split: option.split if_splits)
  qed
qed

section \<open>Nothing is leaked and nothing else is freed\<close>

text \<open>C33. Wherever the allocator fails, \<open>parse_url\<close> on memory finds a URL exactly where the pure parser
  does: then the blocks it returns are the URL and what was there before, and \<open>parsed_url_free\<close> gives
  back the memory as it was; where there is no URL the memory is as it was at once.\<close>
theorem parse_url_blocks:
  assumes "malloc_ok al" "finite (dom m)"
  shows "case parse_url (al_ok al) url of
      None \<Rightarrow> build_url al url m = Inr (0, m)
    | Some u \<Rightarrow> \<exists>p m'. build_url al url m = Inr (p, m') \<and> p \<noteq> 0 \<and> sat m' (url_at p u * exactly m)
        \<and> parsed_url_free p m' = Inr m"
proof (cases "parse_url (al_ok al) url")
  case None
  with build_url_at [OF assms(1), of m "exactly m" url] assms(2) show ?thesis by simp
next
  case (Some u)
  with build_url_at [OF assms(1), of m "exactly m" url] assms(2)
  obtain p m' where p: "build_url al url m = Inr (p, m')" "p \<noteq> 0" "sat m' (url_at p u * exactly m)"
    by auto
  then obtain m'' where "parsed_url_free p m' = Inr m''" "sat m'' (exactly m)"
    using texts_at_free [of m' p "url_texts u" "exactly m"] by (auto simp: url_at_def)
  with Some p show ?thesis by auto
qed

theorem parse_url_blocks_witness:
  "parse_url (\<lambda>_. True) ''udp://10.0.0.1:1234'' \<noteq> None
   \<and> (\<exists>p m'. build_url (bump_allocator (\<lambda>_. True)) ''udp://10.0.0.1:1234'' [5 \<mapsto> Bytes 1] = Inr (p, m')
        \<and> p \<noteq> 0 \<and> parsed_url_free p m' = Inr [5 \<mapsto> Bytes 1])
   \<and> build_url (bump_allocator (\<lambda>n. n \<noteq> 9)) ''udp://10.0.0.1:1234'' [5 \<mapsto> Bytes 1] = Inr (0, [5 \<mapsto> Bytes 1])"
proof -
  have p: "parse_url (\<lambda>_. True) ''udp://10.0.0.1:1234'' \<noteq> None"
    "parse_url (\<lambda>n. n \<noteq> 9) ''udp://10.0.0.1:1234'' = None" by code_simp+
  note u = parse_url_blocks [OF bump_allocator_ok, unfolded al_ok_bump, where m = "[5 \<mapsto> Bytes 1]"
      and url = "''udp://10.0.0.1:1234''"]
  show ?thesis using p u [of "\<lambda>_. True"] u [of "\<lambda>n. n \<noteq> 9"] by (auto simp del: One_nat_def)
qed

text \<open>C30. A destination owns its structure, its buffer and its URL: \<open>destination_destroy\<close> gives
  back the memory as it was before \<open>destination_create\<close>. A URL that cannot be parsed leaves nothing; one of
  a transport the program does not know leaves itself and an empty buffer, which nobody can reach.\<close>
theorem destination_blocks:
  assumes "roomy al" "finite (dom m)"
  shows "case destination_create (al_ok al) did inURL of
      Inl e \<Rightarrow> new_dest al inURL m = Inl e
    | Inr (Some d) \<Rightarrow> \<exists>v m'. new_dest al inURL m = Inr (v_addr v, m') \<and> v_addr v \<noteq> 0 \<and> shows_dest v d
        \<and> sat m' (dest_at v * exactly m) \<and> destination_destroy (v_addr v) m' = Inr m
    | Inr None \<Rightarrow> \<exists>m'. new_dest al inURL m = Inr (0, m')
        \<and> (case parse_url (al_ok al) inURL of None \<Rightarrow> m' = m | Some u \<Rightarrow> sat m' (url_leak u * exactly m))"
proof -
  note n = new_dest_at [OF assms(1), of m "exactly m" inURL did]
  have d: "\<exists>m'. destination_destroy (v_addr v) m1 = Inr m' \<and> m' = m"
    if "sat m1 (dest_at v * exactly m)" for v m1
    using destination_destroy_at [OF that] by simp
  show ?thesis using n assms(2) by (fastforce dest: d split: sum.splits option.splits)
qed

theorem destination_blocks_witness:
  "(\<exists>a m'. new_dest (bump_allocator (\<lambda>_. True)) ''file://h/a'' Map.empty = Inr (a, m')
      \<and> a \<noteq> 0 \<and> destination_destroy a m' = Inr Map.empty)
   \<and> (\<exists>m'. new_dest (bump_allocator (\<lambda>_. True)) ''ftp://h'' Map.empty = Inr (0, m') \<and> m' \<noteq> Map.empty)"
proof -
  have p: "parse_url (\<lambda>_. True) ''file://h/a'' = Some \<lparr>scheme = ''file'', host = ''h'', port = None,
        path = Some ''a'', query = None, fragment = None, username = None, password = None\<rparr>"
    "parse_url (\<lambda>_. True) ''ftp://h'' = Some \<lparr>scheme = ''ftp'', host = ''h'', port = None,
        path = None, query = None, fragment = None, username = None, password = None\<rparr>"
    by code_simp+
  note d = destination_blocks [OF bump_roomy, of Map.empty, unfolded al_ok_bump destination_create_def]
  have "\<not> sat Map.empty (url_leak u * exactly m)" for u m
    by (simp add: url_leak_def url_at_def texts_at_def mult.assoc)
  with d [of "''file://h/a''" 7] d [of "''ftp://h''" 7] show ?thesis
    by (auto simp: p transport_def)
qed

end
