(* ===== verification/Lifetimes.thy ===== *)
theory Lifetimes
  imports Ownership System
begin

text \<open>
  The sessions of \<^verbatim>\<open>src/DVB/session.c\<close> with the blocks they own, and the threads and web
  connections that hold pointers into them. Every operation that starts, joins, empties, ends or
  serves a session is given once more on allocated blocks, with each \<^verbatim>\<open>malloc\<close> and \<^verbatim>\<open>free\<close> of the code in
  its place. The lemmas say that on sessions whose blocks are all there an operation follows no bad
  pointer, ends with the blocks of the sessions that are left, and computes what the definitions on
  values compute.
\<close>

section \<open>Lists of pointers\<close>

definition new_list :: "allocator \<Rightarrow> mem \<Rightarrow> ptr \<times> mem" where
  "new_list al m = malloc al SIZEOF_LIST (List_Block []) m"

definition set_list :: "ptr \<Rightarrow> ptr list \<Rightarrow> mem \<Rightarrow> mem res" where
  "set_list l as m = bind_res (load_list m l) (\<lambda>_. Inr (m(l \<mapsto> List_Block as)))"

definition append_list :: "ptr \<Rightarrow> ptr \<Rightarrow> mem \<Rightarrow> mem res" where
  "append_list l a m = bind_res (load_list m l) (\<lambda>as. Inr (m(l \<mapsto> List_Block (as @ [a]))))"

definition destroy_list :: "ptr \<Rightarrow> mem \<Rightarrow> mem res" where
  "destroy_list l m = bind_res (load_list m l) (\<lambda>as. if as \<noteq> [] then Inr m else free l m)"

section \<open>Walking over destinations\<close>

text \<open>
  \<^verbatim>\<open>destination_close_all\<close> and \<^verbatim>\<open>destination_close_type\<close> mark, destroy and unlink;
  \<^verbatim>\<open>destination_process\<close> destroys what is marked and writes into the buffer of what is not.
\<close>

definition end_dest :: "ptr \<Rightarrow> mem \<Rightarrow> mem res" where
  "end_dest a m =
     bind_res (update_dest a (\<lambda>c. c\<lparr>dp_expired := True\<rparr>) m) (destination_destroy a)"

fun close_dests :: "ptr list \<Rightarrow> mem \<Rightarrow> mem res" where
  "close_dests [] m = Inr m"
| "close_dests (a # as) m = bind_res (end_dest a m) (close_dests as)"

fun close_type_dests :: "dest_type \<Rightarrow> ptr list \<Rightarrow> mem \<Rightarrow> (ptr list \<times> mem) res" where
  "close_type_dests ty [] m = Inr ([], m)"
| "close_type_dests ty (a # as) m =
     bind_res (load_dest m a) (\<lambda>c.
       if dp_type c = ty then bind_res (end_dest a m) (close_type_dests ty as)
       else bind_res (close_type_dests ty as m) (\<lambda>(as', m'). Inr (a # as', m')))"

fun process_dests :: "ptr list \<Rightarrow> mem \<Rightarrow> (ptr list \<times> mem) res" where
  "process_dests [] m = Inr ([], m)"
| "process_dests (a # as) m =
     bind_res (load_dest m a) (\<lambda>c.
       if dp_expired c then bind_res (destination_destroy a m) (process_dests as)
       else
         bind_res (if dp_type c \<in> {dest_udp, dest_file, dest_http, dest_mcast}
                   then load m (dp_buffer c) else Inr (Bytes 0)) (\<lambda>_.
         bind_res (process_dests as m) (\<lambda>(as', m'). Inr (a # as', m'))))"

definition heap_close_all :: "ptr \<Rightarrow> mem \<Rightarrow> mem res" where
  "heap_close_all l m =
     bind_res (load_list m l) (\<lambda>as. bind_res (close_dests as m) (set_list l []))"

definition heap_close_type :: "dest_type \<Rightarrow> ptr \<Rightarrow> mem \<Rightarrow> mem res" where
  "heap_close_type ty l m =
     bind_res (load_list m l) (\<lambda>as.
     bind_res (close_type_dests ty as m) (\<lambda>(as', m'). set_list l as' m'))"

definition heap_process :: "ptr \<Rightarrow> mem \<Rightarrow> mem res" where
  "heap_process l m =
     bind_res (load_list m l) (\<lambda>as.
     bind_res (process_dests as m) (\<lambda>(as', m'). set_list l as' m'))"

section \<open>Ending sessions\<close>

record memory =
  blocks :: mem
  sess_list :: "ptr list"         \<comment> \<open>\<^verbatim>\<open>g_sessions.sessions_ll\<close>\<close>

definition halt_session :: "ptr \<Rightarrow> mem \<Rightarrow> mem res" where
  "halt_session a m =
     bind_res (load_session m a) (\<lambda>s.
     bind_res (load_queue m (sp_buffer s)) (\<lambda>_.
       Inr (m(a \<mapsto> Session_Block (s\<lparr>sp_running := False\<rparr>)))))"

text \<open>
  The loop of \<^verbatim>\<open>session_stop\<close>: beside the sessions that are left, the list of destinations of the
  one that ended, which is closed after it was freed.
\<close>

fun stop_loop :: "u64 \<Rightarrow> ptr list \<Rightarrow> mem \<Rightarrow> (ptr option \<times> ptr list \<times> mem) res" where
  "stop_loop sid [] m = Inr (None, [], m)"
| "stop_loop sid (a # as) m =
     bind_res (load_session m a) (\<lambda>s.
       if sp_id s = sid then
         bind_res (halt_session a m) (\<lambda>m1.
         bind_res (free (sp_buffer s) m1) (\<lambda>m2.
         bind_res (free a m2) (\<lambda>m3. Inr (Some (sp_dests s), as, m3))))
       else bind_res (stop_loop sid as m) (\<lambda>(d, as', m'). Inr (d, a # as', m')))"

definition heap_stop :: "u64 \<Rightarrow> memory \<Rightarrow> (int \<times> memory) res" where
  "heap_stop sid M =
     bind_res (stop_loop sid (sess_list M) (blocks M)) (\<lambda>(d, as, m1).
       case d of
         None \<Rightarrow> Inr (-1, M)
       | Some l \<Rightarrow>
           if l = 0 then Inr (0, \<lparr>blocks = m1, sess_list = as\<rparr>)
           else
             bind_res (heap_close_all l m1) (\<lambda>m2.
             bind_res (destroy_list l m2) (\<lambda>m3. Inr (0, \<lparr>blocks = m3, sess_list = as\<rparr>))))"

fun stop_type_loop :: "dest_type \<Rightarrow> ptr list \<Rightarrow> mem \<Rightarrow> mem res" where
  "stop_type_loop ty [] m = Inr m"
| "stop_type_loop ty (a # as) m =
     bind_res (load_session m a) (\<lambda>s.
     bind_res (heap_close_type ty (sp_dests s) m) (stop_type_loop ty as))"

text \<open>One pass of the session thread: sessions without a destination are ended.\<close>

fun reap_loop :: "ptr list \<Rightarrow> mem \<Rightarrow> (ptr list \<times> mem) res" where
  "reap_loop [] m = Inr ([], m)"
| "reap_loop (a # as) m =
     bind_res (load_session m a) (\<lambda>s.
     bind_res (load_list m (sp_dests s)) (\<lambda>ds.
       if ds = [] then
         bind_res (halt_session a m) (\<lambda>m1.
         bind_res (destroy_list (sp_dests s) m1) (\<lambda>m2.
         bind_res (free (sp_buffer s) m2) (\<lambda>m3.
         bind_res (free a m3) (reap_loop as))))
       else bind_res (reap_loop as m) (\<lambda>(as', m'). Inr (a # as', m'))))"

definition heap_reap :: "memory \<Rightarrow> memory res" where
  "heap_reap M =
     bind_res (reap_loop (sess_list M) (blocks M)) (\<lambda>(as, m). Inr \<lparr>blocks = m, sess_list = as\<rparr>)"

section \<open>Starting sessions\<close>

fun find_session :: "u16 \<Rightarrow> u16 \<Rightarrow> ptr list \<Rightarrow> mem \<Rightarrow> ptr option res" where
  "find_session onid channel_id [] m = Inr None"
| "find_session onid channel_id (a # as) m =
     bind_res (load_session m a) (\<lambda>s.
       if sp_onid s = onid \<and> sp_channel_id s = channel_id then Inr (Some a)
       else find_session onid channel_id as m)"

text \<open>
  The session \<open>a\<close> and its buffer \<open>b\<close> are allocated before it is known whether they are needed. \<open>ts\<close>
  are the tuners; beside the session number and the memory, the buffers for which a destination
  thread is started.
\<close>

definition fresh_session :: "u64 \<Rightarrow> ptr \<Rightarrow> sess_ptrs" where
  "fresh_session rnd b = \<lparr>sp_id = drop_bit 4 rnd, sp_onid = 0, sp_channel_id = 0, sp_running = (b \<noteq> 0),
     sp_buffer = b, sp_dests = 0\<rparr>"

definition heap_place ::
  "allocator \<Rightarrow> dvb_env \<Rightarrow> u64 \<Rightarrow> dvb_device_t list \<Rightarrow> u16 \<Rightarrow> u16 \<Rightarrow> ptr \<Rightarrow> ptr \<Rightarrow> ptr \<Rightarrow> memory
   \<Rightarrow> (u64 \<times> memory \<times> ptr list) res" where
  "heap_place al env rnd ts onid channel_id dest a b M =
     bind_res (find_session onid channel_id (sess_list M) (blocks M)) (\<lambda>r.
       case r of
         Some a' \<Rightarrow>
           bind_res (load_session (blocks M) a') (\<lambda>s'.
           bind_res (append_list (sp_dests s') dest (blocks M)) (\<lambda>m1.
           bind_res (free a m1) (\<lambda>m2. Inr (sp_id s', M\<lparr>blocks := m2\<rparr>, []))))
       | None \<Rightarrow>
           bind_res (choose_tuner env (uint onid) (uint channel_id) 0 ts) (\<lambda>(found, _, _).
             case found of
               None \<Rightarrow> bind_res (free a (blocks M)) (\<lambda>m1. Inr (0, M\<lparr>blocks := m1\<rparr>, []))
             | Some (k, ch, tuned) \<Rightarrow>
                 let (l, m1) = new_list al (blocks M);
                     m2 = m1(a \<mapsto> Session_Block ((fresh_session rnd b)\<lparr>sp_onid := onid,
                       sp_channel_id := channel_id, sp_dests := l\<rparr>)) in
                 bind_res (append_list l dest m2) (\<lambda>m3.
                   Inr (drop_bit 4 rnd, \<lparr>blocks = m3, sess_list = sess_list M @ [a]\<rparr>,
                        (if tuned then [b] else []) @ [b]))))"

definition heap_request ::
  "allocator \<Rightarrow> dvb_env \<Rightarrow> u64 \<Rightarrow> dvb_device_t list \<Rightarrow> u16 \<Rightarrow> u16 \<Rightarrow> ptr \<Rightarrow> memory
   \<Rightarrow> (u64 \<times> memory \<times> ptr list) res" where
  "heap_request al env rnd ts onid channel_id dest M =
     (let (a, m1) = malloc al SIZEOF_SESSION (Session_Block (fresh_session rnd 0)) (blocks M) in
      if a = 0 then Inl NullPointer
      else
        let (b, m2) = malloc al SIZEOF_QUEUE (Queue_Block a) m1 in
        if b = 0 then Inl NullPointer
        else heap_place al env rnd ts onid channel_id dest a b
               (M\<lparr>blocks := m2(a \<mapsto> Session_Block (fresh_session rnd b))\<rparr>))"

definition heap_addNew ::
  "allocator \<Rightarrow> dvb_env \<Rightarrow> u64 \<Rightarrow> dvb_device_t list \<Rightarrow> u16 \<Rightarrow> u16 \<Rightarrow> ptr \<Rightarrow> memory
   \<Rightarrow> (u64 \<times> memory \<times> ptr list) res" where
  "heap_addNew al env rnd ts onid channel_id dest M =
     bind_res (load_dest (blocks M) dest) (\<lambda>d.
     if channel_OK ts (uint onid) (uint channel_id) 0 = -1 then Inr (0, M, [])
     else
       bind_res (if dp_type d = dest_live \<or> dp_type d = dest_live2
                 then stop_type_loop (dp_type d) (sess_list M) (blocks M) else Inr (blocks M))
         (\<lambda>m. heap_request al env rnd ts onid channel_id dest (M\<lparr>blocks := m\<rparr>)))"

section \<open>Who owns what\<close>

record sess_view =
  sn_addr :: ptr
  sn_id :: u64
  sn_onid :: u16
  sn_channel_id :: u16
  sn_dests :: "dest_view list"

definition dests_at :: "dest_view list \<Rightarrow> block assn" where
  "dests_at vs = prod_list (map dest_at vs)"

definition list_at :: "ptr \<Rightarrow> dest_view list \<Rightarrow> block assn" where
  "list_at l vs = cell l (List_Block (map v_addr vs)) * dests_at vs"

definition session_block :: "sess_view \<Rightarrow> bool \<Rightarrow> ptr \<Rightarrow> ptr \<Rightarrow> block" where
  "session_block s r b l = Session_Block \<lparr>sp_id = sn_id s, sp_onid = sn_onid s,
     sp_channel_id = sn_channel_id s, sp_running = r, sp_buffer = b, sp_dests = l\<rparr>"

text \<open>A session owns its structure, its buffer, its list and the destinations in it.\<close>

definition session_at :: "sess_view \<Rightarrow> block assn" where
  "session_at s = exist (\<lambda>(b, l).
     cell (sn_addr s) (session_block s True b l) *
       (cell b (Queue_Block (sn_addr s)) * list_at l (sn_dests s)))"

definition sessions_at :: "sess_view list \<Rightarrow> block assn" where
  "sessions_at ss = prod_list (map session_at ss)"

definition shows_session :: "sess_view \<Rightarrow> session_service_t \<Rightarrow> bool" where
  "shows_session s x \<longleftrightarrow> sn_id s = sessionID x \<and> sn_onid s = s_onid x
     \<and> sn_channel_id s = s_channel_id x \<and> list_all2 shows_dest (sn_dests s) (destination_ll x)"

lemma dests_at_simps [simp]:
  "dests_at [] = 1" "dests_at (v # vs) = dest_at v * dests_at vs"
  "dests_at (vs @ ws) = dests_at vs * dests_at ws"
  by (simp_all add: dests_at_def)

lemma sessions_at_simps [simp]:
  "sessions_at [] = 1" "sessions_at (s # ss) = session_at s * sessions_at ss"
  "sessions_at (ss @ ss') = sessions_at ss * sessions_at ss'"
  by (simp_all add: sessions_at_def)

lemma put_dests:
  "session_block (s\<lparr>sn_dests := ds\<rparr>) = session_block s"
  "sn_addr (s\<lparr>sn_dests := ds\<rparr>) = sn_addr s" "sn_dests (s\<lparr>sn_dests := ds\<rparr>) = ds"
  by (simp_all add: session_block_def fun_eq_iff)

lemma session_atE:
  assumes "sat m (session_at s * F)"
  obtains b l where "sat m (cell (sn_addr s) (session_block s True b l) *
      (cell b (Queue_Block (sn_addr s)) * (cell l (List_Block (map v_addr (sn_dests s))) *
        (dests_at (sn_dests s) * F))))"
  using assms by (auto simp: session_at_def list_at_def mult.assoc simp del: sat_cell)

lemma session_atI:
  assumes "sat m (cell (sn_addr s) (session_block s True b l) *
      (cell b (Queue_Block (sn_addr s)) * (cell l (List_Block (map v_addr (sn_dests s))) *
        (dests_at (sn_dests s) * F))))"
  shows "sat m (session_at s * F)"
  unfolding session_at_def sat_exist_times
  by (rule exI [of _ "(b, l)"]) (use assms in \<open>simp only: split list_at_def mult.assoc\<close>)

section \<open>Destinations end\<close>

lemma end_dest_at:
  assumes "sat m (dest_at v * F)"
  shows "\<exists>m'. end_dest (v_addr v) m = Inr m' \<and> sat m' F"
proof -
  obtain b p where m: "sat m (cell (v_addr v) (Dest_Block \<lparr>dp_type = v_type v, dp_size = v_size v,
       dp_expired = v_expired v, dp_buffer = b, dp_url = p\<rparr>) * (cell b (Bytes (v_size v))
         * (url_at p (v_url v) * F)))"
    using assms by (rule dest_atE)
  obtain m1 where m1: "update_dest (v_addr v) (\<lambda>c. c\<lparr>dp_expired := True\<rparr>) m = Inr m1"
    "sat m1 (cell (v_addr v) (Dest_Block \<lparr>dp_type = v_type v, dp_size = v_size v,
       dp_expired = True, dp_buffer = b, dp_url = p\<rparr>) * (cell b (Bytes (v_size v))
         * (url_at p (v_url v) * F)))"
    using update_dest_at [OF m, of "\<lambda>c. c\<lparr>dp_expired := True\<rparr>"] by auto
  have "sat m1 (dest_at (v\<lparr>v_expired := True\<rparr>) * F)"
    by (rule dest_atI [of _ _ b p]) (use m1(2) in simp)
  from destination_destroy_at [OF this] m1(1) show ?thesis by (auto simp: end_dest_def)
qed

lemma close_dests_at:
  "sat m (dests_at vs * F) \<Longrightarrow> \<exists>m'. close_dests (map v_addr vs) m = Inr m' \<and> sat m' F"
proof (induction vs arbitrary: m)
  case (Cons v vs)
  then obtain m1 where "end_dest (v_addr v) m = Inr m1" "sat m1 (dests_at vs * F)"
    using end_dest_at by (metis dests_at_simps(2) mult.assoc)
  with Cons.IH show ?case by fastforce
qed simp

lemma dest_load:
  assumes "sat m (dest_at v * F)"
  shows "\<exists>c. load_dest m (v_addr v) = Inr c \<and> dp_type c = v_type v \<and> dp_expired c = v_expired v
    \<and> (\<exists>b. load m (dp_buffer c) = Inr b)"
proof -
  obtain b p where l: "load_dest m (v_addr v) = Inr \<lparr>dp_type = v_type v, dp_size = v_size v,
       dp_expired = v_expired v, dp_buffer = b, dp_url = p\<rparr>"
    and s: "sat m (cell (v_addr v) (Dest_Block \<lparr>dp_type = v_type v, dp_size = v_size v,
       dp_expired = v_expired v, dp_buffer = b, dp_url = p\<rparr>) * (cell b (Bytes (v_size v))
         * (url_at p (v_url v) * F)))"
    using assms by (rule dest_atE)
  from s have "sat m (cell b (Bytes (v_size v)) * (cell (v_addr v) (Dest_Block \<lparr>dp_type = v_type v,
       dp_size = v_size v, dp_expired = v_expired v, dp_buffer = b, dp_url = p\<rparr>)
         * (url_at p (v_url v) * F)))"
    by (simp only: ac_simps)
  with l show ?thesis by auto
qed

lemma close_type_dests_at:
  "sat m (dests_at vs * F) \<Longrightarrow> \<exists>m'. close_type_dests ty (map v_addr vs) m =
      Inr (map v_addr (filter (\<lambda>v. v_type v \<noteq> ty) vs), m')
    \<and> sat m' (dests_at (filter (\<lambda>v. v_type v \<noteq> ty) vs) * F)"
proof (induction vs arbitrary: m F)
  case (Cons v vs)
  then have m: "sat m (dest_at v * (dests_at vs * F))" by (simp add: mult.assoc)
  note l = dest_load [OF m]
  show ?case
  proof (cases "v_type v = ty")
    case True
    obtain m1 where m1: "end_dest (v_addr v) m = Inr m1" "sat m1 (dests_at vs * F)"
      using end_dest_at [OF m] by blast
    show ?thesis using Cons.IH [OF m1(2)] l m1(1) True by auto
  next
    case False
    have "sat m (dests_at vs * (dest_at v * F))" using m by (simp only: ac_simps)
    from Cons.IH [OF this] l False show ?thesis by (auto simp: ac_simps)
  qed
qed simp

lemma process_dests_at:
  "sat m (dests_at vs * F) \<Longrightarrow> \<exists>m'. process_dests (map v_addr vs) m =
      Inr (map v_addr (filter (\<lambda>v. \<not> v_expired v) vs), m')
    \<and> sat m' (dests_at (filter (\<lambda>v. \<not> v_expired v) vs) * F)"
proof (induction vs arbitrary: m F)
  case (Cons v vs)
  then have m: "sat m (dest_at v * (dests_at vs * F))" by (simp add: mult.assoc)
  note l = dest_load [OF m]
  show ?case
  proof (cases "v_expired v")
    case True
    obtain m1 where m1: "destination_destroy (v_addr v) m = Inr m1" "sat m1 (dests_at vs * F)"
      using destination_destroy_at [OF m] by blast
    show ?thesis using Cons.IH [OF m1(2)] l m1(1) True by auto
  next
    case False
    have "sat m (dests_at vs * (dest_at v * F))" using m by (simp only: ac_simps)
    from Cons.IH [OF this] l False show ?thesis by (auto simp: ac_simps)
  qed
qed simp

text \<open>A walk that reads the list, works on its destinations and stores those that are left.\<close>

lemma walk_list_at:
  assumes "sat m (list_at l vs * F)"
    and "\<And>m F. sat m (dests_at vs * F) \<Longrightarrow> \<exists>m'. g (map v_addr vs) m = Inr (map v_addr ws, m')
      \<and> sat m' (dests_at ws * F)"
  shows "\<exists>m'. bind_res (load_list m l) (\<lambda>as. bind_res (g as m) (\<lambda>(as', m'). set_list l as' m')) = Inr m'
    \<and> sat m' (list_at l ws * F)"
proof -
  let ?c = "\<lambda>vs. cell l (List_Block (map v_addr vs))"
  have m: "sat m (dests_at vs * (?c vs * F))" "load_list m l = Inr (map v_addr vs)"
    using assms(1) by (simp only: list_at_def ac_simps) (use assms(1) in \<open>simp add: list_at_def mult.assoc\<close>)
  obtain m1 where m1: "g (map v_addr vs) m = Inr (map v_addr ws, m1)" "sat m1 (dests_at ws * (?c vs * F))"
    using assms(2) [OF m(1)] by blast
  then have "sat m1 (?c vs * (dests_at ws * F))" by (simp only: ac_simps)
  then have "sat (m1(l \<mapsto> List_Block (map v_addr ws))) (?c ws * (dests_at ws * F))"
    "load_list m1 l = Inr (map v_addr vs)" by (rule store_cell) (use \<open>sat m1 (?c vs * _)\<close> in simp)
  then show ?thesis using m(2) m1(1) by (simp add: set_list_def list_at_def mult.assoc)
qed

lemma heap_close_all_at:
  assumes "sat m (list_at l vs * F)"
  shows "\<exists>m'. heap_close_all l m = Inr m' \<and> sat m' (list_at l [] * F)"
proof -
  have "\<exists>m'. bind_res (load_list m l) (\<lambda>as. bind_res (bind_res (close_dests as m) (\<lambda>m'. Inr ([], m')))
      (\<lambda>(as', m'). set_list l as' m')) = Inr m' \<and> sat m' (list_at l [] * F)"
    by (rule walk_list_at [OF assms, where g = "\<lambda>as m. bind_res (close_dests as m) (\<lambda>m'. Inr ([], m'))"])
      (use close_dests_at in fastforce)
  moreover have "bind_res (bind_res r (\<lambda>m'. Inr ([], m'))) (\<lambda>(as', m'). set_list l as' m') = bind_res r (set_list l [])"
    for r by (cases r) simp_all
  ultimately show ?thesis by (simp add: heap_close_all_def)
qed

lemma heap_close_type_at:
  assumes "sat m (list_at l vs * F)"
  shows "\<exists>m'. heap_close_type ty l m = Inr m' \<and> sat m' (list_at l (filter (\<lambda>v. v_type v \<noteq> ty) vs) * F)"
  unfolding heap_close_type_def
  by (rule walk_list_at [OF assms, where g = "close_type_dests ty"], rule close_type_dests_at)

lemma heap_process_at:
  assumes "sat m (list_at l vs * F)"
  shows "\<exists>m'. heap_process l m = Inr m' \<and> sat m' (list_at l (filter (\<lambda>v. \<not> v_expired v) vs) * F)"
  unfolding heap_process_def
  by (rule walk_list_at [OF assms, where g = process_dests], rule process_dests_at)

lemma append_list_at:
  assumes "sat m (list_at l vs * (dest_at v * F))"
  shows "\<exists>m'. append_list l (v_addr v) m = Inr m' \<and> sat m' (list_at l (vs @ [v]) * F)"
proof -
  have m: "sat m (cell l (List_Block (map v_addr vs)) * (dests_at (vs @ [v]) * F))"
    using assms by (simp add: list_at_def mult.assoc del: sat_cell)
  have "sat (m(l \<mapsto> List_Block (map v_addr (vs @ [v]))))
      (cell l (List_Block (map v_addr (vs @ [v]))) * (dests_at (vs @ [v]) * F))"
    by (rule store_cell [OF m])
  with m show ?thesis by (simp add: append_list_def list_at_def mult.assoc)
qed

lemma destroy_list_at:
  assumes "sat m (list_at l [] * F)"
  shows "\<exists>m'. destroy_list l m = Inr m' \<and> sat m' F"
  using free_cell [of m l "List_Block []" F] assms by (simp add: list_at_def destroy_list_def)

section \<open>Sessions end\<close>

text \<open>What the loops leave of the sessions.\<close>

fun stop_views :: "u64 \<Rightarrow> sess_view list \<Rightarrow> sess_view list" where
  "stop_views sid [] = []"
| "stop_views sid (s # ss) = (if sn_id s = sid then ss else s # stop_views sid ss)"

definition close_views :: "dest_type \<Rightarrow> sess_view list \<Rightarrow> sess_view list" where
  "close_views ty ss = map (\<lambda>s. s\<lparr>sn_dests := filter (\<lambda>v. v_type v \<noteq> ty) (sn_dests s)\<rparr>) ss"

lemma session_load:
  assumes "sat m (session_at s * F)"
  obtains b l where "load_session m (sn_addr s) = Inr \<lparr>sp_id = sn_id s, sp_onid = sn_onid s,
      sp_channel_id = sn_channel_id s, sp_running = True, sp_buffer = b, sp_dests = l\<rparr>"
    "load_queue m b = Inr (sn_addr s)" "load_list m l = Inr (map v_addr (sn_dests s))" "l \<noteq> 0"
    "sat m (list_at l (sn_dests s) * (cell (sn_addr s) (session_block s True b l) *
      (cell b (Queue_Block (sn_addr s)) * F)))"
proof -
  obtain b l where m: "sat m (cell (sn_addr s) (session_block s True b l) *
      (cell b (Queue_Block (sn_addr s)) * (cell l (List_Block (map v_addr (sn_dests s))) *
        (dests_at (sn_dests s) * F))))"
    using assms by (rule session_atE)
  then have "sat m (list_at l (sn_dests s) * (cell (sn_addr s) (session_block s True b l) *
      (cell b (Queue_Block (sn_addr s)) * F)))"
    by (simp only: list_at_def ac_simps)
  moreover have "load_session m (sn_addr s) = Inr \<lparr>sp_id = sn_id s, sp_onid = sn_onid s,
      sp_channel_id = sn_channel_id s, sp_running = True, sp_buffer = b, sp_dests = l\<rparr>"
    using m by (simp add: session_block_def)
  moreover have "load_queue m b = Inr (sn_addr s)" "load_list m l = Inr (map v_addr (sn_dests s))" "l \<noteq> 0"
    using m by (simp_all split: if_splits)
  ultimately show thesis using that by blast
qed

text \<open>Marking a session as stopped and freeing its buffer and itself leaves its list.\<close>

lemma halt_session_at:
  assumes "sat m (list_at l vs * (cell (sn_addr s) (session_block s True b l) *
      (cell b (Queue_Block (sn_addr s)) * F)))"
  shows "\<exists>m'. halt_session (sn_addr s) m = Inr m' \<and> sat m' (cell b (Queue_Block (sn_addr s)) *
      (cell (sn_addr s) (session_block s False b l) * (list_at l vs * F)))"
proof -
  have m: "sat m (cell (sn_addr s) (session_block s True b l) *
      (cell b (Queue_Block (sn_addr s)) * (list_at l vs * F)))"
    using assms by (simp only: ac_simps)
  have "sat (m(sn_addr s \<mapsto> session_block s False b l)) (cell (sn_addr s) (session_block s False b l) *
      (cell b (Queue_Block (sn_addr s)) * (list_at l vs * F)))"
    by (rule store_cell [OF m])
  then have "sat (m(sn_addr s \<mapsto> session_block s False b l)) (cell b (Queue_Block (sn_addr s)) *
      (cell (sn_addr s) (session_block s False b l) * (list_at l vs * F)))"
    by (simp only: ac_simps)
  moreover have "halt_session (sn_addr s) m = Inr (m(sn_addr s \<mapsto> session_block s False b l))"
    using m by (auto simp: halt_session_def session_block_def split: if_splits)
  ultimately show ?thesis by blast
qed

lemma stop_loop_none:
  "sat m (sessions_at ss * F) \<Longrightarrow> \<forall>s \<in> set ss. sn_id s \<noteq> sid
    \<Longrightarrow> stop_loop sid (map sn_addr ss) m = Inr (None, map sn_addr ss, m)"
proof (induction ss arbitrary: F)
  case (Cons s ss)
  then have m: "sat m (session_at s * (sessions_at ss * F))" by (simp add: mult.assoc)
  then have l: "\<exists>p. load_session m (sn_addr s) = Inr p \<and> sp_id p = sn_id s"
    by (rule session_load) simp
  have "sat m (sessions_at ss * (session_at s * F))" using m by (simp only: ac_simps)
  from Cons.IH [OF this] Cons.prems(2) l show ?case by auto
qed simp

text \<open>Whatever is beside the session that ends stays beside its list.\<close>

lemma stop_loop_at:
  assumes "sat m (sessions_at (xs @ s # ys) * F)" "\<forall>x \<in> set xs. sn_id x \<noteq> sid" "sn_id s = sid"
    and R: "sat m (session_at s * R)"
  shows "\<exists>l m'. stop_loop sid (map sn_addr (xs @ s # ys)) m = Inr (Some l, map sn_addr (xs @ ys), m')
    \<and> l \<noteq> 0 \<and> sat m' (list_at l (sn_dests s) * R)"
  using assms(1,2)
proof (induction xs arbitrary: F)
  case Nil
  obtain b l where l: "load_session m (sn_addr s) = Inr \<lparr>sp_id = sn_id s, sp_onid = sn_onid s,
      sp_channel_id = sn_channel_id s, sp_running = True, sp_buffer = b, sp_dests = l\<rparr>"
    "load_queue m b = Inr (sn_addr s)" "load_list m l = Inr (map v_addr (sn_dests s))" "l \<noteq> 0"
    "sat m (list_at l (sn_dests s) * (cell (sn_addr s) (session_block s True b l) *
      (cell b (Queue_Block (sn_addr s)) * R)))"
    using R by (rule session_load)
  obtain m1 where m1: "halt_session (sn_addr s) m = Inr m1" "sat m1 (cell b (Queue_Block (sn_addr s)) *
    (cell (sn_addr s) (session_block s False b l) * (list_at l (sn_dests s) * R)))"
    using halt_session_at [OF l(5)] by blast
  note m2 = free_cell [OF m1(2)]
  note m3 = free_cell [OF conjunct2 [OF m2]]
  show ?case using assms(3) l(1,4) m1(1) m2 m3 by simp
next
  case (Cons x xs)
  then have m: "sat m (session_at x * (sessions_at (xs @ s # ys) * F))"
    by (simp only: append_Cons sessions_at_simps mult.assoc)
  then have l: "\<exists>p. load_session m (sn_addr x) = Inr p \<and> sp_id p = sn_id x"
    by (rule session_load) simp
  have "sat m (sessions_at (xs @ s # ys) * (session_at x * F))" using m by (simp only: ac_simps)
  from Cons.IH [OF this] Cons.prems(2) l show ?case by auto
qed

text \<open>
  \<open>session_stop\<close> ends the first session of the number: its blocks are freed, all of them, and whatever
  is beside them is left.
\<close>

lemma heap_stop_frame:
  assumes "sat (blocks M) (sessions_at (xs @ s # ys) * F)" "sess_list M = map sn_addr (xs @ s # ys)"
    and "\<forall>x \<in> set xs. sn_id x \<noteq> sid" "sn_id s = sid" "sat (blocks M) (session_at s * R)"
  shows "\<exists>m'. heap_stop sid M = Inr (0, \<lparr>blocks = m', sess_list = map sn_addr (xs @ ys)\<rparr>) \<and> sat m' R"
proof -
  obtain l m1 where l: "stop_loop sid (map sn_addr (xs @ s # ys)) (blocks M)
      = Inr (Some l, map sn_addr (xs @ ys), m1)" "l \<noteq> 0" "sat m1 (list_at l (sn_dests s) * R)"
    using stop_loop_at [OF assms(1,3-5)] by blast
  obtain m2 where m2: "heap_close_all l m1 = Inr m2" "sat m2 (list_at l [] * R)"
    using heap_close_all_at [OF l(3)] by blast
  obtain m3 where m3: "destroy_list l m2 = Inr m3" "sat m3 R"
    using destroy_list_at [OF m2(2)] by blast
  show ?thesis unfolding heap_stop_def assms(2) l(1) using l(2) m2(1) m3 by simp
qed

lemma stop_views_split:
  assumes "\<forall>x \<in> set xs. sn_id x \<noteq> sid" "sn_id s = sid"
  shows "stop_views sid (xs @ s # ys) = xs @ ys"
  using assms by (induction xs) auto

lemma heap_stop_at:
  assumes "sat (blocks M) (sessions_at ss * F)" "sess_list M = map sn_addr ss"
  shows "\<exists>M'. heap_stop sid M = Inr (if \<exists>s \<in> set ss. sn_id s = sid then 0 else -1, M')
    \<and> sess_list M' = map sn_addr (stop_views sid ss)
    \<and> sat (blocks M') (sessions_at (stop_views sid ss) * F)"
proof (cases "\<exists>s \<in> set ss. sn_id s = sid")
  case False
  then have "stop_views sid ss = ss" by (induction ss) auto
  with False stop_loop_none [OF assms(1)] assms show ?thesis by (auto simp: heap_stop_def)
next
  case True
  then obtain xs s ys where s: "ss = xs @ s # ys" "sn_id s = sid" "\<forall>x \<in> set xs. sn_id x \<noteq> sid"
    using split_list_first_prop [OF True] by blast
  have "sat (blocks M) (session_at s * (sessions_at (xs @ ys) * F))"
    using assms(1) unfolding s(1) by (simp only: sessions_at_simps ac_simps)
  from heap_stop_frame [OF assms [unfolded s(1)] s(3,2) this]
  obtain m' where m': "heap_stop sid M = Inr (0, \<lparr>blocks = m', sess_list = map sn_addr (xs @ ys)\<rparr>)"
    "sat m' (sessions_at (xs @ ys) * F)" by blast
  have "stop_views sid ss = xs @ ys" unfolding s(1) by (rule stop_views_split [OF s(3,2)])
  with True m' show ?thesis by (intro exI [of _ "\<lparr>blocks = m', sess_list = map sn_addr (xs @ ys)\<rparr>"]) simp
qed

lemma stop_type_loop_at:
  "sat m (sessions_at ss * F) \<Longrightarrow> \<exists>m'. stop_type_loop ty (map sn_addr ss) m = Inr m'
    \<and> sat m' (sessions_at (close_views ty ss) * F)"
proof (induction ss arbitrary: m F)
  case (Cons s ss)
  then have m: "sat m (session_at s * (sessions_at ss * F))" by (simp add: mult.assoc)
  let ?s = "s\<lparr>sn_dests := filter (\<lambda>v. v_type v \<noteq> ty) (sn_dests s)\<rparr>"
  obtain b l where l: "load_session m (sn_addr s) = Inr \<lparr>sp_id = sn_id s, sp_onid = sn_onid s,
      sp_channel_id = sn_channel_id s, sp_running = True, sp_buffer = b, sp_dests = l\<rparr>"
    "load_queue m b = Inr (sn_addr s)" "load_list m l = Inr (map v_addr (sn_dests s))" "l \<noteq> 0"
    "sat m (list_at l (sn_dests s) * (cell (sn_addr s) (session_block s True b l) *
      (cell b (Queue_Block (sn_addr s)) * (sessions_at ss * F))))"
    using m by (rule session_load)
  obtain m1 where m1: "heap_close_type ty l m = Inr m1" "sat m1 (list_at l (sn_dests ?s) *
      (cell (sn_addr s) (session_block s True b l) *
      (cell b (Queue_Block (sn_addr s)) * (sessions_at ss * F))))"
    using heap_close_type_at [OF l(5), of ty] by auto
  have "sat m1 (session_at ?s * (sessions_at ss * F))"
    by (rule session_atI [of _ _ b l])
      (use m1(2) in \<open>simp only: list_at_def put_dests ac_simps\<close>)
  then have "sat m1 (sessions_at ss * (session_at ?s * F))" by (simp only: ac_simps)
  from Cons.IH [OF this] l(1) m1(1) show ?case by (auto simp: close_views_def ac_simps)
qed (simp add: close_views_def)

lemma reap_loop_at:
  "sat m (sessions_at ss * F) \<Longrightarrow> \<exists>m'. reap_loop (map sn_addr ss) m
      = Inr (map sn_addr (filter (\<lambda>s. sn_dests s \<noteq> []) ss), m')
    \<and> sat m' (sessions_at (filter (\<lambda>s. sn_dests s \<noteq> []) ss) * F)"
proof (induction ss arbitrary: m F)
  case (Cons s ss)
  then have m: "sat m (session_at s * (sessions_at ss * F))" by (simp add: mult.assoc)
  obtain b l where l: "load_session m (sn_addr s) = Inr \<lparr>sp_id = sn_id s, sp_onid = sn_onid s,
      sp_channel_id = sn_channel_id s, sp_running = True, sp_buffer = b, sp_dests = l\<rparr>"
    "load_queue m b = Inr (sn_addr s)" "load_list m l = Inr (map v_addr (sn_dests s))" "l \<noteq> 0"
    "sat m (list_at l (sn_dests s) * (cell (sn_addr s) (session_block s True b l) *
      (cell b (Queue_Block (sn_addr s)) * (sessions_at ss * F))))"
    using m by (rule session_load)
  show ?case
  proof (cases "sn_dests s = []")
    case True
    obtain m1 where m1: "halt_session (sn_addr s) m = Inr m1" "sat m1 (cell b (Queue_Block (sn_addr s)) *
      (cell (sn_addr s) (session_block s False b l) * (list_at l (sn_dests s) * (sessions_at ss * F))))"
      using halt_session_at [OF l(5)] by blast
    then have "sat m1 (list_at l [] * (cell b (Queue_Block (sn_addr s)) *
      (cell (sn_addr s) (session_block s False b l) * (sessions_at ss * F))))"
      using True by (simp only: ac_simps)
    then obtain m2 where m2: "destroy_list l m1 = Inr m2" "sat m2 (cell b (Queue_Block (sn_addr s)) *
      (cell (sn_addr s) (session_block s False b l) * (sessions_at ss * F)))"
      using destroy_list_at by blast
    obtain m3 where m3: "free b m2 = Inr m3"
      "sat m3 (cell (sn_addr s) (session_block s False b l) * (sessions_at ss * F))"
      using free_cell [OF m2(2)] by blast
    obtain m4 where m4: "free (sn_addr s) m3 = Inr m4" "sat m4 (sessions_at ss * F)"
      using free_cell [OF m3(2)] by blast
    from Cons.IH [OF m4(2)] show ?thesis using True l(1,3) m1(1) m2(1) m3(1) m4(1) by auto
  next
    case False
    have "sat m (sessions_at ss * (session_at s * F))" using m by (simp only: ac_simps)
    from Cons.IH [OF this] False l(1,3) show ?thesis by (auto simp: ac_simps)
  qed
qed simp

lemma heap_reap_at:
  assumes "sat (blocks M) (sessions_at ss * F)" "sess_list M = map sn_addr ss"
  shows "\<exists>M'. heap_reap M = Inr M' \<and> sess_list M' = map sn_addr (filter (\<lambda>s. sn_dests s \<noteq> []) ss)
    \<and> sat (blocks M') (sessions_at (filter (\<lambda>s. sn_dests s \<noteq> []) ss) * F)"
  using reap_loop_at [OF assms(1)] assms(2) by (auto simp: heap_reap_def)

section \<open>Sessions start\<close>

lemma find_session_at:
  "sat m (sessions_at ss * F) \<Longrightarrow> find_session onid ch (map sn_addr ss) m =
    Inr (map_option sn_addr (find (\<lambda>s. sn_onid s = onid \<and> sn_channel_id s = ch) ss))"
proof (induction ss arbitrary: F)
  case (Cons s ss)
  then have m: "sat m (session_at s * (sessions_at ss * F))" by (simp add: mult.assoc)
  then obtain b l where l: "load_session m (sn_addr s) = Inr \<lparr>sp_id = sn_id s, sp_onid = sn_onid s,
      sp_channel_id = sn_channel_id s, sp_running = True, sp_buffer = b, sp_dests = l\<rparr>"
    by (rule session_load)
  have "sat m (sessions_at ss * (session_at s * F))" using m by (simp only: ac_simps)
  from Cons.IH [OF this] l show ?case by simp
qed simp

text \<open>Joining a session, and making a new one of two fresh blocks and a list.\<close>

lemma join_session_at:
  assumes "sat m (session_at s * (dest_at v * F))"
  shows "\<exists>p m'. load_session m (sn_addr s) = Inr p \<and> sp_id p = sn_id s
    \<and> append_list (sp_dests p) (v_addr v) m = Inr m'
    \<and> sat m' (session_at (s\<lparr>sn_dests := sn_dests s @ [v]\<rparr>) * F)"
proof -
  obtain b l where l: "load_session m (sn_addr s) = Inr \<lparr>sp_id = sn_id s, sp_onid = sn_onid s,
      sp_channel_id = sn_channel_id s, sp_running = True, sp_buffer = b, sp_dests = l\<rparr>"
    "load_queue m b = Inr (sn_addr s)" "load_list m l = Inr (map v_addr (sn_dests s))" "l \<noteq> 0"
    "sat m (list_at l (sn_dests s) * (cell (sn_addr s) (session_block s True b l) *
      (cell b (Queue_Block (sn_addr s)) * (dest_at v * F))))"
    using assms by (rule session_load)
  have "sat m (list_at l (sn_dests s) * (dest_at v * (cell (sn_addr s) (session_block s True b l) *
      (cell b (Queue_Block (sn_addr s)) * F))))"
    using l(5) by (simp only: ac_simps)
  then obtain m1 where m1: "append_list l (v_addr v) m = Inr m1"
    "sat m1 (list_at l (sn_dests s @ [v]) * (cell (sn_addr s) (session_block s True b l) *
      (cell b (Queue_Block (sn_addr s)) * F)))"
    using append_list_at by blast
  have "sat m1 (session_at (s\<lparr>sn_dests := sn_dests s @ [v]\<rparr>) * F)"
    by (rule session_atI [of _ _ b l])
      (use m1(2) in \<open>simp only: list_at_def put_dests ac_simps\<close>)
  with l(1) m1(1) show ?thesis by simp
qed

lemma find_views:
  assumes "list_all2 shows_session ss xs" "\<And>s x. shows_session s x \<Longrightarrow> P s = Q x"
  shows "find P ss = map_option (\<lambda>k. ss ! k) (find_index Q xs)"
  using assms(1)
  by (induction rule: list_all2_induct) (use assms(2) in \<open>auto simp: option.map_comp comp_def\<close>)

lemmas sessions_at_nth = prod_list_nth [where f = session_at, folded sessions_at_def]
lemmas dests_at_nth = prod_list_nth [where f = dest_at, folded dests_at_def]

lemma close_views_shows:
  assumes "list_all2 shows_session ss xs"
  shows "list_all2 shows_session (close_views ty ss) (session_stop_type ty xs)"
proof -
  have "list_all2 shows_dest (filter (\<lambda>v. v_type v \<noteq> ty) vs) (destination_close_type ds ty)"
    if "list_all2 shows_dest vs ds" for vs ds
    using that by (induction rule: list_all2_induct) (auto simp: shows_dest_def)
  with assms show ?thesis
    by (auto simp: close_views_def session_stop_type_def list_all2_map1 list_all2_map2
        shows_session_def elim!: list_all2_mono)
qed

text \<open>The buffer of a session that was not needed is never freed.\<close>

definition queue_leak :: "block assn" where
  "queue_leak = exist (\<lambda>(b, a). cell b (Queue_Block a))"

lemma queue_leakI: "sat m (cell b (Queue_Block a) * F) \<Longrightarrow> sat m (queue_leak * F)"
  unfolding queue_leak_def sat_exist_times by (rule exI [of _ "(b, a)"]) simp

text \<open>The views a request starts from, after a live destination has closed the others of its type.\<close>

definition live_views :: "dest_view \<Rightarrow> sess_view list \<Rightarrow> sess_view list" where
  "live_views v ss = (if v_type v = dest_live \<or> v_type v = dest_live2
     then close_views (v_type v) ss else ss)"

text \<open>The two blocks a request allocates.\<close>

lemma fresh_session_at:
  assumes al: "roomy al" and m: "sat m F"
  shows "\<exists>a m1 b m2. malloc al SIZEOF_SESSION (Session_Block s0) m = (a, m1) \<and> a \<noteq> 0
    \<and> malloc al SIZEOF_QUEUE (Queue_Block a) m1 = (b, m2) \<and> b \<noteq> 0
    \<and> sat (m2(a \<mapsto> Session_Block (f b))) (cell a (Session_Block (f b)) * (cell b (Queue_Block a) * F))"
proof -
  obtain a m1 where a: "malloc al SIZEOF_SESSION (Session_Block s0) m = (a, m1)" "a \<noteq> 0"
    "sat m1 (cell a (Session_Block s0) * F)"
    using malloc_cell [OF roomyD(1,4) [OF al] m] by blast
  obtain b m2 where b: "malloc al SIZEOF_QUEUE (Queue_Block a) m1 = (b, m2)" "b \<noteq> 0"
    "sat m2 (cell b (Queue_Block a) * (cell a (Session_Block s0) * F))"
    using malloc_cell [OF roomyD(1,3) [OF al] a(3)] by blast
  then have "sat m2 (cell a (Session_Block s0) * (cell b (Queue_Block a) * F))"
    by (simp only: ac_simps)
  from store_cell [OF this, of "Session_Block (f b)"] a b show ?thesis by blast
qed

text \<open>What a request does: refused for want of a tuner, joined, or started.\<close>

definition settled ::
  "dest_view \<Rightarrow> sess_view list \<Rightarrow> u64 \<Rightarrow> sess_view list \<Rightarrow> block assn \<Rightarrow> bool" where
  "settled v ss rc ss' G \<longleftrightarrow>
     (rc = 0 \<and> ss' = ss \<and> G = dest_at v * queue_leak)
     \<or> (\<exists>k < length ss. ss' = ss[k := (ss ! k)\<lparr>sn_dests := sn_dests (ss ! k) @ [v]\<rparr>] \<and> G = queue_leak)
     \<or> (\<exists>s. ss' = ss @ [s] \<and> sn_dests s = [v] \<and> G = 1)"

text \<open>The three ways, on a memory with the fresh session \<open>a\<close>, its buffer \<open>b\<close> and the destination.\<close>

lemma place_joins:
  assumes m: "sat (blocks M) (cell a (Session_Block c) * (cell b (Queue_Block a) *
      (sessions_at ss * (dest_at v * F))))"
    and f: "find_session onid ch (sess_list M) (blocks M) = Inr (Some (sn_addr (ss ! k)))"
    and k: "k < length ss"
  shows "\<exists>m'. heap_place al env rnd ts onid ch (v_addr v) a b M = Inr (sn_id (ss ! k), M\<lparr>blocks := m'\<rparr>, [])
    \<and> sat m' (sessions_at (ss[k := (ss ! k)\<lparr>sn_dests := sn_dests (ss ! k) @ [v]\<rparr>]) * (queue_leak * F))"
proof -
  let ?s = "(ss ! k)\<lparr>sn_dests := sn_dests (ss ! k) @ [v]\<rparr>"
  let ?R = "sessions_at (take k ss @ drop (Suc k) ss)"
  have "sat (blocks M) (session_at (ss ! k) * (dest_at v *
      (?R * (cell a (Session_Block c) * (cell b (Queue_Block a) * F)))))"
    using m by (simp only: sessions_at_nth(1) [OF k] ac_simps)
  then obtain p m1 where p: "load_session (blocks M) (sn_addr (ss ! k)) = Inr p" "sp_id p = sn_id (ss ! k)"
    "append_list (sp_dests p) (v_addr v) (blocks M) = Inr m1"
    "sat m1 (session_at ?s * (?R * (cell a (Session_Block c) * (cell b (Queue_Block a) * F))))"
    using join_session_at by blast
  have "sat m1 (cell a (Session_Block c) * (cell b (Queue_Block a) * (sessions_at (ss[k := ?s]) * F)))"
    using p(4) by (simp only: sessions_at_nth(2) [OF k] ac_simps)
  then obtain m2 where m2: "free a m1 = Inr m2"
    "sat m2 (cell b (Queue_Block a) * (sessions_at (ss[k := ?s]) * F))"
    using free_cell by blast
  have "sat m2 (sessions_at (ss[k := ?s]) * (queue_leak * F))"
    using queue_leakI [OF m2(2)] by (simp only: ac_simps)
  then show ?thesis using f p(1-3) m2(1) by (auto simp: heap_place_def)
qed

lemma place_refused:
  assumes m: "sat (blocks M) (cell a (Session_Block c) * (cell b (Queue_Block a) *
      (sessions_at ss * (dest_at v * F))))"
    and f: "find_session onid ch (sess_list M) (blocks M) = Inr None"
    and c: "choose_tuner env (uint onid) (uint ch) 0 ts = Inr (None, ts', calls)"
  shows "\<exists>m'. heap_place al env rnd ts onid ch (v_addr v) a b M = Inr (0, M\<lparr>blocks := m'\<rparr>, [])
    \<and> sat m' (sessions_at ss * (dest_at v * queue_leak * F))"
proof -
  obtain m1 where m1: "free a (blocks M) = Inr m1"
    "sat m1 (cell b (Queue_Block a) * (sessions_at ss * (dest_at v * F)))"
    using free_cell [OF m] by blast
  have "sat m1 (sessions_at ss * (dest_at v * queue_leak * F))"
    using queue_leakI [OF m1(2)] by (simp only: ac_simps)
  then show ?thesis using f c m1(1) by (auto simp: heap_place_def)
qed

lemma place_starts:
  assumes al: "roomy al" and b: "b \<noteq> 0"
    and m: "sat (blocks M) (cell a (Session_Block (fresh_session rnd b)) * (cell b (Queue_Block a) *
      (sessions_at ss * (dest_at v * F))))"
    and f: "find_session onid ch (sess_list M) (blocks M) = Inr None"
    and c: "choose_tuner env (uint onid) (uint ch) 0 ts = Inr (Some (k, cc, tuned), ts', calls)"
  shows "\<exists>m'. heap_place al env rnd ts onid ch (v_addr v) a b M
      = Inr (drop_bit 4 rnd, \<lparr>blocks = m', sess_list = sess_list M @ [a]\<rparr>,
             (if tuned then [b] else []) @ [b])
    \<and> sat m' (sessions_at (ss @ [\<lparr>sn_addr = a, sn_id = drop_bit 4 rnd, sn_onid = onid,
        sn_channel_id = ch, sn_dests = [v]\<rparr>]) * F)"
proof -
  let ?n = "\<lparr>sn_addr = a, sn_id = drop_bit 4 rnd, sn_onid = onid, sn_channel_id = ch, sn_dests = [v]\<rparr>"
  obtain l m1 where l: "new_list al (blocks M) = (l, m1)" "sat m1 (cell l (List_Block []) *
    (cell a (Session_Block (fresh_session rnd b)) * (cell b (Queue_Block a) *
      (sessions_at ss * (dest_at v * F)))))"
    unfolding new_list_def using malloc_cell [OF roomyD(1,5) [OF al] m] by blast
  let ?s = "(fresh_session rnd b)\<lparr>sp_onid := onid, sp_channel_id := ch, sp_dests := l\<rparr>"
  have sb: "Session_Block ?s = session_block ?n True b l"
    using b by (simp add: session_block_def fresh_session_def)
  define m2 where "m2 = m1(a \<mapsto> Session_Block ?s)"
  have "sat m1 (cell a (Session_Block (fresh_session rnd b)) * (cell l (List_Block []) *
      (cell b (Queue_Block a) * (sessions_at ss * (dest_at v * F)))))"
    using l(2) by (simp only: ac_simps)
  from store_cell [OF this, of "Session_Block ?s", folded m2_def]
  have "sat m2 (list_at l [] * (dest_at v * (cell a (Session_Block ?s) *
      (cell b (Queue_Block a) * (sessions_at ss * F)))))"
    by (simp only: list_at_def dests_at_simps list.map mult_1_left mult_1_right ac_simps)
  from append_list_at [OF this] obtain m3 where m3: "append_list l (v_addr v) m2 = Inr m3"
    "sat m3 (list_at l [v] * (cell a (Session_Block ?s) *
      (cell b (Queue_Block a) * (sessions_at ss * F))))" by auto
  have "sat m3 (session_at ?n * (sessions_at ss * F))"
    by (rule session_atI [of _ _ b l])
      (use m3(2) in \<open>simp only: list_at_def sb sess_view.simps ac_simps\<close>)
  then have "sat m3 (sessions_at (ss @ [?n]) * F)"
    by (simp only: sessions_at_simps mult_1_left mult_1_right ac_simps)
  then show ?thesis using f c l(1) m3(1) by (auto simp: heap_place_def m2_def Let_def)
qed

text \<open>A request, on the values \<open>xs\<close> of the sessions and on their blocks.\<close>

definition request_on ::
  "dvb_env \<Rightarrow> u64 \<Rightarrow> server \<Rightarrow> u16 \<Rightarrow> u16 \<Rightarrow> destination_t \<Rightarrow> session_service_t list
   \<Rightarrow> (u64 \<times> server \<times> dev_call list \<times> u64 list) res" where
  "request_on env rnd st onid ch d xs =
     (case find_index (\<lambda>s. s_onid s = onid \<and> s_channel_id s = ch) xs of
        Some k \<Rightarrow> Inr (sessionID (xs ! k), st\<lparr>sessions := xs[k := append_dest d (xs ! k)]\<rparr>, [], [])
      | None \<Rightarrow>
          bind_res (choose_tuner env (uint onid) (uint ch) 0 (tuners st)) (\<lambda>(r, ts, calls).
            case r of
              None \<Rightarrow> Inr (0, st\<lparr>tuners := ts, sessions := xs\<rparr>, calls, [])
            | Some (k, c, tuned) \<Rightarrow>
                bind_res (channel_at (ts ! k) c) (\<lambda>c'.
                  Inr (sessionID (new_session rnd), st\<lparr>tuners := ts,
                         sessions := xs @ [(new_session rnd)\<lparr>s_tuner := k, s_channel := c,
                           s_onid := onid, s_channel_id := ch,
                           pmt_program := service_id c', destination_ll := [d]\<rparr>]\<rparr>,
                       calls,
                       (if tuned then [sessionID (new_session rnd)] else [])
                         @ [sessionID (new_session rnd)]))))"

lemma session_addNew_request:
  "session_addNew env rnd st onid ch (Some d) =
     (if channel_OK (tuners st) (uint onid) (uint ch) 0 = -1 then Inr (0, st, [], [])
      else request_on env rnd st onid ch d (after_live d (sessions st)))"
  by (simp add: session_addNew_def request_on_def after_live_def [symmetric] Let_def)

lemma heap_request_at:
  assumes al: "roomy al" and m: "sat (blocks M) (sessions_at ss * (dest_at v * F))"
    and l: "sess_list M = map sn_addr ss"
    and xs: "list_all2 shows_session ss xs" and d: "shows_dest v d"
    and run: "request_on env rnd st onid ch d xs = Inr (rc, st', calls, threads)"
  shows "\<exists>M' bs ss' G. heap_request al env rnd (tuners st) onid ch (v_addr v) M = Inr (rc, M', bs)
    \<and> sess_list M' = map sn_addr ss' \<and> list_all2 shows_session ss' (sessions st')
    \<and> sat (blocks M') (sessions_at ss' * (G * F)) \<and> settled v ss rc ss' G
    \<and> length bs = length threads"
proof -
  obtain a m1 b m2 where a: "malloc al SIZEOF_SESSION (Session_Block (fresh_session rnd 0)) (blocks M)
      = (a, m1)" "a \<noteq> 0" "malloc al SIZEOF_QUEUE (Queue_Block a) m1 = (b, m2)" "b \<noteq> 0"
    and m3: "sat (m2(a \<mapsto> Session_Block (fresh_session rnd b))) (cell a (Session_Block (fresh_session rnd b)) *
      (cell b (Queue_Block a) * (sessions_at ss * (dest_at v * F))))"
    using fresh_session_at [OF al m, of "fresh_session rnd 0" "fresh_session rnd"] by blast
  let ?M = "M\<lparr>blocks := m2(a \<mapsto> Session_Block (fresh_session rnd b))\<rparr>"
  have sat: "sat (blocks ?M) (cell a (Session_Block (fresh_session rnd b)) *
      (cell b (Queue_Block a) * (sessions_at ss * (dest_at v * F))))"
    using m3 by simp
  have eq: "heap_request al env rnd (tuners st) onid ch (v_addr v) M
      = heap_place al env rnd (tuners st) onid ch (v_addr v) a b ?M"
    using a by (simp add: heap_request_def)
  let ?Q = "\<lambda>x. s_onid x = onid \<and> s_channel_id x = ch"
  have "sat (blocks ?M) (sessions_at ss * (cell a (Session_Block (fresh_session rnd b)) *
      (cell b (Queue_Block a) * (dest_at v * F))))"
    using sat by (simp only: ac_simps)
  from find_session_at [OF this, of onid ch]
  have f: "find_session onid ch (sess_list ?M) (blocks ?M)
      = Inr (map_option (\<lambda>k. sn_addr (ss ! k)) (find_index ?Q xs))"
    using find_views [OF xs, of "\<lambda>s. sn_onid s = onid \<and> sn_channel_id s = ch" ?Q] l
    by (simp add: shows_session_def option.map_comp comp_def)
  show ?thesis
  proof (cases "find_index ?Q xs")
    case (Some k)
    then have k: "k < length ss" using list_all2_lengthD [OF xs] by (auto simp: find_index_Some)
    let ?s = "(ss ! k)\<lparr>sn_dests := sn_dests (ss ! k) @ [v]\<rparr>"
    have sk: "shows_session (ss ! k) (xs ! k)" using xs k by (simp add: list_all2_nthD)
    then have "list_all2 shows_session (ss[k := ?s]) (xs[k := append_dest d (xs ! k)])"
      using xs d by (intro list_all2_update_cong)
        (simp_all add: shows_session_def append_dest_def list_all2_appendI)
    moreover have "map sn_addr (ss[k := ?s]) = map sn_addr ss"
      using k by (metis list_update_id map_update nth_map put_dests(2))
    moreover obtain m' where "heap_place al env rnd (tuners st) onid ch (v_addr v) a b ?M
        = Inr (sn_id (ss ! k), M\<lparr>blocks := m'\<rparr>, [])" "sat m' (sessions_at (ss[k := ?s]) * (queue_leak * F))"
      using place_joins [OF sat _ k] f Some by fastforce
    moreover have "settled v ss rc (ss[k := ?s]) queue_leak" using k by (auto simp: settled_def)
    ultimately show ?thesis unfolding eq using run Some sk l
      by (intro exI [of _ "M\<lparr>blocks := m'\<rparr>"] exI [of _ "[]"] exI [of _ "ss[k := ?s]"] exI [of _ queue_leak])
        (auto simp: request_on_def shows_session_def)
  next
    case None
    then have f0: "find_session onid ch (sess_list ?M) (blocks ?M) = Inr None" using f by simp
    obtain r ts cs where r: "choose_tuner env (uint onid) (uint ch) 0 (tuners st) = Inr (r, ts, cs)"
      using run None by (auto simp: request_on_def bind_res_Inr)
    show ?thesis
    proof (cases r)
      case None': None
      from place_refused [OF sat f0 r [unfolded None']] obtain m' where
        "heap_place al env rnd (tuners st) onid ch (v_addr v) a b ?M = Inr (0, M\<lparr>blocks := m'\<rparr>, [])"
        "sat m' (sessions_at ss * (dest_at v * queue_leak * F))" by auto
      then show ?thesis unfolding eq using run None r None' xs l
        by (intro exI [of _ "M\<lparr>blocks := m'\<rparr>"] exI [of _ "[]"] exI [of _ ss]
            exI [of _ "dest_at v * queue_leak"]) (auto simp: settled_def request_on_def)
    next
      case (Some t)
      obtain k p tuned where t: "t = (k, p, tuned)" by (cases t)
      let ?n = "\<lparr>sn_addr = a, sn_id = drop_bit 4 rnd, sn_onid = onid, sn_channel_id = ch, sn_dests = [v]\<rparr>"
      from place_starts [OF al a(4) sat f0 r [unfolded Some t]] obtain m' where
        "heap_place al env rnd (tuners st) onid ch (v_addr v) a b ?M
          = Inr (drop_bit 4 rnd, \<lparr>blocks = m', sess_list = map sn_addr ss @ [a]\<rparr>,
             (if tuned then [b] else []) @ [b])" "sat m' (sessions_at (ss @ [?n]) * F)" using l by auto
      moreover obtain c where c: "channel_at (ts ! k) p = Inr c"
        using run None r Some t by (auto simp: request_on_def bind_res_Inr)
      let ?x = "(new_session rnd)\<lparr>s_tuner := k, s_channel := p, s_onid := onid, s_channel_id := ch,
        pmt_program := service_id c, destination_ll := [d]\<rparr>"
      have "sessions st' = xs @ [?x]" "rc = drop_bit 4 rnd" "length threads = (if tuned then 2 else 1)"
        using run None r Some t c by (auto simp: request_on_def new_session_def)
      moreover have "shows_session ?n ?x" using d by (simp add: shows_session_def new_session_def)
      ultimately show ?thesis unfolding eq using xs
        by (intro exI [of _ "\<lparr>blocks = m', sess_list = map sn_addr ss @ [a]\<rparr>"]
            exI [of _ "(if tuned then [b] else []) @ [b]"] exI [of _ "ss @ [?n]"] exI [of _ 1])
          (auto simp: settled_def list_all2_appendI)
    qed
  qed
qed

text \<open>
  \<open>session_addNew\<close> on blocks: refused at once, or settled after a live destination has closed the
  others of its type.
\<close>

lemma heap_addNew_at:
  assumes al: "roomy al" and m: "sat (blocks M) (dest_at v * (sessions_at ss * F))"
    and l: "sess_list M = map sn_addr ss"
    and st: "list_all2 shows_session ss (sessions st)" and d: "shows_dest v d"
    and run: "session_addNew env rnd st onid ch (Some d) = Inr (rc, st', calls, threads)"
  shows "\<exists>M' bs ss' G. heap_addNew al env rnd (tuners st) onid ch (v_addr v) M = Inr (rc, M', bs)
    \<and> sess_list M' = map sn_addr ss' \<and> list_all2 shows_session ss' (sessions st')
    \<and> sat (blocks M') (sessions_at ss' * (G * F)) \<and> length bs = length threads
    \<and> (rc = 0 \<and> ss' = ss \<and> G = dest_at v \<or> settled v (live_views v ss) rc ss' G)"
proof -
  obtain c where c: "load_dest (blocks M) (v_addr v) = Inr c" "dp_type c = v_type v"
    using dest_load [OF m] by auto
  have m1: "sat (blocks M) (sessions_at ss * (dest_at v * F))" using m by (simp only: ac_simps)
  show ?thesis
  proof (cases "channel_OK (tuners st) (uint onid) (uint ch) 0 = -1")
    case True
    with run m1 c l st show ?thesis by (auto simp: heap_addNew_def session_addNew_request)
  next
    case False
    have "\<exists>m0. (if v_type v = dest_live \<or> v_type v = dest_live2
        then stop_type_loop (v_type v) (map sn_addr ss) (blocks M) else Inr (blocks M)) = Inr m0
      \<and> sat m0 (sessions_at (live_views v ss) * (dest_at v * F))"
      using stop_type_loop_at [OF m1, of "v_type v"] m1 by (auto simp: live_views_def)
    then obtain m0 where m0: "(if v_type v = dest_live \<or> v_type v = dest_live2
        then stop_type_loop (v_type v) (map sn_addr ss) (blocks M) else Inr (blocks M)) = Inr m0"
      "sat m0 (sessions_at (live_views v ss) * (dest_at v * F))" by blast
    let ?M = "M\<lparr>blocks := m0\<rparr>"
    have h1: "list_all2 shows_session (live_views v ss) (after_live d (sessions st))"
      using st d close_views_shows by (auto simp: live_views_def after_live_def shows_dest_def)
    have h2: "sess_list ?M = map sn_addr (live_views v ss)"
      using l by (simp add: live_views_def close_views_def)
    have h3: "request_on env rnd st onid ch d (after_live d (sessions st)) = Inr (rc, st', calls, threads)"
      using run False by (simp add: session_addNew_request)
    have h4: "sat (blocks ?M) (sessions_at (live_views v ss) * (dest_at v * F))" using m0(2) by simp
    obtain M' bs ss' G where
      "heap_request al env rnd (tuners st) onid ch (v_addr v) ?M = Inr (rc, M', bs)"
      "sess_list M' = map sn_addr ss'" "list_all2 shows_session ss' (sessions st')"
      "sat (blocks M') (sessions_at ss' * (G * F))" "settled v (live_views v ss) rc ss' G"
      "length bs = length threads"
      using heap_request_at [OF al h4 h2 h1 d h3] by blast
    moreover from this have "heap_addNew al env rnd (tuners st) onid ch (v_addr v) M = Inr (rc, M', bs)"
      unfolding heap_addNew_def c bind_res_simps l m0(1) using False by simp
    ultimately show ?thesis by blast
  qed
qed

section \<open>What a session owns ends with it\<close>

lemma session_dest:
  assumes "sat m (session_at s * F)" "v \<in> set (sn_dests s)"
  shows "\<exists>G. sat m (dest_at v * (F * G))"
proof -
  obtain b l where m: "sat m (cell (sn_addr s) (session_block s True b l) *
      (cell b (Queue_Block (sn_addr s)) * (cell l (List_Block (map v_addr (sn_dests s))) *
        (dests_at (sn_dests s) * F))))"
    using assms(1) by (rule session_atE)
  obtain xs ys where v: "sn_dests s = xs @ v # ys" using assms(2) by (auto simp: in_set_conv_decomp)
  have "dests_at (sn_dests s) = dest_at v * dests_at (xs @ ys)"
    unfolding v by (simp add: ac_simps)
  with m have "sat m (dest_at v * (F * (cell (sn_addr s) (session_block s True b l) *
      (cell b (Queue_Block (sn_addr s)) * (cell l (List_Block (map v_addr (sn_dests s))) *
        dests_at (xs @ ys))))))"
    by (simp only: ac_simps)
  then show ?thesis by blast
qed

text \<open>A destination beside a rest has none of its blocks in the rest.\<close>

lemma dest_gone:
  assumes "sat m (dest_at v * (exactly m0 * G))"
  shows "m0 (v_addr v) = None"
proof -
  obtain b p where "sat m (cell (v_addr v) (Dest_Block \<lparr>dp_type = v_type v, dp_size = v_size v,
       dp_expired = v_expired v, dp_buffer = b, dp_url = p\<rparr>) * (cell b (Bytes (v_size v))
         * (url_at p (v_url v) * (exactly m0 * G))))"
    (is "sat m (?d * (?b * (?p * _)))")
    using assms by (rule dest_atE)
  then have "sat m (?d * ((?b * ?p * G) * exactly m0))" by (simp only: ac_simps)
  then show ?thesis by (rule exactly_apart)
qed

lemma session_gone:
  assumes "sat m (session_at s * exactly m0)"
  shows "m0 (sn_addr s) = None"
proof -
  obtain b l where "sat m (cell (sn_addr s) (session_block s True b l) *
      (cell b (Queue_Block (sn_addr s)) * (cell l (List_Block (map v_addr (sn_dests s))) *
        (dests_at (sn_dests s) * exactly m0))))"
    (is "sat m (?s * (?b * (?l * (?d * _))))")
    using assms by (rule session_atE)
  then have "sat m (?s * ((?b * ?l * ?d) * exactly m0))" by (simp only: ac_simps)
  then show ?thesis by (rule exactly_apart)
qed

lemma heap_stop_exact:
  assumes "sat (blocks M) (sessions_at (xs @ s # ys) * F)" "sess_list M = map sn_addr (xs @ s # ys)"
    and "\<forall>x \<in> set xs. sn_id x \<noteq> sid" "sn_id s = sid"
  shows "\<exists>m'. heap_stop sid M = Inr (0, \<lparr>blocks = m', sess_list = map sn_addr (xs @ ys)\<rparr>)
    \<and> m' \<subseteq>\<^sub>m blocks M \<and> sat (blocks M) (session_at s * exactly m')
    \<and> sat m' (sessions_at (xs @ ys) * F)
    \<and> m' (sn_addr s) = None \<and> (\<forall>v \<in> set (sn_dests s). m' (v_addr v) = None)"
proof -
  have "sat (blocks M) (session_at s * (sessions_at (xs @ ys) * F))"
    using assms(1) by (simp only: sessions_at_simps ac_simps)
  then obtain m where m: "sat (blocks M) (session_at s * exactly m)" "sat m (sessions_at (xs @ ys) * F)"
    "m \<subseteq>\<^sub>m blocks M" by (rule sat_exact)
  moreover obtain m' where "heap_stop sid M = Inr (0, \<lparr>blocks = m', sess_list = map sn_addr (xs @ ys)\<rparr>)"
    "sat m' (exactly m)" using heap_stop_frame [OF assms m(1)] by blast
  moreover have "m (sn_addr s) = None" by (rule session_gone [OF m(1)])
  moreover have "m (v_addr v) = None" if "v \<in> set (sn_dests s)" for v
    using session_dest [OF m(1) that] dest_gone by blast
  ultimately show ?thesis by auto
qed

text \<open>C16. \<open>session_stop\<close> of a session frees its structure, its buffer, its list, and of each destination the
  structure, the buffer and the URL: it follows no bad pointer although the list is walked after the
  session was freed, the memory is that of before without these blocks, with no block changed, and the
  pointers to the session and to its destinations, which its threads and web clients may still hold,
  lead nowhere.\<close>
theorem session_stop_frees_all:
  assumes "sat (blocks M) (sessions_at (xs @ s # ys) * F)" "sess_list M = map sn_addr (xs @ s # ys)"
    and "\<forall>x \<in> set xs. sn_id x \<noteq> sid" "sn_id s = sid"
  shows "\<exists>m'. heap_stop sid M = Inr (0, \<lparr>blocks = m', sess_list = map sn_addr (xs @ ys)\<rparr>)
    \<and> m' \<subseteq>\<^sub>m blocks M \<and> sat (blocks M) (session_at s * exactly m')
    \<and> sat m' (sessions_at (xs @ ys) * F)
    \<and> m' (sn_addr s) = None \<and> (\<forall>v \<in> set (sn_dests s). m' (v_addr v) = None)"
  by (rule heap_stop_exact [OF assms])

text \<open>C14. \<open>session_addNew\<close> on memory computes what it computes on values: the same number, with the
  blocks of the sessions the values have. It refuses and leaves the destination where it is, or, after a
  live destination has closed the others of its type, the destination belongs to the session it joined or
  to a new one, at the end; the destination of a request refused for want of a tuner, and the buffer made for
  every request that starts no session, belong to nobody.\<close>
theorem session_addNew_blocks:
  assumes "roomy al" "sat (blocks M) (dest_at v * (sessions_at ss * F))" "sess_list M = map sn_addr ss"
    and "list_all2 shows_session ss (sessions st)" "shows_dest v d"
    and "session_addNew env rnd st onid ch (Some d) = Inr (rc, st', calls, threads)"
  shows "\<exists>M' bs ss' G. heap_addNew al env rnd (tuners st) onid ch (v_addr v) M = Inr (rc, M', bs)
    \<and> sess_list M' = map sn_addr ss' \<and> list_all2 shows_session ss' (sessions st')
    \<and> sat (blocks M') (sessions_at ss' * (G * F)) \<and> length bs = length threads
    \<and> (rc = 0 \<and> ss' = ss \<and> G = dest_at v
       \<or> rc = 0 \<and> ss' = live_views v ss \<and> G = dest_at v * queue_leak
       \<or> (\<exists>k < length ss. ss' = (live_views v ss)[k := (live_views v ss ! k)\<lparr>sn_dests :=
             sn_dests (live_views v ss ! k) @ [v]\<rparr>] \<and> G = queue_leak)
       \<or> (\<exists>s. ss' = live_views v ss @ [s] \<and> sn_dests s = [v] \<and> G = 1))"
proof -
  have "length (live_views v ss) = length ss" by (simp add: live_views_def close_views_def)
  with heap_addNew_at [OF assms] show ?thesis unfolding settled_def by metis
qed

text \<open>A destination on a memory of its own.\<close>

lemma first_dest:
  obtains v m d where "destination_create (\<lambda>_. True) 7 ''http://h/s'' = Inr (Some d)" "dest_ready d"
    "new_dest (bump_allocator (\<lambda>_. True)) ''http://h/s'' Map.empty = Inr (v_addr v, m)"
    "shows_dest v d" "v_type v = dest_http" "sat m (dest_at v * 1)"
proof -
  have p: "parse_url (\<lambda>_. True) ''http://h/s'' = Some \<lparr>scheme = ''http'', host = ''h'', port = None,
        path = Some ''s'', query = None, fragment = None, username = None, password = None\<rparr>"
    by code_simp
  obtain d where d: "destination_create (\<lambda>_. True) 7 ''http://h/s'' = Inr (Some d)" "dest_ready d"
      "destination_type d = dest_http"
    by (simp add: destination_create_def p transport_def dest_ready_def buf_ok_def url_ok_def)
  have "sat Map.empty (1 :: block assn)"
    using sat_only_if [of Map.empty True] by simp
  from new_dest_at [OF bump_roomy this, unfolded al_ok_bump, of "''http://h/s''" 7] d that show ?thesis
    by (auto simp: shows_dest_def)
qed

text \<open>The first request of a server, for an HTTP destination.\<close>

lemma first_request:
  obtains v m d st' calls threads x where
    "destination_create (\<lambda>_. True) 7 ''http://h/s'' = Inr (Some d)" "dest_ready d" "v_type v = dest_http"
    "new_dest (bump_allocator (\<lambda>_. True)) ''http://h/s'' Map.empty = Inr (v_addr v, m)"
    "shows_dest v d" "sat m (dest_at v * (sessions_at [] * 1))"
    "session_addNew quiet_env 64 one_server 0 4 (Some d) = Inr (4, st', calls, threads)"
    "sessions st' = [x]" "sessionID x = 4" "threads = [4, 4]" "live_views v [] = []"
proof -
  obtain v m d where c: "destination_create (\<lambda>_. True) 7 ''http://h/s'' = Inr (Some d)" "dest_ready d"
    and d: "v_type v = dest_http" "new_dest (bump_allocator (\<lambda>_. True)) ''http://h/s'' Map.empty = Inr (v_addr v, m)"
    "shows_dest v d" "v_type v = dest_http" "sat m (dest_at v * 1)"
    by (rule first_dest)
  have "refcnt one_tuner = 0" by (simp add: one_tuner_def)
  moreover have "drop_bit 4 (64 :: u64) = 4" by (simp add: drop_bit_eq_div)
  moreover have "after_live d (sessions one_server) = []" "tuners one_server = [one_tuner]"
    using d(3,4) by (simp_all add: after_live_def one_server_def shows_dest_def)
  moreover have "live_views v [] = []" by (simp add: live_views_def d(4))
  ultimately show thesis
    using addNew_result [OF one_server_ok one_server_carries, of quiet_env 64 d] c d that one_server_carries
    by auto
qed

theorem session_addNew_blocks_witness:
  "\<exists>v m M' bs s. new_dest (bump_allocator (\<lambda>_. True)) ''http://h/s'' Map.empty = Inr (v_addr v, m)
     \<and> heap_addNew (bump_allocator (\<lambda>_. True)) quiet_env 64 (tuners one_server) 0 4 (v_addr v)
         \<lparr>blocks = m, sess_list = []\<rparr> = Inr (4, M', bs)
     \<and> sess_list M' = [sn_addr s] \<and> sat (blocks M') (session_at s) \<and> sn_dests s = [v] \<and> length bs = 2"
proof -
  obtain v m d st' calls threads x where
    "destination_create (\<lambda>_. True) 7 ''http://h/s'' = Inr (Some d)" "dest_ready d" "v_type v = dest_http"
    and r: "new_dest (bump_allocator (\<lambda>_. True)) ''http://h/s'' Map.empty = Inr (v_addr v, m)"
    "shows_dest v d" "sat m (dest_at v * (sessions_at [] * 1))"
    "session_addNew quiet_env 64 one_server 0 4 (Some d) = Inr (4, st', calls, threads)"
    "sessions st' = [x]" "sessionID x = 4" "threads = [4, 4]" "live_views v [] = []"
    by (rule first_request)
  have "list_all2 shows_session [] (sessions one_server)" by (simp add: one_server_def)
  from session_addNew_blocks [OF bump_roomy, of "\<lparr>blocks = m, sess_list = []\<rparr>" v "[]" 1, OF _ _ this r(2,4)]
  obtain M' bs s where "heap_addNew (bump_allocator (\<lambda>_. True)) quiet_env 64 (tuners one_server) 0 4
      (v_addr v) \<lparr>blocks = m, sess_list = []\<rparr> = Inr (4, M', bs)" "length bs = 2"
    "sess_list M' = [sn_addr s]" "sat (blocks M') (session_at s)" "sn_dests s = [v]"
    using r(3,7,8) by auto
  with r(1) show ?thesis by blast
qed

text \<open>The session this request starts, whose blocks are all there are.\<close>

lemma first_session:
  obtains M :: memory and s :: sess_view where "sess_list M = [sn_addr s]" "sat (blocks M) (session_at s)"
    "sn_id s = 4" "sn_dests s \<noteq> []"
proof -
  obtain v m d st' calls threads x where
    "destination_create (\<lambda>_. True) 7 ''http://h/s'' = Inr (Some d)" "dest_ready d" "v_type v = dest_http"
    and r: "new_dest (bump_allocator (\<lambda>_. True)) ''http://h/s'' Map.empty = Inr (v_addr v, m)"
    "shows_dest v d" "sat m (dest_at v * (sessions_at [] * 1))"
    "session_addNew quiet_env 64 one_server 0 4 (Some d) = Inr (4, st', calls, threads)"
    "sessions st' = [x]" "sessionID x = 4" "threads = [4, 4]" "live_views v [] = []"
    by (rule first_request)
  have "list_all2 shows_session [] (sessions one_server)" by (simp add: one_server_def)
  from heap_addNew_at [OF bump_roomy, of "\<lparr>blocks = m, sess_list = []\<rparr>" v "[]" 1, OF _ _ this r(2,4)]
  obtain M' :: memory and s :: sess_view where "sess_list M' = [sn_addr s]" "shows_session s x" "sat (blocks M') (session_at s)"
    "sn_dests s = [v]"
    using r(3,5,7,8) by (auto simp: settled_def)
  with r(6) that [of M' s] show ?thesis by (simp add: shows_session_def)
qed

theorem session_stop_frees_all_witness:
  "\<exists>M s. sess_list M = [sn_addr s] \<and> sat (blocks M) (session_at s) \<and> sn_dests s \<noteq> []
     \<and> heap_stop 4 M = Inr (0, \<lparr>blocks = Map.empty, sess_list = []\<rparr>)"
proof -
  obtain M :: memory and s :: sess_view where s: "sess_list M = [sn_addr s]" "sat (blocks M) (session_at s)"
    "sn_id s = 4" "sn_dests s \<noteq> []" by (rule first_session)
  have one: "sat m 1 \<longleftrightarrow> m = Map.empty" for m :: mem
    using sat_only_if [of m True] by simp
  have "sat (blocks M) (sessions_at ([] @ s # []) * 1)" using s(2) by simp
  from session_stop_frees_all [where xs = "[]" and ys = "[]", OF this, of 4] s show ?thesis
    by (auto simp: one)
qed

end
