(* ===== verification/HeapSystem.thy ===== *)
theory HeapSystem
  imports Lifetimes Web
begin

text \<open>
  The whole server on allocated blocks: the events of the server machine together with what they do
  to memory, the destination threads with the pointers they hold, and the web connections that read
  from a destination until the client hangs up. The machine runs the values and the blocks side by
  side. Its invariant is that the blocks are exactly those of the sessions and what was leaked, that
  they say what the values say, and that every open connection reads from a destination that is there.
\<close>

section \<open>State and events\<close>

text \<open>
  A destination thread is given the buffer, reads the session from it and loops on the session. A
  reader is the destination a response was created for.
\<close>

datatype dest_thread = Starting ptr | Looping ptr

record heap_system =
  hs_sys :: system
  hs_mem :: memory
  hs_threads :: "dest_thread list"
  hs_readers :: "ptr list"

datatype heap_event =
    Open u64 u16 u16 u16 string bool    \<comment> \<open>a request with a URL, by a web client or the console\<close>
  | Ends u64
  | Reaps timeval
  | Works event
  | Delivers nat int bool
  | Fetches nat nat
  | Hangs_up nat

definition thread_pass :: "dest_thread \<Rightarrow> memory \<Rightarrow> (dest_thread option \<times> memory) res" where
  "thread_pass t M =
     (case t of
        Starting b \<Rightarrow> bind_res (load_queue (blocks M) b) (\<lambda>a. Inr (Some (Looping a), M))
      | Looping a \<Rightarrow>
          bind_res (load_session (blocks M) a) (\<lambda>s.
            if \<not> sp_running s then Inr (None, M)
            else
              bind_res (load_queue (blocks M) (sp_buffer s)) (\<lambda>_.
              bind_res (heap_process (sp_dests s) (blocks M)) (\<lambda>m.
                Inr (Some (Looping a), M\<lparr>blocks := m\<rparr>)))))"

text \<open>\<^verbatim>\<open>stream_buffer_reader\<close> and \<^verbatim>\<open>free_stream_callback\<close> on the blocks.\<close>

definition heap_fetch :: "ptr \<Rightarrow> mem \<Rightarrow> block res" where
  "heap_fetch r m =
     bind_res (load_dest m r) (\<lambda>c. if dp_expired c then Inr (Bytes 0) else load m (dp_buffer c))"

definition heap_hang_up :: "ptr \<Rightarrow> mem \<Rightarrow> mem res" where
  "heap_hang_up r m = update_dest r (\<lambda>c. c\<lparr>dp_expired := True\<rparr>) m"

text \<open>Which session and which of its destinations a pointer leads to.\<close>

definition dest_lists :: "memory \<Rightarrow> ptr list list" where
  "dest_lists M = map (\<lambda>a. case bind_res (load_session (blocks M) a) (\<lambda>s.
     load_list (blocks M) (sp_dests s)) of Inl _ \<Rightarrow> [] | Inr ds \<Rightarrow> ds) (sess_list M)"

fun place_of :: "ptr \<Rightarrow> ptr list list \<Rightarrow> (nat \<times> nat) option" where
  "place_of r [] = None"
| "place_of r (xs # xss) =
     (case find_index (\<lambda>x. x = r) xs of
        Some j \<Rightarrow> Some (0, j)
      | None \<Rightarrow> map_option (\<lambda>(k, j). (Suc k, j)) (place_of r xss))"

definition on_dest ::
  "nat \<times> nat \<Rightarrow> (destination_t \<Rightarrow> destination_t res) \<Rightarrow> system \<Rightarrow> system res" where
  "on_dest p f sy =
     (case p of
        (k, j) \<Rightarrow>
          let s = sessions (sys_server sy) ! k in
          bind_res (f (destination_ll s ! j)) (\<lambda>d.
            Inr (put_server sy ((sys_server sy)\<lparr>sessions := (sessions (sys_server sy))
              [k := s\<lparr>destination_ll := (destination_ll s)[j := d]\<rparr>]\<rparr>))))"

definition drop_nth :: "nat \<Rightarrow> 'a list \<Rightarrow> 'a list" where
  "drop_nth i xs = take i xs @ drop (Suc i) xs"

section \<open>The machine\<close>

fun run_heap :: "world \<Rightarrow> allocator \<Rightarrow> heap_event \<Rightarrow> heap_system \<Rightarrow> heap_system option res" where
  "run_heap w al (Open rnd did onid ch url web) h =
     bind_res (new_dest al url (blocks (hs_mem h))) (\<lambda>(a, m).
     bind_res (destination_create (al_ok al) did url) (\<lambda>x.
       case x of
         None \<Rightarrow> Inr (Some (h\<lparr>hs_mem := (hs_mem h)\<lparr>blocks := m\<rparr>\<rparr>))
       | Some d \<Rightarrow>
           bind_res (heap_addNew al (w_dvb w) rnd (tuners (sys_server (hs_sys h))) onid ch a
                       ((hs_mem h)\<lparr>blocks := m\<rparr>)) (\<lambda>(rc, M, bs).
           bind_res (run_event w (Request rnd onid ch d) (hs_sys h)) (\<lambda>r.
             Inr (map_option (\<lambda>sy. h\<lparr>hs_sys := sy, hs_mem := M,
               hs_threads := hs_threads h @ map Starting bs,
               hs_readers := (if web \<and> rc \<noteq> 0 \<and> destination_type d = dest_http
                              then hs_readers h @ [a] else hs_readers h)\<rparr>) r)))))"
| "run_heap w al (Ends sid) h =
     bind_res (heap_stop sid (hs_mem h)) (\<lambda>(_, M).
     bind_res (run_event w (Stop sid) (hs_sys h)) (\<lambda>r.
       Inr (map_option (\<lambda>sy. h\<lparr>hs_sys := sy, hs_mem := M\<rparr>) r)))"
| "run_heap w al (Reaps now) h =
     bind_res (heap_reap (hs_mem h)) (\<lambda>M.
     bind_res (run_event w (Reap now) (hs_sys h)) (\<lambda>r.
       Inr (map_option (\<lambda>sy. h\<lparr>hs_sys := sy, hs_mem := M\<rparr>) r)))"
| "run_heap w al (Works e) h =
     bind_res (run_event w e (hs_sys h)) (\<lambda>r. Inr (map_option (\<lambda>sy. h\<lparr>hs_sys := sy\<rparr>) r))"
| "run_heap w al (Delivers i wt due) h =
     bind_res (thread_pass (hs_threads h ! i) (hs_mem h)) (\<lambda>(t, M).
       case t of
         None \<Rightarrow> Inr (Some (h\<lparr>hs_threads := drop_nth i (hs_threads h)\<rparr>))
       | Some t' \<Rightarrow>
           let h' = h\<lparr>hs_mem := M, hs_threads := (hs_threads h)[i := t']\<rparr> in
           case hs_threads h ! i of
             Starting b \<Rightarrow> Inr (Some h')
           | Looping a \<Rightarrow>
               case find_index (\<lambda>x. x = a) (sess_list (hs_mem h)) of
                 None \<Rightarrow> Inr (Some h')
               | Some k \<Rightarrow>
                   bind_res (run_event w (Drain k wt due) (hs_sys h)) (\<lambda>r.
                     Inr (map_option (\<lambda>sy. h'\<lparr>hs_sys := sy\<rparr>) r)))"
| "run_heap w al (Fetches i n) h =
     bind_res (heap_fetch (hs_readers h ! i) (blocks (hs_mem h))) (\<lambda>_.
       case place_of (hs_readers h ! i) (dest_lists (hs_mem h)) of
         None \<Rightarrow> Inr (Some h)
       | Some p \<Rightarrow>
           bind_res (on_dest p (\<lambda>d. bind_res (stream_buffer_reader d n) (\<lambda>(_, d'). Inr d')) (hs_sys h))
             (\<lambda>sy. Inr (Some (h\<lparr>hs_sys := sy\<rparr>))))"
| "run_heap w al (Hangs_up i) h =
     bind_res (heap_hang_up (hs_readers h ! i) (blocks (hs_mem h))) (\<lambda>m.
       let h' = h\<lparr>hs_mem := (hs_mem h)\<lparr>blocks := m\<rparr>, hs_readers := drop_nth i (hs_readers h)\<rparr> in
       case place_of (hs_readers h ! i) (dest_lists (hs_mem h)) of
         None \<Rightarrow> Inr (Some h')
       | Some p \<Rightarrow>
           bind_res (on_dest p (\<lambda>d. Inr (free_stream_callback d)) (hs_sys h)) (\<lambda>sy.
             Inr (Some (h'\<lparr>hs_sys := sy\<rparr>))))"

section \<open>What may happen\<close>

text \<open>
  A session is not stopped from the console while a web client reads from it, and a thread is not
  scheduled once its session is gone: both would follow a dangling pointer. Memory does not run
  out, and a URL that makes a destination gives it what its transport needs.
\<close>

definition thread_live :: "dest_thread \<Rightarrow> memory \<Rightarrow> bool" where
  "thread_live t M =
     (case t of
        Starting b \<Rightarrow> list_ex (\<lambda>a. case load_session (blocks M) a of
            Inl _ \<Rightarrow> False | Inr s \<Rightarrow> sp_buffer s = b) (sess_list M)
      | Looping a \<Rightarrow> a \<in> set (sess_list M))"

definition unread :: "u64 \<Rightarrow> heap_system \<Rightarrow> bool" where
  "unread sid h =
     (case find_index (\<lambda>x. sessionID x = sid) (sessions (sys_server (hs_sys h))) of
        None \<Rightarrow> True
      | Some k \<Rightarrow> set (dest_lists (hs_mem h) ! k) \<inter> set (hs_readers h) = {})"

fun heap_allowed :: "world \<Rightarrow> allocator \<Rightarrow> heap_event \<Rightarrow> heap_system \<Rightarrow> bool" where
  "heap_allowed w al (Open rnd did onid ch url web) h =
     (case destination_create (al_ok al) did url of
        Inr (Some d) \<Rightarrow> dest_ready d | Inr None \<Rightarrow> True | Inl _ \<Rightarrow> False)"
| "heap_allowed w al (Ends sid) h = unread sid h"
| "heap_allowed w al (Reaps now) h = True"
| "heap_allowed w al (Works e) h =
     ((case e of Request _ _ _ _ \<Rightarrow> False | Stop _ \<Rightarrow> False | Reap _ \<Rightarrow> False | Drain _ _ _ \<Rightarrow> False
       | _ \<Rightarrow> True) \<and> allowed w e (hs_sys h))"
| "heap_allowed w al (Delivers i wt due) h =
     (i < length (hs_threads h) \<and> thread_live (hs_threads h ! i) (hs_mem h) \<and> net_ok (w_net w))"
| "heap_allowed w al (Fetches i n) h = (i < length (hs_readers h))"
| "heap_allowed w al (Hangs_up i) h = (i < length (hs_readers h))"

section \<open>The invariant\<close>

text \<open>The sessions \<open>ss\<close> with their addresses stand for the values and for the blocks beside \<open>F\<close>.\<close>

definition backed :: "sess_view list \<Rightarrow> block assn \<Rightarrow> system \<Rightarrow> memory \<Rightarrow> bool" where
  "backed ss F sy M \<longleftrightarrow> list_all2 shows_session ss (sessions (sys_server sy))
     \<and> sess_list M = map sn_addr ss \<and> sat (blocks M) (sessions_at ss * F)"

definition served :: "sess_view list \<Rightarrow> ptr \<Rightarrow> bool" where
  "served ss r \<longleftrightarrow> (\<exists>s \<in> set ss. \<exists>v \<in> set (sn_dests s).
     v_addr v = r \<and> v_type v = dest_http \<and> \<not> v_expired v)"

definition heap_ok :: "heap_system \<Rightarrow> bool" where
  "heap_ok h \<longleftrightarrow> system_ok (hs_sys h) \<and> distinct (hs_readers h)
     \<and> (\<exists>ss F. backed ss F (hs_sys h) (hs_mem h) \<and> (\<forall>r \<in> set (hs_readers h). served ss r))"

definition heap_good :: "heap_system option res \<Rightarrow> bool" where
  "heap_good r \<longleftrightarrow> (\<exists>x. r = Inr x \<and> (\<forall>h. x = Some h \<longrightarrow> heap_ok h))"

lemma heap_goodI: "r = Inr (Some h) \<Longrightarrow> heap_ok h \<Longrightarrow> heap_good r"
  by (simp add: heap_good_def)

lemma heap_okI:
  assumes "system_ok (hs_sys h)" "distinct (hs_readers h)" "backed ss F (hs_sys h) (hs_mem h)"
    and "\<And>r. r \<in> set (hs_readers h) \<Longrightarrow> served ss r"
  shows "heap_ok h"
  using assms by (auto simp: heap_ok_def)

lemma heap_okE:
  assumes "heap_ok h"
  obtains ss F where "system_ok (hs_sys h)" "distinct (hs_readers h)"
    "list_all2 shows_session ss (sessions (sys_server (hs_sys h)))"
    "sess_list (hs_mem h) = map sn_addr ss" "sat (blocks (hs_mem h)) (sessions_at ss * F)"
    "\<And>r. r \<in> set (hs_readers h) \<Longrightarrow> served ss r"
  using assms by (auto simp: heap_ok_def backed_def)

section \<open>Finding a destination\<close>

text \<open>The blocks of one destination among all.\<close>

lemma sessions_dest:
  assumes "sat m (sessions_at ss * F)" "s \<in> set ss" "v \<in> set (sn_dests s)"
  shows "\<exists>G. sat m (dest_at v * (F * G))"
proof -
  obtain xs ys where s: "ss = xs @ s # ys" using assms(2) by (auto simp: in_set_conv_decomp)
  have "sat m (session_at s * (F * sessions_at (xs @ ys)))"
    using assms(1) unfolding s by (simp only: sessions_at_simps mult_1_left ac_simps)
  from session_dest [OF this assms(3)] show ?thesis by (auto simp: mult.assoc)
qed

lemma dest_apart:
  assumes "sat m (dest_at u * (dest_at v * F))"
  shows "v_addr u \<noteq> v_addr v"
proof -
  obtain b p where "sat m (cell (v_addr u) (Dest_Block \<lparr>dp_type = v_type u, dp_size = v_size u,
       dp_expired = v_expired u, dp_buffer = b, dp_url = p\<rparr>) * (cell b (Bytes (v_size u))
         * (url_at p (v_url u) * (dest_at v * F))))"
    (is "sat m (?u * (?b * (?p * _)))")
    using assms by (rule dest_atE)
  then have "sat m (dest_at v * (?u * (?b * (?p * F))))" by (simp only: ac_simps)
  then obtain c q where "sat m (cell (v_addr v) (Dest_Block \<lparr>dp_type = v_type v, dp_size = v_size v,
       dp_expired = v_expired v, dp_buffer = c, dp_url = q\<rparr>) * (cell c (Bytes (v_size v))
         * (url_at q (v_url v) * (?u * (?b * (?p * F))))))"
    (is "sat m (?v * (?c * (?q * _)))")
    by (rule dest_atE)
  then have "sat m (?v * (?u * (?c * (?q * (?b * (?p * F))))))" by (simp only: ac_simps)
  then show ?thesis by auto
qed

lemma fresh_not_served:
  assumes "sat m (dest_at u * (sessions_at ss * F))"
  shows "\<not> served ss (v_addr u)"
proof
  assume "served ss (v_addr u)"
  then obtain s v where sv: "s \<in> set ss" "v \<in> set (sn_dests s)" "v_addr v = v_addr u"
    by (auto simp: served_def)
  have "sat m (sessions_at ss * (dest_at u * F))" using assms by (simp only: ac_simps)
  from sessions_dest [OF this sv(1,2)] obtain G where "sat m (dest_at v * (dest_at u * F * G))" by blast
  then have "sat m (dest_at u * (dest_at v * (F * G)))" by (simp only: ac_simps)
  from dest_apart [OF this] sv(3) show False by simp
qed

lemma dest_lists_at:
  assumes "sess_list M = map sn_addr ss" "sat (blocks M) (sessions_at ss * F)"
  shows "dest_lists M = map (\<lambda>s. map v_addr (sn_dests s)) ss"
proof -
  have "(case bind_res (load_session (blocks M) (sn_addr s)) (\<lambda>s. load_list (blocks M) (sp_dests s)) of
      Inl _ \<Rightarrow> [] | Inr ds \<Rightarrow> ds) = map v_addr (sn_dests s)" if "s \<in> set ss" for s
  proof -
    obtain xs ys where s: "ss = xs @ s # ys" using \<open>s \<in> set ss\<close> by (auto simp: in_set_conv_decomp)
    have "sat (blocks M) (session_at s * (F * sessions_at (xs @ ys)))"
      using assms(2) unfolding s by (simp only: sessions_at_simps mult_1_left ac_simps)
    then show ?thesis by (rule session_load) simp
  qed
  then show ?thesis using assms(1) by (simp add: dest_lists_def)
qed

lemma place_of_Some:
  "place_of r xss = Some (k, j) \<Longrightarrow> k < length xss \<and> j < length (xss ! k) \<and> xss ! k ! j = r"
  by (induction r xss arbitrary: k rule: place_of.induct)
    (auto simp: find_index_Some split: option.splits)

lemma place_of_None: "place_of r xss = None \<Longrightarrow> xs \<in> set xss \<Longrightarrow> r \<notin> set xs"
  by (induction r xss rule: place_of.induct) (auto simp: find_index_None split: option.splits)

lemma served_place:
  assumes "sess_list M = map sn_addr ss" "sat (blocks M) (sessions_at ss * F)" "served ss r"
  obtains k j where "place_of r (dest_lists M) = Some (k, j)" "k < length ss"
    "j < length (sn_dests (ss ! k))" "v_addr (sn_dests (ss ! k) ! j) = r"
proof (cases "place_of r (dest_lists M)")
  case None
  with assms(3) show thesis
    by (auto simp: served_def dest_lists_at [OF assms(1,2)] dest!: place_of_None)
next
  case (Some p)
  then have "place_of r (map (\<lambda>s. map v_addr (sn_dests s)) ss) = Some (fst p, snd p)"
    by (simp add: dest_lists_at [OF assms(1,2)])
  from place_of_Some [OF this] that [of "fst p" "snd p"] Some show thesis by auto
qed

section \<open>Requests\<close>

lemma served_live:
  assumes "served ss r"
  shows "served (live_views v ss) r"
  using assms by (fastforce simp: served_def live_views_def close_views_def)

lemma served_settled:
  assumes "served ss r" "settled v ss rc ss' G"
  shows "served ss' r"
proof -
  have "served (ss[k := (ss ! k)\<lparr>sn_dests := sn_dests (ss ! k) @ [v]\<rparr>]) r" if k: "k < length ss" for k
  proof -
    let ?s = "(ss ! k)\<lparr>sn_dests := sn_dests (ss ! k) @ [v]\<rparr>"
    obtain s u where u: "s \<in> set ss" "u \<in> set (sn_dests s)"
      "v_addr u = r" "v_type u = dest_http" "\<not> v_expired u" using assms(1) by (auto simp: served_def)
    then obtain i where i: "i < length ss" "s = ss ! i" by (auto simp: in_set_conv_nth)
    have "(ss[k := ?s]) ! i \<in> set (ss[k := ?s])" using i by simp
    moreover have "u \<in> set (sn_dests ((ss[k := ?s]) ! i))"
      using u(2) i k by (cases "i = k") simp_all
    ultimately show ?thesis unfolding served_def using u(3-5) by blast
  qed
  with assms show ?thesis by (auto simp: settled_def served_def)
qed

text \<open>What a request has added is served, unless it was refused.\<close>

lemma settled_serves:
  assumes "settled v ss rc ss' G" "rc \<noteq> 0" "v_type v = dest_http" "\<not> v_expired v"
  shows "served ss' (v_addr v)"
proof -
  have "served (ss[k := (ss ! k)\<lparr>sn_dests := sn_dests (ss ! k) @ [v]\<rparr>]) (v_addr v)"
    if k: "k < length ss" for k
    unfolding served_def
    by (rule bexI [OF _ set_update_memI [OF k]], rule bexI [of _ v]) (use assms(3,4) in simp_all)
  with assms show ?thesis by (auto simp: settled_def served_def)
qed

lemma created_unexpired:
  "destination_create ok did url = Inr (Some d) \<Longrightarrow> \<not> expired d"
  by (auto simp: destination_create_def bind_res_Inr Let_def split: if_splits option.splits prod.splits)

lemma open_step:
  assumes ok: "heap_ok h" and al: "roomy al" and a: "heap_allowed w al (Open rnd did onid ch url web) h"
  shows "heap_good (run_heap w al (Open rnd did onid ch url web) h)"
proof -
  obtain ss F where h: "system_ok (hs_sys h)" "distinct (hs_readers h)"
    "list_all2 shows_session ss (sessions (sys_server (hs_sys h)))"
    "sess_list (hs_mem h) = map sn_addr ss" "sat (blocks (hs_mem h)) (sessions_at ss * F)"
    "\<And>r. r \<in> set (hs_readers h) \<Longrightarrow> served ss r"
    using ok by (rule heap_okE) blast
  note new = new_dest_at [OF al h(5), of url did]
  show ?thesis
  proof (cases "destination_create (al_ok al) did url")
    case (Inl e)
    with a show ?thesis by simp
  next
    case (Inr x)
    show ?thesis
    proof (cases x)
      case None
      obtain m where m: "new_dest al url (blocks (hs_mem h)) = Inr (0, m)"
        "case parse_url (al_ok al) url of None \<Rightarrow> sat m (sessions_at ss * F)
         | Some u \<Rightarrow> sat m (url_leak u * (sessions_at ss * F))"
        using new Inr None by auto
      obtain F' where "sat m (sessions_at ss * F')"
        using m(2) by (auto simp: mult.left_commute split: option.splits)
      then have "backed ss F' (hs_sys h) ((hs_mem h)\<lparr>blocks := m\<rparr>)"
        using h(3,4) by (simp add: backed_def)
      then have "heap_ok (h\<lparr>hs_mem := (hs_mem h)\<lparr>blocks := m\<rparr>\<rparr>)"
        using h(1,2,6) by (intro heap_okI [where ss = ss and F = F']) simp_all
      then show ?thesis using Inr None m(1) by (intro heap_goodI) simp_all
    next
      case (Some d)
      obtain v m where v: "new_dest al url (blocks (hs_mem h)) = Inr (v_addr v, m)"
        "shows_dest v d" "sat m (dest_at v * (sessions_at ss * F))"
        using new Inr Some by auto
      have d: "dest_ready d" "\<not> expired d"
        using a Inr Some created_unexpired by auto
      have sv: "server_ok (sys_server (hs_sys h))"
        and rd: "Ball (dests (sessions (sys_server (hs_sys h)))) dest_ready"
        using h(1) by (simp_all add: system_ok_dests)
      obtain rc st' calls threads where r: "session_addNew (w_dvb w) rnd (sys_server (hs_sys h)) onid ch
          (Some d) = Inr (rc, st', calls, threads)" "server_ok st'"
        "dests (sessions st') \<subseteq> insert d (dests (sessions (sys_server (hs_sys h))))"
        by (rule addNew_total [OF sv])
      have m: "sat (blocks ((hs_mem h)\<lparr>blocks := m\<rparr>)) (dest_at v * (sessions_at ss * F))"
        "sess_list ((hs_mem h)\<lparr>blocks := m\<rparr>) = map sn_addr ss"
        using v(3) h(4) by simp_all
      obtain M' bs ss' G where M': "heap_addNew al (w_dvb w) rnd (tuners (sys_server (hs_sys h))) onid ch
          (v_addr v) ((hs_mem h)\<lparr>blocks := m\<rparr>) = Inr (rc, M', bs)"
        "sess_list M' = map sn_addr ss'" "list_all2 shows_session ss' (sessions st')"
        "sat (blocks M') (sessions_at ss' * (G * F))"
        "rc = 0 \<and> ss' = ss \<or> settled v (live_views v ss) rc ss' G"
        using heap_addNew_at [OF al m h(3) v(2) r(1)] by blast
      let ?rs = "if web \<and> rc \<noteq> 0 \<and> destination_type d = dest_http then hs_readers h @ [v_addr v]
        else hs_readers h"
      let ?h = "h\<lparr>hs_sys := put_server (hs_sys h) st', hs_mem := M',
        hs_threads := hs_threads h @ map Starting bs, hs_readers := ?rs\<rparr>"
      have "served ss' r" if "served ss r" for r
        using that M'(5) served_settled [OF served_live [OF that]] by blast
      moreover have "served ss' (v_addr v)" if "rc \<noteq> 0" "destination_type d = dest_http"
        using that M'(5) settled_serves v(2) d(2) by (auto simp: shows_dest_def)
      ultimately have "served ss' r" if "r \<in> set ?rs" for r
        using that h(6) by (auto split: if_splits)
      moreover have "v_addr v \<notin> set (hs_readers h)" using fresh_not_served [OF v(3)] h(6) by blast
      then have "distinct ?rs" using h(2) by simp
      moreover have "system_ok (put_server (hs_sys h) st')"
        using r rd d(1) by (auto simp: system_ok_dests)
      ultimately have "heap_ok ?h"
        using M' by (intro heap_okI [where ss = ss' and F = "G * F"]) (simp_all add: backed_def)
      then show ?thesis using Inr Some v(1) M'(1) r(1) by (intro heap_goodI) simp_all
    qed
  qed
qed

section \<open>Ends, and passes of the session thread\<close>

lemma stop_values:
  assumes "find_index (\<lambda>x. sessionID x = sid) xs = Some k" "list_all2 shows_session ss xs"
  shows "list_all2 shows_session (stop_views sid ss) (take k xs @ drop (Suc k) xs)"
    and "stop_views sid ss = take k ss @ drop (Suc k) ss"
proof -
  show "list_all2 shows_session (stop_views sid ss) (take k xs @ drop (Suc k) xs)"
    using assms
  proof (induction xs arbitrary: ss k)
    case (Cons x xs)
    then show ?case by (cases ss) (auto simp: shows_session_def split: if_splits)
  qed simp
  show "stop_views sid ss = take k ss @ drop (Suc k) ss"
    using assms
  proof (induction xs arbitrary: ss k)
    case (Cons x xs)
    then show ?case by (cases ss) (auto simp: shows_session_def split: if_splits)
  qed simp
qed

lemma stop_views_absent:
  assumes "find_index (\<lambda>x. sessionID x = sid) xs = None" "list_all2 shows_session ss xs"
  shows "stop_views sid ss = ss"
  using assms(2,1)
  by (induction rule: list_all2_induct) (auto simp: shows_session_def find_index_None split: if_splits)

lemma stop_result:
  assumes "system_ok sy0"
  obtains sy where "run_event w (Stop sid) sy0 = Inr (Some sy)" "system_ok sy"
proof -
  obtain x where "run_event w (Stop sid) sy0 = Inr x" "\<forall>sy'. x = Some sy' \<longrightarrow> system_ok sy'"
    using stop_step [OF assms, of w sid] by (auto simp: good_step_def)
  then show thesis using that by (auto simp: bind_res_Inr)
qed

lemma ends_step:
  assumes ok: "heap_ok h" and a: "heap_allowed w al (Ends sid) h"
  shows "heap_good (run_heap w al (Ends sid) h)"
proof -
  obtain ss F where h: "system_ok (hs_sys h)" "distinct (hs_readers h)"
    "list_all2 shows_session ss (sessions (sys_server (hs_sys h)))"
    "sess_list (hs_mem h) = map sn_addr ss" "sat (blocks (hs_mem h)) (sessions_at ss * F)"
    "\<And>r. r \<in> set (hs_readers h) \<Longrightarrow> served ss r"
    using ok by (rule heap_okE) blast
  let ?xs = "sessions (sys_server (hs_sys h))"
  obtain rc M' where M': "heap_stop sid (hs_mem h) = Inr (rc, M')"
    "sess_list M' = map sn_addr (stop_views sid ss)"
    "sat (blocks M') (sessions_at (stop_views sid ss) * F)"
    using heap_stop_at [OF h(5,4)] by blast
  obtain sy where sy: "run_event w (Stop sid) (hs_sys h) = Inr (Some sy)" "system_ok sy"
    using h(1) by (rule stop_result)
  have st: "list_all2 shows_session (stop_views sid ss) (sessions (sys_server sy))
      \<and> (\<forall>r \<in> set (hs_readers h). served (stop_views sid ss) r)"
  proof (cases "find_index (\<lambda>x. sessionID x = sid) ?xs")
    case None
    then have "sessions (sys_server sy) = ?xs"
      using sy(1) by (auto simp: session_stop_def)
    then show ?thesis using stop_views_absent [OF None h(3)] h(3,6) by simp
  next
    case (Some k)
    then have k: "k < length ss" using list_all2_lengthD [OF h(3)] by (auto simp: find_index_Some)
    have "sessions (sys_server sy) = take k ?xs @ drop (Suc k) ?xs"
      using sy(1) Some by (auto simp: session_stop_def Let_def bind_res_Inr)
    moreover have "served (stop_views sid ss) r" if r: "r \<in> set (hs_readers h)" for r
    proof -
      obtain s v where v: "s \<in> set ss" "v \<in> set (sn_dests s)" "v_addr v = r"
        "v_type v = dest_http" "\<not> v_expired v" using h(6) [OF r] by (auto simp: served_def)
      have "dest_lists (hs_mem h) ! k = map v_addr (sn_dests (ss ! k))"
        using dest_lists_at [OF h(4,5)] k by simp
      then have "r \<notin> v_addr ` set (sn_dests (ss ! k))" using a r Some by (auto simp: unread_def)
      then have "s \<noteq> ss ! k" using v(2,3) by auto
      moreover have "ss = take k ss @ ss ! k # drop (Suc k) ss" by (rule id_take_nth_drop [OF k])
      then have "set ss = insert (ss ! k) (set (take k ss @ drop (Suc k) ss))"
        by (metis Un_insert_right list.set(2) set_append)
      ultimately have "s \<in> set (stop_views sid ss)" using v(1) stop_values(2) [OF Some h(3)] by auto
      then show ?thesis using v(2-5) by (auto simp: served_def)
    qed
    ultimately show ?thesis using stop_values(1) [OF Some h(3)] by simp
  qed
  have "heap_ok (h\<lparr>hs_sys := sy, hs_mem := M'\<rparr>)"
    using sy(2) h(2) st M'(2,3)
    by (intro heap_okI [where ss = "stop_views sid ss" and F = F]) (simp_all add: backed_def)
  then show ?thesis using M'(1) sy(1) by (intro heap_goodI) simp_all
qed

lemma reaps_step:
  assumes ok: "heap_ok h"
  shows "heap_good (run_heap w al (Reaps now) h)"
proof -
  obtain ss F where h: "system_ok (hs_sys h)" "distinct (hs_readers h)"
    "list_all2 shows_session ss (sessions (sys_server (hs_sys h)))"
    "sess_list (hs_mem h) = map sn_addr ss" "sat (blocks (hs_mem h)) (sessions_at ss * F)"
    "\<And>r. r \<in> set (hs_readers h) \<Longrightarrow> served ss r"
    using ok by (rule heap_okE) blast
  let ?ss = "filter (\<lambda>s. sn_dests s \<noteq> []) ss"
  let ?st = "sys_server (hs_sys h)"
  let ?xs = "map (update_bandwidth now) (filter (\<lambda>s. destination_ll s \<noteq> []) (sessions ?st))"
  obtain M' where M': "heap_reap (hs_mem h) = Inr M'" "sess_list M' = map sn_addr ?ss"
    "sat (blocks M') (sessions_at ?ss * F)"
    using heap_reap_at [OF h(5,4)] by blast
  have sv: "server_ok ?st" using h(1) by (simp add: system_ok_def)
  obtain ts calls where r: "session_thread_pass now (tuners ?st) (sessions ?st) = Inr (ts, ?xs, calls)"
    using thread_pass_server [OF sv, of now] by blast
  then have ev: "run_event w (Reap now) (hs_sys h)
      = Inr (Some (put_server (hs_sys h) (?st\<lparr>tuners := ts, sessions := ?xs\<rparr>)))" by simp
  then have sy: "system_ok (put_server (hs_sys h) (?st\<lparr>tuners := ts, sessions := ?xs\<rparr>))"
    using reap_step [OF h(1), of w now] by (auto simp: good_step_def)
  have bw: "shows_session s (update_bandwidth now x) = shows_session s x" for s x
    by (simp add: shows_session_def update_bandwidth_def Let_def)
  have "list_all2 shows_session ?ss ?xs"
    using h(3) by (induction rule: list_all2_induct) (auto simp: bw, auto simp: shows_session_def)
  moreover have "served ?ss r" if "r \<in> set (hs_readers h)" for r
    using h(6) [OF that] by (fastforce simp: served_def)
  ultimately have "heap_ok (h\<lparr>hs_sys := put_server (hs_sys h) (?st\<lparr>tuners := ts, sessions := ?xs\<rparr>),
      hs_mem := M'\<rparr>)"
    using sy h(2) M'(2,3) by (intro heap_okI [where ss = ?ss and F = F]) (simp_all add: backed_def)
  then show ?thesis using M'(1) ev by (intro heap_goodI) (simp_all del: run_event.simps)
qed

section \<open>Work that touches no block, and deliveries\<close>

lemma works_step:
  assumes ok: "heap_ok h" and a: "heap_allowed w al (Works e) h"
  shows "heap_good (run_heap w al (Works e) h)"
proof -
  obtain ss F where h: "system_ok (hs_sys h)" "distinct (hs_readers h)"
    "list_all2 shows_session ss (sessions (sys_server (hs_sys h)))"
    "sess_list (hs_mem h) = map sn_addr ss" "sat (blocks (hs_mem h)) (sessions_at ss * F)"
    "\<And>r. r \<in> set (hs_readers h) \<Longrightarrow> served ss r"
    using ok by (rule heap_okE) blast
  have a': "allowed w e (hs_sys h)" using a by simp
  obtain x where x: "run_event w e (hs_sys h) = Inr x" "\<forall>sy. x = Some sy \<longrightarrow> system_ok sy"
    using event_step [OF h(1) a'] by (auto simp: good_step_def)
  have "map identity (sessions (sys_server sy)) = map identity (sessions (sys_server (hs_sys h)))"
    if "x = Some sy" for sy
  proof (cases e)
    case (Packet pmt_of pid data v)
    have "server_ok (sys_server (hs_sys h))" using h(1) by (simp add: system_ok_def)
    from session_write_ok [OF this, of v data "w_ca w" pmt_of "w_dvb w" pid] a' x(1) Packet that
    show ?thesis by auto
  qed (use a x(1) that in \<open>auto simp: bind_res_Inr split: prod.splits\<close>)
  moreover have "list_all2 shows_session ss xs = list_all2 (\<lambda>s (t, i, (n, c), p, ds).
      sn_id s = i \<and> sn_onid s = n \<and> sn_channel_id s = c \<and> list_all2 shows_dest (sn_dests s) ds)
      ss (map identity xs)" for xs
    by (simp add: list_all2_map2 shows_session_def [abs_def] identity_def channel_key_def)
  ultimately have "heap_ok (h\<lparr>hs_sys := sy\<rparr>)" if "x = Some sy" for sy
    using that x(2) h by (intro heap_okI [where ss = ss and F = F]) (simp_all add: backed_def)
  then show ?thesis using x(1) by (auto simp: heap_good_def)
qed

lemma process_shows:
  assumes "destination_process env wt due ds xs = Inr (Some (ds', outs))" "list_all2 shows_dest vs ds"
  shows "list_all2 shows_dest (filter (\<lambda>v. \<not> v_expired v) vs) ds'"
  using assms(2,1)
proof (induction arbitrary: ds' outs rule: list_all2_induct)
  case (Cons v vs d ds)
  show ?case
  proof (cases "expired d")
    case True
    with Cons show ?thesis by (auto simp: shows_dest_def)
  next
    case False
    obtain d1 out ds1 outs1 where d1: "deliver env wt due d xs = Inr (Some d1, out)"
      "destination_process env wt due ds xs = Inr (Some (ds1, outs1))" "ds' = d1 # ds1"
      using Cons.prems False by (auto simp: bind_res_Inr split: option.splits)
    have "shows_dest v d1"
      using deliver_frame [OF d1(1)] Cons.hyps(1) by (simp add: same_dest_def shows_dest_def)
    with Cons.IH [OF d1(2)] Cons.hyps(1) False d1(3) show ?thesis by (auto simp: shows_dest_def)
  qed
qed simp

lemma nth_session:
  assumes "sat m (sessions_at ss * F)" "k < length ss"
  shows "sat m (session_at (ss ! k) * (sessions_at (take k ss @ drop (Suc k) ss) * F))"
  using assms(1) by (simp only: sessions_at_nth(1) [OF assms(2)] ac_simps)

lemma drain_sessions:
  assumes "run_event w (Drain k wt due) sy = Inr (Some sy')" "k < length (sessions (sys_server sy))"
  shows "\<exists>ds data outs. sessions (sys_server sy') = (sessions (sys_server sy))
      [k := (sessions (sys_server sy) ! k)\<lparr>bufferPtr := 0, destination_ll := ds\<rparr>]
    \<and> destination_process (w_net w) wt due (destination_ll (sessions (sys_server sy) ! k)) data
      = Inr (Some (ds, outs))"
proof -
  let ?s = "sessions (sys_server sy) ! k"
  obtain r where r: "destination_process (w_net w) wt due (destination_ll ?s)
      (take (bufferPtr ?s) (s_buffer ?s)) = Inr r"
    "map_option (\<lambda>(s, _). put_server sy ((sys_server sy)\<lparr>sessions := (sessions (sys_server sy))[k := s]\<rparr>))
      (map_option (\<lambda>(ds, outs). (?s\<lparr>bufferPtr := 0, destination_ll := ds\<rparr>, outs)) r) = Some sy'"
    using assms by (auto simp: bind_res_Inr destination_thread_pass_def session_drain_def split: if_splits)
  then obtain ds outs where "r = Some (ds, outs)" by (cases r) auto
  with r show ?thesis by (intro exI [of _ ds] exI [of _ "take (bufferPtr ?s) (s_buffer ?s)"]
      exI [of _ outs]) auto
qed

text \<open>A pass of a thread on session \<open>k\<close> destroys what has expired there.\<close>

definition swept :: "sess_view \<Rightarrow> sess_view" where
  "swept s = s\<lparr>sn_dests := filter (\<lambda>v. \<not> v_expired v) (sn_dests s)\<rparr>"

lemma looping_pass:
  assumes "sat (blocks M) (sessions_at ss * F)" "k < length ss"
  shows "\<exists>m. thread_pass (Looping (sn_addr (ss ! k))) M = Inr (Some (Looping (sn_addr (ss ! k))), M\<lparr>blocks := m\<rparr>)
    \<and> sat m (sessions_at (ss[k := swept (ss ! k)]) * F)"
proof -
  let ?s = "ss ! k" and ?R = "sessions_at (take k ss @ drop (Suc k) ss) * F"
  obtain b l where l: "load_session (blocks M) (sn_addr ?s) = Inr \<lparr>sp_id = sn_id ?s, sp_onid = sn_onid ?s,
      sp_channel_id = sn_channel_id ?s, sp_running = True, sp_buffer = b, sp_dests = l\<rparr>"
    "load_queue (blocks M) b = Inr (sn_addr ?s)" "load_list (blocks M) l = Inr (map v_addr (sn_dests ?s))" "l \<noteq> 0"
    "sat (blocks M) (list_at l (sn_dests ?s) * (cell (sn_addr ?s) (session_block ?s True b l) *
      (cell b (Queue_Block (sn_addr ?s)) * ?R)))"
    using nth_session [OF assms] by (rule session_load)
  obtain m where m: "heap_process l (blocks M) = Inr m"
    "sat m (list_at l (filter (\<lambda>v. \<not> v_expired v) (sn_dests ?s)) * (cell (sn_addr ?s)
      (session_block ?s True b l) * (cell b (Queue_Block (sn_addr ?s)) * ?R)))"
    using heap_process_at [OF l(5)] by blast
  have "sat m (session_at (swept ?s) * ?R)"
    unfolding swept_def
    by (rule session_atI [of _ _ b l]) (use m(2) in \<open>simp only: list_at_def put_dests ac_simps\<close>)
  then have "sat m (sessions_at (ss[k := swept ?s]) * F)"
    by (simp only: sessions_at_nth(2) [OF assms(2)] ac_simps)
  then show ?thesis using l(1,2) m(1) by (auto simp: thread_pass_def)
qed

lemma starting_pass:
  assumes "sat (blocks M) (sessions_at ss * F)" "sess_list M = map sn_addr ss" "thread_live (Starting b) M"
  shows "\<exists>a. thread_pass (Starting b) M = Inr (Some (Looping a), M)"
proof -
  obtain k where k: "k < length ss" "case load_session (blocks M) (sn_addr (ss ! k)) of
      Inl _ \<Rightarrow> False | Inr s \<Rightarrow> sp_buffer s = b"
    using assms(2,3) by (auto simp: thread_live_def list_ex_iff in_set_conv_nth)
  from nth_session [OF assms(1) k(1)] k(2) show ?thesis
    by (auto elim!: session_load simp: thread_pass_def)
qed

lemma served_swept:
  assumes "served ss r" "k < length ss"
  shows "served (ss[k := swept (ss ! k)]) r"
proof -
  obtain s v where v: "s \<in> set ss" "v \<in> set (sn_dests s)" "v_addr v = r" "v_type v = dest_http"
    "\<not> v_expired v" using assms(1) by (auto simp: served_def)
  then obtain i where i: "i < length ss" "s = ss ! i" by (auto simp: in_set_conv_nth)
  have "(ss[k := swept (ss ! k)]) ! i \<in> set (ss[k := swept (ss ! k)])" using i(1) by simp
  moreover have "v \<in> set (sn_dests ((ss[k := swept (ss ! k)]) ! i))"
    using v i by (cases "i = k") (simp_all add: swept_def)
  ultimately show ?thesis unfolding served_def using v(3-5) by blast
qed

lemma delivers_step:
  assumes ok: "heap_ok h" and a: "heap_allowed w al (Delivers i wt due) h"
  shows "heap_good (run_heap w al (Delivers i wt due) h)"
proof -
  obtain ss F where h: "system_ok (hs_sys h)" "distinct (hs_readers h)"
    "list_all2 shows_session ss (sessions (sys_server (hs_sys h)))"
    "sess_list (hs_mem h) = map sn_addr ss" "sat (blocks (hs_mem h)) (sessions_at ss * F)"
    "\<And>r. r \<in> set (hs_readers h) \<Longrightarrow> served ss r"
    using ok by (rule heap_okE) blast
  let ?xs = "sessions (sys_server (hs_sys h))"
  have live: "thread_live (hs_threads h ! i) (hs_mem h)" and net: "net_ok (w_net w)" using a by simp_all
  show ?thesis
  proof (cases "hs_threads h ! i")
    case (Starting b)
    obtain t where "thread_pass (Starting b) (hs_mem h) = Inr (Some (Looping t), hs_mem h)"
      using starting_pass [OF h(5,4)] live Starting by auto
    moreover have "heap_ok (h\<lparr>hs_threads := (hs_threads h)[i := Looping t]\<rparr>)"
      using h by (intro heap_okI [where ss = ss and F = F]) (simp_all add: backed_def)
    ultimately show ?thesis using Starting by (intro heap_goodI) simp_all
  next
    case (Looping t)
    then obtain k where k: "find_index (\<lambda>x. x = t) (sess_list (hs_mem h)) = Some k"
      using live by (cases "find_index (\<lambda>x. x = t) (sess_list (hs_mem h))")
        (auto simp: thread_live_def find_index_None)
    then have kl: "k < length ss" "t = sn_addr (ss ! k)" using h(4) by (auto simp: find_index_Some)
    obtain m where m: "thread_pass (Looping t) (hs_mem h) = Inr (Some (Looping t), (hs_mem h)\<lparr>blocks := m\<rparr>)"
      "sat m (sessions_at (ss[k := swept (ss ! k)]) * F)"
      using looping_pass [OF h(5) kl(1)] kl(2) by auto
    have kx: "k < length ?xs" using kl(1) list_all2_lengthD [OF h(3)] by simp
    obtain x where x: "run_event w (Drain k wt due) (hs_sys h) = Inr x" "\<forall>sy. x = Some sy \<longrightarrow> system_ok sy"
      using drain_step [OF h(1) net kx, of wt due] by (auto simp: good_step_def simp del: run_event.simps)
    have "list_all2 shows_session (ss[k := swept (ss ! k)]) (sessions (sys_server sy))" if "x = Some sy" for sy
    proof -
      have "run_event w (Drain k wt due) (hs_sys h) = Inr (Some sy)" using x(1) that by simp
      from drain_sessions [OF this kx] obtain ds data outs where
        s': "sessions (sys_server sy) = ?xs[k := (?xs ! k)\<lparr>bufferPtr := 0, destination_ll := ds\<rparr>]"
        "destination_process (w_net w) wt due (destination_ll (?xs ! k)) data = Inr (Some (ds, outs))"
        by blast
      have "shows_session (ss ! k) (?xs ! k)" using h(3) kl(1) by (simp add: list_all2_nthD)
      then have "shows_session (swept (ss ! k)) ((?xs ! k)\<lparr>bufferPtr := 0, destination_ll := ds\<rparr>)"
        using process_shows [OF s'(2)] by (simp add: shows_session_def swept_def)
      then show ?thesis using h(3) s'(1) by (simp add: list_all2_update_cong)
    qed
    moreover have "map sn_addr (ss[k := swept (ss ! k)]) = map sn_addr ss"
      using kl(1) by (metis list_update_id map_update nth_map put_dests(2) swept_def)
    ultimately have "heap_ok (h\<lparr>hs_mem := (hs_mem h)\<lparr>blocks := m\<rparr>,
        hs_threads := (hs_threads h)[i := Looping t], hs_sys := sy\<rparr>)" if "x = Some sy" for sy
      using that x(2) h m(2) served_swept [OF _ kl(1)]
      by (intro heap_okI [where ss = "ss[k := swept (ss ! k)]" and F = F]) (simp_all add: backed_def)
    then show ?thesis using Looping m(1) k x(1)
      by (auto simp: heap_good_def Let_def simp del: run_event.simps)
  qed
qed

section \<open>Web clients\<close>

lemma on_dest_result:
  assumes ok: "system_ok sy" and k: "k < length (sessions (sys_server sy))"
    and j: "j < length (destination_ll (sessions (sys_server sy) ! k))"
    and f: "f (destination_ll (sessions (sys_server sy) ! k) ! j) = Inr d" and d: "dest_ready d"
  shows "\<exists>sy'. on_dest (k, j) f sy = Inr sy' \<and> system_ok sy'
    \<and> sessions (sys_server sy') = (sessions (sys_server sy))[k := (sessions (sys_server sy) ! k)
        \<lparr>destination_ll := (destination_ll (sessions (sys_server sy) ! k))[j := d]\<rparr>]"
proof -
  let ?s = "sessions (sys_server sy) ! k"
  let ?s' = "?s\<lparr>destination_ll := (destination_ll ?s)[j := d]\<rparr>"
  have "Ball (dests (sessions (sys_server sy))) dest_ready" using ok by (simp add: system_ok_dests)
  then have "\<forall>d \<in> set (destination_ll ?s). dest_ready d" using k by (auto simp: dests_def)
  then have "\<forall>d \<in> set ((destination_ll ?s)[j := d]). dest_ready d"
    using d set_update_subset_insert [of "destination_ll ?s" j d] by blast
  then have "system_ok (put_server sy ((sys_server sy)\<lparr>sessions := (sessions (sys_server sy))[k := ?s']\<rparr>))"
    by (intro new_dests_ok [OF ok k, where n = "bufferPtr ?s"]) simp_all
  then show ?thesis using f by (simp add: on_dest_def Let_def)
qed

lemma shows_on_dest:
  assumes "list_all2 shows_session ss xs" "k < length ss" "j < length (sn_dests (ss ! k))" "shows_dest v d"
  shows "list_all2 shows_session (ss[k := (ss ! k)\<lparr>sn_dests := (sn_dests (ss ! k))[j := v]\<rparr>])
    (xs[k := (xs ! k)\<lparr>destination_ll := (destination_ll (xs ! k))[j := d]\<rparr>])"
proof (rule list_all2_update_cong [OF assms(1)])
  have "shows_session (ss ! k) (xs ! k)" using assms(1,2) by (simp add: list_all2_nthD)
  then show "shows_session ((ss ! k)\<lparr>sn_dests := (sn_dests (ss ! k))[j := v]\<rparr>)
      ((xs ! k)\<lparr>destination_ll := (destination_ll (xs ! k))[j := d]\<rparr>)"
    using assms(4) by (simp add: shows_session_def list_all2_update_cong)
qed

lemma getData_frame:
  "destination_getDatafromBuffer d n = Inr (out, d') \<Longrightarrow> same_dest d d'"
  by (auto simp: destination_getDatafromBuffer_def Let_def bind_res_Inr same_dest_def split: if_splits)

text \<open>The session and the destination a reader leads to, in the views and in the values.\<close>

lemma reader_place:
  assumes "list_all2 shows_session ss xs" "sess_list M = map sn_addr ss"
    "sat (blocks M) (sessions_at ss * F)" "served ss r"
  obtains k j where "place_of r (dest_lists M) = Some (k, j)" "k < length ss" "k < length xs"
    "j < length (sn_dests (ss ! k))" "j < length (destination_ll (xs ! k))"
    "v_addr (sn_dests (ss ! k) ! j) = r" "shows_dest (sn_dests (ss ! k) ! j) (destination_ll (xs ! k) ! j)"
proof -
  obtain k j where p: "place_of r (dest_lists M) = Some (k, j)" "k < length ss"
    "j < length (sn_dests (ss ! k))" "v_addr (sn_dests (ss ! k) ! j) = r"
    using assms(2-4) by (rule served_place)
  moreover have "shows_session (ss ! k) (xs ! k)" using assms(1) p(2) by (simp add: list_all2_nthD)
  ultimately show thesis using that list_all2_lengthD [OF assms(1)]
    by (auto simp: shows_session_def list_all2_conv_all_nth)
qed

lemma fetches_step:
  assumes ok: "heap_ok h" and a: "heap_allowed w al (Fetches i n) h"
  shows "heap_good (run_heap w al (Fetches i n) h)"
proof -
  obtain ss F where h: "system_ok (hs_sys h)" "distinct (hs_readers h)"
    "list_all2 shows_session ss (sessions (sys_server (hs_sys h)))"
    "sess_list (hs_mem h) = map sn_addr ss" "sat (blocks (hs_mem h)) (sessions_at ss * F)"
    "\<And>r. r \<in> set (hs_readers h) \<Longrightarrow> served ss r"
    using ok by (rule heap_okE) blast
  let ?r = "hs_readers h ! i" and ?xs = "sessions (sys_server (hs_sys h))"
  have r: "served ss ?r" using a h(6) by simp
  obtain k j where p: "place_of ?r (dest_lists (hs_mem h)) = Some (k, j)" "k < length ss" "k < length ?xs"
    "j < length (sn_dests (ss ! k))" "j < length (destination_ll (?xs ! k))"
    "v_addr (sn_dests (ss ! k) ! j) = ?r" "shows_dest (sn_dests (ss ! k) ! j) (destination_ll (?xs ! k) ! j)"
    using h(3,4,5) r by (rule reader_place)
  let ?v = "sn_dests (ss ! k) ! j" and ?d = "destination_ll (?xs ! k) ! j"
  have "?d \<in> dests ?xs" using p(3,5) by (auto simp: dests_def intro!: bexI [of _ "?xs ! k"])
  then have ready: "dest_ready ?d" using h(1) by (simp add: system_ok_dests)
  obtain out d' where d': "destination_getDatafromBuffer ?d n = Inr (out, d')" "buf_ok d'"
    using getData_ok [of ?d n] ready by (auto simp: dest_ready_def)
  have same: "same_dest ?d d'" by (rule getData_frame [OF d'(1)])
  then have ready': "dest_ready d'" "shows_dest ?v d'"
    using ready d'(2) p(7) by (simp_all add: dest_ready_def same_dest_def shows_dest_def)
  have get: "bind_res (stream_buffer_reader ?d n) (\<lambda>(_, d'). Inr d') = Inr d'"
    using d'(1) by (simp add: stream_buffer_reader_def)
  obtain sy where sy: "on_dest (k, j) (\<lambda>d. bind_res (stream_buffer_reader d n) (\<lambda>(_, d'). Inr d'))
      (hs_sys h) = Inr sy" "system_ok sy"
    "sessions (sys_server sy) = ?xs[k := (?xs ! k)\<lparr>destination_ll := (destination_ll (?xs ! k))[j := d']\<rparr>]"
    using on_dest_result [OF h(1) p(3,5), where d = d',
        where f = "\<lambda>d. bind_res (stream_buffer_reader d n) (\<lambda>(_, d'). Inr d')", OF get ready'(1)]
    by blast
  have "ss[k := (ss ! k)\<lparr>sn_dests := (sn_dests (ss ! k))[j := ?v]\<rparr>] = ss" by simp
  then have "list_all2 shows_session ss (sessions (sys_server sy))"
    using shows_on_dest [OF h(3) p(2,4) ready'(2)] sy(3) by simp
  then have "heap_ok (h\<lparr>hs_sys := sy\<rparr>)"
    using sy(2) h by (intro heap_okI [where ss = ss and F = F]) (simp_all add: backed_def)
  moreover have "\<exists>b. heap_fetch ?r (blocks (hs_mem h)) = Inr b"
  proof -
    obtain G where "sat (blocks (hs_mem h)) (dest_at ?v * (F * G))"
      using sessions_dest [OF h(5), of "ss ! k" ?v] p(2,4) by auto
    from dest_load [OF this] p(6) show ?thesis by (auto simp: heap_fetch_def)
  qed
  ultimately show ?thesis using p(1) sy(1) by (auto intro!: heap_goodI)
qed

lemma hang_up_at:
  assumes "sat m (sessions_at ss * F)" "k < length ss" "j < length (sn_dests (ss ! k))"
  shows "\<exists>m'. heap_hang_up (v_addr (sn_dests (ss ! k) ! j)) m = Inr m'
    \<and> sat m' (sessions_at (ss[k := (ss ! k)\<lparr>sn_dests := (sn_dests (ss ! k))
        [j := (sn_dests (ss ! k) ! j)\<lparr>v_expired := True\<rparr>]\<rparr>]) * F)"
proof -
  let ?s = "ss ! k" and ?v = "sn_dests (ss ! k) ! j"
  let ?v' = "?v\<lparr>v_expired := True\<rparr>"
  let ?vs' = "(sn_dests ?s)[j := ?v']"
  let ?R = "sessions_at (take k ss @ drop (Suc k) ss) * F"
  let ?D = "dests_at (take j (sn_dests ?s) @ drop (Suc j) (sn_dests ?s))"
  obtain b l where "sat m (cell (sn_addr ?s) (session_block ?s True b l) *
      (cell b (Queue_Block (sn_addr ?s)) * (cell l (List_Block (map v_addr (sn_dests ?s))) *
        (dests_at (sn_dests ?s) * ?R))))"
    (is "sat m (?S * (?B * (?L * _)))")
    using nth_session [OF assms(1,2)] by (rule session_atE)
  then have "sat m (dest_at ?v * (?S * (?B * (?L * (?D * ?R)))))"
    by (simp only: dests_at_nth(1) [OF assms(3)] ac_simps)
  then obtain c q where q: "sat m (cell (v_addr ?v) (Dest_Block \<lparr>dp_type = v_type ?v,
      dp_size = v_size ?v, dp_expired = v_expired ?v, dp_buffer = c, dp_url = q\<rparr>) *
      (cell c (Bytes (v_size ?v)) * (url_at q (v_url ?v) * (?S * (?B * (?L * (?D * ?R)))))))"
    by (rule dest_atE)
  obtain m' where m': "heap_hang_up (v_addr ?v) m = Inr m'"
    "sat m' (cell (v_addr ?v) (Dest_Block \<lparr>dp_type = v_type ?v, dp_size = v_size ?v,
      dp_expired = True, dp_buffer = c, dp_url = q\<rparr>) *
      (cell c (Bytes (v_size ?v)) * (url_at q (v_url ?v) * (?S * (?B * (?L * (?D * ?R)))))))"
    using update_dest_at [OF q, of "\<lambda>c. c\<lparr>dp_expired := True\<rparr>"] by (auto simp: heap_hang_up_def)
  have "sat m' (dest_at ?v' * (?S * (?B * (?L * (?D * ?R)))))"
    by (rule dest_atI [of _ _ c q]) (use m'(2) in simp)
  moreover have "map v_addr ?vs' = map v_addr (sn_dests ?s)"
    using assms(3) by (simp add: map_update list_update_same_conv)
  ultimately have "sat m' (cell (sn_addr ?s) (session_block ?s True b l) *
      (cell b (Queue_Block (sn_addr ?s)) * (cell l (List_Block (map v_addr ?vs')) *
        (dests_at ?vs' * ?R))))"
    by (simp only: dests_at_nth(2) [OF assms(3)] ac_simps)
  then have "sat m' (session_at (?s\<lparr>sn_dests := ?vs'\<rparr>) * ?R)"
    by (intro session_atI [of _ _ b l]) (simp only: put_dests)
  then have "sat m' (sessions_at (ss[k := ?s\<lparr>sn_dests := ?vs'\<rparr>]) * F)"
    by (simp only: sessions_at_nth(2) [OF assms(2)] ac_simps)
  with m'(1) show ?thesis by blast
qed

lemma served_others:
  assumes "served ss r" "r \<noteq> v_addr (sn_dests (ss ! k) ! j)" "k < length ss" "j < length (sn_dests (ss ! k))"
  shows "served (ss[k := (ss ! k)\<lparr>sn_dests := (sn_dests (ss ! k))[j := v]\<rparr>]) r"
proof -
  let ?s = "(ss ! k)\<lparr>sn_dests := (sn_dests (ss ! k))[j := v]\<rparr>"
  obtain s u where u: "s \<in> set ss" "u \<in> set (sn_dests s)" "v_addr u = r" "v_type u = dest_http"
    "\<not> v_expired u" using assms(1) by (auto simp: served_def)
  then obtain i n where i: "i < length ss" "s = ss ! i" "n < length (sn_dests s)" "u = sn_dests s ! n"
    by (auto simp: in_set_conv_nth)
  have "(ss[k := ?s]) ! i \<in> set (ss[k := ?s])" using i(1) by simp
  moreover have "u \<in> set (sn_dests ((ss[k := ?s]) ! i))"
  proof (cases "i = k")
    case True
    then have "n \<noteq> j" using assms(2) i u(3) by auto
    then have "(sn_dests (ss ! k))[j := v] ! n = u" "n < length ((sn_dests (ss ! k))[j := v])"
      using i True by simp_all
    then have "u \<in> set ((sn_dests (ss ! k))[j := v])" by (metis nth_mem)
    with True assms(3) show ?thesis by simp
  next
    case False
    with i u(2) show ?thesis by simp
  qed
  ultimately show ?thesis unfolding served_def using u(3-5) by blast
qed

lemma drop_nth_distinct:
  assumes "distinct xs" "i < length xs"
  shows "distinct (drop_nth i xs)" "set (drop_nth i xs) \<subseteq> set xs - {xs ! i}"
proof -
  have "distinct (take i xs @ xs ! i # drop (Suc i) xs)"
    using assms by (simp only: id_take_nth_drop [symmetric])
  then have "distinct (take i xs @ drop (Suc i) xs)" "xs ! i \<notin> set (take i xs @ drop (Suc i) xs)"
    by auto
  then show "distinct (drop_nth i xs)" "set (drop_nth i xs) \<subseteq> set xs - {xs ! i}"
    by (auto simp: drop_nth_def dest: in_set_takeD in_set_dropD)
qed

lemma hangs_up_step:
  assumes ok: "heap_ok h" and a: "heap_allowed w al (Hangs_up i) h"
  shows "heap_good (run_heap w al (Hangs_up i) h)"
proof -
  obtain ss F where h: "system_ok (hs_sys h)" "distinct (hs_readers h)"
    "list_all2 shows_session ss (sessions (sys_server (hs_sys h)))"
    "sess_list (hs_mem h) = map sn_addr ss" "sat (blocks (hs_mem h)) (sessions_at ss * F)"
    "\<And>r. r \<in> set (hs_readers h) \<Longrightarrow> served ss r"
    using ok by (rule heap_okE) blast
  let ?r = "hs_readers h ! i" and ?xs = "sessions (sys_server (hs_sys h))"
  have i: "i < length (hs_readers h)" and r: "served ss ?r" using a h(6) by simp_all
  obtain k j where p: "place_of ?r (dest_lists (hs_mem h)) = Some (k, j)" "k < length ss" "k < length ?xs"
    "j < length (sn_dests (ss ! k))" "j < length (destination_ll (?xs ! k))"
    "v_addr (sn_dests (ss ! k) ! j) = ?r" "shows_dest (sn_dests (ss ! k) ! j) (destination_ll (?xs ! k) ! j)"
    using h(3,4,5) r by (rule reader_place)
  let ?v' = "(sn_dests (ss ! k) ! j)\<lparr>v_expired := True\<rparr>" and ?d = "destination_ll (?xs ! k) ! j"
  let ?ss' = "ss[k := (ss ! k)\<lparr>sn_dests := (sn_dests (ss ! k))[j := ?v']\<rparr>]"
  have "?d \<in> dests ?xs" using p(3,5) by (auto simp: dests_def intro!: bexI [of _ "?xs ! k"])
  then have ready: "dest_ready (free_stream_callback ?d)" "shows_dest ?v' (free_stream_callback ?d)"
    using h(1) p(7)
    by (auto simp: system_ok_dests dest_ready_def buf_ok_def free_stream_callback_def shows_dest_def)
  obtain sy where sy: "on_dest (k, j) (\<lambda>d. Inr (free_stream_callback d)) (hs_sys h) = Inr sy"
    "system_ok sy" "sessions (sys_server sy) = ?xs[k := (?xs ! k)\<lparr>destination_ll :=
      (destination_ll (?xs ! k))[j := free_stream_callback ?d]\<rparr>]"
    using on_dest_result [OF h(1) p(3,5), where d = "free_stream_callback ?d",
        where f = "\<lambda>d. Inr (free_stream_callback d)", OF refl ready(1)]
    by blast
  obtain m where m: "heap_hang_up ?r (blocks (hs_mem h)) = Inr m" "sat m (sessions_at ?ss' * F)"
    using hang_up_at [OF h(5) p(2,4)] p(6) by auto
  have "list_all2 shows_session ?ss' (sessions (sys_server sy))"
    using shows_on_dest [OF h(3) p(2,4) ready(2)] sy(3) by simp
  moreover have "map sn_addr ?ss' = map sn_addr ss"
    using p(2) by (metis list_update_id map_update nth_map put_dests(2))
  moreover have "served ?ss' r'" if "r' \<in> set (drop_nth i (hs_readers h))" for r'
    using drop_nth_distinct(2) [OF h(2) i] that h(6) p(6)
    by (intro served_others [OF _ _ p(2,4)]) auto
  ultimately have "heap_ok (h\<lparr>hs_mem := (hs_mem h)\<lparr>blocks := m\<rparr>,
      hs_readers := drop_nth i (hs_readers h), hs_sys := sy\<rparr>)"
    using sy(2) h(4) m(2) drop_nth_distinct(1) [OF h(2) i]
    by (intro heap_okI [where ss = ?ss' and F = F]) (simp_all add: backed_def)
  then show ?thesis using p(1) sy(1) m(1) by (auto intro!: heap_goodI)
qed

section \<open>The machine keeps its invariant\<close>

lemma heap_step:
  assumes "heap_ok h" "roomy al" "heap_allowed w al e h"
  shows "heap_good (run_heap w al e h)"
proof (cases e)
  case Open
  then show ?thesis using open_step assms by blast
next
  case Ends
  then show ?thesis using ends_step assms by blast
next
  case Reaps
  then show ?thesis using reaps_step assms by blast
next
  case Works
  then show ?thesis using works_step assms by blast
next
  case Delivers
  then show ?thesis using delivers_step assms by blast
next
  case Fetches
  then show ?thesis using fetches_step assms by blast
next
  case Hangs_up
  then show ?thesis using hangs_up_step assms by blast
qed

interpretation heap_machine: guarded_machine "run_heap w al"
  "\<lambda>e h. roomy al \<and> heap_allowed w al e h" heap_ok for w al
proof
  show "\<exists>r. run_heap w al e h = Inr r" if "heap_ok h" "roomy al \<and> heap_allowed w al e h" for w al e h
    using heap_step [of h al w e] that by (auto simp: heap_good_def)
  show "heap_ok h'" if "heap_ok h" "roomy al \<and> heap_allowed w al e h" "run_heap w al e h = Inr (Some h')"
    for w al e h h'
    using heap_step [of h al w e] that by (auto simp: heap_good_def)
qed

section \<open>Every pointer leads to a block of its kind\<close>

definition url_typed :: "mem \<Rightarrow> ptr \<Rightarrow> bool" where
  "url_typed m p =
     (case load_url m p of
        Inl _ \<Rightarrow> False
      | Inr u \<Rightarrow> list_all (\<lambda>a. a = 0 \<or> (case load_text m a of Inl _ \<Rightarrow> False | Inr _ \<Rightarrow> True)) (url_fields u))"

definition dest_typed :: "mem \<Rightarrow> ptr \<Rightarrow> bool" where
  "dest_typed m a =
     (case load_dest m a of
        Inl _ \<Rightarrow> False
      | Inr c \<Rightarrow> load m (dp_buffer c) = Inr (Bytes (dp_size c)) \<and> url_typed m (dp_url c))"

definition session_typed :: "mem \<Rightarrow> ptr \<Rightarrow> bool" where
  "session_typed m a =
     (case load_session m a of
        Inl _ \<Rightarrow> False
      | Inr s \<Rightarrow> sp_running s \<and> load_queue m (sp_buffer s) = Inr a \<and>
          (case load_list m (sp_dests s) of
             Inl _ \<Rightarrow> False | Inr ds \<Rightarrow> distinct ds \<and> list_all (dest_typed m) ds))"

definition memory_typed :: "memory \<Rightarrow> bool" where
  "memory_typed M \<longleftrightarrow> distinct (sess_list M) \<and> list_all (session_typed (blocks M)) (sess_list M)"

lemma parts_typed:
  assumes "sat m (parts_at as ts * F)" "length as = length ts"
  shows "list_all (\<lambda>a. a = 0 \<or> (case load_text m a of Inl _ \<Rightarrow> False | Inr _ \<Rightarrow> True)) as"
  using assms(2,1)
proof (induction as ts arbitrary: F rule: list_induct2)
  case (Cons a as t ts)
  have "sat m (parts_at as ts * (part_at a t * F))" using Cons.prems by (simp add: ac_simps)
  from Cons.IH [OF this] Cons.prems show ?case
    by (auto simp: part_at_def load_text_def load_def mult.assoc split: option.splits)
qed simp

lemma dest_at_typed:
  assumes "sat m (dest_at v * F)"
  shows "dest_typed m (v_addr v)"
proof -
  obtain b p where l: "load_dest m (v_addr v) = Inr \<lparr>dp_type = v_type v, dp_size = v_size v,
       dp_expired = v_expired v, dp_buffer = b, dp_url = p\<rparr>"
    and s: "sat m (cell (v_addr v) (Dest_Block \<lparr>dp_type = v_type v, dp_size = v_size v,
       dp_expired = v_expired v, dp_buffer = b, dp_url = p\<rparr>) * (cell b (Bytes (v_size v))
         * (url_at p (v_url v) * F)))"
    (is "sat m (?d * (?b * (?u * F)))")
    using assms by (rule dest_atE)
  have "sat m (?b * (?d * (?u * F)))" using s by (simp only: ac_simps)
  then have b: "load m b = Inr (Bytes (v_size v))" by simp
  have "sat m (?u * (?b * (?d * F)))" using s by (simp only: ac_simps)
  then obtain c where c: "sat m (cell p (Url_Block c) * (parts_at (url_fields c) (url_texts (v_url v))
      * (?b * (?d * F))))"
    by (auto simp: url_at_def texts_at_def mult.assoc simp del: sat_cell)
  then have "sat m (parts_at (url_fields c) (url_texts (v_url v)) * (cell p (Url_Block c) * (?b * (?d * F))))"
    by (simp only: ac_simps)
  then have "list_all (\<lambda>a. a = 0 \<or> (case load_text m a of Inl _ \<Rightarrow> False | Inr _ \<Rightarrow> True)) (url_fields c)"
    by (rule parts_typed) simp
  with c l b show ?thesis by (simp add: dest_typed_def url_typed_def)
qed

lemma dests_distinct: "sat m (dests_at vs * F) \<Longrightarrow> distinct (map v_addr vs)"
proof (induction vs arbitrary: F)
  case (Cons v vs)
  have "v_addr u \<noteq> v_addr v" if u: "u \<in> set vs" for u
  proof -
    obtain xs ys where "vs = xs @ u # ys" using u by (auto simp: in_set_conv_decomp)
    then have "sat m (dest_at u * (dest_at v * (dests_at (xs @ ys) * F)))"
      using Cons.prems by (simp add: ac_simps)
    then show ?thesis by (rule dest_apart)
  qed
  moreover have "sat m (dests_at vs * (dest_at v * F))" using Cons.prems by (simp add: ac_simps)
  ultimately show ?case using Cons.IH by fastforce
qed simp

lemma session_at_typed:
  assumes "sat m (session_at s * F)"
  shows "session_typed m (sn_addr s)"
proof -
  obtain b l where l: "load_session m (sn_addr s) = Inr \<lparr>sp_id = sn_id s, sp_onid = sn_onid s,
      sp_channel_id = sn_channel_id s, sp_running = True, sp_buffer = b, sp_dests = l\<rparr>"
    "load_queue m b = Inr (sn_addr s)" "load_list m l = Inr (map v_addr (sn_dests s))" "l \<noteq> 0"
    "sat m (list_at l (sn_dests s) * (cell (sn_addr s) (session_block s True b l) *
      (cell b (Queue_Block (sn_addr s)) * F)))"
    using assms by (rule session_load)
  have "sat m (dests_at (sn_dests s) * (cell l (List_Block (map v_addr (sn_dests s))) *
      (cell (sn_addr s) (session_block s True b l) * (cell b (Queue_Block (sn_addr s)) * F))))"
    using l(5) by (simp only: list_at_def ac_simps)
  then have "distinct (map v_addr (sn_dests s))" by (rule dests_distinct)
  moreover have "dest_typed m (v_addr v)" if v: "v \<in> set (sn_dests s)" for v
    using session_dest [OF assms v] dest_at_typed by blast
  ultimately show ?thesis using l(1-3) by (simp add: session_typed_def list_all_iff)
qed

lemma session_apart:
  assumes "sat m (session_at s * (session_at t * F))"
  shows "sn_addr s \<noteq> sn_addr t"
proof -
  obtain b l where "sat m (cell (sn_addr s) (session_block s True b l) *
      (cell b (Queue_Block (sn_addr s)) * (cell l (List_Block (map v_addr (sn_dests s))) *
        (dests_at (sn_dests s) * (session_at t * F)))))"
    (is "sat m (?s * (?b * (?l * (?d * _))))")
    using assms by (rule session_atE)
  then have "sat m (session_at t * (?s * (?b * (?l * (?d * F)))))" by (simp only: ac_simps)
  then obtain c k where "sat m (cell (sn_addr t) (session_block t True c k) *
      (cell c (Queue_Block (sn_addr t)) * (cell k (List_Block (map v_addr (sn_dests t))) *
        (dests_at (sn_dests t) * (?s * (?b * (?l * (?d * F))))))))"
    (is "sat m (?t * (?c * (?k * (?e * _))))")
    by (rule session_atE)
  then have "sat m (?t * (?s * (?c * (?k * (?e * (?b * (?l * (?d * F))))))))" by (simp only: ac_simps)
  then show ?thesis by auto
qed

lemma sessions_distinct: "sat m (sessions_at ss * F) \<Longrightarrow> distinct (map sn_addr ss)"
proof (induction ss arbitrary: F)
  case (Cons s ss)
  have "sn_addr t \<noteq> sn_addr s" if t: "t \<in> set ss" for t
  proof -
    obtain xs ys where "ss = xs @ t # ys" using t by (auto simp: in_set_conv_decomp)
    then have "sat m (session_at t * (session_at s * (sessions_at (xs @ ys) * F)))"
      using Cons.prems by (simp add: ac_simps)
    then show ?thesis by (rule session_apart)
  qed
  moreover have "sat m (sessions_at ss * (session_at s * F))" using Cons.prems by (simp add: ac_simps)
  ultimately show ?case using Cons.IH by fastforce
qed simp

lemma heap_ok_typed:
  assumes "heap_ok h"
  shows "memory_typed (hs_mem h)"
proof -
  obtain ss F where h: "sess_list (hs_mem h) = map sn_addr ss" "sat (blocks (hs_mem h)) (sessions_at ss * F)"
    using assms by (rule heap_okE) blast
  have "session_typed (blocks (hs_mem h)) (sn_addr s)" if s: "s \<in> set ss" for s
  proof -
    obtain xs ys where "ss = xs @ s # ys" using s by (auto simp: in_set_conv_decomp)
    then have "sat (blocks (hs_mem h)) (session_at s * (sessions_at (xs @ ys) * F))"
      using h(2) by (simp add: ac_simps)
    then show ?thesis by (rule session_at_typed)
  qed
  with h sessions_distinct [OF h(2)] show ?thesis by (simp add: memory_typed_def list_all_iff)
qed

lemma served_typed:
  assumes "sat m (sessions_at ss * F)" "served ss r"
  shows "dest_typed m r"
proof -
  obtain s v where "s \<in> set ss" "v \<in> set (sn_dests s)" "v_addr v = r"
    using assms(2) by (auto simp: served_def)
  with sessions_dest [OF assms(1)] dest_at_typed show ?thesis by blast
qed

text \<open>What the blocks and the values say of the sessions and their destinations agrees.\<close>

definition memory_agrees :: "heap_system \<Rightarrow> bool" where
  "memory_agrees h \<longleftrightarrow> map length (dest_lists (hs_mem h))
     = map (\<lambda>s. length (destination_ll s)) (sessions (sys_server (hs_sys h)))"

lemma heap_ok_agrees:
  assumes "heap_ok h"
  shows "memory_agrees h"
proof -
  obtain ss F where h: "list_all2 shows_session ss (sessions (sys_server (hs_sys h)))"
    "sess_list (hs_mem h) = map sn_addr ss" "sat (blocks (hs_mem h)) (sessions_at ss * F)"
    using assms by (rule heap_okE) blast
  have "map (\<lambda>s. length (sn_dests s)) ss
      = map (\<lambda>s. length (destination_ll s)) (sessions (sys_server (hs_sys h)))"
    using h(1) by (induction rule: list_all2_induct) (auto simp: shows_session_def dest: list_all2_lengthD)
  then show ?thesis using dest_lists_at [OF h(2,3)] by (simp add: memory_agrees_def comp_def)
qed

lemma heap_ok_readers:
  assumes "heap_ok h"
  shows "list_all (dest_typed (blocks (hs_mem h))) (hs_readers h)"
proof -
  obtain ss F where h: "sat (blocks (hs_mem h)) (sessions_at ss * F)"
    "\<And>r. r \<in> set (hs_readers h) \<Longrightarrow> served ss r"
    using assms by (rule heap_okE) blast
  with served_typed [OF h(1)] show ?thesis by (simp add: list_all_iff)
qed

lemma owned_addr:
  "sat m (session_at s * F) \<Longrightarrow> sn_addr s \<noteq> 0"
  "sat m (dest_at v * F) \<Longrightarrow> v_addr v \<noteq> 0"
  by (erule session_atE, simp) (erule dest_atE, simp)

section \<open>The server and its memory\<close>

text \<open>C2. In every order of requests, stops, ends, packets, deliveries, reads and hang-ups of web
  clients the memory of the server stays well typed: each pointer in the list of sessions leads to a session, its
  buffer points back to it, its list holds different destinations, each with a buffer of its size and a URL of
  texts, every response that is open reads from a destination that is there, and the sessions on
  memory have the destinations the values say. No event that may happen follows a null or dangling pointer.\<close>
theorem server_memory_safe:
  assumes "runs (run_heap w al) (\<lambda>e h. roomy al \<and> heap_allowed w al e h) h0 es h" and "heap_ok h0"
  shows "memory_typed (hs_mem h) \<and> list_all (dest_typed (blocks (hs_mem h))) (hs_readers h)
    \<and> memory_agrees h \<and> (\<forall>e. \<not> (roomy al \<and> heap_allowed w al e h) \<or> \<not> isl (run_heap w al e h))"
  using heap_machine.reachable_inv [OF assms] heap_machine.reachable_no_fault [OF assms]
    heap_ok_typed heap_ok_agrees heap_ok_readers by fastforce

text \<open>C17. A session that is stopped while a web client reads from it, or while its thread is asleep, leaves
  dangling pointers behind: when the stop has returned, the next read of the client, its hang-up and the
  next pass of the thread each follow a pointer to memory that was freed.\<close>
theorem stale_pointers_fault:
  assumes "heap_ok h" "find_index (\<lambda>x. sessionID x = sid) (sessions (sys_server (hs_sys h))) = Some k"
  shows "\<exists>h'. run_heap w al (Ends sid) h = Inr (Some h')
    \<and> hs_threads h' = hs_threads h \<and> hs_readers h' = hs_readers h
    \<and> (\<forall>i < length (hs_readers h). hs_readers h ! i \<in> set (dest_lists (hs_mem h) ! k) \<longrightarrow>
        run_heap w al (Fetches i n) h' = Inl BadPointer \<and> run_heap w al (Hangs_up i) h' = Inl BadPointer)
    \<and> (\<forall>i < length (hs_threads h). hs_threads h ! i = Looping (sess_list (hs_mem h) ! k) \<longrightarrow>
        run_heap w al (Delivers i wt due) h' = Inl BadPointer)"
proof -
  obtain ss F where h: "system_ok (hs_sys h)"
    "list_all2 shows_session ss (sessions (sys_server (hs_sys h)))"
    "sess_list (hs_mem h) = map sn_addr ss" "sat (blocks (hs_mem h)) (sessions_at ss * F)"
    using assms(1) by (rule heap_okE) blast
  obtain sy where sy: "run_event w (Stop sid) (hs_sys h) = Inr (Some sy)"
    using h(1) by (rule stop_result)
  have k: "k < length ss" using assms(2) list_all2_lengthD [OF h(2)] by (auto simp: find_index_Some)
  have ids: "sn_id (ss ! i) = sessionID (sessions (sys_server (hs_sys h)) ! i)" if "i < length ss" for i
    using list_all2_nthD [OF h(2) that] by (simp add: shows_session_def)
  have "sn_id (ss ! k) = sid" "\<forall>x \<in> set (take k ss). sn_id x \<noteq> sid"
    using assms(2) k ids by (auto simp: find_index_Some in_set_conv_nth)
  note stop = heap_stop_exact [where xs = "take k ss" and ys = "drop (Suc k) ss" and s = "ss ! k",
      folded id_take_nth_drop [OF k], OF h(4,3) this(2,1)]
  then obtain m where m: "heap_stop sid (hs_mem h)
      = Inr (0, \<lparr>blocks = m, sess_list = map sn_addr (take k ss @ drop (Suc k) ss)\<rparr>)"
    "m (sn_addr (ss ! k)) = None" "\<And>v. v \<in> set (sn_dests (ss ! k)) \<Longrightarrow> m (v_addr v) = None"
    by blast
  have nz: "sn_addr (ss ! k) \<noteq> 0" "\<And>v. v \<in> set (sn_dests (ss ! k)) \<Longrightarrow> v_addr v \<noteq> 0"
    using owned_addr(1) [OF nth_session(1) [OF h(4) k]] sessions_dest [OF h(4) nth_mem [OF k]] owned_addr(2)
    by blast+
  have "dest_lists (hs_mem h) ! k = map v_addr (sn_dests (ss ! k))"
    using dest_lists_at [OF h(3,4)] k by simp
  with m(3) nz(2) have r: "r \<noteq> 0" "m r = None" if "r \<in> set (dest_lists (hs_mem h) ! k)" for r
    using that by auto
  have "sess_list (hs_mem h) ! k = sn_addr (ss ! k)" using k h(3) by simp
  with m(1,2) sy nz(1) r show ?thesis
    by (auto simp: heap_fetch_def heap_hang_up_def update_dest_def thread_pass_def load_defs)
qed

text \<open>
  The session thread frees a session that has no destination left and forgets it, while the thread of the
  session still loops on it: the next pass follows a dangling pointer.
\<close>

lemma free_dom: "free a m = Inr m' \<Longrightarrow> dom m' \<subseteq> dom m \<and> (a = 0 \<or> m' a = None)"
  by (auto simp: free_def split: if_splits option.splits)

lemma halt_session_dom: "halt_session a m = Inr m' \<Longrightarrow> dom m' \<subseteq> dom m \<and> a \<noteq> 0"
  by (auto simp: halt_session_def bind_res_Inr load_defs split: if_splits option.splits)

lemma destroy_list_dom: "destroy_list l m = Inr m' \<Longrightarrow> dom m' \<subseteq> dom m"
  using free_dom [of l m m'] by (auto simp: destroy_list_def bind_res_Inr split: if_splits)

lemma reap_loop_dom:
  "reap_loop as m = Inr (as', m') \<Longrightarrow> dom m' \<subseteq> dom m \<and> (\<forall>a \<in> set as - set as'. a \<noteq> 0 \<and> m' a = None)"
proof (induction as arbitrary: m as' m')
  case (Cons a as)
  obtain s ds where s: "load_session m a = Inr s" "load_list m (sp_dests s) = Inr ds"
    using Cons.prems by (auto simp: bind_res_Inr)
  show ?case
  proof (cases "ds = []")
    case True
    then obtain m1 m2 m3 m4 where m: "halt_session a m = Inr m1" "destroy_list (sp_dests s) m1 = Inr m2"
      "free (sp_buffer s) m2 = Inr m3" "free a m3 = Inr m4" "reap_loop as m4 = Inr (as', m')"
      using Cons.prems s by (auto simp: bind_res_Inr)
    note d = halt_session_dom [OF m(1)] destroy_list_dom [OF m(2)] free_dom [OF m(3)] free_dom [OF m(4)]
      Cons.IH [OF m(5)]
    then have "m' a = None" by blast
    moreover have "dom m' \<subseteq> dom m" using d by (meson subset_trans)
    ultimately show ?thesis using d by auto
  next
    case False
    with Cons.prems s obtain bs where "reap_loop as m = Inr (bs, m')" "as' = a # bs"
      by (auto simp: bind_res_Inr)
    with Cons.IH [of m bs m'] show ?thesis by auto
  qed
qed simp

lemma reaped_thread_faults:
  assumes "heap_reap M = Inr M'" "a \<in> set (sess_list M) - set (sess_list M')"
  shows "thread_pass (Looping a) M' = Inl BadPointer"
proof -
  have "reap_loop (sess_list M) (blocks M) = Inr (sess_list M', blocks M')"
    using assms(1) by (auto simp: heap_reap_def bind_res_Inr)
  with assms(2) have "a \<noteq> 0 \<and> blocks M' a = None" by (blast dest: reap_loop_dom)
  then show ?thesis by (simp add: thread_pass_def load_defs)
qed

text \<open>
  A thread that gets to run before the request that started it has made the list of destinations
  (the memory of \<open>heap_place\<close> when it begins) follows a null pointer.
\<close>

lemma early_thread_faults:
  assumes "sat (blocks M) (cell a (Session_Block (fresh_session rnd b)) * (cell b (Queue_Block a) * F))"
  shows "thread_pass (Starting b) M = Inr (Some (Looping a), M)"
    and "thread_pass (Looping a) M = Inl NullPointer"
  using assms by (auto simp: thread_pass_def fresh_session_def heap_process_def load_defs split: if_splits)

section \<open>A web client opens a stream\<close>

definition start_heap :: heap_system where
  "start_heap = \<lparr>hs_sys = one_system, hs_mem = \<lparr>blocks = Map.empty, sess_list = []\<rparr>, hs_threads = [],
     hs_readers = []\<rparr>"

lemma start_heap_ok: "heap_ok start_heap"
proof (rule heap_okI [where ss = "[]" and F = 1])
  show "backed [] 1 (hs_sys start_heap) (hs_mem start_heap)"
    using sat_only_if [of Map.empty True]
    by (simp add: backed_def start_heap_def one_system_def one_server_def)
qed (simp_all add: start_heap_def one_system_ok)

lemma first_open:
  obtains h x r where
    "run_heap quiet_world (bump_allocator (\<lambda>_. True)) (Open 64 7 0 4 ''http://h/s'' True) start_heap
      = Inr (Some h)"
    "heap_allowed quiet_world (bump_allocator (\<lambda>_. True)) (Open 64 7 0 4 ''http://h/s'' True) start_heap"
    "sessions (sys_server (hs_sys h)) = [x]" "sessionID x = 4" "hs_readers h = [r]"
    "dest_lists (hs_mem h) = [[r]]"
proof -
  obtain v m d st' calls threads x where d:
    "destination_create (\<lambda>_. True) 7 ''http://h/s'' = Inr (Some d)" "dest_ready d" "v_type v = dest_http"
    and r: "new_dest (bump_allocator (\<lambda>_. True)) ''http://h/s'' Map.empty = Inr (v_addr v, m)"
    "shows_dest v d" "sat m (dest_at v * (sessions_at [] * 1))"
    "session_addNew quiet_env 64 one_server 0 4 (Some d) = Inr (4, st', calls, threads)"
    "sessions st' = [x]" "sessionID x = 4" "threads = [4, 4]" "live_views v [] = []"
    by (rule first_request)
  have "list_all2 shows_session [] (sessions one_server)" by (simp add: one_server_def)
  from heap_addNew_at [OF bump_roomy, of "\<lparr>blocks = m, sess_list = []\<rparr>" v "[]" 1, OF _ _ this r(2,4)]
  obtain M' bs s where M': "heap_addNew (bump_allocator (\<lambda>_. True)) quiet_env 64 (tuners one_server) 0 4
      (v_addr v) \<lparr>blocks = m, sess_list = []\<rparr> = Inr (4, M', bs)"
    "sess_list M' = map sn_addr [s]" "sat (blocks M') (sessions_at [s] * 1)" "sn_dests s = [v]"
    using r(3,5,7,8) by (auto simp: settled_def)
  have "destination_type d = dest_http" using d(3) r(2) by (simp add: shows_dest_def)
  then show thesis
    using that d(1,2) r M'(1) dest_lists_at [OF M'(2,3)] M'(4)
    by (simp add: start_heap_def quiet_world_def one_system_def)
qed

lemma server_memory_safe_witness:
  "\<exists>h. runs (run_heap quiet_world (bump_allocator (\<lambda>_. True)))
       (\<lambda>e h. roomy (bump_allocator (\<lambda>_. True)) \<and> heap_allowed quiet_world (bump_allocator (\<lambda>_. True)) e h)
       start_heap [Open 64 7 0 4 ''http://h/s'' True] h
     \<and> memory_typed (hs_mem h) \<and> hs_readers h \<noteq> []
     \<and> \<not> isl (run_heap quiet_world (bump_allocator (\<lambda>_. True)) (Hangs_up 0) h)"
proof -
  obtain h x r where h:
    "run_heap quiet_world (bump_allocator (\<lambda>_. True)) (Open 64 7 0 4 ''http://h/s'' True) start_heap
      = Inr (Some h)"
    "heap_allowed quiet_world (bump_allocator (\<lambda>_. True)) (Open 64 7 0 4 ''http://h/s'' True) start_heap"
    "sessions (sys_server (hs_sys h)) = [x]" "sessionID x = 4" "hs_readers h = [r]"
    "dest_lists (hs_mem h) = [[r]]"
    by (rule first_open)
  have r: "runs (run_heap quiet_world (bump_allocator (\<lambda>_. True)))
      (\<lambda>e h. roomy (bump_allocator (\<lambda>_. True)) \<and> heap_allowed quiet_world (bump_allocator (\<lambda>_. True)) e h)
      start_heap [Open 64 7 0 4 ''http://h/s'' True] h"
    by (rule runs_one) (use h(1,2) in simp_all)
  have "heap_allowed quiet_world (bump_allocator (\<lambda>_. True)) (Hangs_up 0) h" using h(5) by simp
  with server_memory_safe [OF r start_heap_ok] r h(5) show ?thesis
    by (metis bump_roomy list.distinct(1))
qed

lemma stale_pointers_fault_witness:
  "\<exists>h h'. run_heap quiet_world (bump_allocator (\<lambda>_. True)) (Open 64 7 0 4 ''http://h/s'' True) start_heap
      = Inr (Some h)
    \<and> run_heap quiet_world (bump_allocator (\<lambda>_. True)) (Ends 4) h = Inr (Some h')
    \<and> run_heap quiet_world (bump_allocator (\<lambda>_. True)) (Fetches 0 4096) h' = Inl BadPointer"
proof -
  obtain h x r where h:
    "run_heap quiet_world (bump_allocator (\<lambda>_. True)) (Open 64 7 0 4 ''http://h/s'' True) start_heap
      = Inr (Some h)"
    "heap_allowed quiet_world (bump_allocator (\<lambda>_. True)) (Open 64 7 0 4 ''http://h/s'' True) start_heap"
    "sessions (sys_server (hs_sys h)) = [x]" "sessionID x = 4" "hs_readers h = [r]"
    "dest_lists (hs_mem h) = [[r]]"
    by (rule first_open)
  have ok: "heap_ok h" using heap_machine.keeps [OF start_heap_ok _ h(1)] h(2) by simp
  have "find_index (\<lambda>x. sessionID x = 4) (sessions (sys_server (hs_sys h))) = Some 0" using h(3,4) by simp
  from stale_pointers_fault [OF ok this, of quiet_world "bump_allocator (\<lambda>_. True)" 4096 0 False] h(1,5,6)
  show ?thesis by fastforce
qed

end
