(* ===== verification/TextOutput.thy ===== *)
theory TextOutput
  imports Destination
begin

text \<open>
  The routines of \<^verbatim>\<open>src/DVB/utils.c\<close> that print: the heading, indented text and the hexadecimal dump,
  whose lines are put together in an array of 512 characters, and the conversion of Latin-1 text to
  UTF-8. What is written to the standard output is the result.
\<close>

section \<open>Headings and indented text\<close>

definition printHeading :: "string \<Rightarrow> string" where
  "printHeading appName = CRLF @ appName @ '' Starting...'' @ CRLF"

text \<open>\<open>output\<close> is what the format stands for. A negative indent is counted down past the least integer.\<close>

definition iprintf :: "int \<Rightarrow> string \<Rightarrow> string option" where
  "iprintf indent output = (if indent < 0 then None else Some (replicate (nat indent) TAB @ output))"

text \<open>
  What the section decoders report: the callback of \<^verbatim>\<open>session.c\<close> prints errors and warnings, by the
  library's two levels; the one of \<^verbatim>\<open>dvbhardware.c\<close> returns at once.
\<close>

definition session_message :: "'level \<Rightarrow> 'level \<Rightarrow> 'level \<Rightarrow> string \<Rightarrow> string" where
  "session_message err warn level msg =
     (if level = err then ''Error: '' @ msg @ [NL]
      else if level = warn then ''Warning: '' @ msg @ [NL] else [])"

definition hw_message :: "'level \<Rightarrow> string \<Rightarrow> string" where
  "hw_message level msg = []"

section \<open>hexdump\<close>

definition write_at :: "nat \<Rightarrow> string \<Rightarrow> char list \<Rightarrow> char list res" where
  "write_at k s line =
     (if k + length s \<le> length line then Inr (take k line @ s @ drop (k + length s) line) else Inl Overrun)"

definition shown :: "byte \<Rightarrow> char" where
  "shown b = (if 31 < b \<and> b < 127 then char_of (unat b) else CHR ''.'')"

fun hex_cells :: "nat \<Rightarrow> byte list \<Rightarrow> char list \<Rightarrow> char list res" where
  "hex_cells j [] line = Inr line"
| "hex_cells j (b # bs) line =
     bind_res (write_at (4 + j * 3) (hex_pad False 2 (unat b) @ [NUL]) line) (\<lambda>l.
     bind_res (write_at (4 + 48 + 1 + j) [shown b] l) (hex_cells (Suc j) bs))"

definition hexdump_line :: "nat \<Rightarrow> byte list \<Rightarrow> char list res" where
  "hexdump_line i bs =
     bind_res (write_at (4 + 48 + 1) (replicate 16 CHR '' '') (replicate 512 NUL)) (\<lambda>l.
     bind_res (write_at 0 (hex_pad False 2 i @ '': '' @ [NUL]) l) (\<lambda>l.
     bind_res (hex_cells 0 bs l) (\<lambda>l.
     write_at (4 + 48) [CHR ''|'']
       (map (\<lambda>c. if c = NUL then CHR '' '' else c) (take (4 + 48) l) @ drop (4 + 48) l))))"

text \<open>The rows from \<open>i\<close> on; \<open>buf\<close> is what is left of the buffer.\<close>

function hexdump_rows :: "nat \<Rightarrow> string \<Rightarrow> nat \<Rightarrow> byte list \<Rightarrow> string list res" where
  "hexdump_rows indent prefix i buf =
     (if buf = [] then Inr []
      else
        bind_res (hexdump_line i (take 16 buf)) (\<lambda>line.
        bind_res (hexdump_rows indent prefix (i + 16) (drop 16 buf)) (\<lambda>rows.
          Inr ((replicate indent TAB @ prefix @ cstr_of line @ ''|'' @ [NL]) # rows))))"
  by pat_completeness auto
termination
  by (relation "measure (\<lambda>(_, _, _, buf). length buf)") (auto simp: neq_Nil_conv)

declare hexdump_rows.simps [simp del]

definition hexdump :: "int \<Rightarrow> string \<Rightarrow> byte list \<Rightarrow> string list res" where
  "hexdump indent prefix buf = hexdump_rows (nat indent) prefix 0 buf"

text \<open>Every line keeps to its array: what is beyond the columns stays zero, and the text column is printable.\<close>

definition dump_line :: "char list \<Rightarrow> bool" where
  "dump_line l \<longleftrightarrow> length l = 512 \<and> (\<forall>k \<in> {53..<69}. l ! k \<noteq> NUL) \<and> (\<forall>k \<in> {69..<512}. l ! k = NUL)"

lemma write_at_Inr:
  assumes "k + length s \<le> length l"
  shows "\<exists>l'. write_at k s l = Inr l' \<and> length l' = length l
    \<and> (\<forall>i < length l. l' ! i = (if k \<le> i \<and> i < k + length s then s ! (i - k) else l ! i))"
  using assms by (auto simp: write_at_def nth_append)

lemma write_line:
  assumes "dump_line l" "k + length s \<le> 53"
  shows "\<exists>l'. write_at k s l = Inr l' \<and> dump_line l'"
  using write_at_Inr [of k s l] assms by (fastforce simp: dump_line_def)

lemma shown_not_NUL: "shown b \<noteq> NUL"
proof
  assume s: "shown b = NUL"
  then have b: "31 < b" "b < 127" and c: "(char_of (unat b) :: char) = NUL"
    by (auto simp: shown_def split: if_splits)
  have "unat b mod 256 = code_of NUL" using arg_cong [OF c, of code_of] by (simp only: of_char_of)
  moreover have "unat b < 256" using unsigned_less [of b] by simp
  moreover have "unat b \<noteq> 0" using b(1) by (auto simp: word_less_nat_alt)
  ultimately show False by simp
qed

lemma write_shown:
  assumes "dump_line l" "j < 16"
  shows "\<exists>l'. write_at (53 + j) [shown b] l = Inr l' \<and> dump_line l'"
proof -
  obtain l' where l': "write_at (53 + j) [shown b] l = Inr l'" "length l' = length l"
    "\<And>i. i < length l \<Longrightarrow> l' ! i = (if i = 53 + j then shown b else l ! i)"
    using write_at_Inr [of "53 + j" "[shown b]" l] assms by (fastforce simp: dump_line_def)
  with assms shown_not_NUL [of b] show ?thesis by (auto simp: dump_line_def)
qed

lemma length_show_hex: "n < 16 ^ Suc m \<Longrightarrow> length (show_hex u n) \<le> Suc m"
proof (induction m arbitrary: n)
  case (Suc m)
  have "n div 16 < 16 ^ Suc m" using Suc.prems by (simp add: less_mult_imp_div_less)
  from Suc.IH [OF this] show ?case by (subst show_hex.simps) simp
qed (simp add: show_hex.simps)

lemma length_hex_pad: "n < 16 ^ Suc m \<Longrightarrow> w \<le> Suc m \<Longrightarrow> length (hex_pad u w n) \<le> Suc m"
  using length_show_hex [of n m u] by (simp add: hex_pad_def Let_def)

lemma hex_cells_line:
  "dump_line l \<Longrightarrow> j + length bs \<le> 16 \<Longrightarrow> \<exists>l'. hex_cells j bs l = Inr l' \<and> dump_line l'"
proof (induction bs arbitrary: j l)
  case (Cons b bs)
  have "length (hex_pad False 2 (unat b)) \<le> 2"
    using length_hex_pad [of "unat b" 1 2] unsigned_less [of b] by (simp add: numeral_2_eq_2)
  then obtain l1 where l1: "write_at (4 + j * 3) (hex_pad False 2 (unat b) @ [NUL]) l = Inr l1" "dump_line l1"
    using write_line [OF Cons.prems(1), of "4 + j * 3" "hex_pad False 2 (unat b) @ [NUL]"] Cons.prems(2)
    by auto
  then obtain l2 where "write_at (53 + j) [shown b] l1 = Inr l2" "dump_line l2"
    using write_shown [of l1 j b] Cons.prems(2) by auto
  with l1(1) Cons.IH [of l2 "Suc j"] Cons.prems(2) show ?case by simp
qed simp

lemma hexdump_line_ok:
  assumes "i < 2 ^ 32" "length bs \<le> 16"
  shows "\<exists>l. hexdump_line i bs = Inr l \<and> length (cstr_of l) = 69"
proof -
  obtain l0 where l0: "write_at 53 (replicate 16 CHR '' '') (replicate 512 NUL) = Inr l0" "dump_line l0"
    using write_at_Inr [of 53 "replicate 16 CHR '' ''" "replicate 512 NUL"] by (force simp: dump_line_def)
  have "length (hex_pad False 2 i) \<le> 8" using length_hex_pad [of i 7 2] assms(1) by simp
  then obtain l1 where l1: "write_at 0 (hex_pad False 2 i @ '': '' @ [NUL]) l0 = Inr l1" "dump_line l1"
    using write_line [OF l0(2), of 0 "hex_pad False 2 i @ '': '' @ [NUL]"] by auto
  then obtain l2 where l2: "hex_cells 0 bs l1 = Inr l2" "dump_line l2"
    using hex_cells_line [OF l1(2), of 0 bs] assms(2) by auto
  let ?l = "map (\<lambda>c. if c = NUL then CHR '' '' else c) (take 52 l2) @ drop 52 l2"
  have len: "length l2 = 512" using l2(2) by (simp add: dump_line_def)
  then obtain l3 where l3: "write_at 52 [CHR ''|''] ?l = Inr l3" "length l3 = 512"
    "\<And>i. i < 512 \<Longrightarrow> l3 ! i = (if i = 52 then CHR ''|'' else ?l ! i)"
    using write_at_Inr [of 52 "[CHR ''|'']" ?l] by fastforce
  have "l3 ! k \<noteq> NUL" if "k < 69" for k
    using that l2(2) len l3(3) [of k] by (auto simp: nth_append dump_line_def)
  moreover have "l3 ! 69 = NUL" using l2(2) len l3(3) [of 69] by (simp add: nth_append dump_line_def)
  ultimately have "cstr_of l3 = take 69 l3"
    unfolding cstr_of_def using l3(2) by (intro takeWhile_eq_take_P_nth) simp_all
  with l0(1) l1(1) l2(1) l3(1,2) show ?thesis by (simp add: hexdump_line_def)
qed

text \<open>
  A dump never leaves its array. It prints one row for each sixteen bytes begun, all of the same
  length: the indent, the prefix, 52 columns of numbers, a bar, 16 columns of text, a bar and a new line.
\<close>

lemma hexdump_rows_ok:
  "i + length buf < 2 ^ 32 \<Longrightarrow> \<exists>rows. hexdump_rows indent prefix i buf = Inr rows
    \<and> length rows = (length buf + 15) div 16
    \<and> (\<forall>r \<in> set rows. length r = indent + length prefix + 71)"
proof (induction indent prefix i buf rule: hexdump_rows.induct)
  case (1 indent prefix i buf)
  show ?case
  proof (cases "buf = []")
    case False
    obtain l where l: "hexdump_line i (take 16 buf) = Inr l" "length (cstr_of l) = 69"
      using hexdump_line_ok [of i "take 16 buf"] "1.prems" by auto
    obtain rows where rows: "hexdump_rows indent prefix (i + 16) (drop 16 buf) = Inr rows"
      "length rows = (length (drop 16 buf) + 15) div 16"
      "\<forall>r \<in> set rows. length r = indent + length prefix + 71"
    proof (cases "length buf \<le> 16")
      case True
      then show thesis using that [of "[]"] by (simp add: hexdump_rows.simps)
    next
      case False
      with "1.IH" [OF \<open>buf \<noteq> []\<close>] "1.prems" that show thesis by auto
    qed
    have "Suc ((length (drop 16 buf) + 15) div 16) = (length buf + 15) div 16"
      using False by (cases "length buf \<le> 16") (auto simp: le_div_geq neq_Nil_conv)
    with False l rows show ?thesis by (subst hexdump_rows.simps) auto
  qed (simp add: hexdump_rows.simps)
qed

lemma hexdump_ok:
  assumes "length buf < 2 ^ 31"
  shows "\<exists>rows. hexdump indent prefix buf = Inr rows \<and> length rows = (length buf + 15) div 16
    \<and> (\<forall>r \<in> set rows. length r = nat indent + length prefix + 71)"
  using hexdump_rows_ok [of 0 buf "nat indent" prefix] assms by (simp add: hexdump_def)

section \<open>Latin-1 to UTF-8\<close>

text \<open>
  \<^verbatim>\<open>iconv\<close> from ISO 8859-1: one byte or two. \<open>convert_to_UTF8\<close> gives the bytes it wrote and how many of the
  array, which has four bytes for each of the input, nothing has written.
\<close>

definition utf8_of :: "byte \<Rightarrow> byte list" where
  "utf8_of b = (if b < 128 then [b] else [192 OR drop_bit 6 b, 128 OR (b AND 63)])"

fun iconv_latin1 :: "byte list \<Rightarrow> nat \<Rightarrow> byte list" where
  "iconv_latin1 [] dstlen = []"
| "iconv_latin1 (b # bs) dstlen =
     (if dstlen < length (utf8_of b) then []
      else utf8_of b @ iconv_latin1 bs (dstlen - length (utf8_of b)))"

definition convert_to_UTF8 :: "(nat \<Rightarrow> bool) \<Rightarrow> byte list \<Rightarrow> (byte list \<times> nat) res" where
  "convert_to_UTF8 mem s =
     (if s \<noteq> [] \<and> \<not> mem (length s * 4) then Inl NullPointer
      else let out = iconv_latin1 s (length s * 4) in Inr (out, length s * 4 - length out))"

fun latin1_of :: "byte list \<Rightarrow> byte list" where
  "latin1_of [] = []"
| "latin1_of [b] = [b]"
| "latin1_of (b # c # bs) =
     (if b < 128 then b # latin1_of (c # bs) else (push_bit 6 (b AND 3) OR (c AND 63)) # latin1_of bs)"

lemma iconv_whole: "2 * length s \<le> n \<Longrightarrow> iconv_latin1 s n = concat (map utf8_of s)"
  by (induction s arbitrary: n) (auto simp: utf8_of_def)

lemma utf8_bytes:
  "128 \<le> (192 OR drop_bit 6 b :: byte) \<and> push_bit 6 ((192 OR drop_bit 6 b) AND 3) OR ((128 OR (b AND 63)) AND 63) = b"
proof -
  have "list_all (\<lambda>b :: byte. 128 \<le> (192 OR drop_bit 6 b) \<and>
      push_bit 6 ((192 OR drop_bit 6 b) AND 3) OR ((128 OR (b AND 63)) AND 63) = b) (map word_of_nat [0..<256])"
    by code_simp
  moreover have "b = word_of_nat (unat b)" "unat b < 256" using unsigned_less [of b] by simp_all
  then have "b \<in> set (map word_of_nat [0..<256])" by (metis atLeastLessThan_iff image_eqI le0 set_map set_upt)
  ultimately show ?thesis by (simp only: list_all_iff)
qed

lemma latin1_of_step: "latin1_of (utf8_of b @ bs) = b # latin1_of bs"
proof (cases "b < 128")
  case True
  then show ?thesis by (cases bs) (simp_all add: utf8_of_def)
next
  case False
  with utf8_bytes [of b] show ?thesis by (simp add: utf8_of_def not_le [symmetric])
qed

text \<open>The whole text fits, and reading it back gives the input.\<close>

lemma convert_to_UTF8_ok:
  assumes "\<And>n. mem n"
  shows "\<exists>out rest. convert_to_UTF8 mem s = Inr (out, rest) \<and> latin1_of out = s
    \<and> length out + rest = 4 * length s"
proof -
  have "length (concat (map utf8_of s)) \<le> 2 * length s"
    by (induction s) (auto simp: utf8_of_def)
  moreover have "latin1_of (concat (map utf8_of s)) = s"
    by (induction s) (simp_all add: latin1_of_step)
  ultimately show ?thesis using assms by (simp add: convert_to_UTF8_def iconv_whole Let_def)
qed

end
