(* ===== verification/LinkedList.thy ===== *)
theory LinkedList
  imports Prelude
begin

text \<open>
  The doubly linked list of \<^verbatim>\<open>src/DVB/linkedlist.c\<close> over an explicit heap of nodes, with
  its iterators. Pointers are numbers, 0 is \<^verbatim>\<open>NULL\<close>, and following a pointer that is not
  in the heap is a fault. Each operation is the \<^verbatim>\<open>_internal\<close> function; the exported wrapper
  takes the list's mutex around it. The result of \<^verbatim>\<open>malloc\<close> is an argument.

  \<open>dll\<close> states that a heap holds a list; the lemmas show that every operation follows no
  bad pointer on such a heap and acts on the sequence of data pointers as append, insert,
  traversal and removal do. The locale \<open>cursor_list\<close> states what a client of the iterator
  may rely on, and proves the removal loop of the clients against it.
\<close>

named_theorems dll_simps "unfolding rules for list segments"

section \<open>State\<close>

type_synonym addr = nat

record linked_node =
  nnext :: addr
  nprev :: addr
  ndata :: addr

type_synonym heap = "addr \<rightharpoonup> linked_node"

record linked_list =
  ll_count :: int
  ll_cmp :: "(addr \<Rightarrow> addr \<Rightarrow> int) option"
  headerPtr :: addr
  footerPtr :: addr
  ll_item :: addr

record linked_iterator =
  it_next :: addr
  it_prev :: addr
  it_current :: addr

definition linkedList_create :: "(addr \<Rightarrow> addr \<Rightarrow> int) option \<Rightarrow> linked_list" where
  "linkedList_create compareFunc =
     \<lparr>ll_count = 0, ll_cmp = compareFunc, headerPtr = 0, footerPtr = 0, ll_item = 0\<rparr>"

text \<open>Reading the node a pointer points to.\<close>

definition deref :: "heap \<Rightarrow> addr \<Rightarrow> linked_node res" where
  "deref h p =
     (if p = 0 then Inl NullPointer
      else case h p of None \<Rightarrow> Inl BadPointer | Some n \<Rightarrow> Inr n)"

definition update_node :: "heap \<Rightarrow> addr \<Rightarrow> (linked_node \<Rightarrow> linked_node) \<Rightarrow> heap res" where
  "update_node h p f = bind_res (deref h p) (\<lambda>n. Inr (h(p \<mapsto> f n)))"

section \<open>Operations\<close>

text \<open>Returns the iterator and the data of the first node (0 when the list is empty).\<close>

definition linkedList_create_iterator_internal ::
  "heap \<Rightarrow> linked_list \<Rightarrow> (linked_iterator \<times> addr) res" where
  "linkedList_create_iterator_internal h l =
     (if headerPtr l \<noteq> 0 then
        bind_res (deref h (headerPtr l)) (\<lambda>item.
          Inr (\<lparr>it_next = nnext item, it_prev = 0, it_current = headerPtr l\<rparr>, ndata item))
      else Inr (\<lparr>it_next = 0, it_prev = 0, it_current = headerPtr l\<rparr>, 0))"

definition linkedList_iterate ::
  "heap \<Rightarrow> linked_iterator \<Rightarrow> (linked_iterator \<times> addr) res" where
  "linkedList_iterate h itr =
     (if it_next itr = 0 then Inr (itr, 0)
      else bind_res (deref h (it_next itr)) (\<lambda>nx.
             Inr (\<lparr>it_next = nnext nx, it_prev = nprev nx, it_current = it_next itr\<rparr>,
                  ndata nx)))"

text \<open>
  Unlinks and frees the node the iterator stands on. The statements follow the order of
  the code; \<open>h1\<close> to \<open>h4\<close> are the heap after each group of writes.
\<close>

definition linkedList_iterator_remove_internal ::
  "heap \<Rightarrow> linked_list \<Rightarrow> linked_iterator
   \<Rightarrow> (heap \<times> linked_list \<times> linked_iterator \<times> addr) res" where
  "linkedList_iterator_remove_internal h l itr =
     (if it_current itr = 0 then Inr (h, l, itr, 0)
      else
        let current = it_current itr; prv = it_prev itr; nxt = it_next itr in
        bind_res (if nxt \<noteq> 0 then bind_res (deref h nxt) (\<lambda>n. Inr (nnext n)) else Inr 0) (\<lambda>inext.
        bind_res (deref h current) (\<lambda>cur.
        let icurrent = nnext cur; iprev = prv in
        \<comment> \<open>the node is the first one\<close>
        bind_res (if current = headerPtr l \<and> nnext cur \<noteq> 0
                  then update_node h nxt (nprev_update (\<lambda>_. 0)) else Inr h) (\<lambda>h1.
        let l1 = (if current = headerPtr l then l\<lparr>headerPtr := nnext cur\<rparr> else l);
            iprev = (if current = headerPtr l then 0 else iprev) in
        \<comment> \<open>the node is the last one\<close>
        bind_res (deref h1 current) (\<lambda>cur1.
        bind_res (if current = footerPtr l1 \<and> nprev cur1 \<noteq> 0
                  then update_node h1 prv (nnext_update (\<lambda>_. 0)) else Inr h1) (\<lambda>h2.
        let l2 = (if current = footerPtr l1 then l1\<lparr>footerPtr := nprev cur1\<rparr> else l1);
            inext = (if current = footerPtr l1 then 0 else inext);
            h3 = h2(current := None);
            l3 = l2\<lparr>ll_count := ll_count l2 - 1\<rparr> in
        if headerPtr l3 = 0 \<and> footerPtr l3 = 0
        then Inr (h3, l3, \<lparr>it_next = inext, it_prev = iprev, it_current = icurrent\<rparr>, 0)
        else
          bind_res (if nxt \<noteq> 0 \<and> prv \<noteq> 0
                    then bind_res (update_node h3 nxt (nprev_update (\<lambda>_. prv)))
                           (\<lambda>h'. update_node h' prv (nnext_update (\<lambda>_. nxt)))
                    else Inr h3) (\<lambda>h4.
          let iprev = (if icurrent = 0 then 0 else iprev);
              itr' = \<lparr>it_next = inext, it_prev = iprev, it_current = icurrent\<rparr> in
          if nxt \<noteq> 0 then bind_res (deref h4 nxt) (\<lambda>n. Inr (h4, l3, itr', ndata n))
          else Inr (h4, l3, itr', 0))))))))"

text \<open>
  The loop of \<^verbatim>\<open>linkedList_scan_internal\<close> and \<^verbatim>\<open>linkedList_find_internal\<close>: \<open>None\<close> is a
  loop that does not end (a cyclic list). It returns the last result of the comparison and
  the data it was given.
\<close>

partial_function (option) scan_loop ::
  "heap \<Rightarrow> (addr \<Rightarrow> addr \<Rightarrow> int) \<Rightarrow> addr \<Rightarrow> linked_iterator \<Rightarrow> addr \<Rightarrow> int
   \<Rightarrow> ((int \<times> addr) res) option" where
  "scan_loop h cmp inData itr retData cmpRet =
     (if retData = 0 then Some (Inr (cmpRet, 0))
      else if cmp retData inData = 0 then Some (Inr (0, retData))
      else case linkedList_iterate h itr of
             Inl e \<Rightarrow> Some (Inl e)
           | Inr (itr', d) \<Rightarrow> scan_loop h cmp inData itr' d (cmp retData inData))"

definition linkedList_scan_internal ::
  "heap \<Rightarrow> linked_list \<Rightarrow> addr \<Rightarrow> (int res) option" where
  "linkedList_scan_internal h l inData =
     (case ll_cmp l of
        None \<Rightarrow> Some (Inr (-1))
      | Some cmp \<Rightarrow>
          (case linkedList_create_iterator_internal h l of
             Inl e \<Rightarrow> Some (Inl e)
           | Inr (itr, d) \<Rightarrow> map_option (map_sum id fst) (scan_loop h cmp inData itr d (-1))))"

definition linkedList_find_internal ::
  "heap \<Rightarrow> linked_list \<Rightarrow> addr \<Rightarrow> (addr res) option" where
  "linkedList_find_internal h l inData =
     (case ll_cmp l of
        None \<Rightarrow> Some (Inr 0)
      | Some cmp \<Rightarrow>
          (case linkedList_create_iterator_internal h l of
             Inl e \<Rightarrow> Some (Inl e)
           | Inr (itr, d) \<Rightarrow>
               map_option (map_sum id (\<lambda>(cmpRet, retData). if cmpRet = 0 then retData else 0))
                 (scan_loop h cmp inData itr d (-1))))"

text \<open>
  \<^verbatim>\<open>linkedList_append_internal\<close> and \<^verbatim>\<open>linkedList_insert_internal\<close>: \<open>p\<close> is what
  \<^verbatim>\<open>malloc\<close> returned, 0 when it failed. The duplicate check runs only on a list that has a
  first and a last node.
\<close>

definition dup_check :: "heap \<Rightarrow> linked_list \<Rightarrow> addr \<Rightarrow> (bool res) option" where
  "dup_check h l item =
     (if headerPtr l \<noteq> 0 \<and> footerPtr l \<noteq> 0
      then map_option (map_sum id (\<lambda>rc. rc = 0)) (linkedList_scan_internal h l item)
      else Some (Inr False))"

definition linkedList_append_internal ::
  "addr \<Rightarrow> heap \<Rightarrow> linked_list \<Rightarrow> addr \<Rightarrow> ((heap \<times> linked_list \<times> int) res) option" where
  "linkedList_append_internal p h l item =
     map_option (\<lambda>r. bind_res r (\<lambda>dup.
       if dup then Inr (h, l, -1)
       else if p = 0 then Inr (h, l, -1)
       else
         let h1 = h(p \<mapsto> \<lparr>nnext = 0, nprev = footerPtr l, ndata = item\<rparr>) in
         if headerPtr l = 0
         then Inr (h1, l\<lparr>ll_item := p, headerPtr := p, footerPtr := p,
                         ll_count := ll_count l + 1\<rparr>, 1)
         else bind_res (update_node h1 (footerPtr l) (nnext_update (\<lambda>_. p))) (\<lambda>h2.
                Inr (h2, l\<lparr>footerPtr := p, ll_count := ll_count l + 1\<rparr>, 1))))
       (dup_check h l item)"

definition linkedList_insert_internal ::
  "addr \<Rightarrow> heap \<Rightarrow> linked_list \<Rightarrow> addr \<Rightarrow> ((heap \<times> linked_list \<times> int) res) option" where
  "linkedList_insert_internal p h l item =
     map_option (\<lambda>r. bind_res r (\<lambda>dup.
       if dup then Inr (h, l, -1)
       else if p = 0 then Inr (h, l, -1)
       else
         let h1 = h(p \<mapsto> \<lparr>nnext = headerPtr l, nprev = 0, ndata = item\<rparr>) in
         if headerPtr l = 0
         then Inr (h1, l\<lparr>ll_item := p, headerPtr := p, footerPtr := p,
                         ll_count := ll_count l + 1\<rparr>, 1)
         else bind_res (update_node h1 (headerPtr l) (nprev_update (\<lambda>_. p))) (\<lambda>h2.
                Inr (h2, l\<lparr>headerPtr := p, ll_count := ll_count l + 1\<rparr>, 1))))
       (dup_check h l item)"

text \<open>
  The removal loop every client of the iterator is written as: remove the node the cursor
  stands on when its data is to go, step on otherwise. \<open>cstep\<close> and \<open>cremove\<close> are the
  iterator's operations on the state \<open>s\<close>.
\<close>

partial_function (option) purge_loop ::
  "('s \<Rightarrow> 'it \<Rightarrow> ('it \<times> 'd) res) \<Rightarrow> ('s \<Rightarrow> 'it \<Rightarrow> ('s \<times> 'it \<times> 'd) res) \<Rightarrow> 'd
   \<Rightarrow> ('d \<Rightarrow> bool) \<Rightarrow> 's \<Rightarrow> 'it \<Rightarrow> 'd \<Rightarrow> ('s res) option" where
  "purge_loop cstep cremove null hit s itr d =
     (if d = null then Some (Inr s)
      else if hit d
      then (case cremove s itr of
              Inl e \<Rightarrow> Some (Inl e)
            | Inr (s', itr', d') \<Rightarrow> purge_loop cstep cremove null hit s' itr' d')
      else (case cstep s itr of
              Inl e \<Rightarrow> Some (Inl e)
            | Inr (itr', d') \<Rightarrow> purge_loop cstep cremove null hit s itr' d'))"

text \<open>
  The same loop with a body that works on a state \<open>m\<close> of its own, may fail, and says whether the node
  is kept or dropped and whether the loop is left after it; and what it stands for on a plain list.
\<close>

datatype verdict = Keep | Drop | Keep_Last | Drop_Last

partial_function (option) walk_loop ::
  "('s \<Rightarrow> 'it \<Rightarrow> ('it \<times> 'd) res) \<Rightarrow> ('s \<Rightarrow> 'it \<Rightarrow> ('s \<times> 'it \<times> 'd) res) \<Rightarrow> 'd
   \<Rightarrow> ('d \<Rightarrow> 'm \<Rightarrow> (verdict \<times> 'm) res) \<Rightarrow> 's \<Rightarrow> 'it \<Rightarrow> 'd \<Rightarrow> 'm \<Rightarrow> (('s \<times> 'm) res) option" where
  "walk_loop cstep cremove null body s itr d m =
     (if d = null then Some (Inr (s, m))
      else case body d m of
             Inl e \<Rightarrow> Some (Inl e)
           | Inr (v, m') \<Rightarrow>
               if v = Keep_Last then Some (Inr (s, m'))
               else if v = Keep
               then (case cstep s itr of
                       Inl e \<Rightarrow> Some (Inl e)
                     | Inr (itr', d') \<Rightarrow> walk_loop cstep cremove null body s itr' d' m')
               else (case cremove s itr of
                       Inl e \<Rightarrow> Some (Inl e)
                     | Inr (s', itr', d') \<Rightarrow>
                         if v = Drop_Last then Some (Inr (s', m'))
                         else walk_loop cstep cremove null body s' itr' d' m'))"

fun walk_list :: "('d \<Rightarrow> 'm \<Rightarrow> (verdict \<times> 'm) res) \<Rightarrow> 'd list \<Rightarrow> 'm \<Rightarrow> ('d list \<times> 'm) res" where
  "walk_list body [] m = Inr ([], m)"
| "walk_list body (d # ds) m =
     bind_res (body d m) (\<lambda>(v, m').
       case v of
         Keep \<Rightarrow> bind_res (walk_list body ds m') (\<lambda>(ds', m''). Inr (d # ds', m''))
       | Drop \<Rightarrow> walk_list body ds m'
       | Keep_Last \<Rightarrow> Inr (d # ds, m')
       | Drop_Last \<Rightarrow> Inr (ds, m'))"

text \<open>The iterator's operations on a heap together with its list.\<close>

definition ll_start :: "heap \<times> linked_list \<Rightarrow> (linked_iterator \<times> addr) res" where
  "ll_start s = linkedList_create_iterator_internal (fst s) (snd s)"

definition ll_step :: "heap \<times> linked_list \<Rightarrow> linked_iterator \<Rightarrow> (linked_iterator \<times> addr) res" where
  "ll_step s itr = linkedList_iterate (fst s) itr"

definition ll_remove ::
  "heap \<times> linked_list \<Rightarrow> linked_iterator \<Rightarrow> ((heap \<times> linked_list) \<times> linked_iterator \<times> addr) res" where
  "ll_remove s itr =
     bind_res (linkedList_iterator_remove_internal (fst s) (snd s) itr)
       (\<lambda>(h', l', itr', d). Inr ((h', l'), itr', d))"

text \<open>
  \<^verbatim>\<open>linkedList_remove_internal\<close> removes every node the comparison accepts; the wrapper
  \<^verbatim>\<open>linkedList_remove\<close> turns a null result into 0.
\<close>

definition linkedList_remove_internal ::
  "heap \<Rightarrow> linked_list \<Rightarrow> addr \<Rightarrow> ((heap \<times> linked_list \<times> addr) res) option" where
  "linkedList_remove_internal h l inData =
     (case ll_cmp l of
        None \<Rightarrow> Some (Inr (h, l, 0))
      | Some cmp \<Rightarrow>
          (case ll_start (h, l) of
             Inl e \<Rightarrow> Some (Inl e)
           | Inr (itr, d) \<Rightarrow>
               map_option (map_sum id (\<lambda>(h', l'). (h', l', 0)))
                 (purge_loop ll_step ll_remove 0 (\<lambda>retData. cmp retData inData = 0) (h, l) itr d)))"

definition linkedList_remove ::
  "heap \<Rightarrow> linked_list \<Rightarrow> addr \<Rightarrow> ((heap \<times> linked_list \<times> int) res) option" where
  "linkedList_remove h l item =
     map_option (map_sum id (\<lambda>(h', l', rc). (h', l', if rc = 0 then 0 else 1)))
       (linkedList_remove_internal h l item)"

text \<open>
  \<^verbatim>\<open>linkedList_destroy\<close> frees the list only when it is empty; otherwise it prints a
  warning and leaves it.
\<close>

definition linkedList_destroy :: "linked_list \<Rightarrow> linked_list option" where
  "linkedList_destroy l = (if ll_count l \<noteq> 0 then Some l else None)"

definition linkedList_item_count :: "linked_list \<Rightarrow> int" where
  "linkedList_item_count l = ll_count l"

section \<open>Lists in the heap\<close>

text \<open>
  A segment is a list of nodes with their data; \<open>dseg h pv xs nx\<close> says that the heap
  holds the nodes of \<open>xs\<close>, linked in both directions, between the node \<open>pv\<close> and the
  node \<open>nx\<close>.
\<close>

type_synonym cells = "(addr \<times> addr) list"

fun first_ptr :: "cells \<Rightarrow> addr \<Rightarrow> addr" where
  "first_ptr [] nx = nx"
| "first_ptr ((p, d) # xs) nx = p"

fun last_ptr :: "addr \<Rightarrow> cells \<Rightarrow> addr" where
  "last_ptr pv [] = pv"
| "last_ptr pv ((p, d) # xs) = last_ptr p xs"

fun dseg :: "heap \<Rightarrow> addr \<Rightarrow> cells \<Rightarrow> addr \<Rightarrow> bool" where
  "dseg h pv [] nx \<longleftrightarrow> True"
| "dseg h pv ((p, d) # xs) nx \<longleftrightarrow>
     h p = Some \<lparr>nnext = first_ptr xs nx, nprev = pv, ndata = d\<rparr> \<and> dseg h p xs nx"

text \<open>The list \<open>l\<close> holds the cells \<open>xs\<close> in the heap \<open>h\<close>.\<close>

definition dll :: "heap \<Rightarrow> linked_list \<Rightarrow> cells \<Rightarrow> bool" where
  "dll h l xs \<longleftrightarrow>
     dseg h 0 xs 0 \<and> distinct (map fst xs) \<and> 0 \<notin> fst ` set xs \<and>
     headerPtr l = first_ptr xs 0 \<and> footerPtr l = last_ptr 0 xs \<and>
     ll_count l = int (length xs)"

text \<open>The cursor has passed \<open>xs\<close> and stands on the first node of \<open>ys\<close>.\<close>

definition cursor_at :: "heap \<Rightarrow> linked_list \<Rightarrow> linked_iterator \<Rightarrow> cells \<Rightarrow> cells \<Rightarrow> bool" where
  "cursor_at h l itr xs ys \<longleftrightarrow>
     dll h l (xs @ ys) \<and> ys \<noteq> [] \<and> it_current itr = first_ptr ys 0 \<and>
     it_next itr = first_ptr (tl ys) 0 \<and> it_prev itr = last_ptr 0 xs"

lemma first_ptr_append [simp]: "first_ptr (xs @ ys) nx = first_ptr xs (first_ptr ys nx)"
  by (induction xs) auto

lemma last_ptr_append [simp]: "last_ptr pv (xs @ ys) = last_ptr (last_ptr pv xs) ys"
  by (induction pv xs rule: last_ptr.induct) auto

lemma dseg_append [simp]:
  "dseg h pv (xs @ ys) nx \<longleftrightarrow> dseg h pv xs (first_ptr ys nx) \<and> dseg h (last_ptr pv xs) ys nx"
  by (induction xs arbitrary: pv) auto

lemma dseg_upd [simp]: "p \<notin> fst ` set xs \<Longrightarrow> dseg (h(p := v)) pv xs nx = dseg h pv xs nx"
  by (induction xs arbitrary: pv) auto

lemma dseg_dom: "dseg h pv xs nx \<Longrightarrow> fst ` set xs \<subseteq> dom h"
proof (induction xs arbitrary: pv)
  case (Cons x xs)
  obtain p d where x: "x = (p, d)" by (cases x)
  with Cons.prems have "fst ` set xs \<subseteq> dom h" and "p \<in> dom h"
    using Cons.IH [of p] by auto
  with x show ?case by simp
qed simp

lemma first_ptr_neq: "q \<noteq> p \<Longrightarrow> p \<notin> fst ` set xs \<Longrightarrow> first_ptr xs q \<noteq> p"
  by (cases xs) auto

lemma last_ptr_neq: "q \<noteq> p \<Longrightarrow> p \<notin> fst ` set xs \<Longrightarrow> last_ptr q xs \<noteq> p"
  by (induction q xs rule: last_ptr.induct) auto

lemma first_ptr_nz [simp]:
  "0 \<notin> fst ` set xs \<Longrightarrow> first_ptr xs nx = 0 \<longleftrightarrow> xs = [] \<and> nx = 0"
  by (cases xs) force+

lemma last_ptr_nz [simp]:
  "0 \<notin> fst ` set xs \<Longrightarrow> last_ptr pv xs = 0 \<longleftrightarrow> xs = [] \<and> pv = 0"
  by (induction xs arbitrary: pv) force+

lemma deref_Some [simp]: "p \<noteq> 0 \<Longrightarrow> h p = Some n \<Longrightarrow> deref h p = Inr n"
  by (simp add: deref_def)

lemma update_node_Some [simp]:
  "p \<noteq> 0 \<Longrightarrow> h p = Some n \<Longrightarrow> update_node h p f = Inr (h(p \<mapsto> f n))"
  by (simp add: update_node_def)

section \<open>Creation, append and insert\<close>

lemma dll_create: "dll Map.empty (linkedList_create c) []"
  by (simp add: dll_def linkedList_create_def)

lemma dup_check_no_cmp [simp]: "ll_cmp l = None \<Longrightarrow> dup_check h l item = Some (Inr False)"
  by (simp add: dup_check_def linkedList_scan_internal_def)

lemma append_writes:
  assumes "dll h l xs" and p: "p \<noteq> 0" "p \<notin> dom h" and chk: "dup_check h l item = Some (Inr False)"
  shows "\<exists>h' l'. linkedList_append_internal p h l item = Some (Inr (h', l', 1)) \<and>
                 dll h' l' (xs @ [(p, item)])"
proof (cases xs rule: rev_cases)
  case Nil
  with assms show ?thesis
    by (auto simp: linkedList_append_internal_def dll_def)
next
  case (snoc xs' y)
  obtain q d where y: "y = (q, d)" by (cases y)
  have "p \<notin> fst ` set xs"
    using assms(1) p dseg_dom [of h 0 xs 0] by (auto simp: dll_def)
  with assms snoc y show ?thesis
    by (auto simp: linkedList_append_internal_def dll_def Let_def)
qed

lemma insert_writes:
  assumes "dll h l xs" and p: "p \<noteq> 0" "p \<notin> dom h" and chk: "dup_check h l item = Some (Inr False)"
  shows "\<exists>h' l'. linkedList_insert_internal p h l item = Some (Inr (h', l', 1)) \<and>
                 dll h' l' ((p, item) # xs)"
proof -
  have fresh: "p \<notin> fst ` set xs"
    using assms(1) p dseg_dom [of h 0 xs 0] by (auto simp: dll_def)
  show ?thesis
  proof (cases xs)
    case Nil
    with assms show ?thesis
      by (auto simp: linkedList_insert_internal_def dll_def)
  next
    case (Cons y ys)
    obtain q d where y: "y = (q, d)" by (cases y)
    with assms Cons fresh show ?thesis
      by (auto simp: linkedList_insert_internal_def dll_def Let_def)
  qed
qed

section \<open>The iterator\<close>

lemma create_iterator_cursor:
  assumes "dll h l xs"
  shows "\<exists>itr. linkedList_create_iterator_internal h l = Inr (itr, (if xs = [] then 0 else snd (hd xs))) \<and>
               (xs \<noteq> [] \<longrightarrow> cursor_at h l itr [] xs)"
proof (cases xs)
  case Nil
  with assms show ?thesis by (simp add: linkedList_create_iterator_internal_def dll_def)
next
  case (Cons y ys)
  obtain q d where "y = (q, d)" by (cases y)
  with assms Cons show ?thesis
    by (auto simp: linkedList_create_iterator_internal_def dll_def cursor_at_def)
qed

lemma iterate_cursor:
  assumes "cursor_at h l itr xs (y # ys)"
  shows "\<exists>itr'. linkedList_iterate h itr = Inr (itr', (if ys = [] then 0 else snd (hd ys))) \<and>
                (ys \<noteq> [] \<longrightarrow> cursor_at h l itr' (xs @ [y]) ys)"
proof (cases ys)
  case Nil
  with assms show ?thesis by (simp add: linkedList_iterate_def cursor_at_def)
next
  case (Cons z zs)
  obtain p c q d where "y = (p, c)" "z = (q, d)" by (cases y, cases z)
  with assms Cons show ?thesis
    by (auto simp: linkedList_iterate_def dll_def cursor_at_def)
qed

text \<open>
  Removal splits on whether the node has a predecessor (\<open>xs\<close> is a list with a last
  element) and a successor: the four ways the code unlinks it.
\<close>

lemma remove_cursor:
  assumes "cursor_at h l itr xs (y # ys)"
  shows "\<exists>h' l' itr'.
    linkedList_iterator_remove_internal h l itr =
      Inr (h', l', itr', (if ys = [] then 0 else snd (hd ys))) \<and>
    dll h' l' (xs @ ys) \<and> (ys \<noteq> [] \<longrightarrow> cursor_at h' l' itr' xs ys) \<and>
    (ys = [] \<longrightarrow> it_current itr' = 0 \<and> it_next itr' = 0)"
proof -
  obtain p c where y: "y = (p, c)" by (cases y)
  consider (only) "xs = []" "ys = []"
    | (first) q d zs where "xs = []" "ys = (q, d) # zs"
    | (last) ws o' e where "xs = ws @ [(o', e)]" "ys = []"
    | (middle) ws o' e q d zs where "xs = ws @ [(o', e)]" "ys = (q, d) # zs"
    by (metis list.exhaust rev_exhaust surj_pair)
  then show ?thesis
  proof cases
    case only
    with assms y show ?thesis
      by (auto simp: linkedList_iterator_remove_internal_def dll_def cursor_at_def Let_def)
  next
    case first
    then have ne: "last_ptr q zs \<noteq> p"
      using assms y by (intro last_ptr_neq) (auto simp: cursor_at_def dll_def)
    with first assms y show ?thesis
      by (auto simp: linkedList_iterator_remove_internal_def dll_def cursor_at_def Let_def)
  next
    case last
    then have ne: "first_ptr ws o' \<noteq> p"
      using assms y by (intro first_ptr_neq) (auto simp: cursor_at_def dll_def)
    with last assms y show ?thesis
      by (auto simp: linkedList_iterator_remove_internal_def dll_def cursor_at_def Let_def)
  next
    case middle
    then have ne: "last_ptr q zs \<noteq> p"
      using assms y by (intro last_ptr_neq) (auto simp: cursor_at_def dll_def)
    have ne': "first_ptr ws o' \<noteq> p"
      using middle assms y by (intro first_ptr_neq) (auto simp: cursor_at_def dll_def)
    have "first_ptr ws o' \<noteq> 0"
      using middle assms y by (intro first_ptr_neq) (auto simp: cursor_at_def dll_def)
    with ne ne' middle assms y show ?thesis
      by (auto simp: linkedList_iterator_remove_internal_def dll_def cursor_at_def Let_def)
  qed
qed

section \<open>The interface the clients use\<close>

text \<open>
  What a client of the iterator relies on. \<open>holds s xs\<close> says that the state holds the data
  \<open>xs\<close>; \<open>at s it xs ys\<close> that the cursor has passed \<open>xs\<close> and stands on the head of \<open>ys\<close>.
\<close>

locale cursor_list =
  fixes null :: 'd
    and holds :: "'s \<Rightarrow> 'd list \<Rightarrow> bool"
    and at :: "'s \<Rightarrow> 'it \<Rightarrow> 'd list \<Rightarrow> 'd list \<Rightarrow> bool"
    and cstart :: "'s \<Rightarrow> ('it \<times> 'd) res"
    and cstep :: "'s \<Rightarrow> 'it \<Rightarrow> ('it \<times> 'd) res"
    and cremove :: "'s \<Rightarrow> 'it \<Rightarrow> ('s \<times> 'it \<times> 'd) res"
  assumes holds_data: "holds s xs \<Longrightarrow> null \<notin> set xs"
    and at_holds: "at s it xs ys \<Longrightarrow> holds s (xs @ ys)"
    and start_at: "holds s xs \<Longrightarrow>
      \<exists>it. cstart s = Inr (it, hd (xs @ [null])) \<and> (xs \<noteq> [] \<longrightarrow> at s it [] xs)"
    and step_at: "at s it xs (y # ys) \<Longrightarrow>
      \<exists>it'. cstep s it = Inr (it', hd (ys @ [null])) \<and> (ys \<noteq> [] \<longrightarrow> at s it' (xs @ [y]) ys)"
    and remove_at: "at s it xs (y # ys) \<Longrightarrow>
      \<exists>s' it'. cremove s it = Inr (s', it', hd (ys @ [null])) \<and> holds s' (xs @ ys) \<and>
               (ys \<noteq> [] \<longrightarrow> at s' it' xs ys)"
begin

text \<open>
  Every client loop that removes some of the nodes terminates without a fault and leaves
  the other nodes, in their order.
\<close>

lemma purge_null: "purge_loop cstep cremove null hit s it null = Some (Inr s)"
  by (simp add: purge_loop.simps)

lemma purge_from:
  "at s it xs (y # ys) \<Longrightarrow>
   \<exists>s'. purge_loop cstep cremove null hit s it y = Some (Inr s') \<and>
        holds s' (xs @ filter (\<lambda>d. \<not> hit d) (y # ys))"
proof (induction ys arbitrary: s it xs y)
  case Nil
  have "y \<noteq> null" using holds_data [OF at_holds [OF Nil]] by auto
  then show ?case
    using step_at [OF Nil] remove_at [OF Nil] at_holds [OF Nil]
    by (auto simp: purge_loop.simps [of _ _ _ _ s it y] purge_null)
next
  case (Cons z ys)
  have y: "y \<noteq> null" using holds_data [OF at_holds [OF Cons.prems]] by auto
  show ?case
  proof (cases "hit y")
    case True
    obtain s' it' where "cremove s it = Inr (s', it', z)" "at s' it' xs (z # ys)"
      using remove_at [OF Cons.prems] by auto
    with Cons.IH [of s' it' xs z] True y show ?thesis
      by (simp add: purge_loop.simps [of _ _ _ _ s it y])
  next
    case False
    obtain it' where "cstep s it = Inr (it', z)" "at s it' (xs @ [y]) (z # ys)"
      using step_at [OF Cons.prems] by auto
    with Cons.IH [of s it' "xs @ [y]" z] False y show ?thesis
      by (simp add: purge_loop.simps [of _ _ _ _ s it y])
  qed
qed

lemma purge_filter:
  assumes "holds s xs"
  shows "\<exists>it s'. cstart s = Inr (it, hd (xs @ [null])) \<and>
           purge_loop cstep cremove null hit s it (hd (xs @ [null])) = Some (Inr s') \<and>
           holds s' (filter (\<lambda>d. \<not> hit d) xs)"
proof (cases xs)
  case Nil
  then show ?thesis using start_at [OF assms] assms by (auto simp: purge_null)
next
  case (Cons y ys)
  then obtain it where "cstart s = Inr (it, y)" "at s it [] (y # ys)"
    using start_at [OF assms] by auto
  with purge_from [of s it "[]" y ys hit] Cons show ?thesis by auto
qed

text \<open>
  A walk whose body works on a state of its own visits every node once, in order, until it is left, and
  leaves the nodes that the body kept; where the body fails the walk fails.
\<close>

lemma walk_null: "walk_loop cstep cremove null body s it null m = Some (Inr (s, m))"
  by (simp add: walk_loop.simps)

lemma walk_from:
  "at s it xs (y # ys) \<Longrightarrow>
   (case walk_list body (y # ys) m of
      Inl e \<Rightarrow> walk_loop cstep cremove null body s it y m = Some (Inl e)
    | Inr (zs, m') \<Rightarrow> \<exists>s'. walk_loop cstep cremove null body s it y m = Some (Inr (s', m'))
        \<and> holds s' (xs @ zs))"
proof (induction ys arbitrary: s it xs y m)
  case Nil
  have "y \<noteq> null" using holds_data [OF at_holds [OF Nil]] by auto
  then show ?case
    using step_at [OF Nil] remove_at [OF Nil] at_holds [OF Nil]
    by (cases "body y m") (auto simp: walk_loop.simps [of _ _ _ _ s it y] walk_null split: verdict.split)
next
  case (Cons z ys)
  have y: "y \<noteq> null" using holds_data [OF at_holds [OF Cons.prems]] by auto
  note unroll = walk_loop.simps [of cstep cremove null body s it y m] walk_list.simps(2) [of body y]
  show ?case
  proof (cases "body y m")
    case (Inl e)
    with y show ?thesis by (simp add: unroll)
  next
    case (Inr r)
    obtain v m1 where r: "r = (v, m1)" by (cases r)
    obtain s' it' where d: "cremove s it = Inr (s', it', z)" "at s' it' xs (z # ys)" "holds s' (xs @ z # ys)"
      using remove_at [OF Cons.prems] by auto
    obtain it'' where k: "cstep s it = Inr (it'', z)" "at s it'' (xs @ [y]) (z # ys)"
      using step_at [OF Cons.prems] by auto
    show ?thesis
    proof (cases v)
      case Keep
      with Cons.IH [OF k(2), of m1] k(1) Inr r y show ?thesis
        by (cases "walk_list body (z # ys) m1") (auto simp: unroll simp del: walk_list.simps(2))
    next
      case Drop
      with Cons.IH [OF d(2), of m1] d(1) Inr r y show ?thesis
        by (cases "walk_list body (z # ys) m1") (auto simp: unroll simp del: walk_list.simps(2))
    next
      case Keep_Last
      with at_holds [OF Cons.prems] Inr r y show ?thesis by (simp add: unroll)
    next
      case Drop_Last
      with d(1,3) Inr r y show ?thesis by (simp add: unroll)
    qed
  qed
qed

lemma walk_all:
  assumes "holds s xs"
  shows "\<exists>it. cstart s = Inr (it, hd (xs @ [null])) \<and>
    (case walk_list body xs m of
       Inl e \<Rightarrow> walk_loop cstep cremove null body s it (hd (xs @ [null])) m = Some (Inl e)
     | Inr (zs, m') \<Rightarrow> \<exists>s'. walk_loop cstep cremove null body s it (hd (xs @ [null])) m = Some (Inr (s', m'))
         \<and> holds s' zs)"
proof (cases xs)
  case Nil
  then show ?thesis using start_at [OF assms] assms by (auto simp: walk_null)
next
  case (Cons y ys)
  then obtain it where "cstart s = Inr (it, y)" "at s it [] (y # ys)"
    using start_at [OF assms] by auto
  with walk_from [of s it "[]" y ys body m, unfolded append_Nil] show ?thesis
    unfolding Cons append_Cons list.sel by blast
qed

end

text \<open>The heap model provides the interface.\<close>

definition ll_holds :: "heap \<times> linked_list \<Rightarrow> addr list \<Rightarrow> bool" where
  "ll_holds s ds \<longleftrightarrow> (\<exists>xs. dll (fst s) (snd s) xs \<and> map snd xs = ds \<and> 0 \<notin> set ds)"

definition ll_at :: "heap \<times> linked_list \<Rightarrow> linked_iterator \<Rightarrow> addr list \<Rightarrow> addr list \<Rightarrow> bool" where
  "ll_at s itr cs ds \<longleftrightarrow>
     (\<exists>xs ys. cursor_at (fst s) (snd s) itr xs ys \<and> map snd xs = cs \<and> map snd ys = ds \<and>
              0 \<notin> set (cs @ ds))"

lemma hd_map_snd: "hd (map snd xs @ [0]) = (if xs = [] then 0 else snd (hd xs))"
  by (cases xs) auto

interpretation ll: cursor_list "0 :: addr" ll_holds ll_at ll_start ll_step ll_remove
proof unfold_locales
  fix s :: "heap \<times> linked_list" and xs
  assume "ll_holds s xs"
  then show "0 \<notin> set xs" by (auto simp: ll_holds_def)
next
  fix s :: "heap \<times> linked_list" and itr xs ys
  assume "ll_at s itr xs ys"
  then show "ll_holds s (xs @ ys)"
    by (force simp: ll_at_def ll_holds_def cursor_at_def)
next
  fix s :: "heap \<times> linked_list" and ds
  assume "ll_holds s ds"
  then obtain xs where "dll (fst s) (snd s) xs" "map snd xs = ds" "0 \<notin> set ds"
    by (auto simp: ll_holds_def)
  with create_iterator_cursor [of "fst s" "snd s" xs]
  show "\<exists>it. ll_start s = Inr (it, hd (ds @ [0])) \<and> (ds \<noteq> [] \<longrightarrow> ll_at s it [] ds)"
    by (fastforce simp: ll_start_def ll_at_def hd_map_snd)
next
  fix s :: "heap \<times> linked_list" and itr cs d ds
  assume "ll_at s itr cs (d # ds)"
  then obtain xs y ys where "cursor_at (fst s) (snd s) itr xs (y # ys)" "map snd xs = cs"
    "snd y = d" "map snd ys = ds" "0 \<notin> set (cs @ d # ds)"
    by (auto simp: ll_at_def Cons_eq_map_conv map_eq_Cons_conv)
  with iterate_cursor [of "fst s" "snd s" itr xs y ys]
  show "\<exists>it'. ll_step s itr = Inr (it', hd (ds @ [0])) \<and> (ds \<noteq> [] \<longrightarrow> ll_at s it' (cs @ [d]) ds)"
    by (fastforce simp: ll_step_def ll_at_def hd_map_snd)
next
  fix s :: "heap \<times> linked_list" and itr cs d ds
  assume "ll_at s itr cs (d # ds)"
  then obtain xs y ys where "cursor_at (fst s) (snd s) itr xs (y # ys)" "map snd xs = cs"
    "snd y = d" "map snd ys = ds" "0 \<notin> set (cs @ d # ds)"
    by (auto simp: ll_at_def Cons_eq_map_conv map_eq_Cons_conv)
  with remove_cursor [of "fst s" "snd s" itr xs y ys]
  show "\<exists>s' it'. ll_remove s itr = Inr (s', it', hd (ds @ [0])) \<and> ll_holds s' (cs @ ds) \<and>
                 (ds \<noteq> [] \<longrightarrow> ll_at s' it' cs ds)"
    by (fastforce simp: ll_remove_def ll_at_def ll_holds_def hd_map_snd)
qed

text \<open>A walk over the nodes of a list, from its first to its last.\<close>

definition walk_nodes ::
  "(addr \<Rightarrow> 'm \<Rightarrow> (verdict \<times> 'm) res) \<Rightarrow> heap \<times> linked_list \<Rightarrow> 'm
   \<Rightarrow> (((heap \<times> linked_list) \<times> 'm) res) option" where
  "walk_nodes body s m =
     (case ll_start s of
        Inl e \<Rightarrow> Some (Inl e)
      | Inr (itr, d) \<Rightarrow> walk_loop ll_step ll_remove 0 body s itr d m)"

definition walks_as ::
  "(((heap \<times> linked_list) \<times> 'm) res) option \<Rightarrow> (addr list \<times> 'm) res \<Rightarrow> bool" where
  "walks_as r q \<longleftrightarrow>
     (case q of
        Inl e \<Rightarrow> r = Some (Inl e)
      | Inr (ds, m) \<Rightarrow> \<exists>s. r = Some (Inr (s, m)) \<and> ll_holds s ds)"

lemma walk_nodes_list:
  assumes "ll_holds s ds"
  shows "walks_as (walk_nodes body s m) (walk_list body ds m)"
  using ll.walk_all [OF assms, of body m]
  by (auto simp: walk_nodes_def walks_as_def split: sum.splits)

section \<open>Searching\<close>

lemma scan_null: "scan_loop h cmp x itr 0 c = Some (Inr (c, 0))"
  by (simp add: scan_loop.simps)

text \<open>The scan stops at the first datum the comparison accepts.\<close>

lemma scan_from:
  "ll_at (h, l) itr cs (d # ds) \<Longrightarrow>
   scan_loop h cmp x itr d c =
     Some (Inr (case find (\<lambda>d. cmp d x = 0) (d # ds) of
                  Some e \<Rightarrow> (0, e) | None \<Rightarrow> (cmp (last (d # ds)) x, 0)))"
proof (induction ds arbitrary: itr cs d c)
  case Nil
  have "d \<noteq> 0" using ll.holds_data [OF ll.at_holds [OF Nil]] by auto
  then show ?case
    using ll.step_at [OF Nil]
    by (auto simp: scan_loop.simps [of h cmp x itr d] scan_null ll_step_def)
next
  case (Cons e ds)
  have "d \<noteq> 0" using ll.holds_data [OF ll.at_holds [OF Cons.prems]] by auto
  moreover obtain itr' where "linkedList_iterate h itr = Inr (itr', e)" "ll_at (h, l) itr' (cs @ [d]) (e # ds)"
    using ll.step_at [OF Cons.prems] by (auto simp: ll_step_def)
  ultimately show ?case
    using Cons.IH [of itr' "cs @ [d]" e]
    by (simp add: scan_loop.simps [of h cmp x itr d] split: option.split)
qed

lemma scan_spec:
  assumes "ll_holds (h, l) ds" and "ll_cmp l = Some cmp"
  shows "linkedList_scan_internal h l x =
    Some (Inr (if \<exists>d\<in>set ds. cmp d x = 0 then 0 else if ds = [] then -1 else cmp (last ds) x))"
proof (cases ds)
  case Nil
  with assms ll.start_at [OF assms(1)] show ?thesis
    by (auto simp: linkedList_scan_internal_def ll_start_def scan_null)
next
  case (Cons d es)
  then obtain itr where i: "linkedList_create_iterator_internal h l = Inr (itr, d)"
      "ll_at (h, l) itr [] (d # es)"
    using ll.start_at [OF assms(1)] by (auto simp: ll_start_def)
  show ?thesis
    using assms(2) Cons i(1) scan_from [OF i(2), of cmp x "-1"]
    by (auto simp: linkedList_scan_internal_def find_None_iff find_Some_iff split: option.splits)
qed

lemma find_spec:
  assumes "ll_holds (h, l) ds" and "ll_cmp l = Some cmp"
  shows "linkedList_find_internal h l x =
    Some (Inr (case find (\<lambda>d. cmp d x = 0) ds of Some e \<Rightarrow> e | None \<Rightarrow> 0))"
proof (cases ds)
  case Nil
  with assms ll.start_at [OF assms(1)] show ?thesis
    by (auto simp: linkedList_find_internal_def ll_start_def scan_null)
next
  case (Cons d es)
  then obtain itr where i: "linkedList_create_iterator_internal h l = Inr (itr, d)"
      "ll_at (h, l) itr [] (d # es)"
    using ll.start_at [OF assms(1)] by (auto simp: ll_start_def)
  show ?thesis
    using assms(2) Cons i(1) scan_from [OF i(2), of cmp x "-1"]
    by (auto simp: linkedList_find_internal_def split: option.split)
qed

definition is_dup :: "linked_list \<Rightarrow> addr list \<Rightarrow> addr \<Rightarrow> bool" where
  "is_dup l ds x = (case ll_cmp l of None \<Rightarrow> False | Some cmp \<Rightarrow> (\<exists>d\<in>set ds. cmp d x = 0))"

lemma dup_check_spec:
  assumes "dll h l xs" and "0 \<notin> snd ` set xs"
  shows "dup_check h l x = Some (Inr (is_dup l (map snd xs) x))"
proof (cases "ll_cmp l")
  case None
  then show ?thesis by (simp add: is_dup_def)
next
  case (Some cmp)
  have "ll_holds (h, l) (map snd xs)" using assms(1,2) by (auto simp: ll_holds_def)
  then have "linkedList_scan_internal h l x = Some (Inr (if \<exists>d\<in>set (map snd xs). cmp d x = 0 then 0
      else if map snd xs = [] then -1 else cmp (last (map snd xs)) x))"
    using Some by (rule scan_spec)
  then show ?thesis
    using assms(1) Some
    by (cases "xs = []") (auto simp: dup_check_def dll_def is_dup_def last_map)
qed

section \<open>Properties\<close>

text \<open>
  C23. Appending to a list that holds the cells \<open>xs\<close> follows no bad pointer and terminates.
  A duplicate (by the list's comparison) or a failed allocation returns -1 and changes
  nothing; otherwise the fresh node becomes the last one and the other nodes keep their
  order and their data.
\<close>

theorem append_correct:
  assumes "dll h l xs" and "0 \<notin> snd ` set xs" and "p \<notin> dom h"
  shows "\<exists>h' l' rc. linkedList_append_internal p h l item = Some (Inr (h', l', rc)) \<and>
    (if is_dup l (map snd xs) item \<or> p = 0 then rc = -1 \<and> h' = h \<and> l' = l
     else rc = 1 \<and> dll h' l' (xs @ [(p, item)]))"
  using append_writes [of h l xs p item] assms dup_check_spec [OF assms(1,2), of item]
  by (auto simp: linkedList_append_internal_def)

definition two_cells :: cells where
  "two_cells = [(10, 7), (20, 8)]"

definition two_list :: linked_list where
  "two_list = \<lparr>ll_count = 2, ll_cmp = None, headerPtr = 10, footerPtr = 20, ll_item = 10\<rparr>"

definition two_heap :: heap where
  "two_heap = Map.empty(10 \<mapsto> \<lparr>nnext = 20, nprev = 0, ndata = 7\<rparr>,
                        20 \<mapsto> \<lparr>nnext = 0, nprev = 10, ndata = 8\<rparr>)"

lemma two_dll: "dll two_heap two_list two_cells"
  by (simp add: dll_def two_heap_def two_list_def two_cells_def)

lemma append_correct_witness:
  "\<exists>h' l' rc. linkedList_append_internal 30 two_heap two_list 9 = Some (Inr (h', l', rc)) \<and>
     rc = 1 \<and> dll h' l' [(10, 7), (20, 8), (30, 9)]"
  using append_correct [OF two_dll, of 30 9]
  by (simp add: two_cells_def two_heap_def two_list_def is_dup_def)

text \<open>
  Inserting puts the fresh node in front of the others, under the same conditions as
  appending.
\<close>

theorem insert_correct:
  assumes "dll h l xs" and "0 \<notin> snd ` set xs" and "p \<notin> dom h"
  shows "\<exists>h' l' rc. linkedList_insert_internal p h l item = Some (Inr (h', l', rc)) \<and>
    (if is_dup l (map snd xs) item \<or> p = 0 then rc = -1 \<and> h' = h \<and> l' = l
     else rc = 1 \<and> dll h' l' ((p, item) # xs))"
  using insert_writes [of h l xs p item] assms dup_check_spec [OF assms(1,2), of item]
  by (auto simp: linkedList_insert_internal_def)

lemma insert_correct_witness:
  "\<exists>h' l' rc. linkedList_insert_internal 30 two_heap two_list 9 = Some (Inr (h', l', rc)) \<and>
     rc = 1 \<and> dll h' l' [(30, 9), (10, 7), (20, 8)]"
  using insert_correct [OF two_dll, of 30 9]
  by (simp add: two_cells_def two_heap_def two_list_def is_dup_def)

text \<open>
  C11. Unlinking the node under the cursor, wherever it stands (only, first, middle or last
  node), leaves a well linked list without it, a cursor on its successor, and returns the
  successor's data, 0 at the end.
\<close>

theorem iterator_remove_correct:
  assumes "cursor_at h l itr xs (y # ys)"
  shows "\<exists>h' l' itr'.
    linkedList_iterator_remove_internal h l itr =
      Inr (h', l', itr', (if ys = [] then 0 else snd (hd ys))) \<and>
    dll h' l' (xs @ ys) \<and> (if ys = [] then it_current itr' = 0 else cursor_at h' l' itr' xs ys)"
  using remove_cursor [OF assms] by auto

lemma iterator_remove_correct_witness:
  "\<exists>h' l' itr'.
    linkedList_iterator_remove_internal two_heap two_list
      \<lparr>it_next = 20, it_prev = 0, it_current = 10\<rparr> = Inr (h', l', itr', 8) \<and>
    dll h' l' [(20, 8)]"
proof -
  have "cursor_at two_heap two_list \<lparr>it_next = 20, it_prev = 0, it_current = 10\<rparr> [] ((10, 7) # [(20, 8)])"
    using two_dll by (simp add: cursor_at_def two_cells_def)
  from iterator_remove_correct [OF this] show ?thesis by auto
qed

text \<open>
  \<^verbatim>\<open>linkedList_remove\<close> on a list with a comparison terminates without a fault, removes
  exactly the data the comparison accepts and keeps the others in order; it returns 0
  whether or not it removed anything.
\<close>

theorem remove_correct:
  assumes "ll_holds (h, l) ds" and "ll_cmp l = Some cmp"
  shows "\<exists>h' l'. linkedList_remove h l x = Some (Inr (h', l', 0)) \<and>
    ll_holds (h', l') (filter (\<lambda>d. cmp d x \<noteq> 0) ds)"
  using ll.purge_filter [OF assms(1), of "\<lambda>d. cmp d x = 0"] assms(2)
  by (fastforce simp: linkedList_remove_def linkedList_remove_internal_def)

lemma remove_correct_witness:
  "\<exists>h' l'. linkedList_remove two_heap (two_list\<lparr>ll_cmp := Some (\<lambda>a b. int a - int b)\<rparr>) 7 =
     Some (Inr (h', l', 0)) \<and> ll_holds (h', l') [8]"
proof -
  have "ll_holds (two_heap, two_list\<lparr>ll_cmp := Some (\<lambda>a b. int a - int b)\<rparr>) [7, 8]"
    using two_dll by (auto simp: ll_holds_def dll_def two_list_def two_cells_def
        intro!: exI [of _ two_cells])
  from remove_correct [OF this, of "\<lambda>a b. int a - int b" 7] show ?thesis by auto
qed

text \<open>
  \<^verbatim>\<open>linkedList_find\<close> terminates without a fault and returns the first datum the
  comparison accepts, 0 when there is none.
\<close>

theorem find_correct:
  assumes "ll_holds (h, l) ds" and "ll_cmp l = Some cmp"
  shows "linkedList_find_internal h l x =
    Some (Inr (case find (\<lambda>d. cmp d x = 0) ds of Some e \<Rightarrow> e | None \<Rightarrow> 0))"
  using assms by (rule find_spec)

lemma find_correct_witness:
  "linkedList_find_internal two_heap (two_list\<lparr>ll_cmp := Some (\<lambda>a b. int a - int b)\<rparr>) 8 = Some (Inr 8)"
proof -
  have "ll_holds (two_heap, two_list\<lparr>ll_cmp := Some (\<lambda>a b. int a - int b)\<rparr>) [7, 8]"
    using two_dll by (auto simp: ll_holds_def dll_def two_list_def two_cells_def
        intro!: exI [of _ two_cells])
  from find_correct [OF this, of "\<lambda>a b. int a - int b" 8] show ?thesis by simp
qed

end
