(* ===== verification/NodeLoops.thy ===== *)
theory NodeLoops
  imports Lifetimes LinkedList
begin

text \<open>
  The loops over destinations and sessions as the code has them: an iterator over linked nodes, a body
  that works on the blocks the data pointers lead to, and the removal of the node in between. They
  compute what the recursions over plain lists of pointers compute that stand for them elsewhere.
\<close>

section \<open>The bodies\<close>

text \<open>What is done with the data of one node, and what becomes of the node. \<open>stop_body\<close> and \<open>find_body\<close>
  leave the loop, with the list or the session they found.\<close>

definition close_body :: "ptr \<Rightarrow> mem \<Rightarrow> (verdict \<times> mem) res" where
  "close_body a m = bind_res (end_dest a m) (\<lambda>m'. Inr (Drop, m'))"

definition close_type_body :: "dest_type \<Rightarrow> ptr \<Rightarrow> mem \<Rightarrow> (verdict \<times> mem) res" where
  "close_type_body ty a m =
     bind_res (load_dest m a) (\<lambda>c.
       if dp_type c = ty then bind_res (end_dest a m) (\<lambda>m'. Inr (Drop, m')) else Inr (Keep, m))"

definition process_body :: "ptr \<Rightarrow> mem \<Rightarrow> (verdict \<times> mem) res" where
  "process_body a m =
     bind_res (load_dest m a) (\<lambda>c.
       if dp_expired c then bind_res (destination_destroy a m) (\<lambda>m'. Inr (Drop, m'))
       else
         bind_res (if dp_type c \<in> {dest_udp, dest_file, dest_http, dest_mcast}
                   then load m (dp_buffer c) else Inr (Bytes 0)) (\<lambda>_. Inr (Keep, m)))"

definition stop_type_body :: "dest_type \<Rightarrow> ptr \<Rightarrow> mem \<Rightarrow> (verdict \<times> mem) res" where
  "stop_type_body ty a m =
     bind_res (load_session m a) (\<lambda>s.
     bind_res (heap_close_type ty (sp_dests s) m) (\<lambda>m'. Inr (Keep, m')))"

definition reap_body :: "ptr \<Rightarrow> mem \<Rightarrow> (verdict \<times> mem) res" where
  "reap_body a m =
     bind_res (load_session m a) (\<lambda>s.
     bind_res (load_list m (sp_dests s)) (\<lambda>ds.
       if ds = [] then
         bind_res (halt_session a m) (\<lambda>m1.
         bind_res (destroy_list (sp_dests s) m1) (\<lambda>m2.
         bind_res (free (sp_buffer s) m2) (\<lambda>m3.
         bind_res (free a m3) (\<lambda>m4. Inr (Drop, m4)))))
       else Inr (Keep, m)))"

definition stop_body :: "u64 \<Rightarrow> ptr \<Rightarrow> ptr option \<times> mem \<Rightarrow> (verdict \<times> ptr option \<times> mem) res" where
  "stop_body sid a dm =
     (case dm of (d, m) \<Rightarrow>
        bind_res (load_session m a) (\<lambda>s.
          if sp_id s = sid then
            bind_res (halt_session a m) (\<lambda>m1.
            bind_res (free (sp_buffer s) m1) (\<lambda>m2.
            bind_res (free a m2) (\<lambda>m3. Inr (Drop_Last, Some (sp_dests s), m3))))
          else Inr (Keep, d, m)))"

definition find_body :: "u16 \<Rightarrow> u16 \<Rightarrow> mem \<Rightarrow> ptr \<Rightarrow> ptr option \<Rightarrow> (verdict \<times> ptr option) res" where
  "find_body onid channel_id m a r =
     bind_res (load_session m a) (\<lambda>s.
       if sp_onid s = onid \<and> sp_channel_id s = channel_id then Inr (Keep_Last, Some a) else Inr (Keep, r))"

section \<open>The recursions are walks\<close>

lemma bind_bind: "bind_res (bind_res r f) g = bind_res r (\<lambda>x. bind_res (f x) g)"
  by (simp add: bind_res_def split: sum.split)

lemma bind_if: "bind_res (if b then r else r') g = (if b then bind_res r g else bind_res r' g)"
  by simp

lemma bind_pair: "bind_res r (\<lambda>(x, y). Inr (x, y)) = r"
  by (simp add: bind_res_def split: sum.split)

lemma bind_Inr: "bind_res r Inr = r"
  by (simp add: bind_res_def split: sum.split)

named_theorems walk_simps "a walk as a recursion"

declare bind_bind [walk_simps] bind_if [walk_simps] bind_pair [walk_simps] bind_Inr [walk_simps]

lemma close_dests_walk:
  "walk_list close_body as m = bind_res (close_dests as m) (\<lambda>m'. Inr ([], m'))"
  by (induction as arbitrary: m) (simp_all add: close_body_def walk_simps)

lemma close_type_dests_walk: "walk_list (close_type_body ty) as m = close_type_dests ty as m"
  by (induction as arbitrary: m) (simp_all add: close_type_body_def walk_simps cong: if_cong)

lemma process_dests_walk: "walk_list process_body as m = process_dests as m"
  by (induction as arbitrary: m) (simp_all add: process_body_def walk_simps cong: if_cong)

lemma stop_type_walk:
  "walk_list (stop_type_body ty) as m = bind_res (stop_type_loop ty as m) (\<lambda>m'. Inr (as, m'))"
  by (induction as arbitrary: m) (simp_all add: stop_type_body_def walk_simps)

lemma reap_loop_walk: "walk_list reap_body as m = reap_loop as m"
  by (induction as arbitrary: m) (simp_all add: reap_body_def walk_simps cong: if_cong)

lemma stop_loop_walk:
  "walk_list (stop_body sid) as (None, m) = bind_res (stop_loop sid as m) (\<lambda>(d, as', m'). Inr (as', d, m'))"
  by (induction as arbitrary: m) (simp_all add: stop_body_def walk_simps split_def cong: if_cong)

lemma find_session_walk:
  "walk_list (find_body onid ch m) as None = bind_res (find_session onid ch as m) (\<lambda>r. Inr (as, r))"
  by (induction as) (simp_all add: find_body_def walk_simps split_def cong: if_cong)

section \<open>The loops of the code\<close>

text \<open>C34. The loops of the code, which step through linked nodes and unlink a node after its data was
  freed, end on every well linked list and compute what the recursions over lists of pointers compute:
  the same memory or the same fault, and nodes for exactly the pointers that are left, well linked and in
  order. This holds for closing all destinations, those of a type, delivering to them, closing a type
  in every session, ending the sessions that have none, ending one by its number and finding one by its channel.\<close>
theorem loops_on_nodes:
  assumes "ll_holds s as"
  shows "walks_as (walk_nodes close_body s m) (bind_res (close_dests as m) (\<lambda>m'. Inr ([], m')))
    \<and> walks_as (walk_nodes (close_type_body ty) s m) (close_type_dests ty as m)
    \<and> walks_as (walk_nodes process_body s m) (process_dests as m)
    \<and> walks_as (walk_nodes (stop_type_body ty) s m) (bind_res (stop_type_loop ty as m) (\<lambda>m'. Inr (as, m')))
    \<and> walks_as (walk_nodes reap_body s m) (reap_loop as m)
    \<and> walks_as (walk_nodes (stop_body sid) s (None, m))
         (bind_res (stop_loop sid as m) (\<lambda>(d, as', m'). Inr (as', d, m')))
    \<and> walks_as (walk_nodes (find_body onid ch m) s None)
         (bind_res (find_session onid ch as m) (\<lambda>r. Inr (as, r)))"
  using walk_nodes_list [OF assms, of close_body m] walk_nodes_list [OF assms, of "close_type_body ty" m]
    walk_nodes_list [OF assms, of process_body m] walk_nodes_list [OF assms, of "stop_type_body ty" m]
    walk_nodes_list [OF assms, of reap_body m] walk_nodes_list [OF assms, of "stop_body sid" "(None, m)"]
    walk_nodes_list [OF assms, of "find_body onid ch m" None]
  by (simp only: close_dests_walk close_type_dests_walk process_dests_walk stop_type_walk reap_loop_walk
      stop_loop_walk find_session_walk)

lemma loops_on_nodes_witness:
  "\<exists>s. walk_nodes process_body (two_heap, two_list)
      [7 \<mapsto> Dest_Block \<lparr>dp_type = dest_http, dp_size = 4, dp_expired = False, dp_buffer = 9, dp_url = 0\<rparr>,
       8 \<mapsto> Dest_Block \<lparr>dp_type = dest_http, dp_size = 0, dp_expired = True, dp_buffer = 0, dp_url = 0\<rparr>,
       9 \<mapsto> Bytes 4]
    = Some (Inr (s, [7 \<mapsto> Dest_Block \<lparr>dp_type = dest_http, dp_size = 4, dp_expired = False,
        dp_buffer = 9, dp_url = 0\<rparr>, 9 \<mapsto> Bytes 4])) \<and> ll_holds s [7]"
proof -
  let ?d = "Dest_Block \<lparr>dp_type = dest_http, dp_size = 4, dp_expired = False, dp_buffer = 9, dp_url = 0\<rparr>"
  let ?m = "[7 \<mapsto> ?d, 8 \<mapsto> Dest_Block \<lparr>dp_type = dest_http, dp_size = 0, dp_expired = True, dp_buffer = 0,
    dp_url = 0\<rparr>, 9 \<mapsto> Bytes 4]"
  have h: "ll_holds (two_heap, two_list) [7, 8]"
    using two_dll by (auto simp: ll_holds_def two_cells_def intro!: exI [of _ two_cells])
  have "(?m :: mem)(8 := None) = [7 \<mapsto> ?d, 9 \<mapsto> Bytes 4]" by (auto simp: fun_eq_iff)
  then have "process_dests [7, 8] ?m = Inr ([7], [7 \<mapsto> ?d, 9 \<mapsto> Bytes 4])"
    by (simp add: destination_destroy_def parsed_url_free_def free_def load_defs)
  with loops_on_nodes [OF h, of ?m dest_live 0 0 0] show ?thesis by (auto simp: walks_as_def)
qed

end
