(* ===== verification/Streaming.thy ===== *)
theory Streaming
  imports Session Steps "HOL-Library.Sublist" "HOL-Library.Multiset"
begin

text \<open>
  The buffer of one session between the hardware thread that fills it and the destination threads
  that empty it, with the interleavings inside \<^verbatim>\<open>session_write\<close> and \<^verbatim>\<open>destination_thread_run\<close>. The writer
  looks whether a packet fits before it takes the buffer's mutex and stores it after; a destination
  thread copies and empties the buffer under the mutex and hands its copy to the destinations later. What each
  does while it holds a mutex is one step. Meanwhile destinations join and leave, clients of streams fetch their
  bytes and hang up. Of every destination it is followed what goes out of it: what \<^verbatim>\<open>destination_process\<close> sends
  or writes, and what the client of a stream fetches.
\<close>

section \<open>Steps\<close>

text \<open>
  \<open>st_write\<close> is the packet that was found to fit or not and is not stored yet, \<open>st_copies\<close> what each
  destination thread has copied and not handed over. \<open>st_in\<close> and \<open>st_handed\<close> record what was stored and
  what was handed to the destinations, \<open>st_dumps\<close> how often a packet did not fit. \<open>st_follow\<close> follows the
  destinations in the order of their list: \<open>fl_start\<close> is what waited in the destination's buffer when it joined,
  \<open>fl_from\<close> how much had been handed over before, \<open>fl_out\<close> what went out of it since, and \<open>fl_dumps\<close> how
  often its buffer had no room for what it was handed.
\<close>

record follow =
  fl_start :: "byte list"
  fl_from :: nat
  fl_out :: "byte list"
  fl_dumps :: nat

record stream =
  st_sess :: session_service_t
  st_write :: "(byte list \<times> bool) option"
  st_copies :: "byte list option list"
  st_in :: "byte list"
  st_handed :: "byte list"
  st_dumps :: nat
  st_follow :: "follow list"

datatype stream_event = Looks "byte list" | Stores | Copies nat | Hands nat int bool
  | Joins destination_t | Leaves nat | Expires nat | Fetches nat nat

text \<open>
  What a pass over the destinations put out, added to what went out of each before; expired ones are gone.
\<close>

fun follow_pass :: "destination_t list \<Rightarrow> byte list \<Rightarrow> byte list list \<Rightarrow> follow list \<Rightarrow> follow list" where
  "follow_pass (d # ds) data outs (f # fs) =
     (if expired d then follow_pass ds data outs fs
      else case outs of
          [] \<Rightarrow> []
        | out # outs \<Rightarrow>
            f\<lparr>fl_out := fl_out f @ out,
              fl_dumps := (if length data + bufptr d < bufferSize d then fl_dumps f else Suc (fl_dumps f))\<rparr>
            # follow_pass ds data outs fs)"
| "follow_pass ds data outs fs = []"

definition new_follow :: "destination_t \<Rightarrow> byte list \<Rightarrow> follow" where
  "new_follow d handed = \<lparr>fl_start = take (bufptr d) (dbuffer d), fl_from = length handed, fl_out = [], fl_dumps = 0\<rparr>"

abbreviation put_dests :: "stream \<Rightarrow> destination_t list \<Rightarrow> stream" where
  "put_dests st ds \<equiv> st\<lparr>st_sess := (st_sess st)\<lparr>destination_ll := ds\<rparr>\<rparr>"

abbreviation st_dests :: "stream \<Rightarrow> destination_t list" where
  "st_dests st \<equiv> destination_ll (st_sess st)"

definition buffer_room :: "session_service_t \<Rightarrow> byte list \<Rightarrow> bool" where
  "buffer_room s data \<longleftrightarrow> bufferPtr s + length data < SESSION_BUFFER"

definition store_packet :: "session_service_t \<Rightarrow> byte list \<Rightarrow> bool \<Rightarrow> session_service_t res" where
  "store_packet s data fits =
     (if fits
      then bind_res (put_bytes (s_buffer s) (bufferPtr s) data) (\<lambda>b.
             Inr (s\<lparr>outbytes_total := outbytes_total s + of_nat (length data),
                    s_buffer := b, bufferPtr := bufferPtr s + length data\<rparr>))
      else bind_res (put_bytes (s_buffer s) 0 data) (\<lambda>b.
             Inr (s\<lparr>s_buffer := b, bufferPtr := length data\<rparr>)))"

fun run_stream :: "net_env \<Rightarrow> (stream_event, stream) machine" where
  "run_stream net (Looks data) st = Inr (Some (st\<lparr>st_write := Some (data, buffer_room (st_sess st) data)\<rparr>))"
| "run_stream net Stores st =
     (case st_write st of
        None \<Rightarrow> Inr (Some st)
      | Some (data, fits) \<Rightarrow>
          bind_res (store_packet (st_sess st) data fits) (\<lambda>s.
            Inr (Some (st\<lparr>st_sess := s, st_write := None, st_in := st_in st @ data,
                          st_dumps := (if fits then st_dumps st else Suc (st_dumps st))\<rparr>))))"
| "run_stream net (Copies i) st =
     bind_res (session_drain (st_sess st)) (\<lambda>(data, s).
       Inr (Some (st\<lparr>st_sess := s, st_copies := (st_copies st)[i := Some data]\<rparr>)))"
| "run_stream net (Hands i wt due) st =
     (case st_copies st ! i of
        None \<Rightarrow> Inr (Some st)
      | Some data \<Rightarrow>
          bind_res (destination_process net wt due (destination_ll (st_sess st)) data) (\<lambda>r.
            Inr (map_option (\<lambda>(ds, outs). st\<lparr>st_sess := (st_sess st)\<lparr>destination_ll := ds\<rparr>,
              st_copies := (st_copies st)[i := None], st_handed := st_handed st @ data,
              st_follow := follow_pass (destination_ll (st_sess st)) data outs (st_follow st)\<rparr>) r)))"
| "run_stream net (Joins d) st =
     Inr (Some ((put_dests st (st_dests st @ [d]))\<lparr>st_follow := st_follow st @ [new_follow d (st_handed st)]\<rparr>))"
| "run_stream net (Leaves k) st =
     Inr (Some ((put_dests st (take k (st_dests st) @ drop (Suc k) (st_dests st)))
       \<lparr>st_follow := take k (st_follow st) @ drop (Suc k) (st_follow st)\<rparr>))"
| "run_stream net (Expires k) st =
     Inr (Some (put_dests st ((st_dests st)[k := (st_dests st ! k)\<lparr>expired := True\<rparr>])))"
| "run_stream net (Fetches k n) st =
     bind_res (destination_getDatafromBuffer (st_dests st ! k) n) (\<lambda>(data, d).
       Inr (Some ((put_dests st ((st_dests st)[k := d]))
         \<lparr>st_follow := (st_follow st)[k := (st_follow st ! k)\<lparr>fl_out := fl_out (st_follow st ! k) @ data\<rparr>]\<rparr>)))"

fun stream_allowed :: "net_env \<Rightarrow> stream_event \<Rightarrow> stream \<Rightarrow> bool" where
  "stream_allowed net (Looks data) st \<longleftrightarrow> st_write st = None \<and> length data < SESSION_BUFFER"
| "stream_allowed net Stores st \<longleftrightarrow> st_write st \<noteq> None"
| "stream_allowed net (Copies i) st \<longleftrightarrow> i < length (st_copies st) \<and> st_copies st ! i = None"
| "stream_allowed net (Hands i wt due) st \<longleftrightarrow>
     i < length (st_copies st) \<and> st_copies st ! i \<noteq> None \<and> net_ok net"
| "stream_allowed net (Joins d) st \<longleftrightarrow> dest_ready d"
| "stream_allowed net (Leaves k) st \<longleftrightarrow> k < length (st_dests st)"
| "stream_allowed net (Expires k) st \<longleftrightarrow> k < length (st_dests st)"
| "stream_allowed net (Fetches k n) st \<longleftrightarrow> k < length (st_dests st)"

text \<open>Without a step in between these are the operations on a session that are one step elsewhere.\<close>

lemma append_buffer_split: "append_buffer s data = store_packet s data (buffer_room s data)"
  by (simp add: append_buffer_def store_packet_def buffer_room_def)

lemma pass_split:
  assumes "i < length (st_copies st)" "st_copies st ! i = None"
  shows "bind_res (run_stream net (Copies i) st) (\<lambda>r. case r of
       None \<Rightarrow> Inr None | Some st1 \<Rightarrow> run_stream net (Hands i wt due) st1)
    = bind_res (destination_thread_pass net wt due (st_sess st)) (\<lambda>r.
       Inr (map_option (\<lambda>(s, outs). st\<lparr>st_sess := s, st_handed := st_handed st @ sbuf_pending (st_sess st),
         st_follow := follow_pass (st_dests st) (sbuf_pending (st_sess st)) outs (st_follow st)\<rparr>) r))"
proof -
  have "st\<lparr>st_copies := (st_copies st)[i := None]\<rparr> = st" using assms by (metis list_update_id stream.surjective stream.update_convs(3))
  then have "st\<lparr>st_sess := s, st_copies := (st_copies st)[i := None], st_handed := x, st_follow := y\<rparr>
      = st\<lparr>st_sess := s, st_handed := x, st_follow := y\<rparr>" for s x y
    by (cases st) simp
  then show ?thesis using assms
    by (auto simp: destination_thread_pass_def session_drain_def sbuf_pending_def bind_res_def
        option.map_comp comp_def split_def split: sum.split option.split)
qed

section \<open>What is under way\<close>

definition copied :: "byte list option \<Rightarrow> byte list" where
  "copied c = (case c of None \<Rightarrow> [] | Some data \<Rightarrow> data)"

text \<open>What was handed over, then what the threads carry, then what waits in the buffer.\<close>

definition stream_bytes :: "stream \<Rightarrow> byte list" where
  "stream_bytes st = st_handed st @ concat (map copied (st_copies st)) @ sbuf_pending (st_sess st)"

text \<open>
  \<open>xs\<close> is what is left of \<open>ys\<close>: no byte twice, none lost unless a packet did not fit, and in order
  when there is one thread.
\<close>

definition kept_of :: "nat \<Rightarrow> nat \<Rightarrow> byte list \<Rightarrow> byte list \<Rightarrow> bool" where
  "kept_of threads dumps xs ys \<longleftrightarrow> mset xs \<subseteq># mset ys \<and> (dumps = 0 \<longrightarrow> mset xs = mset ys)
     \<and> (threads = 1 \<longrightarrow> subseq xs ys)"

lemma kept_of_add: "kept_of n d xs ys \<Longrightarrow> kept_of n d (xs @ zs) (ys @ zs)"
  by (auto simp: kept_of_def)

lemma kept_of_dump:
  assumes "kept_of n d (xs @ us) ys"
  shows "kept_of n (Suc d) (xs @ zs) (ys @ zs)"
proof -
  have "mset xs \<subseteq># mset (xs @ us)" "subseq xs (xs @ us)" by (simp_all add: subseq_rev_drop_many)
  then have "mset xs \<subseteq># mset ys" "n = 1 \<longrightarrow> subseq xs ys"
    using assms unfolding kept_of_def by (blast intro: subset_mset.trans subseq_order.trans)+
  then show ?thesis by (auto simp: kept_of_def)
qed

lemma kept_of_perm:
  "kept_of n d xs ys \<Longrightarrow> mset xs' = mset xs \<Longrightarrow> (n = 1 \<Longrightarrow> xs' = xs) \<Longrightarrow> kept_of n d xs' ys"
  by (auto simp: kept_of_def)

lemma kept_of_whole: "kept_of 1 0 xs ys \<Longrightarrow> xs = ys"
  using subseq_same_length [of xs ys] by (auto simp: kept_of_def dest: mset_eq_length)

text \<open>
  What went out of a destination and what waits in it is what waited when it joined and what was handed over since,
  but for what its buffer had no room for.
\<close>

definition receives :: "destination_t \<Rightarrow> bool" where
  "receives d \<longleftrightarrow> destination_type d \<in> {dest_udp, dest_mcast, dest_http, dest_file}"

definition follow_ok :: "byte list \<Rightarrow> destination_t \<Rightarrow> follow \<Rightarrow> bool" where
  "follow_ok handed d f \<longleftrightarrow> fl_from f \<le> length handed \<and> (receives d \<longrightarrow>
     subseq (fl_out f @ buf_pending d) (fl_start f @ drop (fl_from f) handed)
     \<and> (fl_dumps f = 0 \<longrightarrow> fl_out f @ buf_pending d = fl_start f @ drop (fl_from f) handed))"

definition stream_ok :: "stream \<Rightarrow> bool" where
  "stream_ok st \<longleftrightarrow> sbuf_ok (st_sess st) \<and> (\<forall>d \<in> set (destination_ll (st_sess st)). dest_ready d)
     \<and> (\<forall>data fits. st_write st = Some (data, fits) \<longrightarrow> length data < SESSION_BUFFER
          \<and> (fits \<longrightarrow> buffer_room (st_sess st) data))
     \<and> kept_of (length (st_copies st)) (st_dumps st) (stream_bytes st) (st_in st)
     \<and> list_all2 (follow_ok (st_handed st)) (destination_ll (st_sess st)) (st_follow st)"

lemma follow_ok_more:
  assumes "follow_ok h d f" "receives d \<Longrightarrow> out @ buf_pending d' = (if fits then buf_pending d @ data else [])"
    and "receives d' = receives d"
  shows "follow_ok (h @ data) d' (f\<lparr>fl_out := fl_out f @ out, fl_dumps := (if fits then fl_dumps f else Suc (fl_dumps f))\<rparr>)"
proof -
  have "subseq (fl_out f) (fl_start f @ drop (fl_from f) h @ data)"
    if "subseq (fl_out f @ buf_pending d) (fl_start f @ drop (fl_from f) h)"
    using that subseq_rev_drop_many [of "fl_out f" "fl_out f" "buf_pending d"]
    by (metis append.assoc list_emb_append2 subseq_order.trans subseq_rev_drop_many subseq_order.refl)
  moreover have "subseq (fl_out f @ buf_pending d @ data) (fl_start f @ drop (fl_from f) h @ data)"
    if "subseq (fl_out f @ buf_pending d) (fl_start f @ drop (fl_from f) h)"
    using list_emb_append_mono [OF that, of data data] by simp
  ultimately show ?thesis using assms by (auto simp: follow_ok_def)
qed

lemma process_follows:
  assumes "\<forall>d \<in> set ds. dest_ready d" "net_ok net" "list_all2 (follow_ok h) ds fs"
  shows "\<exists>r. destination_process net wt due ds data = Inr r
    \<and> (\<forall>ds' outs. r = Some (ds', outs) \<longrightarrow> (\<forall>d \<in> set ds'. dest_ready d)
         \<and> list_all2 (follow_ok (h @ data)) ds' (follow_pass ds data outs fs))"
  using assms(1,3)
proof (induction ds arbitrary: fs)
  case (Cons d ds)
  obtain f fs' where f: "fs = f # fs'" "follow_ok h d f" "list_all2 (follow_ok h) ds fs'"
    using Cons.prems(2) by (auto simp: list_all2_Cons1)
  obtain r where IH: "destination_process net wt due ds data = Inr r"
    "\<And>ds' outs. r = Some (ds', outs) \<Longrightarrow> (\<forall>d \<in> set ds'. dest_ready d)
       \<and> list_all2 (follow_ok (h @ data)) ds' (follow_pass ds data outs fs')"
    using Cons.IH [OF _ f(3)] Cons.prems(1) by auto
  show ?case
  proof (cases "expired d")
    case True
    with IH f(1) show ?thesis by (intro exI [of _ r]) simp
  next
    case False
    have d: "dest_ready d" using Cons.prems(1) by simp
    obtain d1 out where 1: "deliver net wt due d data = Inr (d1, out)" "\<forall>d'. d1 = Some d' \<longrightarrow> dest_ready d'"
      using deliver_ready [OF d assms(2), of wt due data] by blast
    have "follow_ok (h @ data) d' (f\<lparr>fl_out := fl_out f @ out,
        fl_dumps := (if length data + bufptr d < bufferSize d then fl_dumps f else Suc (fl_dumps f))\<rparr>)"
      if "d1 = Some d'" for d'
    proof (rule follow_ok_more [OF f(2)])
      show "receives d' = receives d"
        using deliver_frame [of net wt due d data d' out] 1(1) that by (simp add: receives_def same_dest_def)
      show "out @ buf_pending d' = (if length data + bufptr d < bufferSize d then buf_pending d @ data else [])"
        if "receives d"
        using deliver_result [of d net wt due data] d assms(2) that 1(1) \<open>d1 = Some d'\<close>
        by (simp add: dest_ready_def receives_def add.commute)
    qed
    with IH 1 False f(1) show ?thesis by (auto split: option.split)
  qed
qed simp

lemma store_packet_ok:
  assumes "sbuf_ok s" "length data < SESSION_BUFFER" "fits \<longrightarrow> buffer_room s data"
  shows "\<exists>s'. store_packet s data fits = Inr s' \<and> sbuf_ok s' \<and> destination_ll s' = destination_ll s
    \<and> sbuf_pending s' = (if fits then sbuf_pending s @ data else data)"
proof (cases fits)
  case True
  then have r: "bufferPtr s + length data < SESSION_BUFFER" using assms(3) by (simp add: buffer_room_def)
  then have "bufferPtr s + length data \<le> length (s_buffer s)" using assms(1) by (simp add: sbuf_ok_def)
  from put_bytes_ok [OF this] obtain b where "put_bytes (s_buffer s) (bufferPtr s) data = Inr b"
    "length b = length (s_buffer s)"
    "take (bufferPtr s + length data) b = take (bufferPtr s) (s_buffer s) @ data" by blast
  with True r assms(1) show ?thesis by (simp add: store_packet_def sbuf_ok_def sbuf_pending_def)
next
  case False
  have "0 + length data \<le> length (s_buffer s)" using assms by (simp add: sbuf_ok_def)
  from put_bytes_ok [OF this] obtain b where "put_bytes (s_buffer s) 0 data = Inr b"
    "length b = length (s_buffer s)" "take (length data) b = data" by auto
  with False assms show ?thesis by (simp add: store_packet_def sbuf_ok_def sbuf_pending_def)
qed

lemma mset_copied_update:
  "i < length cs \<Longrightarrow> mset (concat (map copied (cs[i := c]))) + mset (copied (cs ! i))
     = mset (concat (map copied cs)) + mset (copied c)"
  by (induction cs arbitrary: i) (auto simp: ac_simps split: nat.split)

section \<open>The steps keep it\<close>

definition stream_good :: "stream option res \<Rightarrow> bool" where
  "stream_good r \<longleftrightarrow> (\<exists>x. r = Inr x \<and> (\<forall>st. x = Some st \<longrightarrow> stream_ok st))"

lemma stores_step:
  assumes "stream_ok st" "stream_allowed net Stores st"
  shows "stream_good (run_stream net Stores st)"
proof -
  obtain data fits where w: "st_write st = Some (data, fits)" using assms(2) by auto
  with assms(1) obtain s where s: "store_packet (st_sess st) data fits = Inr s" "sbuf_ok s"
    "destination_ll s = destination_ll (st_sess st)"
    "sbuf_pending s = (if fits then sbuf_pending (st_sess st) @ data else data)"
    using store_packet_ok unfolding stream_ok_def by blast
  have k: "kept_of (length (st_copies st)) (st_dumps st)
      ((st_handed st @ concat (map copied (st_copies st))) @ sbuf_pending (st_sess st)) (st_in st)"
    using assms(1) by (simp add: stream_ok_def stream_bytes_def)
  then have "kept_of (length (st_copies st)) (if fits then st_dumps st else Suc (st_dumps st))
      ((st_handed st @ concat (map copied (st_copies st))) @ sbuf_pending s) (st_in st @ data)"
    using kept_of_add [OF k, of data] kept_of_dump [OF k, of data] s(4) by simp
  then show ?thesis using w s(1-3) assms(1)
    by (simp add: stream_good_def stream_ok_def stream_bytes_def)
qed

lemma copies_step:
  assumes "stream_ok st" "stream_allowed net (Copies i) st"
  shows "stream_good (run_stream net (Copies i) st)"
proof -
  let ?s = "st_sess st" and ?cs = "(st_copies st)[i := Some (sbuf_pending (st_sess st))]"
  have ok: "sbuf_ok ?s" using assms(1) by (simp add: stream_ok_def)
  then have d: "session_drain ?s = Inr (sbuf_pending ?s, ?s\<lparr>bufferPtr := 0\<rparr>)"
    by (simp add: session_drain_def sbuf_ok_def sbuf_pending_def)
  have i: "i < length (st_copies st)" "st_copies st ! i = None" using assms(2) by simp_all
  have "kept_of (length (st_copies st)) (st_dumps st) (st_handed st @ concat (map copied ?cs)) (st_in st)"
  proof (rule kept_of_perm)
    show "kept_of (length (st_copies st)) (st_dumps st) (stream_bytes st) (st_in st)"
      using assms(1) by (simp add: stream_ok_def)
    show "mset (st_handed st @ concat (map copied ?cs)) = mset (stream_bytes st)"
      using mset_copied_update [OF i(1), of "Some (sbuf_pending ?s)"] i(2)
      by (simp add: stream_bytes_def copied_def)
    show "st_handed st @ concat (map copied ?cs) = stream_bytes st" if "length (st_copies st) = 1"
      using that i by (auto simp: length_Suc_conv stream_bytes_def copied_def)
  qed
  then show ?thesis using d assms(1)
    by (auto simp: stream_good_def stream_ok_def stream_bytes_def sbuf_ok_def sbuf_pending_def buffer_room_def)
qed

lemma hands_step:
  assumes "stream_ok st" "stream_allowed net (Hands i wt due) st"
  shows "stream_good (run_stream net (Hands i wt due) st)"
proof -
  obtain data where i: "i < length (st_copies st)" "st_copies st ! i = Some data" "net_ok net"
    using assms(2) by auto
  obtain r where r: "destination_process net wt due (destination_ll (st_sess st)) data = Inr r"
    "\<forall>ds' outs. r = Some (ds', outs) \<longrightarrow> (\<forall>d \<in> set ds'. dest_ready d)
       \<and> list_all2 (follow_ok (st_handed st @ data)) ds' (follow_pass (destination_ll (st_sess st)) data outs (st_follow st))"
    using process_follows [OF _ i(3)] assms(1) unfolding stream_ok_def by blast
  let ?cs = "(st_copies st)[i := None]"
  have "kept_of (length (st_copies st)) (st_dumps st)
      ((st_handed st @ data) @ concat (map copied ?cs) @ sbuf_pending (st_sess st)) (st_in st)"
  proof (rule kept_of_perm)
    show "kept_of (length (st_copies st)) (st_dumps st) (stream_bytes st) (st_in st)"
      using assms(1) by (simp add: stream_ok_def)
    show "mset ((st_handed st @ data) @ concat (map copied ?cs) @ sbuf_pending (st_sess st))
        = mset (stream_bytes st)"
      using mset_copied_update [OF i(1), of None] i(2) by (simp add: stream_bytes_def copied_def ac_simps)
    show "(st_handed st @ data) @ concat (map copied ?cs) @ sbuf_pending (st_sess st) = stream_bytes st"
      if "length (st_copies st) = 1"
      using that i by (auto simp: length_Suc_conv stream_bytes_def copied_def)
  qed
  then show ?thesis using i r assms(1)
    by (auto simp: stream_good_def stream_ok_def stream_bytes_def sbuf_ok_def sbuf_pending_def buffer_room_def)
qed

lemma dests_step:
  assumes "stream_ok st" "stream_allowed net e st" "e = Joins d \<or> e = Leaves k \<or> e = Expires k \<or> e = Fetches k n"
  shows "stream_good (run_stream net e st)"
proof -
  note keep = stream_good_def stream_ok_def stream_bytes_def sbuf_ok_def sbuf_pending_def buffer_room_def
  have follow: "list_all2 (follow_ok (st_handed st)) (st_dests st) (st_follow st)"
    and ready: "\<forall>d \<in> set (st_dests st). dest_ready d"
    using assms(1) by (simp_all add: stream_ok_def)
  have len: "length (st_follow st) = length (st_dests st)" using follow by (simp add: list_all2_lengthD)
  from assms(3) show ?thesis
  proof (elim disjE)
    assume e: "e = Joins d"
    have "follow_ok (st_handed st) d (new_follow d (st_handed st))"
      by (simp add: follow_ok_def new_follow_def buf_pending_def)
    with assms(1,2) e show ?thesis by (simp add: keep list_all2_appendI)
  next
    assume e: "e = Leaves k"
    have "list_all2 (follow_ok (st_handed st)) (take k (st_dests st) @ drop (Suc k) (st_dests st))
        (take k (st_follow st) @ drop (Suc k) (st_follow st))"
      using follow by (intro list_all2_appendI list_all2_takeI list_all2_dropI)
    moreover have "\<forall>d \<in> set (take k (st_dests st) @ drop (Suc k) (st_dests st)). dest_ready d"
      using ready by (auto dest: in_set_takeD in_set_dropD)
    ultimately show ?thesis using assms(1) e by (simp add: keep)
  next
    assume e: "e = Expires k"
    let ?d = "(st_dests st ! k)\<lparr>expired := True\<rparr>"
    have k: "k < length (st_dests st)" using assms(2) e by simp
    then have "follow_ok (st_handed st) (st_dests st ! k) (st_follow st ! k)" "dest_ready (st_dests st ! k)"
      using follow ready by (simp_all add: list_all2_nthD)
    then have "follow_ok (st_handed st) ?d (st_follow st ! k)" "dest_ready ?d"
      by (simp_all add: follow_ok_def receives_def buf_pending_def dest_ready_def buf_ok_def)
    then have "list_all2 (follow_ok (st_handed st)) ((st_dests st)[k := ?d]) (st_follow st)"
      "\<forall>d \<in> set ((st_dests st)[k := ?d]). dest_ready d"
      using list_all2_update_cong [OF follow, of ?d "st_follow st ! k" k] ready set_update_subset_insert [of "st_dests st" k ?d]
      by auto
    then show ?thesis using assms(1) e by (simp add: keep)
  next
    assume e: "e = Fetches k n"
    have k: "k < length (st_dests st)" using assms(2) e by simp
    let ?d = "st_dests st ! k" and ?f = "st_follow st ! k"
    have fd: "follow_ok (st_handed st) ?d ?f" "dest_ready ?d"
      using follow ready k by (simp_all add: list_all2_nthD)
    then obtain j d' where d': "destination_getDatafromBuffer ?d n = Inr (take j (buf_pending ?d), d')"
      "buf_ok d'" "buf_pending d' = drop j (buf_pending ?d)"
      using getData_ok [of ?d n] by (auto simp: dest_ready_def)
    have same: "same_dest ?d d'"
      using d'(1) by (auto simp: destination_getDatafromBuffer_def same_dest_def Let_def bind_res_Inr split: if_splits)
    let ?f' = "?f\<lparr>fl_out := fl_out ?f @ take j (buf_pending ?d)\<rparr>"
    have "follow_ok (st_handed st) d' ?f'" "dest_ready d'"
      using fd d'(2,3) same by (simp_all add: follow_ok_def receives_def dest_ready_def same_dest_def)
    then have "list_all2 (follow_ok (st_handed st)) ((st_dests st)[k := d']) ((st_follow st)[k := ?f'])"
      "\<forall>d \<in> set ((st_dests st)[k := d']). dest_ready d"
      using list_all2_update_cong [OF follow, of d' ?f' k] ready set_update_subset_insert [of "st_dests st" k d']
      by auto
    with d'(1) show ?thesis using assms(1) e by (simp add: keep)
  qed
qed

lemma stream_step:
  assumes "stream_ok st" "stream_allowed net e st"
  shows "stream_good (run_stream net e st)"
proof (cases e)
  case Looks
  with assms show ?thesis by (simp add: stream_good_def stream_ok_def stream_bytes_def)
next
  case Stores
  with assms stores_step show ?thesis by blast
next
  case Copies
  with assms copies_step show ?thesis by blast
next
  case Hands
  with assms hands_step show ?thesis by blast
next
  case Joins
  with assms dests_step show ?thesis by blast
next
  case Leaves
  with assms dests_step show ?thesis by blast
next
  case Expires
  with assms dests_step show ?thesis by blast
next
  case Fetches
  with assms dests_step show ?thesis by blast
qed

interpretation stream: guarded_machine "run_stream net" "stream_allowed net" stream_ok for net
proof
  show "\<exists>r. run_stream net e st = Inr r" if "stream_ok st" "stream_allowed net e st" for net e st
    using stream_step [OF that] by (auto simp: stream_good_def)
  show "stream_ok st'" if "stream_ok st" "stream_allowed net e st" "run_stream net e st = Inr (Some st')"
    for net e st st'
    using stream_step [OF that(1,2)] that(3) by (auto simp: stream_good_def)
qed

lemma copies_length: "run_stream net e st = Inr (Some st') \<Longrightarrow> length (st_copies st') = length (st_copies st)"
  by (cases e) (auto simp: bind_res_Inr split: option.splits)

section \<open>Order\<close>

text \<open>C24. Though the writer looks for room before it takes the buffer's mutex, and whatever the threads do in
  between, no packet is stored past the end of the buffer and no step faults. What was handed over, what
  the threads carry and what waits are never more than the bytes stored, and exactly these as long as every
  packet fitted. A session with one destination thread keeps them in order: what it hands over are the bytes
  stored without those that were dumped, and all of them from the first on when none was. And every destination
  that sends, writes or streams puts out, in order and none twice, what waited in it when it joined and what was
  handed over since: what went out of it and what waits in its buffer is a subsequence of that, and all of
  it if its own buffer always had room.\<close>
theorem stream_stays_in_order:
  assumes "runs (run_stream net) (stream_allowed net) s0 es s" "stream_ok s0"
  shows "mset (stream_bytes s) \<subseteq># mset (st_in s)
    \<and> (st_dumps s = 0 \<longrightarrow> mset (stream_bytes s) = mset (st_in s))
    \<and> (length (st_copies s0) = 1 \<longrightarrow> subseq (stream_bytes s) (st_in s)
         \<and> (st_dumps s = 0 \<longrightarrow> stream_bytes s = st_in s))
    \<and> length (st_follow s) = length (st_dests s)
    \<and> (\<forall>k < length (st_dests s). let d = st_dests s ! k; f = st_follow s ! k;
           given = fl_start f @ drop (fl_from f) (st_handed s) in
         receives d \<longrightarrow> subseq (fl_out f @ buf_pending d) given
           \<and> (fl_dumps f = 0 \<longrightarrow> fl_out f @ buf_pending d = given))
    \<and> (\<forall>e. \<not> stream_allowed net e s \<or> \<not> isl (run_stream net e s))"
proof -
  have "length (st_copies s) = length (st_copies s0)"
    by (rule stream.reachable_keeps [OF assms]) (rule copies_length)
  moreover have ok: "stream_ok s" by (rule stream.reachable_inv [OF assms])
  then have k: "kept_of (length (st_copies s)) (st_dumps s) (stream_bytes s) (st_in s)"
    and f: "list_all2 (follow_ok (st_handed s)) (st_dests s) (st_follow s)"
    by (simp_all add: stream_ok_def)
  moreover have "\<not> stream_allowed net e s \<or> \<not> isl (run_stream net e s)" for e
    using stream.reachable_no_fault [OF assms] by fastforce
  moreover have "length (st_follow s) = length (st_dests s)" using f by (simp add: list_all2_lengthD)
  moreover have "follow_ok (st_handed s) (st_dests s ! k) (st_follow s ! k)" if "k < length (st_dests s)" for k
    using f that by (rule list_all2_nthD)
  ultimately show ?thesis using kept_of_whole [of "stream_bytes s" "st_in s"]
    by (auto simp: kept_of_def follow_ok_def Let_def)
qed

lemma write_runs:
  assumes "sbuf_ok (st_sess st)" "st_write st = None" "buffer_room (st_sess st) data"
  obtains s where "runs (run_stream net) (stream_allowed net) st [Looks data, Stores]
      (st\<lparr>st_sess := s, st_in := st_in st @ data\<rparr>)"
    "sbuf_ok s" "destination_ll s = destination_ll (st_sess st)"
    "sbuf_pending s = sbuf_pending (st_sess st) @ data"
proof -
  have l: "length data < SESSION_BUFFER" using assms(3) by (simp add: buffer_room_def)
  obtain s where s: "store_packet (st_sess st) data True = Inr s" "sbuf_ok s"
    "destination_ll s = destination_ll (st_sess st)" "sbuf_pending s = sbuf_pending (st_sess st) @ data"
    using store_packet_ok [OF assms(1) l, of True] assms(3) by auto
  let ?st1 = "st\<lparr>st_write := Some (data, True)\<rparr>"
  have "runs (run_stream net) (stream_allowed net) st [Looks data] ?st1"
    using assms l by (intro runs_one) simp_all
  moreover have "stream_allowed net Stores ?st1" by simp
  moreover have "run_stream net Stores ?st1 = Inr (Some (st\<lparr>st_sess := s, st_in := st_in st @ data\<rparr>))"
    using s(1) assms(2) by simp
  ultimately have "runs (run_stream net) (stream_allowed net) st ([Looks data] @ [Stores])
      (st\<lparr>st_sess := s, st_in := st_in st @ data\<rparr>)"
    by (rule runs.event)
  with s(2-4) that show thesis by simp
qed

lemma copy_runs:
  assumes "sbuf_ok (st_sess st)" "i < length (st_copies st)" "st_copies st ! i = None"
  shows "runs (run_stream net) (stream_allowed net) st [Copies i]
    (st\<lparr>st_sess := (st_sess st)\<lparr>bufferPtr := 0\<rparr>,
        st_copies := (st_copies st)[i := Some (sbuf_pending (st_sess st))]\<rparr>)"
  using assms by (intro runs_one) (simp_all add: session_drain_def sbuf_ok_def sbuf_pending_def)

lemma http_runs:
  assumes "destination_ll (st_sess st) = [d]" "buf_ok d" "destination_type d = dest_http" "\<not> expired d"
    and "i < length (st_copies st)" "st_copies st ! i = Some data" "net_ok net"
    and "bufptr d + length data < bufferSize d" "length (st_follow st) = 1"
  obtains d' where "runs (run_stream net) (stream_allowed net) st [Hands i wt due]
      (st\<lparr>st_sess := (st_sess st)\<lparr>destination_ll := [d']\<rparr>, st_copies := (st_copies st)[i := None],
          st_handed := st_handed st @ data, st_follow := st_follow st\<rparr>)"
    "buf_ok d'" "destination_type d' = dest_http" "\<not> expired d'" "bufferSize d' = bufferSize d"
    "buf_pending d' = buf_pending d @ data"
proof -
  obtain d' where d': "destination_addToBuffer d data = Inr d'" "buf_ok d'" "bufferSize d' = bufferSize d"
    "destination_type d' = destination_type d" "expired d' = expired d" "buf_pending d' = buf_pending d @ data"
    using addToBuffer_ok [OF assms(2), of data] assms(8) by auto
  then have "destination_process net wt due [d] data = Inr (Some ([d'], [[]]))"
    using assms(3,4) by (simp add: deliver_def destination_processHTTP_def)
  moreover obtain f where "st_follow st = [f]" using assms(9) by (auto simp: length_Suc_conv)
  then have "follow_pass [d] data [[]] (st_follow st) = st_follow st" using assms(4,8) by (simp add: add.commute)
  ultimately have "runs (run_stream net) (stream_allowed net) st [Hands i wt due]
      (st\<lparr>st_sess := (st_sess st)\<lparr>destination_ll := [d']\<rparr>, st_copies := (st_copies st)[i := None],
          st_handed := st_handed st @ data, st_follow := st_follow st\<rparr>)"
    using assms by (intro runs_one) (simp_all del: destination_process.simps follow_pass.simps)
  with d' assms(3,4) that show thesis by simp
qed

section \<open>Two threads\<close>

text \<open>
  A session on a tuner that was free has two destination threads. One copies a packet and is overtaken
  by the other, and a web client reads the second packet before the first.
\<close>

lemma two_threads_reorder:
  assumes "st_copies st = [None, None]" "st_write st = None" "sbuf_ok (st_sess st)" "bufferPtr (st_sess st) = 0"
    and "length a < SESSION_BUFFER" "length b < SESSION_BUFFER" "net_ok net"
    and "destination_ll (st_sess st) = [d]" "buf_ok d" "destination_type d = dest_http" "\<not> expired d"
    and "bufptr d + length a + length b < bufferSize d" "length (st_follow st) = 1"
  shows "\<exists>st' d'. runs (run_stream net) (stream_allowed net) st ([Looks a, Stores] @ [Copies 0] @
      [Looks b, Stores] @ [Copies 1] @ [Hands 1 wt due] @ [Hands 0 wt due]) st'
    \<and> st_in st' = st_in st @ a @ b \<and> st_dumps st' = st_dumps st
    \<and> destination_ll (st_sess st') = [d'] \<and> buf_pending d' = buf_pending d @ b @ a"
proof -
  have empty: "sbuf_pending s = []" if "bufferPtr s = 0" for s using that by (simp add: sbuf_pending_def)
  obtain s1 where 1: "runs (run_stream net) (stream_allowed net) st [Looks a, Stores]
      (st\<lparr>st_sess := s1, st_in := st_in st @ a\<rparr>)" "sbuf_ok s1" "destination_ll s1 = [d]" "sbuf_pending s1 = a"
    using write_runs [OF assms(3,2), of a net] assms(4,5,8) empty by (auto simp: buffer_room_def)
  let ?st1 = "st\<lparr>st_sess := s1, st_in := st_in st @ a\<rparr>"
  let ?st2 = "?st1\<lparr>st_sess := s1\<lparr>bufferPtr := 0\<rparr>, st_copies := [Some a, None]\<rparr>"
  have 2: "runs (run_stream net) (stream_allowed net) ?st1 [Copies 0] ?st2"
    using copy_runs [of ?st1 0 net] 1(2,4) assms(1) by simp
  have "sbuf_ok (s1\<lparr>bufferPtr := 0\<rparr>)" using 1(2) by (simp add: sbuf_ok_def)
  then obtain s3 where 3: "runs (run_stream net) (stream_allowed net) ?st2 [Looks b, Stores]
      (?st2\<lparr>st_sess := s3, st_in := st_in st @ a @ b\<rparr>)" "sbuf_ok s3" "destination_ll s3 = [d]" "sbuf_pending s3 = b"
    using write_runs [of ?st2 b net] assms(2,6) 1(3) empty by (auto simp: buffer_room_def)
  let ?st3 = "?st2\<lparr>st_sess := s3, st_in := st_in st @ a @ b\<rparr>"
  let ?st4 = "?st3\<lparr>st_sess := s3\<lparr>bufferPtr := 0\<rparr>, st_copies := [Some a, Some b]\<rparr>"
  have 4: "runs (run_stream net) (stream_allowed net) ?st3 [Copies 1] ?st4"
    using copy_runs [of ?st3 1 net] 3(2,4) by simp
  obtain d1 where 5: "runs (run_stream net) (stream_allowed net) ?st4 [Hands 1 wt due]
      (?st4\<lparr>st_sess := s3\<lparr>bufferPtr := 0, destination_ll := [d1]\<rparr>, st_copies := [Some a, None],
          st_handed := st_handed st @ b\<rparr>)"
    "buf_ok d1" "destination_type d1 = dest_http" "\<not> expired d1" "bufferSize d1 = bufferSize d"
    "buf_pending d1 = buf_pending d @ b"
    using http_runs [of ?st4 d 1 b net wt due] 3(3) assms(7,9-13) by auto
  let ?st5 = "?st4\<lparr>st_sess := s3\<lparr>bufferPtr := 0, destination_ll := [d1]\<rparr>, st_copies := [Some a, None],
          st_handed := st_handed st @ b\<rparr>"
  have "bufptr d1 = bufptr d + length b"
    using length_pending [OF 5(2)] length_pending [OF assms(9)] 5(6) by simp
  then obtain d2 where 6: "runs (run_stream net) (stream_allowed net) ?st5 [Hands 0 wt due]
      (?st5\<lparr>st_sess := s3\<lparr>bufferPtr := 0, destination_ll := [d2]\<rparr>, st_copies := [None, None],
          st_handed := st_handed st @ b @ a\<rparr>)"
    "buf_pending d2 = buf_pending d1 @ a"
    using http_runs [of ?st5 d1 0 a net wt due] 5(2-5) assms(7,12,13) by auto
  from runs_trans [OF runs_trans [OF runs_trans [OF runs_trans [OF runs_trans [OF 6(1) 5(1)] 4] 3(1)] 2] 1(1)]
  show ?thesis using 5(6) 6(2) by fastforce
qed

section \<open>A stream at work\<close>

definition quiet_net :: net_env where
  "quiet_net = \<lparr>n_socket = 3, n_send = int, n_open = \<lambda>_. 4, n_write = int\<rparr>"

definition start_stream :: "nat \<Rightarrow> stream" where
  "start_stream n = \<lparr>st_sess = one_session\<lparr>destination_ll := [small_dest\<lparr>destination_type := dest_http\<rparr>]\<rparr>, st_write = None,
     st_copies = replicate n None, st_in = [], st_handed = [], st_dumps = 0,
     st_follow = [new_follow small_dest []]\<rparr>"

lemma start_stream_ok: "sbuf_ok (st_sess (start_stream n))" "bufferPtr (st_sess (start_stream n)) = 0"
  "length (st_follow (start_stream n)) = 1"
  using one_session_buffer
  by (simp_all add: start_stream_def sbuf_ok_def one_session_def new_session_def SESSION_BUFFER_def)

text \<open>A destination with an open socket that sends once more than 1880 bytes are waiting.\<close>

definition mcast_dest :: destination_t where
  "mcast_dest = small_dest\<lparr>destination_type := dest_mcast, dbuffer := replicate 4096 0, bufferSize := 4096,
     bufptr := 0\<rparr>"

definition mcast_stream :: stream where
  "mcast_stream = \<lparr>st_sess = one_session\<lparr>destination_ll := [mcast_dest]\<rparr>, st_write = None, st_copies = [None],
     st_in = [], st_handed = [], st_dumps = 0, st_follow = [new_follow mcast_dest []]\<rparr>"

lemma mcast_dest_ok: "dest_ready mcast_dest" "buf_ok mcast_dest" "buf_pending mcast_dest = []"
  using small_dest_ok(4)
  by (simp_all add: mcast_dest_def small_dest_def dest_ready_def buf_ok_def buf_pending_def url_ok_def)

lemma mcast_stream_ok: "stream_ok mcast_stream"
  using mcast_dest_ok one_session_buffer
  by (simp add: stream_ok_def mcast_stream_def stream_bytes_def kept_of_def copied_def sbuf_ok_def sbuf_pending_def
      one_session_def new_session_def SESSION_BUFFER_def follow_ok_def new_follow_def buf_pending_def)

lemma mcast_sends:
  assumes "1880 < length data" "length data < 4096"
  shows "\<exists>d. destination_process quiet_net wt due [mcast_dest] data = Inr (Some ([d], [data])) \<and> receives d"
proof -
  have f: "dfd mcast_dest = 3" "destination_type mcast_dest = dest_mcast" "\<not> expired mcast_dest"
    "bufptr mcast_dest = 0" "bufferSize mcast_dest = 4096"
    by (simp_all add: mcast_dest_def small_dest_def)
  obtain d1 where 1: "destination_addToBuffer mcast_dest data = Inr d1" "buf_ok d1" "dfd d1 = 3" "buf_pending d1 = data"
    using addToBuffer_ok [OF mcast_dest_ok(2), of data] f mcast_dest_ok(3) assms(2) by auto
  have b: "bufptr d1 = length data" using length_pending [OF 1(2)] 1(4) by simp
  obtain d2 where 2: "take_sent d1 (length data) = Inr (d2, data)"
    using take_sent_ok [OF 1(2), of "length data"] b 1(4) by auto
  have "deliver quiet_net wt due mcast_dest data = Inr (Some d2, data)"
    using 1 2 b assms(1) f(2)
    by (simp add: deliver_def destination_processMCAST_def open_socket_def send_buffer_def quiet_net_def)
  moreover from deliver_frame [OF this] f(2) have "receives d2" by (simp add: receives_def same_dest_def)
  ultimately show ?thesis using f(3) by simp
qed

lemma stream_stays_in_order_witness:
  "\<exists>s d f. runs (run_stream quiet_net) (stream_allowed quiet_net) mcast_stream
        (([Looks (replicate 2000 7), Stores] @ [Copies 0]) @ [Hands 0 0 False]) s
     \<and> stream_bytes s = replicate 2000 7 \<and> st_dests s = [d] \<and> st_follow s = [f] \<and> receives d
     \<and> fl_out f = replicate 2000 7 \<and> fl_dumps f = 0 \<and> fl_out f @ buf_pending d = replicate 2000 7"
proof -
  let ?st = mcast_stream and ?data = "replicate 2000 7 :: byte list"
  let ?run = "run_stream quiet_net" and ?al = "stream_allowed quiet_net"
  have net: "net_ok quiet_net" by (simp add: net_ok_def quiet_net_def)
  have st: "sbuf_ok (st_sess ?st)" "bufferPtr (st_sess ?st) = 0" "st_dests ?st = [mcast_dest]" "st_in ?st = []"
    "st_handed ?st = []" "st_copies ?st = [None]" "st_write ?st = None" "st_dumps ?st = 0"
    "st_follow ?st = [new_follow mcast_dest []]"
    using mcast_stream_ok
    by (simp_all add: stream_ok_def) (simp_all add: mcast_stream_def one_session_def new_session_def)
  have "buffer_room (st_sess ?st) ?data" by (simp add: buffer_room_def st(2) SESSION_BUFFER_def)
  from write_runs [OF st(1,7) this, of quiet_net] obtain s1 where
    1: "runs ?run ?al ?st [Looks ?data, Stores] (?st\<lparr>st_sess := s1, st_in := ?data\<rparr>)"
      "sbuf_ok s1" "destination_ll s1 = [mcast_dest]" "sbuf_pending s1 = ?data"
    using st by (auto simp: sbuf_pending_def)
  let ?st1 = "?st\<lparr>st_sess := s1, st_in := ?data\<rparr>"
  let ?st2 = "?st1\<lparr>st_sess := s1\<lparr>bufferPtr := 0\<rparr>, st_copies := [Some ?data]\<rparr>"
  have 2: "runs ?run ?al ?st1 [Copies 0] ?st2" using copy_runs [of ?st1 0 quiet_net] 1(2,4) st(6) by simp
  have 3: "runs ?run ?al ?st ([Looks ?data, Stores] @ [Copies 0]) ?st2" by (rule runs_trans [OF 2 1(1)])
  obtain d where d: "destination_process quiet_net 0 False [mcast_dest] ?data = Inr (Some ([d], [?data]))" "receives d"
    using mcast_sends [of ?data 0 False] by auto
  let ?f = "(new_follow mcast_dest [])\<lparr>fl_out := ?data\<rparr>"
  have f: "follow_pass [mcast_dest] ?data [?data] [new_follow mcast_dest []] = [?f]"
    by (simp add: mcast_dest_def small_dest_def new_follow_def)
  let ?s = "?st2\<lparr>st_sess := s1\<lparr>bufferPtr := 0, destination_ll := [d]\<rparr>, st_copies := [None], st_handed := ?data,
      st_follow := [?f]\<rparr>"
  have "?al (Hands 0 0 False) ?st2" using net by simp
  moreover have "?run (Hands 0 0 False) ?st2 = Inr (Some ?s)"
    using d(1) f 1(3) st(5,6,9) by (simp del: destination_process.simps follow_pass.simps)
  ultimately have r: "runs ?run ?al ?st (([Looks ?data, Stores] @ [Copies 0]) @ [Hands 0 0 False]) ?s"
    using runs.event [OF 3] by blast
  have "stream_bytes ?s = ?data" "fl_out ?f @ buf_pending d = ?data"
    using stream_stays_in_order [OF r mcast_stream_ok] d(2) st(6,8)
    by (auto simp: Let_def new_follow_def mcast_dest_def small_dest_def)
  with r d(2) show ?thesis
    by (intro exI [of _ ?s] exI [of _ d] exI [of _ ?f]) (simp add: new_follow_def)
qed

lemma two_threads_reorder_witness:
  "\<exists>st' d'. runs (run_stream quiet_net) (stream_allowed quiet_net) (start_stream 2) ([Looks [7], Stores] @ [Copies 0] @
      [Looks [8], Stores] @ [Copies 1] @ [Hands 1 0 False] @ [Hands 0 0 False]) st'
    \<and> st_in st' = [7, 8] \<and> destination_ll (st_sess st') = [d'] \<and> buf_pending d' = [1, 2, 3, 8, 7]"
proof -
  let ?d = "small_dest\<lparr>destination_type := dest_http\<rparr>" and ?st = "start_stream 2"
  have "net_ok quiet_net" by (simp add: net_ok_def quiet_net_def)
  moreover have "st_copies ?st = [None, None]" "st_write ?st = None" "destination_ll (st_sess ?st) = [?d]"
    "st_in ?st = []" "length (st_follow ?st) = 1" by (simp_all add: start_stream_def numeral_2_eq_2)
  moreover have "buf_ok ?d" "destination_type ?d = dest_http" "\<not> expired ?d" "buf_pending ?d = [1, 2, 3]"
    "bufptr ?d + length [7 :: byte] + length [8 :: byte] < bufferSize ?d"
    by (simp_all add: small_dest_def buf_ok_def buf_pending_def)
  moreover have "length [7 :: byte] < SESSION_BUFFER" "length [8 :: byte] < SESSION_BUFFER"
    by (simp_all add: SESSION_BUFFER_def)
  ultimately show ?thesis
    using two_threads_reorder [of ?st "[7]" "[8]" quiet_net ?d 0 False] start_stream_ok(1,2) by auto
qed

end
