(* ===== verification/Requests.thy ===== *)
theory Requests
  imports System
begin

text \<open>
  Requests of several web connections at once. \<^verbatim>\<open>session_addNew\<close> gives the mutex of the session list
  back between looking for a session of the channel, choosing a tuner and entering the new session,
  so that requests, stops and passes of the threads come in between. Each stretch between two points
  where others may run is a step here.
\<close>

section \<open>Requests and their steps\<close>

text \<open>
  How far a request has come. \<open>Found\<close> is a session that serves the channel, by the name of the object
  the request keeps a pointer to, with the answer it read there; \<open>Chosen\<close> a tuner that was counted up
  for it and the channel on it.
\<close>

datatype phase =
    Asked
  | Checked
  | Found nat u64
  | Missing
  | Chosen nat "nat \<times> nat"
  | Answered u64

record request =
  r_rnd :: u64
  r_onid :: u16
  r_channel :: u16
  r_dest :: destination_t
  r_phase :: phase

text \<open>Sessions have names, which stand for their addresses; \<open>rq_next\<close> has not been used yet.\<close>

record requests =
  rq_sys :: system
  rq_names :: "nat list"
  rq_next :: nat
  rq_open :: "request list"

definition placed :: "request \<Rightarrow> nat \<Rightarrow> nat \<times> nat \<Rightarrow> session_service_t" where
  "placed r k c = (new_session (r_rnd r))\<lparr>s_tuner := k, s_channel := c, s_onid := r_onid r,
     s_channel_id := r_channel r, destination_ll := [r_dest r]\<rparr>"

abbreviation rq_server :: "requests \<Rightarrow> server" where
  "rq_server S \<equiv> sys_server (rq_sys S)"

abbreviation put_sessions :: "requests \<Rightarrow> session_service_t list \<Rightarrow> requests" where
  "put_sessions S ss \<equiv> S\<lparr>rq_sys := put_server (rq_sys S) ((rq_server S)\<lparr>sessions := ss\<rparr>)\<rparr>"

definition request_step :: "dvb_env \<Rightarrow> request \<Rightarrow> requests \<Rightarrow> (phase \<times> requests) res" where
  "request_step env r S =
     (let st = rq_server S; d = r_dest r in
      case r_phase r of
        Asked \<Rightarrow>
          if channel_OK (tuners st) (uint (r_onid r)) (uint (r_channel r)) 0 = -1 then Inr (Answered 0, S)
          else Inr (Checked, put_sessions S
                 (if destination_type d = dest_live \<or> destination_type d = dest_live2
                  then session_stop_type (destination_type d) (sessions st) else sessions st))
      | Checked \<Rightarrow>
          (case find_index (\<lambda>s. s_onid s = r_onid r \<and> s_channel_id s = r_channel r) (sessions st) of
             Some k \<Rightarrow> Inr (Found (rq_names S ! k) (sessionID (sessions st ! k)), S)
           | None \<Rightarrow> Inr (Missing, S))
      | Found n rc \<Rightarrow>
          (case find_index (\<lambda>x. x = n) (rq_names S) of
             None \<Rightarrow> Inl BadPointer
           | Some k \<Rightarrow>
               Inr (Answered rc, put_sessions S ((sessions st)[k := append_dest d (sessions st ! k)])))
      | Missing \<Rightarrow>
          bind_res (choose_tuner env (uint (r_onid r)) (uint (r_channel r)) 0 (tuners st)) (\<lambda>(found, ts, _).
            let S' = S\<lparr>rq_sys := put_server (rq_sys S) (st\<lparr>tuners := ts\<rparr>)\<rparr> in
            Inr (case found of None \<Rightarrow> (Answered 0, S') | Some (k, c, _) \<Rightarrow> (Chosen k c, S')))
      | Chosen k c \<Rightarrow>
          bind_res (tuner_at (tuners st) k) (\<lambda>t.
          bind_res (channel_at t c) (\<lambda>x.
            Inr (Answered (sessionID (placed r k c)),
                 (put_sessions S (sessions st @ [(placed r k c)\<lparr>pmt_program := service_id x\<rparr>]))
                   \<lparr>rq_names := rq_names S @ [rq_next S], rq_next := Suc (rq_next S)\<rparr>)))
      | Answered rc \<Rightarrow> Inr (Answered rc, S))"

section \<open>The machine\<close>

datatype request_event =
    Arrives u64 u16 u16 destination_t
  | Goes nat
  | Elsewhere event             \<comment> \<open>all but requests\<close>

text \<open>The names of the sessions that are left.\<close>

fun names_after :: "event \<Rightarrow> session_service_t list \<Rightarrow> nat list \<Rightarrow> nat list" where
  "names_after (Stop sid) ss ns =
     (case find_index (\<lambda>s. sessionID s = sid) ss of
        None \<Rightarrow> ns | Some k \<Rightarrow> take k ns @ drop (Suc k) ns)"
| "names_after (Reap now) ss ns = map snd (filter (\<lambda>(s, n). destination_ll s \<noteq> []) (zip ss ns))"
| "names_after e ss ns = ns"

fun run_requests :: "world \<Rightarrow> (request_event, requests) machine" where
  "run_requests w (Arrives rnd onid ch d) S =
     Inr (Some (S\<lparr>rq_open := rq_open S @
       [\<lparr>r_rnd = rnd, r_onid = onid, r_channel = ch, r_dest = d, r_phase = Asked\<rparr>]\<rparr>))"
| "run_requests w (Goes j) S =
     bind_res (request_step (w_dvb w) (rq_open S ! j) S) (\<lambda>(p, S').
       Inr (Some (S'\<lparr>rq_open := (rq_open S)[j := (rq_open S ! j)\<lparr>r_phase := p\<rparr>]\<rparr>)))"
| "run_requests w (Elsewhere e) S =
     bind_res (run_event w e (rq_sys S)) (\<lambda>r.
       Inr (map_option (\<lambda>sy. S\<lparr>rq_sys := sy, rq_names := names_after e (sessions (rq_server S)) (rq_names S)\<rparr>) r))"

text \<open>
  What the other threads are asked is that of System: destinations come as \<^verbatim>\<open>destination_create\<close> makes
  them, and so on. Requests go on whenever they can, also to join a session that is gone.
\<close>

fun requests_allowed :: "world \<Rightarrow> request_event \<Rightarrow> requests \<Rightarrow> bool" where
  "requests_allowed w (Arrives rnd onid ch d) S = dest_ready d"
| "requests_allowed w (Goes j) S \<longleftrightarrow> j < length (rq_open S) \<and>
     (case r_phase (rq_open S ! j) of Answered _ \<Rightarrow> False | _ \<Rightarrow> True)"
| "requests_allowed w (Elsewhere e) S \<longleftrightarrow>
     (case e of Request _ _ _ _ \<Rightarrow> False | _ \<Rightarrow> True) \<and> allowed w e (rq_sys S)"

text \<open>The request is about to join a session that has ended since it found it; the code does not check it.\<close>

fun joins_gone :: "request_event \<Rightarrow> requests \<Rightarrow> bool" where
  "joins_gone (Goes j) S =
     (case r_phase (rq_open S ! j) of Found n _ \<Rightarrow> n \<notin> set (rq_names S) | _ \<Rightarrow> False)"
| "joins_gone e S = False"

section \<open>Counting\<close>

text \<open>A chosen tuner counts for the session that will be entered.\<close>

definition coming :: "request \<Rightarrow> session_service_t list" where
  "coming r = (case r_phase r of Chosen k c \<Rightarrow> [placed r k c] | _ \<Rightarrow> [])"

definition all_coming :: "request list \<Rightarrow> session_service_t list" where
  "all_coming rs = concat (map coming rs)"

definition users :: "requests \<Rightarrow> nat \<Rightarrow> nat" where
  "users S i = refs (sessions (rq_server S)) i
     + length (filter (\<lambda>r. case r_phase r of Chosen k c \<Rightarrow> k = i | _ \<Rightarrow> False) (rq_open S))"

definition requests_ok :: "requests \<Rightarrow> bool" where
  "requests_ok S \<longleftrightarrow>
     counted (tuners (rq_server S)) (sessions (rq_server S) @ all_coming (rq_open S))
     \<and> Ball (dests (sessions (rq_server S))) dest_ready
     \<and> (\<forall>r \<in> set (rq_open S). dest_ready (r_dest r))
     \<and> length (rq_names S) = length (sessions (rq_server S))
     \<and> distinct (rq_names S) \<and> (\<forall>n \<in> set (rq_names S). n < rq_next S)"

lemma refs_coming:
  "refs (all_coming rs) i = length (filter (\<lambda>r. case r_phase r of Chosen k c \<Rightarrow> k = i | _ \<Rightarrow> False) rs)"
  by (induction rs) (auto simp: all_coming_def coming_def placed_def split: phase.split)

lemma users_refs: "users S i = refs (sessions (rq_server S) @ all_coming (rq_open S)) i"
  by (simp add: users_def refs_coming)

lemma coming_update:
  assumes "j < length rs"
  shows "refs (all_coming (rs[j := r])) i + refs (coming (rs ! j)) i
    = refs (all_coming rs) i + refs (coming r) i"
  using assms
proof (induction rs arbitrary: j)
  case (Cons x xs)
  then show ?case by (cases j) (auto simp: all_coming_def)
qed simp

lemma coming_update_set: "set (all_coming (rs[j := r])) \<subseteq> set (all_coming rs) \<union> set (coming r)"
  using set_update_subset_insert [of rs j r] by (auto simp: all_coming_def)

lemma coming_update_same:
  assumes "coming r = []" "coming (rs ! j) = []"
  shows "all_coming (rs[j := r]) = all_coming rs"
proof (cases "j < length rs")
  case True
  then have "map coming (rs[j := r]) = map coming rs" by (intro map_update_same) (simp add: assms)
  then show ?thesis by (simp add: all_coming_def)
qed (simp add: list_update_beyond)

text \<open>Sessions may change in what does not matter for the count, and tuners in what they keep.\<close>

lemma counted_same:
  assumes "counted ts xs" "map s_tuner ys = map s_tuner xs" "\<And>y. y \<in> set ys \<Longrightarrow> sess_ok ts y"
  shows "counted ts ys"
  using assms refs_cong [OF assms(2)] by (simp add: counted_def)

lemma counted_cong:
  assumes "counted ts xs" "map frequency_ll ts' = map frequency_ll ts"
    and "\<And>i. i < length ts \<Longrightarrow> tuner_inv (ts' ! i) (refs ys i)"
    and "\<And>y. y \<in> set ys \<Longrightarrow> y \<in> set xs \<or> sess_ok ts' y"
  shows "counted ts' ys"
proof -
  have "length ts' = length ts" using assms(2) by (rule map_eq_imp_length_eq)
  with assms sess_ok_cong [OF assms(2)] show ?thesis unfolding counted_def by metis
qed

section \<open>What other threads do\<close>

text \<open>The sessions \<open>ys\<close> are to come; \<open>ns'\<close> are the names after the event.\<close>

definition good_event :: "event \<Rightarrow> session_service_t list \<Rightarrow> nat list \<Rightarrow> system \<Rightarrow> system option res \<Rightarrow> bool" where
  "good_event e ys ns sy r \<longleftrightarrow> (\<exists>x. r = Inr x \<and> (\<forall>sy'. x = Some sy' \<longrightarrow>
     counted (tuners (sys_server sy')) (sessions (sys_server sy') @ ys)
     \<and> Ball (dests (sessions (sys_server sy'))) dest_ready
     \<and> length (names_after e (sessions (sys_server sy)) ns) = length (sessions (sys_server sy'))
     \<and> (\<forall>i < length (tuners (sys_server sy)). 0 < refs (sessions (sys_server sy) @ ys) i
          \<longrightarrow> tuning (tuners (sys_server sy') ! i) = tuning (tuners (sys_server sy) ! i))))"

lemma good_eventI:
  assumes "r = Inr (Some sy')" "counted (tuners (sys_server sy')) (sessions (sys_server sy') @ ys)"
    and "Ball (dests (sessions (sys_server sy'))) dest_ready"
    and "length (names_after e (sessions (sys_server sy)) ns) = length (sessions (sys_server sy'))"
    and "\<And>i. i < length (tuners (sys_server sy)) \<Longrightarrow> 0 < refs (sessions (sys_server sy) @ ys) i
      \<Longrightarrow> tuning (tuners (sys_server sy') ! i) = tuning (tuners (sys_server sy) ! i)"
  shows "good_event e ys ns sy r"
  using assms by (simp add: good_event_def)

lemma same_tuning:
  "map tuning ts' = map tuning ts \<Longrightarrow> i < length ts \<Longrightarrow> tuning (ts' ! i) = tuning (ts ! i)"
  by (metis map_eq_imp_length_eq nth_map)

definition sound :: "system \<Rightarrow> session_service_t list \<Rightarrow> nat list \<Rightarrow> bool" where
  "sound sy ys ns \<longleftrightarrow> counted (tuners (sys_server sy)) (sessions (sys_server sy) @ ys)
     \<and> Ball (dests (sessions (sys_server sy))) dest_ready \<and> length ns = length (sessions (sys_server sy))"

lemma soundD:
  assumes "sound sy ys ns"
  shows "counted (tuners (sys_server sy)) (sessions (sys_server sy) @ ys)"
    "Ball (dests (sessions (sys_server sy))) dest_ready" "length ns = length (sessions (sys_server sy))"
  using assms by (simp_all add: sound_def)

lemma stop_event:
  assumes "sound sy ys ns"
  shows "good_event (Stop sid) ys ns sy (run_event w (Stop sid) sy)"
proof (cases "find_index (\<lambda>s. sessionID s = sid) (sessions (sys_server sy))")
  case None
  then have "session_stop sid (sys_server sy) = Inr (-1, sys_server sy, [], [])"
    by (simp add: session_stop_def)
  with None soundD [OF assms] show ?thesis by (intro good_eventI [where sy' = sy]) simp_all
next
  case (Some k)
  let ?st = "sys_server sy"
  let ?s = "sessions ?st ! k" and ?rest = "take k (sessions ?st) @ drop (Suc k) (sessions ?st)"
  note count = soundD(1) [OF assms] and ready = soundD(2) [OF assms] and names = soundD(3) [OF assms]
  note fk = find_index_split [OF Some]
  have refs: "refs (sessions ?st @ ys) i
      = (if s_tuner ?s = i then Suc (refs (?rest @ ys) i) else refs (?rest @ ys) i)" for i
    by (subst fk(3)) simp
  have ok: "sess_ok (tuners ?st) ?s" using count fk(1) by (simp add: counted_def)
  then have j: "s_tuner ?s < length (tuners ?st)" by (simp add: sess_ok_def)
  then have "tuner_inv (tuners ?st ! s_tuner ?s) (Suc (refs (?rest @ ys) (s_tuner ?s)))"
    using count refs [of "s_tuner ?s"] unfolding counted_def by metis
  moreover have "\<exists>c. channel_at (tuners ?st ! s_tuner ?s) (s_channel ?s) = Inr c" "pl_ok ?s"
    using ok by (simp_all add: sess_ok_def)
  ultimately obtain t calls where t: "release_tuner (tuners ?st ! s_tuner ?s) ?s = Inr (t, calls)"
    "tuner_inv t (refs (?rest @ ys) (s_tuner ?s))"
    "frequency_ll t = frequency_ll (tuners ?st ! s_tuner ?s)"
    using release_tuner_ok by blast
  let ?st' = "?st\<lparr>tuners := (tuners ?st)[s_tuner ?s := t], sessions := ?rest\<rparr>"
  have stop: "session_stop sid ?st = Inr (0, ?st', calls, destination_close_all (destination_ll ?s))"
    using Some j t(1) by (simp add: session_stop_def tuner_at_def Let_def)
  have sub: "set ?rest \<subseteq> set (sessions ?st)" using set_take_subset set_drop_subset by fastforce
  have "counted (tuners ?st') (sessions ?st' @ ys)"
  proof (rule counted_cong [OF count])
    show "map frequency_ll (tuners ?st') = map frequency_ll (tuners ?st)"
      using t(3) by (simp add: map_update_same)
    show "tuner_inv (tuners ?st' ! i) (refs (sessions ?st' @ ys) i)" if "i < length (tuners ?st)" for i
    proof (cases "i = s_tuner ?s")
      case True
      then show ?thesis using t(2) that by simp
    next
      case False
      have "tuner_inv (tuners ?st ! i) (refs (sessions ?st @ ys) i)" using count that by (simp add: counted_def)
      with False refs [of i] show ?thesis by (simp del: refs_simps)
    qed
  qed (use sub in auto)
  moreover have "Ball (dests (sessions ?st')) dest_ready" using ready sub by (auto simp: dests_def)
  moreover have "map tuning (tuners ?st') = map tuning (tuners ?st)" by (rule session_stop_tuning [OF stop])
  then have "tuning (tuners ?st' ! i) = tuning (tuners ?st ! i)" if "i < length (tuners ?st)" for i
    using that by (rule same_tuning)
  moreover have "length (names_after (Stop sid) (sessions ?st) ns) = length ?rest"
    using Some names fk(1) by simp
  moreover have "run_event w (Stop sid) sy = Inr (Some (put_server sy ?st'))" using stop by simp
  ultimately show ?thesis by (intro good_eventI [where sy' = "put_server sy ?st'"]) auto
qed

lemma reap_event:
  assumes "sound sy ys ns"
  shows "good_event (Reap now) ys ns sy (run_event w (Reap now) sy)"
proof -
  note count = soundD(1) [OF assms] and ready = soundD(2) [OF assms] and names = soundD(3) [OF assms]
  let ?st = "sys_server sy"
  let ?keep = "filter (\<lambda>s. destination_ll s \<noteq> []) (sessions ?st)"
  have "\<forall>i < length (tuners ?st). tuner_inv (tuners ?st ! i) (refs ys i + refs (sessions ?st) i)"
    "\<forall>s \<in> set (sessions ?st). sess_ok (tuners ?st) s"
    using count by (simp_all add: counted_def add.commute)
  from thread_pass_ok [OF this, of now] obtain ts calls where
    r: "session_thread_pass now (tuners ?st) (sessions ?st) = Inr (ts, map (update_bandwidth now) ?keep, calls)"
    "map frequency_ll ts = map frequency_ll (tuners ?st)"
    "\<forall>i < length ts. tuner_inv (ts ! i) (refs ys i + refs ?keep i)" by auto
  let ?ss = "map (update_bandwidth now) ?keep"
  have len: "length ts = length (tuners ?st)" using r(2) by (rule map_eq_imp_length_eq)
  have "refs ?ss i = refs ?keep i" for i by (rule refs_cong) simp
  then have "tuner_inv (ts ! i) (refs (?ss @ ys) i)" if "i < length (tuners ?st)" for i
    using r(3) that len by (simp only: refs_simps add.commute)
  moreover have "sess_ok ts y" if "y \<in> set (?ss @ ys)" for y
    using that count sess_ok_cong [OF r(2)] by (auto simp: counted_def)
  ultimately have "counted ts (?ss @ ys)" by (intro counted_cong [OF count r(2)]) blast+
  moreover have "Ball (dests ?ss) dest_ready" using ready by (auto simp: dests_def)
  moreover have "length (names_after (Reap now) (sessions ?st) ns) = length ?ss"
  proof -
    have "map fst (filter (\<lambda>(s, n). destination_ll s \<noteq> []) (zip ss ns)) = filter (\<lambda>s. destination_ll s \<noteq> []) ss"
      if "length ns = length ss" for ss :: "session_service_t list" and ns :: "nat list"
      using that by (induction ss ns rule: list_induct2') auto
    from this [OF names] show ?thesis by (metis length_map names_after.simps(2))
  qed
  moreover have "tuning (ts ! i) = tuning (tuners ?st ! i)" if "i < length (tuners ?st)" for i
    using thread_pass_tuning [OF r(1)] that by (rule same_tuning)
  moreover have "run_event w (Reap now) sy = Inr (Some (put_server sy (?st\<lparr>tuners := ts, sessions := ?ss\<rparr>)))"
    using r(1) by simp
  ultimately show ?thesis
    by (intro good_eventI [where sy' = "put_server sy (?st\<lparr>tuners := ts, sessions := ?ss\<rparr>)"]) auto
qed

text \<open>An event that changes one tuner and no session.\<close>

lemma one_tuner_event:
  assumes "sound sy ys ns" "i < length (tuners (sys_server sy))"
    and "counted ((tuners (sys_server sy))[i := t]) (sessions (sys_server sy) @ ys)"
    and "0 < refs (sessions (sys_server sy) @ ys) i \<Longrightarrow> tuning t = tuning (tuners (sys_server sy) ! i)"
    and "names_after e (sessions (sys_server sy)) ns = ns"
    and "r = Inr (Some ((put_tuner sy i t)\<lparr>sys_scan := x\<rparr>))"
  shows "good_event e ys ns sy r"
proof (rule good_eventI [OF assms(6)])
  fix k assume "k < length (tuners (sys_server sy))" "0 < refs (sessions (sys_server sy) @ ys) k"
  with assms(2,4) show "tuning (tuners (sys_server ((put_tuner sy i t)\<lparr>sys_scan := x\<rparr>)) ! k)
      = tuning (tuners (sys_server sy) ! k)"
    by (cases "k = i") simp_all
qed (use assms(3,5) soundD [OF assms(1)] in simp_all)

lemma stays_event:
  assumes "sound sy ys ns" "i < length (tuners (sys_server sy))"
    and "stays (tuners (sys_server sy) ! i) t" "names_after e (sessions (sys_server sy)) ns = ns"
    and "r = Inr (Some (put_tuner sy i t))"
  shows "good_event e ys ns sy r"
proof (rule one_tuner_event [OF assms(1,2) _ _ assms(4)])
  show "counted ((tuners (sys_server sy))[i := t]) (sessions (sys_server sy) @ ys)"
    by (rule counted_stays [OF soundD(1) [OF assms(1)] assms(2,3)])
  obtain f where "t = (tuners (sys_server sy) ! i)\<lparr>frequency_ll := f\<rparr>"
    using assms(3) grown_update unfolding stays_def by blast
  then show "tuning t = tuning (tuners (sys_server sy) ! i)" by simp
  show "r = Inr (Some ((put_tuner sy i t)\<lparr>sys_scan := sys_scan sy\<rparr>))" using assms(5) by simp
qed

lemma sound_device:
  assumes "sound sy ys ns" "has_device sy i"
  shows "tables_ok (tuners (sys_server sy) ! i)" "curr_frequency (tuners (sys_server sy) ! i) \<noteq> None"
    "i < length (tuners (sys_server sy))"
  using assms by (auto simp: sound_def counted_def has_device_def Let_def tuner_inv_def tunable_def)

lemma pat_event:
  assumes "sound sy ys ns" "has_device sy i"
  shows "good_event (Pat i ps) ys ns sy (run_event w (Pat i ps) sy)"
proof -
  note d = sound_device [OF assms]
  from process_pat_stays [OF d(1,2), of ps] obtain t where
    t: "process_pat ps (tuners (sys_server sy) ! i) = Inr t" "stays (tuners (sys_server sy) ! i) t"
    by blast
  show ?thesis by (rule stays_event [OF assms(1) d(3) t(2)]) (simp_all add: tuner_at_def d(3) t(1))
qed

lemma sdt_event:
  assumes "sound sy ys ns" "has_device sy i" "sdt_fits (w_psi w) s"
  shows "good_event (Sdt i s) ys ns sy (run_event w (Sdt i s) sy)"
proof -
  note d = sound_device [OF assms(1,2)]
  from process_sdt_stays [OF d(1,2) assms(3)] obtain t rows where
    t: "process_sdt (w_psi w) s (tuners (sys_server sy) ! i) = Inr (t, rows)"
    "stays (tuners (sys_server sy) ! i) t" by blast
  show ?thesis by (rule stays_event [OF assms(1) d(3) t(2)]) (simp_all add: tuner_at_def d(3) t(1))
qed

lemma read_event:
  assumes "sound sy ys ns" "i < length (tuners (sys_server sy))"
  shows "good_event (Read i data) ys ns sy (run_event w (Read i data) sy)"
proof -
  let ?t = "tuners (sys_server sy) ! i"
  obtain x where x: "fst (dvb_read_data (w_stack w) ?t data) = ?t\<lparr>last_sequence := x\<rparr>"
    using read_data_update by blast
  show ?thesis
  proof (rule one_tuner_event [OF assms])
    show "counted ((tuners (sys_server sy))[i := ?t\<lparr>last_sequence := x\<rparr>]) (sessions (sys_server sy) @ ys)"
      by (rule counted_put [OF soundD(1) [OF assms(1)] assms(2)]) (simp_all add: channel_at_def split: if_splits)
    show "run_event w (Read i data) sy =
        Inr (Some ((put_tuner sy i (?t\<lparr>last_sequence := x\<rparr>))\<lparr>sys_scan := sys_scan sy\<rparr>))"
      using assms(2) by (simp add: tuner_at_def x)
  qed simp_all
qed

lemma pass_event:
  assumes "sound sy ys ns" "i < length (tuners (sys_server sy))"
  shows "good_event (Pass i inp) ys ns sy (run_event w (Pass i inp) sy)"
proof -
  let ?st = "sys_server sy" and ?h = "hw_of sy i" and ?inp = "inp\<lparr>i_poll := False\<rparr>"
  let ?n = "refs (sessions ?st @ ys) i"
  note count = soundD(1) [OF assms(1)]
  have inv: "tuner_inv (tuners ?st ! i) ?n" using count assms(2) by (simp add: counted_def)
  then have "tuner_inv (hw_tuner ?h) ?n" by (simp add: hw_of_def)
  from hw_step_ok [OF this, of ?inp "w_dvb w" "w_stack w"] obtain h calls out where
    h: "hw_step (w_dvb w) (w_stack w) ?h ?inp = Inr (h, calls, out)" "tuner_inv (hw_tuner h) ?n"
      "frequency_ll (hw_tuner h) = frequency_ll (tuners ?st ! i)"
    by (auto simp: hw_of_def)
  show ?thesis
  proof (rule one_tuner_event [OF assms])
    have "tuner_inv (hw_tuner h) n" if "tuner_inv (tuners ?st ! i) n" for n
    proof -
      have "n = ?n" using that inv by (simp add: tuner_inv_def)
      with h(2) show ?thesis by simp
    qed
    then show "counted ((tuners ?st)[i := hw_tuner h]) (sessions ?st @ ys)"
      by (rule counted_put [OF count assms(2)]) (simp_all add: channel_at_cong [OF h(3)])
    show "tuning (hw_tuner h) = tuning (tuners ?st ! i)" if "0 < ?n"
    proof -
      have "currentState (hw_tuner ?h) \<noteq> st_idle"
        using that inv by (auto simp: tuner_inv_def hw_of_def)
      from hw_step_busy [OF h(1) this] hw_step_params [OF h(1) this]
      show ?thesis by (simp add: tuning_def hw_of_def)
    qed
    show "run_event w (Pass i inp) sy =
        Inr (Some ((put_tuner sy i (hw_tuner h))\<lparr>sys_scan := (sys_scan sy)[i := (hw_id h, hw_cnt h)]\<rparr>))"
      using assms(2) h(1) by (simp add: tuner_at_def)
  qed simp
qed

lemma packet_event:
  assumes "sound sy ys ns" "v < length (tuners (sys_server sy))" "length data < SESSION_BUFFER"
    and "\<forall>s \<in> set (sessions (sys_server sy)). room (w_ca w) pmt_of s"
  shows "good_event (Packet pmt_of pid data v) ys ns sy (run_event w (Packet pmt_of pid data v) sy)"
proof -
  let ?st = "sys_server sy"
  note count = soundD(1) [OF assms(1)]
  have inv: "\<forall>i < length (tuners ?st). tuner_inv (tuners ?st ! i) (refs (sessions ?st @ ys) i)"
    "\<forall>s \<in> set (sessions ?st). sess_ok (tuners ?st) s \<and> room (w_ca w) pmt_of s"
    using count assms(4) by (simp_all add: counted_def)
  obtain ts ss calls where r: "write_sessions (w_dvb w) (w_ca w) pmt_of pid data
        (logicalNumber (tuners ?st ! v)) (tuners ?st) (sessions ?st) = Inr (ts, ss, calls)"
    "\<forall>i < length (tuners ?st). tuner_inv (ts ! i) (refs (sessions ?st @ ys) i)"
    "map frequency_ll ts = map frequency_ll (tuners ?st)" "\<forall>s \<in> set ss. sess_ok ts s"
    "map identity ss = map identity (sessions ?st)"
    by (rule write_sessions_ok [OF inv assms(3), of "w_dvb w" pid "logicalNumber (tuners ?st ! v)"])
  have "map s_tuner xs = map fst (map identity xs)"
    "map destination_ll xs = map (\<lambda>x. snd (snd (snd (snd x)))) (map identity xs)" for xs
    by (simp_all add: identity_def comp_def)
  with r(5) have same: "map s_tuner ss = map s_tuner (sessions ?st)"
    "map destination_ll ss = map destination_ll (sessions ?st)" by metis+
  have "refs (ss @ ys) i = refs (sessions ?st @ ys) i" for i by (rule refs_cong) (simp add: same(1))
  then have "counted ts (ss @ ys)"
    using r(2,4) count sess_ok_cong [OF r(3)]
    by (intro counted_cong [OF count r(3)]) (auto simp del: refs_simps)
  moreover have "dests xs = (\<Union>ds \<in> set (map destination_ll xs). set ds)" for xs
    by (simp add: dests_def)
  then have "dests ss = dests (sessions ?st)" using same(2) by metis
  then have "Ball (dests ss) dest_ready" using soundD(2) [OF assms(1)] by simp
  moreover have "length ns = length ss"
    using soundD(3) [OF assms(1)] same(1) by (metis length_map)
  moreover have "map tuning ts = map tuning (tuners ?st)"
    by (rule write_sessions_tuning [OF r(1)]) (use inv(2) in \<open>simp add: sess_ok_def\<close>)
  then have "tuning (ts ! i) = tuning (tuners ?st ! i)" if "i < length (tuners ?st)" for i
    using that by (rule same_tuning)
  moreover have "run_event w (Packet pmt_of pid data v) sy
      = Inr (Some (put_server sy (?st\<lparr>tuners := ts, sessions := ss\<rparr>)))"
    using r(1) assms(2) by (simp add: session_write_def tuner_at_def)
  ultimately show ?thesis
    by (intro good_eventI [where sy' = "put_server sy (?st\<lparr>tuners := ts, sessions := ss\<rparr>)"]) auto
qed

text \<open>One session changes, and keeps its tuner.\<close>

lemma counted_session:
  assumes "counted ts (ss @ ys)" "k < length ss" "s_tuner s = s_tuner (ss ! k)" "sess_ok ts s"
  shows "counted ts (ss[k := s] @ ys)"
proof (rule counted_same [OF assms(1)])
  show "map s_tuner (ss[k := s] @ ys) = map s_tuner (ss @ ys)" using assms(3) by (simp add: map_update_same)
  show "sess_ok ts y" if "y \<in> set (ss[k := s] @ ys)" for y
    using that assms(1,4) set_update_subset_insert [of ss k s] by (auto simp: counted_def)
qed

lemma dests_session: "dests (ss[k := s]) \<subseteq> dests ss \<union> set (destination_ll s)"
  using set_update_subset_insert [of ss k s] by (auto simp: dests_def)

lemma drain_event:
  assumes "sound sy ys ns" "net_ok (w_net w)" "k < length (sessions (sys_server sy))"
  shows "good_event (Drain k wt due) ys ns sy (run_event w (Drain k wt due) sy)"
proof -
  note True = assms(3)
  let ?st = "sys_server sy" and ?s = "sessions (sys_server sy) ! k"
  note count = soundD(1) [OF assms(1)] and ready = soundD(2) [OF assms(1)]
  have ok: "sess_ok (tuners ?st) ?s" using count True by (simp add: counted_def)
  then have s: "sbuf_ok ?s" by (simp add: sess_ok_def)
  have "\<forall>d \<in> set (destination_ll ?s). dest_ready d" using ready True by (auto simp: dests_def)
  from destination_process_ready [OF this assms(2), of wt due "take (bufferPtr ?s) (s_buffer ?s)"]
  obtain r where r: "destination_process (w_net w) wt due (destination_ll ?s)
      (take (bufferPtr ?s) (s_buffer ?s)) = Inr r"
    "\<And>ds outs. r = Some (ds, outs) \<Longrightarrow> \<forall>d \<in> set ds. dest_ready d" by blast
  have pass: "destination_thread_pass (w_net w) wt due ?s =
      Inr (map_option (\<lambda>(ds, outs). (?s\<lparr>bufferPtr := 0, destination_ll := ds\<rparr>, outs)) r)"
    using s r(1) by (simp add: destination_thread_pass_def session_drain_def sbuf_ok_def)
  show ?thesis
  proof (cases r)
    case None
    with True pass show ?thesis by (simp add: good_event_def)
  next
    case (Some x)
    obtain ds outs where x: "x = (ds, outs)" by force
    let ?s' = "?s\<lparr>bufferPtr := 0, destination_ll := ds\<rparr>"
    have "run_event w (Drain k wt due) sy =
        Inr (Some (put_server sy (?st\<lparr>sessions := (sessions ?st)[k := ?s']\<rparr>)))"
      using True pass Some x by simp
    moreover have "sess_ok (tuners ?st) ?s'"
      using ok by (simp add: sess_ok_def pl_ok_def sess_pids_def sbuf_ok_def)
    then have "counted (tuners ?st) ((sessions ?st)[k := ?s'] @ ys)"
      by (intro counted_session [OF count True]) simp_all
    moreover have "Ball (dests ((sessions ?st)[k := ?s'])) dest_ready"
      using dests_session [of "sessions ?st" k ?s'] ready r(2) Some x by auto
    ultimately show ?thesis using soundD(3) [OF assms(1)]
      by (intro good_eventI [where sy' = "put_server sy (?st\<lparr>sessions := (sessions ?st)[k := ?s']\<rparr>)"]) simp_all
  qed
qed

lemma other_event:
  assumes "sound sy ys ns" "allowed w e sy" "case e of Request _ _ _ _ \<Rightarrow> False | _ \<Rightarrow> True"
  shows "good_event e ys ns sy (run_event w e sy)"
  using assms
  by (cases e) (simp_all add: stop_event reap_event read_event packet_event pat_event sdt_event pass_event
      drain_event del: run_event.simps)

lemma names_after_set:
  "set (names_after e ss ns) \<subseteq> set ns \<and> (distinct ns \<longrightarrow> distinct (names_after e ss ns))"
proof (cases e)
  case (Stop sid)
  have "distinct ns \<longrightarrow> distinct (take k ns @ drop (Suc k) ns)" for k
    using set_take_disj_set_drop_if_distinct [of ns k "Suc k"] by simp
  moreover have "set (take k ns @ drop (Suc k) ns) \<subseteq> set ns" for k
    using set_take_subset set_drop_subset by fastforce
  ultimately show ?thesis using Stop by (simp split: option.split)
next
  case (Reap now)
  have "set (map snd (filter P (zip ss ns))) \<subseteq> set ns" for P by (auto dest: set_zip_rightD)
  moreover have "distinct ns \<Longrightarrow> distinct (map snd (zip ss ns))"
    by (simp add: map_snd_zip_take)
  ultimately show ?thesis using Reap by (simp add: distinct_map_filter)
qed simp_all

section \<open>What a request does\<close>

text \<open>A step of a request: the invariant again, and every tuner in use stays as it is.\<close>

definition good_request :: "requests \<Rightarrow> requests option res \<Rightarrow> bool" where
  "good_request S r \<longleftrightarrow> (\<exists>x. r = Inr x \<and> (\<forall>S'. x = Some S' \<longrightarrow> requests_ok S'
     \<and> (\<forall>i < length (tuners (rq_server S)). 0 < users S i
          \<longrightarrow> tuning (tuners (rq_server S') ! i) = tuning (tuners (rq_server S) ! i))))"

lemma elsewhere_step:
  assumes "requests_ok S" "requests_allowed w (Elsewhere e) S"
  shows "good_request S (run_requests w (Elsewhere e) S)"
proof -
  have "sound (rq_sys S) (all_coming (rq_open S)) (rq_names S)"
    using assms(1) by (simp add: requests_ok_def sound_def)
  from other_event [OF this, of w e] assms(2)
  have g: "good_event e (all_coming (rq_open S)) (rq_names S) (rq_sys S) (run_event w e (rq_sys S))"
    by simp
  have "set (names_after e (sessions (rq_server S)) (rq_names S)) \<subseteq> set (rq_names S)"
    using names_after_set by blast
  then have n: "\<forall>n \<in> set (names_after e (sessions (rq_server S)) (rq_names S)). n < rq_next S"
    using assms(1) by (auto simp: requests_ok_def)
  have d: "distinct (names_after e (sessions (rq_server S)) (rq_names S))"
    using assms(1) names_after_set by (simp add: requests_ok_def)
  show ?thesis
    using g assms(1) n d unfolding good_event_def good_request_def requests_ok_def users_refs
    by (auto simp del: refs_simps)
qed

abbreviation advanced :: "requests \<Rightarrow> nat \<Rightarrow> phase \<Rightarrow> requests" where
  "advanced S j p \<equiv> S\<lparr>rq_open := (rq_open S)[j := (rq_open S ! j)\<lparr>r_phase := p\<rparr>]\<rparr>"

definition goes_on :: "dvb_env \<Rightarrow> nat \<Rightarrow> requests \<Rightarrow> bool" where
  "goes_on env j S \<longleftrightarrow> (\<exists>p S1. request_step env (rq_open S ! j) S = Inr (p, S1) \<and> rq_open S1 = rq_open S
     \<and> requests_ok (advanced S1 j p)
     \<and> (\<forall>i < length (tuners (rq_server S)). 0 < users S i
          \<longrightarrow> tuning (tuners (rq_server S1) ! i) = tuning (tuners (rq_server S) ! i)))"

lemma advanced_ok:
  assumes "requests_ok S" "rq_open S1 = rq_open S"
    and "counted (tuners (rq_server S1)) (sessions (rq_server S1)
      @ all_coming ((rq_open S)[j := (rq_open S ! j)\<lparr>r_phase := p\<rparr>]))"
    and "Ball (dests (sessions (rq_server S1))) dest_ready"
    and "length (rq_names S1) = length (sessions (rq_server S1))"
    and "distinct (rq_names S1) \<and> (\<forall>n \<in> set (rq_names S1). n < rq_next S1)"
  shows "requests_ok (advanced S1 j p)"
proof -
  have "dest_ready (r_dest r)" if r: "r \<in> set ((rq_open S)[j := (rq_open S ! j)\<lparr>r_phase := p\<rparr>])" for r
  proof (cases "j < length (rq_open S)")
    case True
    then have "dest_ready (r_dest (rq_open S ! j))" using assms(1) by (simp add: requests_ok_def)
    with r assms(1) set_update_subset_insert [of "rq_open S" j "(rq_open S ! j)\<lparr>r_phase := p\<rparr>"]
    show ?thesis by (auto simp: requests_ok_def)
  next
    case False
    with r assms(1) show ?thesis by (simp add: requests_ok_def list_update_beyond)
  qed
  with assms show ?thesis by (simp add: requests_ok_def)
qed

text \<open>A step between phases that count for nothing, which may change the destinations of sessions.\<close>

lemma quiet_goes:
  assumes ok: "requests_ok S"
    and r: "request_step env (rq_open S ! j) S = Inr (p, put_sessions S ss)"
    and idle: "coming (rq_open S ! j) = []" "coming ((rq_open S ! j)\<lparr>r_phase := p\<rparr>) = []"
    and same: "map s_tuner ss = map s_tuner (sessions (rq_server S))"
      "\<And>s. s \<in> set ss \<Longrightarrow> sess_ok (tuners (rq_server S)) s" "Ball (dests ss) dest_ready"
  shows "goes_on env j S"
proof -
  let ?S1 = "put_sessions S ss"
  have c: "counted (tuners (rq_server S)) (sessions (rq_server S) @ all_coming (rq_open S))"
    using ok by (simp add: requests_ok_def)
  have "counted (tuners (rq_server S)) (ss @ all_coming (rq_open S))"
    by (rule counted_same [OF c]) (use same(1,2) c in \<open>auto simp: counted_def\<close>)
  moreover have "length (rq_names S) = length ss"
    using ok same(1) by (metis length_map requests_ok_def)
  ultimately have "requests_ok (advanced ?S1 j p)"
    using ok same(3) coming_update_same [OF idle(2,1)]
    by (intro advanced_ok [OF ok]) (simp_all add: requests_ok_def)
  with r show ?thesis by (auto simp: goes_on_def)
qed

lemma put_same: "put_sessions S (sessions (rq_server S)) = S"
  by simp

lemma coming_phase:
  "\<forall>k c. p \<noteq> Chosen k c \<Longrightarrow> coming (r\<lparr>r_phase := p\<rparr>) = []"
  "\<forall>k c. r_phase r \<noteq> Chosen k c \<Longrightarrow> coming r = []"
  by (auto simp: coming_def split: phase.split)

lemma asked_goes:
  assumes ok: "requests_ok S" and ph: "r_phase (rq_open S ! j) = Asked"
  shows "goes_on env j S"
proof -
  let ?r = "rq_open S ! j" and ?st = "rq_server S"
  have c: "\<forall>s \<in> set (sessions ?st). sess_ok (tuners ?st) s" "Ball (dests (sessions ?st)) dest_ready"
    using ok by (simp_all add: requests_ok_def counted_def)
  show ?thesis
  proof (cases "channel_OK (tuners ?st) (uint (r_onid ?r)) (uint (r_channel ?r)) 0 = -1")
    case True
    then have "request_step env ?r S = Inr (Answered 0, put_sessions S (sessions ?st))"
      using ph by (simp add: request_step_def Let_def)
    then show ?thesis by (rule quiet_goes [OF ok]) (use c in \<open>simp_all add: coming_phase ph\<close>)
  next
    case False
    let ?ss = "after_live (r_dest ?r) (sessions ?st)"
    have "request_step env ?r S = Inr (Checked, put_sessions S ?ss)"
      using ph False by (simp add: request_step_def Let_def after_live_def)
    then show ?thesis
    proof (rule quiet_goes [OF ok])
      show "Ball (dests ?ss) dest_ready" using c(2) dests_live by blast
      show "sess_ok (tuners ?st) s" if "s \<in> set ?ss" for s
        using that c(1) by (auto simp: after_live_def session_stop_type_def split: if_splits)
      show "map s_tuner ?ss = map s_tuner (sessions ?st)"
        by (simp add: after_live_def session_stop_type_def comp_def)
    qed (simp_all add: coming_phase ph)
  qed
qed

lemma checked_goes:
  assumes ok: "requests_ok S" and ph: "r_phase (rq_open S ! j) = Checked"
  shows "goes_on env j S"
proof -
  have "\<exists>p. request_step env (rq_open S ! j) S = Inr (p, put_sessions S (sessions (rq_server S)))
      \<and> (\<forall>k c. p \<noteq> Chosen k c)"
    using ph by (simp add: request_step_def Let_def split: option.split)
  then obtain p where p: "request_step env (rq_open S ! j) S = Inr (p, put_sessions S (sessions (rq_server S)))"
    "\<forall>k c. p \<noteq> Chosen k c" by blast
  show ?thesis
    by (rule quiet_goes [OF ok p(1)])
      (use ok p(2) in \<open>simp_all add: coming_phase ph requests_ok_def counted_def\<close>)
qed

lemma found_goes:
  assumes ok: "requests_ok S" and j: "j < length (rq_open S)"
    and ph: "r_phase (rq_open S ! j) = Found n rc" and n: "n \<in> set (rq_names S)"
  shows "goes_on env j S"
proof -
  let ?st = "rq_server S" and ?d = "r_dest (rq_open S ! j)"
  obtain k where k: "find_index (\<lambda>x. x = n) (rq_names S) = Some k"
    using n find_index_None [of "\<lambda>x. x = n" "rq_names S"] by (cases "find_index (\<lambda>x. x = n) (rq_names S)") auto
  then have kl: "k < length (sessions ?st)"
    using find_index_split(1) [OF k] ok by (simp add: requests_ok_def)
  let ?s = "append_dest ?d (sessions ?st ! k)"
  have "request_step env (rq_open S ! j) S = Inr (Answered rc, put_sessions S ((sessions ?st)[k := ?s]))"
    using ph k by (simp add: request_step_def Let_def)
  then show ?thesis
  proof (rule quiet_goes [OF ok])
    show "map s_tuner ((sessions ?st)[k := ?s]) = map s_tuner (sessions ?st)"
      by (simp add: map_update_same append_dest_def)
    have ok': "\<forall>s \<in> set (sessions ?st). sess_ok (tuners ?st) s"
      using ok by (simp add: requests_ok_def counted_def)
    with kl have "sess_ok (tuners ?st) ?s" by (simp add: append_dest_def)
    with ok' show "sess_ok (tuners ?st) s" if "s \<in> set ((sessions ?st)[k := ?s])" for s
      using that set_update_subset_insert [of "sessions ?st" k ?s] by blast
    have "dest_ready ?d" "Ball (dests (sessions ?st)) dest_ready"
      using ok j by (simp_all add: requests_ok_def)
    moreover have "set (destination_ll ?s) \<subseteq> insert ?d (dests (sessions ?st))"
      using kl by (auto simp: append_dest_def dests_def)
    ultimately show "Ball (dests ((sessions ?st)[k := ?s])) dest_ready"
      using dests_session [of "sessions ?st" k ?s] by blast
  qed (simp_all add: coming_phase ph)
qed

lemma placed_fields [simp]:
  "s_tuner (placed r k c) = k" "s_channel (placed r k c) = c" "destination_ll (placed r k c) = [r_dest r]"
  "channel_key (placed r k c) = (r_onid r, r_channel r)" "sessionID (placed r k c) = drop_bit 4 (r_rnd r)"
  "placed (r\<lparr>r_phase := p\<rparr>) k c = placed r k c"
  by (simp_all add: placed_def channel_key_def new_session_def)

lemma placed_ok:
  assumes "k < length ts" "channel_at (ts ! k) c = Inr x"
  shows "sess_ok ts (placed r k c)" "sess_ok ts ((placed r k c)\<lparr>pmt_program := z\<rparr>)"
  using assms new_session_ok(1,2) [of "r_rnd r"]
  by (simp_all add: placed_def sess_ok_def pl_ok_def sess_pids_def sbuf_ok_def)

lemma missing_goes:
  assumes ok: "requests_ok S" and j: "j < length (rq_open S)" and ph: "r_phase (rq_open S ! j) = Missing"
  shows "goes_on env j S"
proof -
  let ?r = "rq_open S ! j" and ?st = "rq_server S"
  let ?xs = "sessions ?st @ all_coming (rq_open S)"
  let ?on = "uint (r_onid ?r)" and ?ch = "uint (r_channel ?r)"
  have count: "counted (tuners ?st) ?xs" using ok by (simp add: requests_ok_def)
  have inv: "\<forall>i < length (tuners ?st). tuner_inv (tuners ?st ! i) (refs ?xs i)"
    using count by (simp add: counted_def)
  show ?thesis
  proof (rule choose_tuner_ok [OF inv, of env ?on ?ch 0])
    assume c: "choose_tuner env ?on ?ch 0 (tuners ?st) = Inr (None, tuners ?st, [])"
    have "S\<lparr>rq_sys := put_server (rq_sys S) (?st\<lparr>tuners := tuners ?st\<rparr>)\<rparr> = put_sessions S (sessions ?st)"
      by simp
    then have "request_step env ?r S = Inr (Answered 0, put_sessions S (sessions ?st))"
      unfolding request_step_def using ph c by (simp add: Let_def)
    then show ?thesis
      by (rule quiet_goes [OF ok]) (use ok in \<open>simp_all add: coming_phase ph requests_ok_def counted_def\<close>)
  next
    fix k c ts calls
    assume ch: "choose_tuner env ?on ?ch 0 (tuners ?st) = Inr (Some (0 + k, c, refs ?xs k = 0), ts, calls)"
      and k: "k < length (tuners ?st)" "getChannelByNumber_tuners (tuners ?st ! k) ?on ?ch = Some c"
      and ts: "map frequency_ll ts = map frequency_ll (tuners ?st)"
        "\<forall>i < length (tuners ?st). tuner_inv (ts ! i) (bump (refs ?xs) k i)"
    let ?S1 = "S\<lparr>rq_sys := put_server (rq_sys S) (?st\<lparr>tuners := ts\<rparr>)\<rparr>"
    let ?r' = "?r\<lparr>r_phase := Chosen k c\<rparr>"
    have len: "length ts = length (tuners ?st)" using ts(1) by (rule map_eq_imp_length_eq)
    have step: "request_step env ?r S = Inr (Chosen k c, ?S1)"
      unfolding request_step_def using ph ch by (simp add: Let_def)
    have "frequency_ll (ts ! k) = frequency_ll (tuners ?st ! k)"
      using ts(1) k(1) len nth_map [of k ts frequency_ll] nth_map [of k "tuners ?st" frequency_ll] by simp
    then obtain x where x: "channel_at (ts ! k) c = Inr x"
      using find_channel_Some [of _ "frequency_ll (tuners ?st ! k)" "fst c" "snd c"] k(2)
      by (auto simp: getChannelByNumber_tuners_def channel_at_def)
    have one: "coming ?r = []" "coming ?r' = [placed ?r k c]" by (simp_all add: coming_def ph)
    have "refs (all_coming ((rq_open S)[j := ?r'])) i
        = (if i = k then Suc (refs (all_coming (rq_open S)) i) else refs (all_coming (rq_open S)) i)" for i
      using coming_update [OF j, of ?r' i] unfolding one by auto
    then have more: "refs (sessions ?st @ all_coming ((rq_open S)[j := ?r'])) i = bump (refs ?xs) k i" for i
      by (simp add: bump_def)
    have "counted ts (sessions ?st @ all_coming ((rq_open S)[j := ?r']))"
    proof (rule counted_cong [OF count ts(1)])
      show "tuner_inv (ts ! i) (refs (sessions ?st @ all_coming ((rq_open S)[j := ?r'])) i)"
        if "i < length (tuners ?st)" for i
        using ts(2) that unfolding more by blast
      show "y \<in> set ?xs \<or> sess_ok ts y" if "y \<in> set (sessions ?st @ all_coming ((rq_open S)[j := ?r']))" for y
        using that coming_update_set [of "rq_open S" j ?r'] placed_ok(1) [of k ts c x ?r] k(1) len x
        unfolding one by auto
    qed
    then have "requests_ok (advanced ?S1 j (Chosen k c))"
      using ok by (intro advanced_ok [OF ok]) (simp_all add: requests_ok_def)
    moreover have "tuning (ts ! i) = tuning (tuners ?st ! i)" if "i < length (tuners ?st)" "0 < users S i" for i
    proof -
      have "refcnt (tuners ?st ! i) \<noteq> 0"
        using that inv by (auto simp: tuner_inv_def users_refs simp del: refs_simps)
      with choose_tuner_tuning [OF ch] that(1) show ?thesis by blast
    qed
    ultimately show ?thesis using step by (auto simp: goes_on_def)
  qed
qed

lemma chosen_goes:
  assumes ok: "requests_ok S" and j: "j < length (rq_open S)" and ph: "r_phase (rq_open S ! j) = Chosen k c"
  shows "goes_on env j S"
proof -
  let ?r = "rq_open S ! j" and ?st = "rq_server S"
  have count: "counted (tuners ?st) (sessions ?st @ all_coming (rq_open S))" using ok by (simp add: requests_ok_def)
  have one: "coming ?r = [placed ?r k c]" by (simp add: coming_def ph)
  then have "placed ?r k c \<in> set (all_coming (rq_open S))"
    using j by (auto simp: all_coming_def intro!: bexI [of _ ?r])
  then have "sess_ok (tuners ?st) (placed ?r k c)" using count by (simp add: counted_def)
  then obtain x where x: "k < length (tuners ?st)" "channel_at (tuners ?st ! k) c = Inr x"
    by (auto simp: sess_ok_def)
  let ?s = "(placed ?r k c)\<lparr>pmt_program := service_id x\<rparr>"
  let ?p = "Answered (sessionID (placed ?r k c))"
  let ?S1 = "(put_sessions S (sessions ?st @ [?s]))\<lparr>rq_names := rq_names S @ [rq_next S], rq_next := Suc (rq_next S)\<rparr>"
  have step: "request_step env ?r S = Inr (?p, ?S1)"
    unfolding request_step_def using ph x by (simp add: Let_def tuner_at_def)
  let ?r' = "?r\<lparr>r_phase := ?p\<rparr>"
  have none: "coming ?r' = []" by (simp add: coming_def)
  have "refs ((sessions ?st @ [?s]) @ all_coming ((rq_open S)[j := ?r'])) i
      = refs (sessions ?st @ all_coming (rq_open S)) i" for i
    using coming_update [OF j, of ?r' i] unfolding one none by auto
  then have "counted (tuners ?st) ((sessions ?st @ [?s]) @ all_coming ((rq_open S)[j := ?r']))"
    using count coming_update_set [of "rq_open S" j ?r'] placed_ok(2) [OF x, where r = ?r and z = "service_id x"]
    unfolding counted_def none by (auto simp del: refs_simps)
  moreover have "Ball (dests (sessions ?st @ [?s])) dest_ready"
    using ok j by (auto simp: requests_ok_def dests_def)
  ultimately have "requests_ok (advanced ?S1 j ?p)"
    using ok by (intro advanced_ok [OF ok]) (auto simp: requests_ok_def less_Suc_eq)
  with step show ?thesis by (auto simp: goes_on_def)
qed

lemma goes_step:
  assumes ok: "requests_ok S" and a: "requests_allowed w (Goes j) S" "\<not> joins_gone (Goes j) S"
  shows "good_request S (run_requests w (Goes j) S)"
proof -
  have "goes_on (w_dvb w) j S"
    using a asked_goes [OF ok] checked_goes [OF ok] found_goes [OF ok] missing_goes [OF ok] chosen_goes [OF ok]
    by (cases "r_phase (rq_open S ! j)") auto
  then show ?thesis by (auto simp: goes_on_def good_request_def)
qed

lemma arrives_step:
  assumes "requests_ok S" "dest_ready d"
  shows "good_request S (run_requests w (Arrives rnd onid ch d) S)"
  using assms by (auto simp: good_request_def requests_ok_def all_coming_def coming_def)

lemma any_step:
  assumes "requests_ok S" "requests_allowed w e S" "\<not> joins_gone e S"
  shows "good_request S (run_requests w e S)"
  using assms arrives_step goes_step elsewhere_step
  by (cases e) (simp_all del: run_requests.simps joins_gone.simps(1))

lemma gone_step:
  assumes "joins_gone e S"
  shows "run_requests w e S = Inl BadPointer"
proof (cases e)
  case (Goes j)
  with assms obtain n rc where n: "r_phase (rq_open S ! j) = Found n rc" "n \<notin> set (rq_names S)"
    by (auto split: phase.splits)
  then have "find_index (\<lambda>x. x = n) (rq_names S) = None" by (auto simp: find_index_None)
  with Goes n(1) show ?thesis by (simp add: request_step_def Let_def)
qed (use assms in simp_all)

interpretation requests: invariant_machine "run_requests w" "requests_allowed w" requests_ok for w
proof
  show "requests_ok S'" if "requests_ok S" "requests_allowed w e S" "run_requests w e S = Inr (Some S')"
    for w e S S'
    using any_step [OF that(1,2)] gone_step [of e S w] that(3) by (auto simp: good_request_def)
qed

section \<open>Taking turns\<close>

lemma find_index_nth: "distinct xs \<Longrightarrow> k < length xs \<Longrightarrow> find_index (\<lambda>x. x = xs ! k) xs = Some k"
  by (auto simp: find_index_Some nth_eq_iff_index_eq)

lemma choose_tuner_bound:
  "choose_tuner env on ch k ts = Inr (r, ts', calls)
   \<Longrightarrow> length ts' = length ts \<and> (\<forall>j c b. r = Some (j, c, b) \<longrightarrow> k \<le> j \<and> j < k + length ts)"
proof (induction ts arbitrary: k r ts' calls)
  case (Cons t ts)
  have rest: "length ts' = length (t # ts) \<and> (\<forall>j c b. r = Some (j, c, b) \<longrightarrow> k \<le> j \<and> j < k + length (t # ts))"
    if "bind_res (choose_tuner env on ch (Suc k) ts) (\<lambda>(r, ts', calls). Inr (r, t # ts', calls)) = Inr (r, ts', calls)"
    using that Cons.IH [of "Suc k"] by (fastforce simp: bind_res_Inr)
  show ?case
    using Cons.prems rest
    by (auto simp: Let_def bind_res_Inr split_beta simp del: add_pids.simps split: option.splits if_splits)
qed simp

text \<open>The request \<open>r\<close>, the only one there is, in the phase \<open>p\<close>.\<close>

abbreviation alone :: "request \<Rightarrow> phase \<Rightarrow> requests \<Rightarrow> requests" where
  "alone r p S \<equiv> S\<lparr>rq_open := [r\<lparr>r_phase := p\<rparr>]\<rparr>"

definition goes_alone :: "world \<Rightarrow> requests \<Rightarrow> requests \<Rightarrow> bool" where
  "goes_alone w S S' \<longleftrightarrow> (\<exists>es. set es \<subseteq> {Goes 0} \<and> runs (run_requests w) (requests_allowed w) S es S')"

lemma alone_step:
  assumes "request_step (w_dvb w) (r\<lparr>r_phase := p\<rparr>) (alone r p S) = Inr (p', alone r p S')"
    and "\<forall>rc. p \<noteq> Answered rc" "\<forall>n rc. p = Found n rc \<longrightarrow> n \<in> set (rq_names S)"
  shows "goes_alone w (alone r p S) (alone r p' S')"
proof -
  have "runs (run_requests w) (requests_allowed w) (alone r p S) [Goes 0] (alone r p' S')"
    by (rule runs_one) (use assms in \<open>simp_all split: phase.split\<close>)
  then show ?thesis unfolding goes_alone_def by (intro exI [of _ "[Goes 0]"]) simp
qed

lemma alone_trans:
  assumes "goes_alone w S S'" "goes_alone w S' S''" shows "goes_alone w S S''"
proof -
  obtain es es' where "set es \<subseteq> {Goes 0}" "set es' \<subseteq> {Goes 0}"
      "runs (run_requests w) (requests_allowed w) S es S'" "runs (run_requests w) (requests_allowed w) S' es' S''"
    using assms by (auto simp: goes_alone_def)
  then show ?thesis unfolding goes_alone_def by (intro exI [of _ "es @ es'"]) (auto intro: runs_trans)
qed

lemma alone_joins:
  assumes "find_index (\<lambda>s. s_onid s = r_onid r \<and> s_channel_id s = r_channel r) (sessions (rq_server S)) = Some k"
    and "length (rq_names S) = length (sessions (rq_server S))" "distinct (rq_names S)"
  shows "goes_alone w (alone r Checked S) (alone r (Answered (sessionID (sessions (rq_server S) ! k)))
    (put_sessions S ((sessions (rq_server S))[k := append_dest (r_dest r) (sessions (rq_server S) ! k)])))"
proof (rule alone_trans)
  have k: "k < length (rq_names S)" using find_index_split(1) [OF assms(1)] assms(2) by simp
  let ?p = "Found (rq_names S ! k) (sessionID (sessions (rq_server S) ! k))"
  show "goes_alone w (alone r Checked S) (alone r ?p S)"
    by (rule alone_step) (use assms(1) in \<open>simp_all add: request_step_def\<close>)
  show "goes_alone w (alone r ?p S) (alone r (Answered (sessionID (sessions (rq_server S) ! k)))
      (put_sessions S ((sessions (rq_server S))[k := append_dest (r_dest r) (sessions (rq_server S) ! k)])))"
    by (rule alone_step) (use k find_index_nth [OF assms(3) k] in \<open>simp_all add: request_step_def Let_def\<close>)
qed

lemma alone_missing:
  assumes "find_index (\<lambda>s. s_onid s = r_onid r \<and> s_channel_id s = r_channel r) (sessions (rq_server S)) = None"
    and "choose_tuner (w_dvb w) (uint (r_onid r)) (uint (r_channel r)) 0 (tuners (rq_server S)) = Inr (found, ts, x)"
  shows "goes_alone w (alone r Checked S)
    (alone r (case found of None \<Rightarrow> Answered 0 | Some (k, c, _) \<Rightarrow> Chosen k c)
      (S\<lparr>rq_sys := put_server (rq_sys S) ((rq_server S)\<lparr>tuners := ts\<rparr>)\<rparr>))"
proof (rule alone_trans)
  show "goes_alone w (alone r Checked S) (alone r Missing S)"
    by (rule alone_step) (use assms(1) in \<open>simp_all add: request_step_def\<close>)
  show "goes_alone w (alone r Missing S) (alone r (case found of None \<Rightarrow> Answered 0 | Some (k, c, _) \<Rightarrow> Chosen k c)
      (S\<lparr>rq_sys := put_server (rq_sys S) ((rq_server S)\<lparr>tuners := ts\<rparr>)\<rparr>))"
    by (rule alone_step) (use assms(2) in \<open>simp_all add: request_step_def split: option.split\<close>)
qed

lemma alone_enters:
  assumes "k < length (tuners (rq_server S))" "channel_at (tuners (rq_server S) ! k) c = Inr x"
  shows "goes_alone w (alone r (Chosen k c) S) (alone r (Answered (sessionID (placed r k c)))
    ((put_sessions S (sessions (rq_server S) @ [(placed r k c)\<lparr>pmt_program := service_id x\<rparr>]))
       \<lparr>rq_names := rq_names S @ [rq_next S], rq_next := Suc (rq_next S)\<rparr>))"
  by (rule alone_step) (use assms in \<open>simp_all add: request_step_def tuner_at_def placed_def Let_def\<close>)

lemma alone_rest:
  assumes new: "session_addNew (w_dvb w) (r_rnd r) (rq_server S) (r_onid r) (r_channel r) (Some (r_dest r))
      = Inr (rc, st', calls, threads)"
    and ok: "channel_OK (tuners (rq_server S)) (uint (r_onid r)) (uint (r_channel r)) 0 \<noteq> -1"
    and names: "length (rq_names S) = length (sessions (rq_server S))" "distinct (rq_names S)"
  shows "\<exists>S'. goes_alone w (alone r Checked (put_sessions S (after_live (r_dest r) (sessions (rq_server S)))))
    (alone r (Answered rc) S') \<and> rq_server S' = st'"
proof -
  let ?ss = "after_live (r_dest r) (sessions (rq_server S))"
  let ?S1 = "put_sessions S ?ss"
  let ?find = "find_index (\<lambda>s. s_onid s = r_onid r \<and> s_channel_id s = r_channel r) ?ss"
  let ?choose = "choose_tuner (w_dvb w) (uint (r_onid r)) (uint (r_channel r)) 0 (tuners (rq_server S))"
  have live: "(if destination_type (r_dest r) = dest_live \<or> destination_type (r_dest r) = dest_live2
      then session_stop_type (destination_type (r_dest r)) (sessions (rq_server S)) else sessions (rq_server S)) = ?ss"
    by (simp add: after_live_def)
  note eq = new [unfolded session_addNew_def, simplified, unfolded live Let_def, simplified]
  show ?thesis
  proof (cases ?find)
    case (Some k)
    have "length ?ss = length (sessions (rq_server S))" by (simp add: after_live_def session_stop_type_def)
    with Some names have "goes_alone w (alone r Checked ?S1) (alone r (Answered (sessionID (?ss ! k)))
        (put_sessions ?S1 (?ss[k := append_dest (r_dest r) (?ss ! k)])))"
      using alone_joins [of r ?S1 k w] by simp
    moreover have "st' = (rq_server S)\<lparr>sessions := ?ss[k := append_dest (r_dest r) (?ss ! k)]\<rparr>" "rc = sessionID (?ss ! k)"
      using eq ok Some by (simp_all add: Let_def)
    ultimately show ?thesis
      by (intro exI [of _ "put_sessions ?S1 (?ss[k := append_dest (r_dest r) (?ss ! k)])"]) simp
  next
    case None
    obtain found ts c where ch: "?choose = Inr (found, ts, c)"
      using eq ok None by (cases ?choose) (auto simp: Let_def)
    let ?S2 = "?S1\<lparr>rq_sys := put_server (rq_sys S) ((rq_server S)\<lparr>tuners := ts, sessions := ?ss\<rparr>)\<rparr>"
    have swap: "(rq_server S)\<lparr>sessions := ?ss, tuners := ts\<rparr> = (rq_server S)\<lparr>tuners := ts, sessions := ?ss\<rparr>"
      by simp
    have 2: "goes_alone w (alone r Checked ?S1)
        (alone r (case found of None \<Rightarrow> Answered 0 | Some (k, c, _) \<Rightarrow> Chosen k c) ?S2)"
      using alone_missing [of r ?S1 w found ts c] None ch swap by simp
    show ?thesis
    proof (cases found)
      case none: None
      have "st' = rq_server ?S2" "rc = 0" using eq ok None ch none by (simp_all add: Let_def)
      with 2 none show ?thesis by (intro exI [of _ ?S2]) simp
    next
      case (Some x)
      obtain k p b where x: "x = (k, p, b)" by (cases x) auto
      obtain c' where c': "channel_at (ts ! k) p = Inr c'"
        using eq ok None ch Some x by (cases "channel_at (ts ! k) p") (auto simp: Let_def)
      have k: "k < length ts" using choose_tuner_bound [OF ch] Some x by simp
      have s: "(placed r k p)\<lparr>pmt_program := service_id c'\<rparr> = (new_session (r_rnd r))\<lparr>s_tuner := k, s_channel := p,
          s_onid := r_onid r, s_channel_id := r_channel r, pmt_program := service_id c', destination_ll := [r_dest r]\<rparr>"
        by (cases "new_session (r_rnd r)") (simp add: placed_def)
      have st: "st' = (rq_server S)\<lparr>tuners := ts, sessions := ?ss @ [(placed r k p)\<lparr>pmt_program := service_id c'\<rparr>]\<rparr>"
          "rc = sessionID (placed r k p)"
        unfolding s using eq ok None ch Some x c' by (simp_all add: Let_def placed_def)
      have "goes_alone w (alone r (Chosen k p) ?S2) (alone r (Answered rc)
          ((put_sessions ?S2 (?ss @ [(placed r k p)\<lparr>pmt_program := service_id c'\<rparr>]))
             \<lparr>rq_names := rq_names S @ [rq_next S], rq_next := Suc (rq_next S)\<rparr>))" (is "goes_alone w _ (alone r _ ?S3)")
        using alone_enters [of k ?S2 p c' w r] k c' st(2) by simp
      then have "goes_alone w (alone r Checked ?S1) (alone r (Answered rc) ?S3)"
        using alone_trans [OF 2] Some x by simp
      moreover have "rq_server ?S3 = st'" using st(1) by simp
      ultimately show ?thesis by blast
    qed
  qed
qed

text \<open>A request that nobody interrupts does what \<open>session_addNew\<close> does.\<close>

lemma request_alone:
  assumes "session_addNew (w_dvb w) rnd (rq_server S) onid ch (Some d) = Inr (rc, st', calls, threads)"
    and r: "r = \<lparr>r_rnd = rnd, r_onid = onid, r_channel = ch, r_dest = d, r_phase = Asked\<rparr>" "rq_open S = [r]"
    and names: "length (rq_names S) = length (sessions (rq_server S))" "distinct (rq_names S)"
  shows "\<exists>S'. goes_alone w S (alone r (Answered rc) S') \<and> rq_server S' = st'"
proof -
  let ?ss = "after_live d (sessions (rq_server S))"
  let ?S1 = "put_sessions S ?ss"
  have S: "alone r Asked S = S" using r by simp
  show ?thesis
  proof (cases "channel_OK (tuners (rq_server S)) (uint onid) (uint ch) 0 = -1")
    case True
    then have "st' = rq_server S" "rc = 0" using assms(1) by (simp_all add: session_addNew_def)
    moreover have "goes_alone w (alone r Asked S) (alone r (Answered 0) S)"
      by (rule alone_step) (use True r(1) in \<open>simp_all add: request_step_def\<close>)
    ultimately show ?thesis unfolding S by blast
  next
    case False
    have 1: "goes_alone w (alone r Asked S) (alone r Checked ?S1)"
      by (rule alone_step) (use False r(1) in \<open>simp_all add: request_step_def after_live_def Let_def\<close>)
    obtain S' where "goes_alone w (alone r Checked ?S1) (alone r (Answered rc) S')" "rq_server S' = st'"
      using alone_rest [of w r S rc st' calls threads] assms(1) False r(1) names by auto
    with alone_trans [OF 1] show ?thesis unfolding S by blast
  qed
qed

section \<open>Properties\<close>

text \<open>C6. Requests that run at the same time, with stops, passes and packets between their steps, keep the
  counts: every tuner counts the sessions that use it and the requests that have chosen it and not entered
  their session yet, and is busy exactly when there is one. Of the steps that \<open>requests_allowed\<close> admits those
  fault in which a request joins the session it found after that session has ended, and no others; and none
  retunes a tuner that has a session or was chosen.\<close>
theorem requests_keep_counts:
  assumes "runs (run_requests w) (requests_allowed w) S0 es S" "requests_ok S0"
  shows "(\<forall>i < length (tuners (rq_server S)). refcnt (tuners (rq_server S) ! i) = int (users S i)
      \<and> (currentState (tuners (rq_server S) ! i) = st_busy \<longleftrightarrow> 0 < users S i))
    \<and> (\<forall>e. \<not> requests_allowed w e S \<or>
         (if joins_gone e S then run_requests w e S = Inl BadPointer
          else \<exists>x. run_requests w e S = Inr x
            \<and> (\<forall>i S'. x = Some S' \<and> i < length (tuners (rq_server S)) \<and> 0 < users S i
                 \<longrightarrow> tuning (tuners (rq_server S') ! i) = tuning (tuners (rq_server S) ! i))))"
proof -
  have ok: "requests_ok S" by (rule requests.reachable_inv [OF assms])
  then have "tuner_inv (tuners (rq_server S) ! i) (users S i)" if "i < length (tuners (rq_server S))" for i
    using that by (simp add: requests_ok_def counted_def users_refs del: refs_simps)
  moreover have "\<not> requests_allowed w e S \<or>
         (if joins_gone e S then run_requests w e S = Inl BadPointer
          else \<exists>x. run_requests w e S = Inr x
            \<and> (\<forall>i S'. x = Some S' \<and> i < length (tuners (rq_server S)) \<and> 0 < users S i
                 \<longrightarrow> tuning (tuners (rq_server S') ! i) = tuning (tuners (rq_server S) ! i)))" for e
    using any_step [OF ok, of w e] gone_step [of e S w] by (auto simp: good_request_def)
  ultimately show ?thesis by (auto simp: tuner_inv_def)
qed

text \<open>
  Two requests for a channel that has no session yet: both look for one before either has entered its
  own, so the channel gets two sessions.
\<close>

definition nobody :: requests where
  "nobody = \<lparr>rq_sys = one_system, rq_names = [], rq_next = 0, rq_open = []\<rparr>"

lemma nobody_ok: "requests_ok nobody"
  using one_server_ok by (simp add: requests_ok_def nobody_def one_system_def one_server_def counted_server
      all_coming_def dests_def)

lemma two_choices:
  obtains t1 t2 c1 c2 x where
    "choose_tuner quiet_env 0 4 0 [one_tuner] = Inr (Some (0, (0, 0), True), [t1], c1)"
    "choose_tuner quiet_env 0 4 0 [t1] = Inr (Some (0, (0, 0), False), [t2], c2)"
    "channel_at t2 (0, 0) = Inr x"
proof -
  let ?c = "choose_tuner quiet_env 0 4 0"
  have run: "(case ?c [one_tuner] of
      Inl _ \<Rightarrow> False
    | Inr (r, ts, _) \<Rightarrow> r = Some (0, (0, 0), True) \<and> length ts = 1 \<and>
        (case ?c ts of
           Inl _ \<Rightarrow> False
         | Inr (r, ts, _) \<Rightarrow> r = Some (0, (0, 0), False) \<and> length ts = 1
             \<and> \<not> isl (channel_at (ts ! 0) (0, 0))))"
    by code_simp
  obtain r1 ts1 c1 where 1: "?c [one_tuner] = Inr (r1, ts1, c1)"
    using run by (cases "?c [one_tuner]") (auto simp del: choose_tuner.simps)
  obtain r2 ts2 c2 where 2: "?c ts1 = Inr (r2, ts2, c2)"
    using run 1 by (cases "?c ts1") (auto simp del: choose_tuner.simps)
  have r: "r1 = Some (0, (0, 0), True)" "length ts1 = 1" "r2 = Some (0, (0, 0), False)" "length ts2 = 1"
    "\<not> isl (channel_at (ts2 ! 0) (0, 0))"
    using run 1 2 by (simp_all del: choose_tuner.simps)
  then obtain t1 t2 where t: "ts1 = [t1]" "ts2 = [t2]" by (auto simp: length_Suc_conv)
  then obtain x where "channel_at t2 (0, 0) = Inr x" using r(5) by (cases "channel_at t2 (0, 0)") simp_all
  with that 1 2 r t show thesis by simp
qed

definition hurry :: "request_event list" where
  "hurry = [Arrives 64 0 4 small_dest, Arrives 80 0 4 small_dest,
     Goes 0, Goes 1, Goes 0, Goes 1, Goes 0, Goes 1, Goes 0, Goes 1]"

lemma hurried:
  "\<exists>S. runs (run_requests quiet_world) (requests_allowed quiet_world) nobody hurry S
     \<and> map channel_key (sessions (rq_server S)) = [(0, 4), (0, 4)]
     \<and> map s_tuner (sessions (rq_server S)) = [0, 0] \<and> length (tuners (rq_server S)) = 1
     \<and> map r_phase (rq_open S) = [Answered 4, Answered 5]"
proof -
  obtain t1 t2 c1 c2 x where ch: "choose_tuner quiet_env 0 4 0 [one_tuner] = Inr (Some (0, (0, 0), True), [t1], c1)"
    "choose_tuner quiet_env 0 4 0 [t1] = Inr (Some (0, (0, 0), False), [t2], c2)"
    "channel_at t2 (0, 0) = Inr x" by (rule two_choices)
  have d: "dest_ready small_dest" "destination_type small_dest = dest_udp"
    using small_dest_ok by (simp_all add: dest_ready_def small_dest_def)
  have OK: "channel_OK [one_tuner] 0 4 0 \<noteq> -1" by code_simp
  have w: "w_dvb quiet_world = quiet_env" by (simp add: quiet_world_def)
  show ?thesis
    unfolding hurry_def nobody_def one_system_def one_server_def
    apply (rule exI, rule conjI)
     apply (rule runs_Cons, simp add: d, simp add: request_step_def Let_def ch tuner_at_def d OK w
        del: channel_OK.simps choose_tuner.simps)+
     apply (rule runs.nothing)
    apply (simp add: channel_key_def placed_def drop_bit_eq_div)
    done
qed

lemma two_sessions_one_channel:
  "\<exists>S. runs (run_requests quiet_world) (requests_allowed quiet_world) nobody hurry S
     \<and> map channel_key (sessions (rq_server S)) = [(0, 4), (0, 4)]"
  using hurried by (elim exE conjE) (intro exI conjI)

lemma requests_keep_counts_witness:
  "\<exists>S. runs (run_requests quiet_world) (requests_allowed quiet_world) nobody hurry S
     \<and> map refcnt (tuners (rq_server S)) = [2]"
proof -
  obtain S where S: "runs (run_requests quiet_world) (requests_allowed quiet_world) nobody hurry S"
    "map s_tuner (sessions (rq_server S)) = [0, 0]" "length (tuners (rq_server S)) = 1"
    "map r_phase (rq_open S) = [Answered 4, Answered 5]"
    using hurried by (elim exE conjE) (rule that)
  from S(2) have "refs (sessions (rq_server S)) 0 = 2" by (auto simp: map_eq_Cons_conv)
  moreover from S(4) have "length (filter (\<lambda>r. case r_phase r of Chosen k c \<Rightarrow> k = 0 | _ \<Rightarrow> False) (rq_open S)) = 0"
    by (auto simp: map_eq_Cons_conv)
  ultimately have "users S 0 = 2" by (simp add: users_def)
  moreover obtain t where "tuners (rq_server S) = [t]" using S(3) by (auto simp: length_Suc_conv)
  ultimately show ?thesis using requests_keep_counts [OF S(1) nobody_ok] S(1) by auto
qed

text \<open>A session the session thread ends between a request's look and its join.\<close>

lemma joined_session_gone:
  assumes "requests_ok S" "r_phase (rq_open S ! j) = Found n rc"
    and "k < length (sessions (rq_server S))" "rq_names S ! k = n"
    and "destination_ll (sessions (rq_server S) ! k) = []"
  shows "\<exists>S'. run_requests w (Elsewhere (Reap now)) S = Inr (Some S') \<and> run_requests w (Goes j) S' = Inl BadPointer"
proof -
  let ?ss = "sessions (rq_server S)" and ?ns = "rq_names S"
  have l: "length ?ns = length ?ss" "distinct ?ns" using assms(1) by (simp_all add: requests_ok_def)
  have "requests_allowed w (Elsewhere (Reap now)) S" by simp
  from elsewhere_step [OF assms(1) this] obtain r where r: "run_event w (Reap now) (rq_sys S) = Inr r"
    by (cases "run_event w (Reap now) (rq_sys S)") (auto simp: good_request_def)
  then obtain sy where sy: "run_event w (Reap now) (rq_sys S) = Inr (Some sy)"
    by (auto simp: bind_res_Inr)
  let ?S' = "S\<lparr>rq_sys := sy, rq_names := names_after (Reap now) ?ss ?ns\<rparr>"
  have "n \<notin> set (names_after (Reap now) ?ss ?ns)"
  proof
    assume "n \<in> set (names_after (Reap now) ?ss ?ns)"
    then obtain s where "(s, n) \<in> set (zip ?ss ?ns)" "destination_ll s \<noteq> []" by auto
    then obtain i where "i < length ?ss" "?ns ! i = n" "destination_ll (?ss ! i) \<noteq> []"
      by (auto simp: in_set_zip l(1))
    with assms(3-5) l show False by (metis nth_eq_iff_index_eq)
  qed
  then have "run_requests w (Goes j) ?S' = Inl BadPointer"
    using assms(2) by (intro gone_step) (simp del: names_after.simps)
  moreover have "run_requests w (Elsewhere (Reap now)) S = Inr (Some ?S')" using sy by simp
  ultimately show ?thesis by blast
qed

end
