(* ===== verification/Spec2Isabelle.thy ===== *)
theory Spec2Isabelle
  imports EpgTime Locks Startup HeapSystem TextOutput NodeLoops Streaming Requests
begin

text \<open>
  dvbServe is a server for digital television. It owns up to eight tuners (adapters for DVB-T
  and DVB-S), scans their frequencies for channels while they are idle, tunes one when a client
  asks for a channel, filters the packets of that channel out of the transport stream and
  delivers them to files, UDP and multicast addresses and HTTP connections. Clients come through
  a telnet console and a web server. The program is the C code directly under
  \<^verbatim>\<open>src/DVB\<close>; this development models that code and proves what its parts promise each other.

  \<^bold>\<open>How the program fits together.\<close> \<^verbatim>\<open>main.c\<close> reads the options, opens the database, registers the
  console's commands, starts the telnet server and the web server and then the tuners. From then
  on there are threads: one per tuner that reads packets and scans (\<^verbatim>\<open>dvb_hardware_thread\<close>), one
  that looks after the sessions (\<^verbatim>\<open>session_thread_run\<close>), one or two per session that empty its
  buffer into its destinations (\<^verbatim>\<open>destination_thread_run\<close>), the telnet server's select loop and
  one per web connection. They share the tuners, each with its frequencies and channels, and the list
  of sessions, each with its tuner, its PIDs, a buffer and its destinations. The libraries
  that decode tables (libdvbpsi), store the programme guide (sqlite) and speak HTTP
  (libmicrohttpd) are not part of the repository's own code and are parameters here.

  \<^bold>\<open>How it is modelled.\<close> Every fallible operation returns \<open>fault + 'a\<close>: \<open>Inl\<close> where the C
  program has no meaning (a null or dangling pointer, an array overrun, memory that was never
  written), \<open>Inr\<close> otherwise. Errors the code reports are values of \<open>'a\<close>, and the end of the process
  is \<open>None\<close>. Machine integers are words where they may wrap. What devices, sockets, files,
  \<^verbatim>\<open>malloc\<close> and the external libraries answer are arguments of the definitions, and the calls made
  to them are results, in their order. State is passed explicitly in records that have the
  fields of the structures.

  \<^item> Prelude: faults, C strings and character arrays, the routines of the C library.
  \<^item> LinkedList (\<^verbatim>\<open>linkedlist.c\<close>): the doubly linked list on a heap of nodes, pointer by pointer.
    On a heap that holds a list no operation follows a bad pointer, and each acts on the sequence
    of data; the other theories use lists on the strength of this.
  \<^item> TextUtils, EpgTime, Url, TextOutput (\<^verbatim>\<open>utils.c\<close>): tokens, serial numbers, dates of the guide,
    URLs, and what prints, with a hexadecimal dump that keeps to its array of 512 characters.
    The tokenizer equals a reference definition; dates and URLs are proved by round trips.
  \<^item> Dictionary (\<^verbatim>\<open>dictionary.c\<close>) and Iniparser (\<^verbatim>\<open>iniparser.c\<close>): the configuration. The
    arrays of the dictionary refine a map, also when allocations fail; a printed file is read back
    as the map it stands for, and reading ends on every file.
  \<^item> Channels (\<^verbatim>\<open>channels.c\<close>), Frequencies, PidFilter and Tuner (\<^verbatim>\<open>dvbhardware.c\<close>): the tables
    of a tuner, its tuning files, its filters, tuning, and one pass of its thread. Each keeps the
    tables well formed; the three lookups of a channel agree; the filter table is a bounded set. A fourth
    lookup, \<^verbatim>\<open>getChannelByNumber_addRef\<close>, which nothing calls, has two braces misplaced and is
    modelled as it is: it looks at the first channel of the first frequency and else gives mutexes back twice.
  \<^item> Psi (the callbacks of \<^verbatim>\<open>dvbhardware.c\<close>) and Database (\<^verbatim>\<open>database.c\<close>): what the tables found in
    the stream do to the tuner and to the guide.
  \<^item> Destination (\<^verbatim>\<open>destination.c\<close>) and Session (\<^verbatim>\<open>session.c\<close>): the buffers as queues,
    delivery in order, requests, ends, packets, and the passes of the two threads. \<open>server_ok\<close> is
    the invariant: each tuner counts its sessions and is busy exactly when it has one, sessions
    refer to what exists, and no channel has two.
  \<^item> Steps and System: the whole server as a machine whose events are the operations of all threads,
    in any order. The events that are allowed do not fault and keep its invariant, and a tuner in use is
    not retuned. Not allowed, among others, is a pass of the thread of a session that has ended, which
    faults; nothing in the code prevents it.
  \<^item> Telnet (\<^verbatim>\<open>telnetservermanager.c\<close>), SocketServer (\<^verbatim>\<open>socketserver.c\<close>), Commands (the handlers in
    \<^verbatim>\<open>session.c\<close>, \<^verbatim>\<open>destination.c\<close> and \<^verbatim>\<open>dvbhardware.c\<close>): the console. Its line editor refines a
    login machine, nobody who did not type the name and the password of an account runs a command. Some
    commands fault on some input; every run without a fault leaves the server sound, and lines that
    are safe, which is defined, do not fault.
  \<^item> Web (\<^verbatim>\<open>webserv.c\<close>): the handler of a request, and what it serves.
  \<^item> Program: the whole of it as one machine, threads, console and web clients in any order. It keeps its
    invariant; only passes of the console's loop may fault.
  \<^item> Startup (\<^verbatim>\<open>main.c\<close>, \<^verbatim>\<open>configuration.c\<close>): the order of the start, which leaves a state
    from which the whole program stays sound.
  \<^item> Locks: which mutexes each thread takes, in which order, and which shared data it touches in between, as
    skeletons of the functions. The mutexes follow one order, so the threads never deadlock, and data
    that every use takes the same mutex for are never raced for. The users and the filters of a tuner
    have none that all threads take, and the buffers of sessions and streams are freed without the
    one they are copied under; that these are raced for is proved too.
  \<^item> Blocks and Ownership: the memory the program allocates, with a small separation logic whose
    assertions are a commutative monoid, and \<open>parse_url\<close>, \<open>parsed_url_free\<close>, \<open>destination_create\<close> and
    \<open>destination_destroy\<close> once more on blocks, with every \<^verbatim>\<open>malloc\<close> that may fail and every \<^verbatim>\<open>free\<close>.
    They compute what the definitions on values compute, and what they allocate they give back.
  \<^item> Lifetimes: the operations on sessions on blocks: who owns what after a request, after a stop and
    after a pass of each thread, and what is leaked.
  \<^item> HeapSystem: the whole server with its memory, the pointers its threads hold and the web connections
    that read from destinations. Its memory stays well typed and no event that may happen follows a bad
    pointer; the events that are excluded do, which is proved too.
  \<^item> NodeLoops: the loops over destinations and sessions with the iterator and the removal of nodes as the
    code writes them. They end and compute what the recursions of Lifetimes do.
  \<^item> Streaming: a session's buffer between the hardware thread and the destination threads, interleaved
    inside \<^verbatim>\<open>session_write\<close> and \<^verbatim>\<open>destination_thread_run\<close>, with destinations that come and go. Nothing
    overruns; what goes out of each destination is what it was handed, in order and once; one
    thread hands over in the order of the packets, two threads do not, which is proved too.
  \<^item> Requests: \<^verbatim>\<open>session_addNew\<close> in the stretches between which it gives the session list back, any
    number of requests at once, with the events of the server in between. The tuners' counts stay
    right, and a step faults exactly when its request joins a session that has ended since it was found.
    Two requests for one channel may make two sessions, which is proved too.

  \<^bold>\<open>Interfaces.\<close> Where one part relies on another the contract is a locale, interpreted on the
  model: \<open>cursor_list\<close> (iterators), \<open>string_map\<close> (the dictionary), \<open>pid_table\<close> (the filters),
  \<open>byte_queue\<close> (the buffers of destinations and of sessions), \<open>invariant_machine\<close> (a machine with
  an invariant, for the whole program and for requests in steps) and, extending it, \<open>guarded_machine\<close> (one that
  does not fault either, for the server, for a tuner in use, for the mutexes, for
  the server with its memory and for the buffer of a session),
  \<open>command_handlers\<close> (what the console asks of a command) and \<open>connection_server\<close> (what the select loop asks of its callbacks).

  \<^bold>\<open>Loops and bounds.\<close> Loops are structural recursions or functions with a measure, except for
  five that may not end on bad input and are partial functions: three walks of the linked list, the
  search for a free slot of the dictionary, and the loop over the lines of a configuration. On
  well-formed lists and dictionaries they return, and loading a configuration returns for every
  file. There is no fuel. The endless loops of the threads are modelled by their passes, and runs of
  passes by an inductive relation. The bounds in the properties are those of the code: arrays of
  256 and 512 characters it prints into, 32 PIDs to a session, 255 characters of a URL.

  \<^bold>\<open>Hypotheses.\<close> A property that depends on the world outside says on what: sockets and files take
  at most what they are given (\<open>net_ok\<close>), the SQL engine finds a row it has stored (\<open>engine_ok\<close>),
  events happen to devices that exist, and destination threads run while their sessions live (\<open>allowed\<close>). In the
  whole program no frequency of a tuning file is zero (\<open>no_zero\<close>), web requests have bounded URLs and memory,
  and the URLs of new console destinations have what their transports need (\<open>main_allowed\<close>); the console may
  be sent input that faults, and the run ends there. The allocator
  gives fresh blocks (\<open>malloc_ok\<close>) and, for sessions, does not run out (\<open>roomy\<close>). Whether it fails depends on
  the size asked for only: of two requests of one size it cannot refuse the second alone. The server with its
  memory excludes a stop of a session while a web client reads from it and a pass of a thread whose
  session is gone (\<open>heap_allowed\<close>): in both the code uses memory it has freed.

  \<^bold>\<open>Not modelled.\<close> On data, threads interleave between operations, not inside them: the
  code holds the lists' mutexes around most of its traversals, but not everywhere. What follows from an
  operation that runs while a pointer it needs is gone is part of HeapSystem, a race between two loops
  over the same list is not. Only Locks, Streaming and Requests interleave inside operations: the first
  models mutexes and accesses without their values, the second one buffer, the third requests whose choice of a
  tuner is one step, though Locks shows that the count of users in it is raced for. Blocks cover URLs, destinations, sessions, their buffers and lists; the nodes of a list are
  the heap of LinkedList, which NodeLoops brings together with them, and the decoders of libdvbpsi, the tuners' tables and the console's users are not
  among the blocks. The hardware thread of a tuner
  starts before the tuner is first tuned; here all start after all tuners are configured. The console's commands
  are registered before and after the telnet server starts; here the table is complete when it starts. Transponders found in network
  tables have no error correction and cannot be tuned to, so these tables are not among the events of
  the whole server, though Psi models them. Of the code itself only \<^verbatim>\<open>imageConvert.c\<close>,
  \<^verbatim>\<open>addTerrestrialFrequency\<close> and the test program in \<^verbatim>\<open>dictionary.c\<close>, which are compiled out, and
  \<^verbatim>\<open>get_in_addr\<close>, which reads a socket address, are left out. The
  directory \<^verbatim>\<open>Packages\<close> and the headers of sqlite, plibc and libmicrohttpd are third-party code.
\<close>

end
